(* ===== verification/Prelude.thy ===== *)
theory Prelude
  imports Main "HOL-Library.Word" "HOL-Library.Monad_Syntax"
begin

text \<open>
  Shared vocabulary of the development: the machine integers of the C code, the
  C memory operations on byte buffers (every access checked, an access outside its buffer
  is the value \<open>None\<close>), little-endian views of buffers, rotations, and the
  arithmetic of splitting a message into blocks of a fixed size.
\<close>

unbundle bit_operations_syntax

section \<open>Machine integers and buffers\<close>

type_synonym u8 = "8 word"
type_synonym u32 = "32 word"
type_synonym u64 = "64 word"
type_synonym m128 = "128 word"
type_synonym bytes = "8 word list"

named_theorems mem_simps \<open>evaluation of checked memory operations\<close>
named_theorems word_views \<open>bits of words, of bytes and of their conversions\<close>
named_theorems block_simps \<open>splitting of messages into blocks\<close>

section \<open>Checked memory operations\<close>

text \<open>
  \<open>load src off n\<close> is the \<open>n\<close> bytes a C access reads at \<open>src + off\<close>, and
  \<open>store dst off bs\<close> the buffer after \<open>bs\<close> is written at \<open>dst + off\<close>;
  an access that leaves the buffer is undefined behaviour in C and \<open>None\<close> here.
\<close>

definition load :: "'a list \<Rightarrow> nat \<Rightarrow> nat \<Rightarrow> 'a list option" where
  "load src off n = (if off + n \<le> length src then Some (take n (drop off src)) else None)"

definition store :: "'a list \<Rightarrow> nat \<Rightarrow> 'a list \<Rightarrow> 'a list option" where
  "store dst off bs =
     (if off + length bs \<le> length dst
      then Some (take off dst @ bs @ drop (off + length bs) dst) else None)"

definition memcpy :: "'a list \<Rightarrow> nat \<Rightarrow> 'a list \<Rightarrow> nat \<Rightarrow> nat \<Rightarrow> 'a list option" where
  "memcpy dst doff src soff n = do { bs \<leftarrow> load src soff n; store dst doff bs }"

definition memset :: "'a list \<Rightarrow> nat \<Rightarrow> 'a \<Rightarrow> nat \<Rightarrow> 'a list option" where
  "memset dst off v n = store dst off (replicate n v)"

definition get_at :: "'a list \<Rightarrow> nat \<Rightarrow> 'a option" where
  "get_at xs i = (if i < length xs then Some (xs ! i) else None)"

definition put_at :: "'a list \<Rightarrow> nat \<Rightarrow> 'a \<Rightarrow> 'a list option" where
  "put_at xs i v = (if i < length xs then Some (xs[i := v]) else None)"

lemma load_Some [mem_simps]:
  "off + n \<le> length src \<Longrightarrow> load src off n = Some (take n (drop off src))"
  by (simp add: load_def)

lemma load_None [mem_simps]: "length src < off + n \<Longrightarrow> load src off n = None"
  by (simp add: load_def)

lemma store_Some [mem_simps]:
  "off + length bs \<le> length dst \<Longrightarrow>
   store dst off bs = Some (take off dst @ bs @ drop (off + length bs) dst)"
  by (simp add: store_def)

lemma store_None [mem_simps]: "length dst < off + length bs \<Longrightarrow> store dst off bs = None"
  by (simp add: store_def)

lemma store_length: "store dst off bs = Some d \<Longrightarrow> length d = length dst"
  by (auto simp: store_def split: if_splits)

lemma memcpy_Some [mem_simps]:
  "soff + n \<le> length src \<Longrightarrow> doff + n \<le> length dst \<Longrightarrow>
   memcpy dst doff src soff n
     = Some (take doff dst @ take n (drop soff src) @ drop (doff + n) dst)"
  by (simp add: memcpy_def load_def store_def)

lemma memcpy_None_src [mem_simps]:
  "length src < soff + n \<Longrightarrow> memcpy dst doff src soff n = None"
  by (simp add: memcpy_def load_def)

lemma memcpy_None_dst [mem_simps]:
  "length dst < doff + n \<Longrightarrow> memcpy dst doff src soff n = None"
  by (auto simp: memcpy_def load_def store_def)

lemma memcpy_length: "memcpy dst doff src soff n = Some d \<Longrightarrow> length d = length dst"
  by (auto simp: memcpy_def load_def store_def split: if_splits)

lemma memset_Some [mem_simps]:
  "off + n \<le> length dst \<Longrightarrow>
   memset dst off v n = Some (take off dst @ replicate n v @ drop (off + n) dst)"
  by (simp add: memset_def store_def)

lemma get_at_Some [mem_simps]: "i < length xs \<Longrightarrow> get_at xs i = Some (xs ! i)"
  by (simp add: get_at_def)

lemma put_at_Some [mem_simps]: "i < length xs \<Longrightarrow> put_at xs i v = Some (xs[i := v])"
  by (simp add: put_at_def)

section \<open>Rotations\<close>

text \<open>The macro \<open>(x << n) | (x >> (w - n))\<close> of the hash sources, for any width \<open>w\<close>.\<close>

definition rotl :: "'a::len word \<Rightarrow> nat \<Rightarrow> 'a word" where
  "rotl x n = push_bit n x OR drop_bit (LENGTH('a) - n) x"

text \<open>The macro \<open>(x << (w - n)) | (x >> n)\<close>.\<close>

definition rotr :: "'a::len word \<Rightarrow> nat \<Rightarrow> 'a word" where
  "rotr x n = push_bit (LENGTH('a) - n) x OR drop_bit n x"

lemma bit_rotl_iff [word_views]:
  fixes x :: "'a::len word"
  assumes "n \<le> LENGTH('a)"
  shows "bit (rotl x n) k \<longleftrightarrow>
    k < LENGTH('a) \<and> (if n \<le> k then bit x (k - n) else bit x (k + (LENGTH('a) - n)))"
proof -
  have "k < n \<Longrightarrow> k + (LENGTH('a) - n) < LENGTH('a)" using assms by simp
  moreover have "\<not> k < n \<Longrightarrow> \<not> k + (LENGTH('a) - n) < LENGTH('a)" using assms by simp
  ultimately show ?thesis
    using assms
    by (auto simp: rotl_def bit_or_iff bit_push_bit_iff bit_drop_bit_eq add.commute
        dest: bit_imp_le_length)
qed

lemma bit_rotr_iff [word_views]:
  fixes x :: "'a::len word"
  assumes "n \<le> LENGTH('a)"
  shows "bit (rotr x n) k \<longleftrightarrow>
    k < LENGTH('a) \<and> (if k + n < LENGTH('a) then bit x (k + n) else bit x (k + n - LENGTH('a)))"
proof -
  have "\<not> k + n < LENGTH('a) \<Longrightarrow> k - (LENGTH('a) - n) = k + n - LENGTH('a)" using assms by simp
  then show ?thesis
    using assms
    by (auto simp: rotr_def bit_or_iff bit_push_bit_iff bit_drop_bit_eq add.commute not_less
        dest: bit_imp_le_length)
qed

lemma rotr_rotl: "n < LENGTH('a) \<Longrightarrow> rotr (rotl x n) n = (x :: 'a::len word)"
  by (rule bit_word_eqI) (simp add: bit_rotl_iff bit_rotr_iff not_less, arith?)

lemma rotl_rotr: "n < LENGTH('a) \<Longrightarrow> rotl (rotr x n) n = (x :: 'a::len word)"
  by (rule bit_word_eqI) (simp add: bit_rotl_iff bit_rotr_iff not_less, arith?)

lemma rotl_xor: "rotl (x XOR y) n = rotl x n XOR rotl (y :: 'a::len word) n" if "n \<le> LENGTH('a)"
  using that by (intro bit_word_eqI) (auto simp: bit_rotl_iff bit_xor_iff)

section \<open>Little-endian views\<close>

text \<open>
  \<open>le_word\<close> is what a load through a cast pointer (or \<open>memcpy\<close>) of a little-endian
  machine reads; \<open>le_bytes n\<close> the \<open>n\<close> bytes such a store writes.
\<close>

fun le_word :: "bytes \<Rightarrow> 'a::len word" where
  "le_word [] = 0"
| "le_word (b # bs) = ucast b OR push_bit 8 (le_word bs)"

definition le_bytes :: "nat \<Rightarrow> 'a::len word \<Rightarrow> bytes" where
  "le_bytes n w = map (\<lambda>i. ucast (drop_bit (8 * i) w)) [0..<n]"

lemma length_le_bytes [simp]: "length (le_bytes n w) = n"
  by (simp add: le_bytes_def)

lemma bit_le_word_iff [word_views]:
  "bit (le_word bs :: 'a::len word) k \<longleftrightarrow>
     k < LENGTH('a) \<and> k div 8 < length bs \<and> bit (bs ! (k div 8)) (k mod 8)"
proof (induction bs arbitrary: k)
  case Nil
  then show ?case by simp
next
  case (Cons b bs)
  show ?case
  proof (cases "k < 8")
    case True
    then show ?thesis by (auto simp: bit_or_iff bit_push_bit_iff bit_ucast_iff)
  next
    case False
    then obtain j where j: "k = j + 8" by (metis add.commute le_Suc_ex not_less)
    have "\<not> bit b (j + 8)"
      using bit_imp_le_length [of b "j + 8"] by auto
    moreover have "(j + 8) div 8 = Suc (j div 8)" by simp
    ultimately show ?thesis
      by (auto simp: j bit_or_iff bit_push_bit_iff bit_ucast_iff Cons.IH dest: bit_imp_le_length)
  qed
qed

lemma bit_le_bytes_iff [word_views]:
  "i < n \<Longrightarrow> bit (le_bytes n w ! i) k \<longleftrightarrow> k < 8 \<and> bit w (8 * i + k)"
  by (auto simp: le_bytes_def bit_ucast_iff bit_drop_bit_eq dest: bit_imp_le_length)

lemma le_word_le_bytes:
  fixes w :: "'a::len word"
  assumes "LENGTH('a) \<le> 8 * n"
  shows "le_word (le_bytes n w) = w"
proof (rule bit_word_eqI)
  fix k assume k: "k < LENGTH('a)"
  then have "k div 8 < n" using assms by (simp add: div_less_iff_less_mult)
  then show "bit (le_word (le_bytes n w) :: 'a word) k = bit w k"
    using k by (simp add: bit_le_word_iff bit_le_bytes_iff)
qed

lemma le_bytes_le_word:
  assumes "8 * length bs \<le> LENGTH('a)" and "n = length bs"
  shows "le_bytes n (le_word bs :: 'a::len word) = bs"
proof (rule nth_equalityI)
  show "length (le_bytes n (le_word bs :: 'a word)) = length bs" using assms by simp
next
  fix i assume "i < length (le_bytes n (le_word bs :: 'a word))"
  then have i: "i < length bs" using assms by simp
  show "le_bytes n (le_word bs :: 'a word) ! i = bs ! i"
  proof (rule bit_word_eqI)
    fix k assume "k < LENGTH(8)"
    then have "k < 8" by simp
    then have "(8 * i + k) div 8 = i" "(8 * i + k) mod 8 = k" "8 * i + k < LENGTH('a)"
      using i assms by auto
    then show "bit (le_bytes n (le_word bs :: 'a word) ! i) k = bit (bs ! i) k"
      using i assms \<open>k < 8\<close> by (simp add: bit_le_bytes_iff bit_le_word_iff)
  qed
qed

text \<open>A byte buffer read through a pointer to \<open>n\<close>-byte words, and the bytes of a word array.\<close>

definition words_of :: "nat \<Rightarrow> bytes \<Rightarrow> 'a::len word list" where
  "words_of n bs = map (\<lambda>i. le_word (take n (drop (n * i) bs))) [0..<length bs div n]"

definition bytes_of :: "nat \<Rightarrow> 'a::len word list \<Rightarrow> bytes" where
  "bytes_of n ws = concat (map (le_bytes n) ws)"

lemma length_words_of [simp]: "length (words_of n bs) = length bs div n"
  by (simp add: words_of_def)

lemma length_bytes_of [simp]: "length (bytes_of n ws) = n * length ws"
  by (induction ws) (simp_all add: bytes_of_def)

lemma words_of_append:
  assumes "length b = n" and "0 < n"
  shows "words_of n (b @ bs) = le_word b # words_of n bs"
proof -
  have "(n + length bs) div n = Suc (length bs div n)" using assms(2) by (simp add: div_add_self1)
  then show ?thesis
    using assms by (simp add: words_of_def upt_conv_Cons map_Suc_upt [symmetric] o_def del: upt_Suc)
qed

lemma words_of_bytes_of:
  fixes ws :: "'a::len word list"
  assumes "LENGTH('a) \<le> 8 * n"
  shows "words_of n (bytes_of n ws) = ws"
proof (induction ws)
  case Nil
  then show ?case by (simp add: words_of_def bytes_of_def)
next
  case (Cons w ws)
  have "0 < n" using assms by (cases n) auto
  then have "words_of n (le_bytes n w @ bytes_of n ws) = w # words_of n (bytes_of n ws)"
    using assms by (simp add: words_of_append le_word_le_bytes)
  then show ?case using Cons by (simp add: bytes_of_def)
qed

section \<open>Messages as blocks\<close>

text \<open>
  \<open>full_blocks n m\<close> are the blocks of exactly \<open>n\<close> bytes at the front of \<open>m\<close>, in order,
  and \<open>partial_block n m\<close> the bytes after them, fewer than \<open>n\<close>.
\<close>

function full_blocks :: "nat \<Rightarrow> 'a list \<Rightarrow> 'a list list" where
  "full_blocks n m =
     (if n = 0 \<or> length m < n then [] else take n m # full_blocks n (drop n m))"
  by pat_completeness auto
termination
  by (relation "measure (\<lambda>(n, m). length m)") auto

declare full_blocks.simps [simp del]

definition partial_block :: "nat \<Rightarrow> 'a list \<Rightarrow> 'a list" where
  "partial_block n m = drop (length m - length m mod n) m"

lemma full_blocks_short [block_simps]: "length m < n \<Longrightarrow> full_blocks n m = []"
  by (simp add: full_blocks.simps)

lemma full_blocks_step [block_simps]:
  "0 < n \<Longrightarrow> length b = n \<Longrightarrow> full_blocks n (b @ m) = b # full_blocks n m"
  by (subst full_blocks.simps) simp

lemma full_blocks_append:
  "0 < n \<Longrightarrow> n dvd length a \<Longrightarrow> full_blocks n (a @ b) = full_blocks n a @ full_blocks n b"
proof (induction n a rule: full_blocks.induct)
  case (1 n a)
  show ?case
  proof (cases "length a < n")
    case True
    then have "a = []" using 1 by (auto dest: nat_dvd_not_less)
    then show ?thesis using 1 by (simp add: full_blocks_short)
  next
    case False
    then have *: "full_blocks n (drop n a @ b) = full_blocks n (drop n a) @ full_blocks n b"
      using 1 by (auto intro: dvd_diff_nat)
    have "full_blocks n (take n a @ (drop n a @ b)) = take n a # full_blocks n (drop n a @ b)"
      by (rule full_blocks_step) (use False 1 in auto)
    moreover have "full_blocks n a = take n a # full_blocks n (drop n a)"
      using False 1 by (subst full_blocks.simps) simp
    moreover have "take n a @ (drop n a @ b) = a @ b" by (simp flip: append_assoc)
    ultimately show ?thesis using * by simp
  qed
qed

lemma length_partial_block: "length (partial_block n m) = length m mod n"
  by (simp add: partial_block_def)

lemma partial_block_less: "0 < n \<Longrightarrow> length (partial_block n m) < n"
  by (simp add: length_partial_block)

lemma full_blocks_take:
  assumes "0 < n"
  shows "full_blocks n m = full_blocks n (take (length m - length m mod n) m)"
proof -
  let ?k = "length m - length m mod n"
  have "full_blocks n (take ?k m @ drop ?k m) = full_blocks n (take ?k m) @ full_blocks n (drop ?k m)"
    by (rule full_blocks_append) (use assms in \<open>auto simp: minus_mod_eq_mult_div\<close>)
  moreover have "full_blocks n (drop ?k m) = []" using assms by (simp add: full_blocks_short)
  ultimately show ?thesis by simp
qed

lemma concat_full_blocks: "concat (full_blocks n m) @ partial_block n m = m"
proof (induction n m rule: full_blocks.induct)
  case (1 n m)
  show ?case
  proof (cases "n = 0 \<or> length m < n")
    case True
    then show ?thesis by (auto simp: full_blocks.simps partial_block_def)
  next
    case False
    then have mod: "length m mod n = (length m - n) mod n" by (simp add: le_mod_geq)
    have "(length m - n) mod n \<le> length m - n" by simp
    then have "length m - (n + (length m - n) mod n) + n = length m - (length m - n) mod n"
      using False by linarith
    then have "partial_block n m = partial_block n (drop n m)"
      using False mod by (simp add: partial_block_def)
    then show ?thesis using False 1
      by (subst full_blocks.simps) (simp add: append_eq_conv_conj)
  qed
qed

lemma full_blocks_concat:
  "full_blocks n (concat (full_blocks n m)) = full_blocks n m"
proof (induction n m rule: full_blocks.induct)
  case (1 n m)
  show ?case
  proof (cases "n = 0 \<or> length m < n")
    case True
    then show ?thesis by (auto simp: full_blocks.simps)
  next
    case False
    then show ?thesis using 1
      by (subst (2 3) full_blocks.simps) (simp add: full_blocks_step)
  qed
qed

lemma full_blocks_all_length: "b \<in> set (full_blocks n m) \<Longrightarrow> length b = n"
proof (induction n m rule: full_blocks.induct)
  case (1 n m)
  then show ?case by (subst (asm) full_blocks.simps) (auto split: if_splits)
qed

lemma length_full_blocks: "length (full_blocks n m) = (if n = 0 then 0 else length m div n)"
proof (induction n m rule: full_blocks.induct)
  case (1 n m)
  show ?case
  proof (cases "n = 0 \<or> length m < n")
    case True
    then show ?thesis by (auto simp: full_blocks.simps)
  next
    case False
    then show ?thesis using 1 by (subst full_blocks.simps) (simp add: le_div_geq)
  qed
qed

lemma full_blocks_front:
  "0 < n \<Longrightarrow> full_blocks n (m @ p) = full_blocks n m @ full_blocks n (partial_block n m @ p)"
proof -
  assume n: "0 < n"
  have "length (concat (full_blocks n m)) = length m - length m mod n"
    using arg_cong [OF concat_full_blocks [of n m], of length] length_partial_block [of n m]
    by simp
  then have "n dvd length (concat (full_blocks n m))" by (simp add: minus_mod_eq_mult_div)
  then have "full_blocks n (concat (full_blocks n m) @ (partial_block n m @ p))
      = full_blocks n m @ full_blocks n (partial_block n m @ p)"
    using n by (simp add: full_blocks_append full_blocks_concat)
  then show ?thesis using concat_full_blocks [of n m] by (metis append_assoc)
qed

lemma full_blocks_single: "0 < n \<Longrightarrow> length b = n \<Longrightarrow> full_blocks n b = [b]"
  using full_blocks_step [of n b "[]"] by (simp add: full_blocks_short)

lemma partial_block_append:
  "0 < n \<Longrightarrow> n dvd length a \<Longrightarrow> partial_block n (a @ b) = partial_block n b"
proof -
  assume "0 < n" "n dvd length a"
  then have "(length a + length b) mod n = length b mod n" by (auto elim!: dvdE)
  moreover have "length a + length b - length b mod n = length a + (length b - length b mod n)"
    by (rule diff_add_assoc) simp
  ultimately have "partial_block n (a @ b) = drop (length a + (length b - length b mod n)) (a @ b)"
    by (simp only: partial_block_def length_append)
  moreover have "drop (length a + k) (a @ b) = drop k b" for k by simp
  ultimately show ?thesis by (simp only: partial_block_def)
qed

lemma partial_block_drop:
  assumes "0 < n" and "n \<le> length m"
  shows "partial_block n (drop n m) = partial_block n m"
  using partial_block_append [of n "take n m" "drop n m"] assms by simp

section \<open>Loops over array indices\<close>

text \<open>A \<open>for\<close> loop that updates each of the first \<open>n\<close> elements from its own value.\<close>

lemma fold_update_upt:
  "n \<le> length xs \<Longrightarrow>
   fold (\<lambda>i ys. ys[i := f i (ys ! i)]) [0..<n] xs
     = map (\<lambda>i. if i < n then f i (xs ! i) else xs ! i) [0..<length xs]"
proof (induction n)
  case 0
  then show ?case by (simp add: map_nth)
next
  case (Suc n)
  let ?g = "\<lambda>n. map (\<lambda>i. if i < n then f i (xs ! i) else xs ! i) [0..<length xs]"
  have "fold (\<lambda>i ys. ys[i := f i (ys ! i)]) [0..<Suc n] xs = (?g n)[n := f n (?g n ! n)]"
    using Suc by simp
  also have "\<dots> = ?g (Suc n)"
    using Suc.prems by (intro nth_equalityI) (simp_all add: nth_list_update less_Suc_eq)
  finally show ?case .
qed

lemma dvd_length_full_blocks: "n dvd length (concat (full_blocks n m))"
proof -
  have "length (concat (full_blocks n m)) = length m - length m mod n"
    using arg_cong [OF concat_full_blocks [of n m], of length] length_partial_block [of n m]
    by simp
  then show ?thesis by (simp add: minus_mod_eq_mult_div)
qed

lemma partial_block_id: "length m < n \<Longrightarrow> partial_block n m = m"
  by (simp add: partial_block_def)

lemma words_of_blocks:
  assumes "0 < n"
  shows "(words_of n bs :: 'a::len word list) = map le_word (full_blocks n bs)"
proof (induction n bs rule: full_blocks.induct)
  case (1 n bs)
  show ?case
  proof (cases "n = 0 \<or> length bs < n")
    case True
    then show ?thesis by (auto simp: full_blocks.simps words_of_def)
  next
    case False
    then have "(words_of n (take n bs @ drop n bs) :: 'a word list) = le_word (take n bs) # words_of n (drop n bs)"
      by (intro words_of_append) auto
    then show ?thesis using 1 False by (subst full_blocks.simps) simp
  qed
qed

lemma bytes_of_words_of:
  assumes "0 < n" "n dvd length bs" "8 * n \<le> LENGTH('a::len)"
  shows "bytes_of n (words_of n bs :: 'a word list) = bs"
proof -
  have "partial_block n bs = []" using assms by (simp add: partial_block_def dvd_eq_mod_eq_0)
  then have c: "concat (full_blocks n bs) = bs" using concat_full_blocks [of n bs] by simp
  have "map (le_bytes n \<circ> (le_word :: bytes \<Rightarrow> 'a word)) (full_blocks n bs) = map id (full_blocks n bs)"
    using assms(3) full_blocks_all_length [of _ n bs]
    by (intro map_cong refl) (auto simp: le_bytes_le_word)
  then show ?thesis by (simp add: bytes_of_def words_of_blocks [OF assms(1)] c)
qed

section \<open>Big-endian numbers\<close>

text \<open>The \<open>k\<close> bytes of a number, the most significant first, as length fields are written.\<close>

definition be_bytes :: "nat \<Rightarrow> nat \<Rightarrow> bytes" where
  "be_bytes k n = map (\<lambda>i. of_nat (n div 256 ^ (k - 1 - i))) [0..<k]"

lemma length_be_bytes [simp]: "length (be_bytes k n) = k"
  by (simp add: be_bytes_def)

lemma be_bytes_append: "be_bytes (j + k) n = be_bytes j (n div 256 ^ k) @ be_bytes k n"
proof -
  have "be_bytes (j + k) n ! i = (be_bytes j (n div 256 ^ k) @ be_bytes k n) ! i" if "i < j + k" for i
  proof (cases "i < j")
    case True
    then have e: "j + k - 1 - i = k + (j - 1 - i)" by simp
    have "be_bytes (j + k) n ! i = of_nat (n div 256 ^ k div 256 ^ (j - 1 - i))"
      using that unfolding be_bytes_def e [symmetric] div_mult2_eq [symmetric] power_add [symmetric] by simp
    then show ?thesis using True by (simp add: be_bytes_def nth_append)
  next
    case False
    then have "j + k - 1 - i = k - 1 - (i - j)" "i - j < k" using that by simp_all
    then show ?thesis using False that by (simp add: be_bytes_def nth_append add.commute)
  qed
  then show ?thesis by (intro nth_equalityI) simp_all
qed

lemma bit_word_of_nat: "bit (of_nat n :: 'a::len word) k \<longleftrightarrow> k < LENGTH('a) \<and> bit n k"
proof -
  have "(of_nat n :: 'a word) = word_of_int (int n)" by simp
  then show ?thesis by (simp only: bit_word_of_int_iff bit_of_nat_iff_bit)
qed

lemma be_bytes_nth:
  assumes "i < k" "8 * k \<le> LENGTH('a::len)"
  shows "be_bytes k n ! i = ucast (drop_bit (8 * (k - 1 - i)) (of_nat n :: 'a word))"
proof (rule bit_word_eqI)
  fix j assume "j < LENGTH(8)"
  then have j: "j < 8" by simp
  have "n div 256 ^ (k - 1 - i) = drop_bit (8 * (k - 1 - i)) n"
    by (simp add: drop_bit_eq_div power_mult)
  moreover have "8 * (k - 1 - i) + j < LENGTH('a)" using assms j by linarith
  ultimately show "bit (be_bytes k n ! i) j = bit (ucast (drop_bit (8 * (k - 1 - i)) (of_nat n :: 'a word)) :: u8) j"
    using assms j by (simp add: be_bytes_def bit_word_of_nat bit_ucast_iff bit_drop_bit_eq)
qed

section \<open>Lists of a fixed length\<close>

lemma upt_16: "[0..<16] = [0,1,2,3,4,5,6,7,8,9,10,11,12,13,14,15::nat]"
  by (simp add: upt_rec)

lemma list_of_16:
  assumes "length A = 16"
  obtains a0 a1 a2 a3 a4 a5 a6 a7 a8 a9 a10 a11 a12 a13 a14 a15
  where "A = [a0,a1,a2,a3,a4,a5,a6,a7,a8,a9,a10,a11,a12,a13,a14,a15]"
proof -
  have "A = map (nth A) [0..<16]" using assms by (simp add: map_nth flip: assms)
  then show ?thesis using that unfolding upt_16 by (simp only: list.map)
qed

lemma upt_8: "[0..<8] = [0,1,2,3,4,5,6,7::nat]"
  by (simp add: upt_rec)

lemma list_of_8:
  assumes "length A = 8"
  obtains a0 a1 a2 a3 a4 a5 a6 a7 where "A = [a0,a1,a2,a3,a4,a5,a6,a7]"
proof -
  have "A = map (nth A) [0..<8]" using assms by (simp add: map_nth flip: assms)
  then show ?thesis using that unfolding upt_8 by (simp only: list.map)
qed

lemma list_of_4:
  assumes "length A = 4"
  obtains a0 a1 a2 a3 where "A = [a0,a1,a2,a3]"
proof -
  have "A = map (nth A) [0..<4]" using assms by (simp add: map_nth flip: assms)
  moreover have "[0..<4] = [0,1,2,3::nat]" by (simp add: upt_rec)
  ultimately show ?thesis using that by (simp only: list.map)
qed

lemma those_map_Some: "(\<And>x. x \<in> set xs \<Longrightarrow> f x = Some (g x)) \<Longrightarrow> those (map f xs) = Some (map g xs)"
  by (induction xs) simp_all

end
