(* ===== verification/Hash_Interface.thy ===== *)
theory Hash_Interface
  imports Prelude
begin

text \<open>
  What the hash sources of \<open>src/src/crypto\<close> promise their callers. Each of them keeps a
  state between an initialisation, calls that take in data, and a call that returns the digest;
  \<open>stream_hash\<close> states that interface over byte messages. The lengths given to
  \<open>upd\<close> are in bits, as in the C functions, and only data that starts at a block boundary
  is promised anything: the sources differ in what they do with partly filled buffers, and in the
  lengths (in bytes) one call \<open>admits\<close>.
\<close>

locale stream_hash =
  fixes init :: "'st \<Rightarrow> 'st"
    and upd :: "'st \<Rightarrow> bytes \<Rightarrow> nat \<Rightarrow> 'st option"
    and fin :: "'st \<Rightarrow> ('st \<times> bytes) option"
    and ready :: "'st \<Rightarrow> bool"
    and stands :: "'st \<Rightarrow> bytes \<Rightarrow> bool"
    and block :: nat
    and admits :: "nat \<Rightarrow> bool"
    and digest :: "bytes \<Rightarrow> bytes"
  assumes init_stands: "ready S \<Longrightarrow> stands (init S) []"
    and upd_aligned: "stands S m \<Longrightarrow> block dvd length m \<Longrightarrow> n \<le> length d \<Longrightarrow> admits n \<Longrightarrow>
      \<exists>S'. upd S d (8 * n) = Some S' \<and> stands S' (m @ take n d)"
    and fin_digest: "stands S m \<Longrightarrow> \<exists>S'. fin S = Some (S', digest m)"
begin

text \<open>One call with the whole message, as the one-shot hash functions make it.\<close>

lemma one_shot:
  assumes "ready S" "n \<le> length d" "admits n"
  obtains S1 S2 where "upd (init S) d (8 * n) = Some S1" "fin S1 = Some (S2, digest (take n d))"
proof -
  obtain S1 where "upd (init S) d (8 * n) = Some S1" "stands S1 ([] @ take n d)"
    using upd_aligned [OF init_stands [OF assms(1)]] assms(2,3) by fastforce
  then show thesis using fin_digest [of S1 "take n d"] that by auto
qed

text \<open>A prefix of whole blocks, as the keyed hashes give it, and the rest in one call.\<close>

lemma prefixed:
  assumes "ready S" "block dvd length p" "admits (length p)"
  obtains S1 where "upd (init S) p (8 * length p) = Some S1" "stands S1 p"
    and "\<And>d n. n \<le> length d \<Longrightarrow> admits n \<Longrightarrow> \<exists>S2 S3. upd S1 d (8 * n) = Some S2 \<and> stands S2 (p @ take n d) \<and>
      fin S2 = Some (S3, digest (p @ take n d))"
proof -
  obtain S1 where S1: "upd (init S) p (8 * length p) = Some S1" "stands S1 p"
    using upd_aligned [OF init_stands [OF assms(1)], of "length p" p] assms(3) by auto
  moreover have "\<exists>S2 S3. upd S1 d (8 * n) = Some S2 \<and> stands S2 (p @ take n d) \<and>
      fin S2 = Some (S3, digest (p @ take n d))" if "n \<le> length d" "admits n" for d n
    using upd_aligned [OF S1(2) assms(2) that] fin_digest by blast
  ultimately show thesis by (rule that)
qed

end

end
