(* ===== verification/Keccak.thy ===== *)
theory Keccak
  imports Prelude
begin

text \<open>
  \<open>src/src/crypto/c_keccak.c\<close>: the permutation \<open>keccakf\<close>, updating its 25 lanes in
  place as the C code does, and the hash \<open>keccak\<close> over it. The reference is the Keccak
  permutation stated lane by lane with coordinates (theta, rho, pi, chi, iota of the
  Keccak submission) and the sponge construction over its byte padding.
\<close>

section \<open>The permutation of c_keccak.c\<close>

definition keccakf_rndc :: "u64 list" where
  "keccakf_rndc =
    [0x0000000000000001, 0x0000000000008082, 0x800000000000808a,
     0x8000000080008000, 0x000000000000808b, 0x0000000080000001,
     0x8000000080008081, 0x8000000000008009, 0x000000000000008a,
     0x0000000000000088, 0x0000000080008009, 0x000000008000000a,
     0x000000008000808b, 0x800000000000008b, 0x8000000000008089,
     0x8000000000008003, 0x8000000000008002, 0x8000000000000080,
     0x000000000000800a, 0x800000008000000a, 0x8000000080008081,
     0x8000000000008080, 0x0000000080000001, 0x8000000080008008]"

definition keccakf_theta :: "u64 list \<Rightarrow> u64 list" where
  "keccakf_theta st =
    (let bc = [st ! 0 XOR st ! 5 XOR st ! 10 XOR st ! 15 XOR st ! 20,
               st ! 1 XOR st ! 6 XOR st ! 11 XOR st ! 16 XOR st ! 21,
               st ! 2 XOR st ! 7 XOR st ! 12 XOR st ! 17 XOR st ! 22,
               st ! 3 XOR st ! 8 XOR st ! 13 XOR st ! 18 XOR st ! 23,
               st ! 4 XOR st ! 9 XOR st ! 14 XOR st ! 19 XOR st ! 24]
     in fold (\<lambda>i st.
          let t = bc ! ((i + 4) mod 5) XOR rotl (bc ! ((i + 1) mod 5)) 1
          in st[i := st ! i XOR t,
                i + 5 := st ! (i + 5) XOR t,
                i + 10 := st ! (i + 10) XOR t,
                i + 15 := st ! (i + 15) XOR t,
                i + 20 := st ! (i + 20) XOR t])
        [0..<5] st)"

definition keccakf_rho_pi :: "u64 list \<Rightarrow> u64 list" where
  "keccakf_rho_pi st =
    (let t = st ! 1;
         st = st[1 := rotl (st ! 6) 44];
         st = st[6 := rotl (st ! 9) 20];
         st = st[9 := rotl (st ! 22) 61];
         st = st[22 := rotl (st ! 14) 39];
         st = st[14 := rotl (st ! 20) 18];
         st = st[20 := rotl (st ! 2) 62];
         st = st[2 := rotl (st ! 12) 43];
         st = st[12 := rotl (st ! 13) 25];
         st = st[13 := rotl (st ! 19) 8];
         st = st[19 := rotl (st ! 23) 56];
         st = st[23 := rotl (st ! 15) 41];
         st = st[15 := rotl (st ! 4) 27];
         st = st[4 := rotl (st ! 24) 14];
         st = st[24 := rotl (st ! 21) 2];
         st = st[21 := rotl (st ! 8) 55];
         st = st[8 := rotl (st ! 16) 45];
         st = st[16 := rotl (st ! 5) 36];
         st = st[5 := rotl (st ! 3) 28];
         st = st[3 := rotl (st ! 18) 21];
         st = st[18 := rotl (st ! 17) 15];
         st = st[17 := rotl (st ! 11) 10];
         st = st[11 := rotl (st ! 7) 6];
         st = st[7 := rotl (st ! 10) 3]
     in st[10 := rotl t 1])"

text \<open>The unrolled chi step on the row starting at lane \<open>j\<close> (\<open>j = 0, 5, 10, 15\<close>).\<close>

definition keccakf_chi_row :: "nat \<Rightarrow> u64 list \<Rightarrow> u64 list" where
  "keccakf_chi_row j st =
    (let bc0 = st ! j;
         bc1 = st ! (j + 1);
         st = st[j := st ! j XOR (NOT (st ! (j + 1)) AND st ! (j + 2))];
         st = st[j + 1 := st ! (j + 1) XOR (NOT (st ! (j + 2)) AND st ! (j + 3))];
         st = st[j + 2 := st ! (j + 2) XOR (NOT (st ! (j + 3)) AND st ! (j + 4))];
         st = st[j + 3 := st ! (j + 3) XOR (NOT (st ! (j + 4)) AND bc0)]
     in st[j + 4 := st ! (j + 4) XOR (NOT bc0 AND bc1)])"

text \<open>The last row, which the code writes with all five lanes saved.\<close>

definition keccakf_chi_last :: "u64 list \<Rightarrow> u64 list" where
  "keccakf_chi_last st =
    (let j = 20;
         bc0 = st ! j; bc1 = st ! (j + 1); bc2 = st ! (j + 2);
         bc3 = st ! (j + 3); bc4 = st ! (j + 4);
         st = st[j := st ! j XOR (NOT bc1 AND bc2)];
         st = st[j + 1 := st ! (j + 1) XOR (NOT bc2 AND bc3)];
         st = st[j + 2 := st ! (j + 2) XOR (NOT bc3 AND bc4)];
         st = st[j + 3 := st ! (j + 3) XOR (NOT bc4 AND bc0)]
     in st[j + 4 := st ! (j + 4) XOR (NOT bc0 AND bc1)])"

definition keccakf_round :: "nat \<Rightarrow> u64 list \<Rightarrow> u64 list" where
  "keccakf_round round st =
    (let st = keccakf_theta st;
         st = keccakf_rho_pi st;
         st = keccakf_chi_row 0 st;
         st = keccakf_chi_row 5 st;
         st = keccakf_chi_row 10 st;
         st = keccakf_chi_row 15 st;
         st = keccakf_chi_last st
     in st[0 := st ! 0 XOR keccakf_rndc ! round])"

definition keccakf :: "u64 list \<Rightarrow> nat \<Rightarrow> u64 list" where
  "keccakf st rounds = fold keccakf_round [0..<rounds] st"

section \<open>Reference permutation\<close>

text \<open>Lane \<open>(x, y)\<close> of the Keccak state is word \<open>x + 5 y\<close>; coordinates are taken modulo 5.\<close>

definition lane :: "u64 list \<Rightarrow> nat \<Rightarrow> nat \<Rightarrow> u64" where
  "lane A x y = A ! (x mod 5 + 5 * (y mod 5))"

definition from_lanes :: "(nat \<Rightarrow> nat \<Rightarrow> u64) \<Rightarrow> u64 list" where
  "from_lanes f = map (\<lambda>k. f (k mod 5) (k div 5)) [0..<25]"

definition theta_ref :: "u64 list \<Rightarrow> u64 list" where
  "theta_ref A =
    (let C = (\<lambda>x. lane A x 0 XOR lane A x 1 XOR lane A x 2 XOR lane A x 3 XOR lane A x 4)
     in from_lanes (\<lambda>x y. lane A x y XOR (C (x + 4) XOR rotl (C (x + 1)) 1)))"

text \<open>
  The rotation offset of a lane: starting at \<open>(1, 0)\<close> and moving from \<open>(x, y)\<close> to
  \<open>(y, 2 x + 3 y)\<close>, the \<open>t\<close>-th lane visited is rotated by \<open>(t + 1) (t + 2) / 2\<close>.
\<close>

fun rho_walk :: "nat \<Rightarrow> nat \<Rightarrow> nat \<Rightarrow> nat \<Rightarrow> ((nat \<times> nat) \<times> nat) list" where
  "rho_walk 0 t x y = []"
| "rho_walk (Suc n) t x y =
     ((x, y), ((t + 1) * (t + 2) div 2) mod 64) # rho_walk n (Suc t) y ((2 * x + 3 * y) mod 5)"

definition rho_offset :: "nat \<Rightarrow> nat \<Rightarrow> nat" where
  "rho_offset x y = (case map_of (rho_walk 24 0 1 0) (x, y) of None \<Rightarrow> 0 | Some r \<Rightarrow> r)"

definition rho_pi_ref :: "u64 list \<Rightarrow> u64 list" where
  "rho_pi_ref A =
    from_lanes (\<lambda>x y.
      let x' = (x + 3 * y) mod 5; y' = x
      in rotl (lane A x' y') (rho_offset x' y'))"

definition chi_ref :: "u64 list \<Rightarrow> u64 list" where
  "chi_ref A =
    from_lanes (\<lambda>x y. lane A x y XOR (NOT (lane A (x + 1) y) AND lane A (x + 2) y))"

text \<open>
  The round constants: bit \<open>2 ^ j - 1\<close> of constant \<open>ir\<close> is output \<open>j + 7 ir\<close> of a linear
  feedback shift register with polynomial \<open>x^8 + x^6 + x^5 + x^4 + 1\<close>.
\<close>

definition lfsr_step :: "u8 \<Rightarrow> u8" where
  "lfsr_step r = push_bit 1 r XOR (if bit r 7 then 0x71 else 0)"

primrec lfsr_bits :: "nat \<Rightarrow> u8 \<Rightarrow> bool list" where
  "lfsr_bits 0 r = []"
| "lfsr_bits (Suc n) r = bit r 0 # lfsr_bits n (lfsr_step r)"

definition constant_of_bits :: "bool list \<Rightarrow> u64" where
  "constant_of_bits bs = fold (\<lambda>j w. if bs ! j then w OR push_bit (2 ^ j - 1) 1 else w) [0..<7] 0"

definition round_constant :: "nat \<Rightarrow> u64" where
  "round_constant ir = constant_of_bits (take 7 (drop (7 * ir) (lfsr_bits 168 1)))"

definition round_ref :: "nat \<Rightarrow> u64 list \<Rightarrow> u64 list" where
  "round_ref ir A =
    (let B = chi_ref (rho_pi_ref (theta_ref A)) in B[0 := B ! 0 XOR round_constant ir])"

definition keccak_p :: "u64 list \<Rightarrow> u64 list" where
  "keccak_p A = fold round_ref [0..<24] A"

section \<open>The code's permutation is the reference\<close>

lemma upt_25: "[0..<25] = [0,1,2,3,4,5,6,7,8,9,10,11,12,13,14,15,16,17,18,19,20,21,22,23,24::nat]"
  by (simp add: upt_rec)

lemma list_of_25:
  assumes "length A = 25"
  obtains a0 a1 a2 a3 a4 a5 a6 a7 a8 a9 a10 a11 a12 a13 a14 a15 a16 a17 a18 a19 a20 a21 a22 a23 a24
  where "A = [a0,a1,a2,a3,a4,a5,a6,a7,a8,a9,a10,a11,a12,a13,a14,a15,a16,a17,a18,a19,a20,a21,a22,a23,a24]"
proof -
  have "A = map (nth A) [0..<25]" using assms by (simp add: map_nth flip: assms)
  then show ?thesis using that unfolding upt_25 by (simp only: list.map)
qed

lemma length_from_lanes [simp]: "length (from_lanes f) = 25"
  by (simp add: from_lanes_def)

lemma theta_eq: "length A = 25 \<Longrightarrow> keccakf_theta A = theta_ref A"
  by (erule list_of_25)
    (simp add: keccakf_theta_def theta_ref_def from_lanes_def lane_def Let_def upt_rec)

lemma rho_table:
  "map (\<lambda>k. rho_offset (k mod 5) (k div 5)) [0..<25] =
    [0, 1, 62, 28, 27, 36, 44, 6, 55, 20, 3, 10, 43, 25, 39, 41, 45, 15, 21, 8, 18, 2, 61, 56, 14]"
  by code_simp

lemma rho_pi_eq: "length A = 25 \<Longrightarrow> keccakf_rho_pi A = rho_pi_ref A"
  using rho_table
  by (elim list_of_25)
    (simp add: numeral_2_eq_2 [symmetric] keccakf_rho_pi_def rho_pi_ref_def from_lanes_def lane_def Let_def upt_rec rotl_def)

definition keccakf_chi :: "u64 list \<Rightarrow> u64 list" where
  "keccakf_chi st =
     keccakf_chi_last (keccakf_chi_row 15 (keccakf_chi_row 10 (keccakf_chi_row 5 (keccakf_chi_row 0 st))))"

lemma chi_eq: "length A = 25 \<Longrightarrow> keccakf_chi A = chi_ref A"
  by (erule list_of_25)
    (simp add: keccakf_chi_def keccakf_chi_row_def keccakf_chi_last_def chi_ref_def
      from_lanes_def lane_def Let_def upt_rec)

lemma lfsr_table:
  "lfsr_bits 168 1 =
    [True, False, False, False, False, False, False, False, True, False, True, True, False,
     False, False, True, True, True, True, False, True, False, False, False, False, True, True,
     True, True, True, True, True, True, False, False, True, False, False, False, False, True,
     False, True, False, False, True, True, True, True, True, False, True, False, True, False,
     True, False, True, True, True, False, False, False, False, False, True, True, False,
     False, False, True, False, True, False, True, True, False, False, True, True, False,
     False, True, False, True, True, True, True, True, True, False, True, True, True, True,
     False, False, True, True, False, True, True, True, False, True, True, True, False, False,
     True, False, True, False, True, False, False, True, False, True, False, False, False,
     True, False, False, True, False, True, True, False, True, False, False, False, True, True,
     False, False, True, True, True, False, False, True, True, True, True, False, False, False,
     True, True, False, True, True, False, False, False, False, True, False, False, False,
     True, False, True, True, True]"
  by (simp add: eval_nat_numeral lfsr_step_def)

lemma rndc_table: "keccakf_rndc = map round_constant [0..<24]"
  by (simp add: keccakf_rndc_def round_constant_def lfsr_table constant_of_bits_def upt_rec)

lemma length_refs [simp]:
  "length (theta_ref A) = 25" "length (rho_pi_ref A) = 25" "length (chi_ref A) = 25"
  by (simp_all add: theta_ref_def rho_pi_ref_def chi_ref_def Let_def)

lemma length_round_ref [simp]: "length (round_ref r A) = 25"
  by (simp add: round_ref_def Let_def)

lemma round_eq:
  assumes "length A = 25" and "r < 24"
  shows "keccakf_round r A = round_ref r A"
proof -
  have "keccakf_rndc ! r = round_constant r" using assms by (simp add: rndc_table)
  then show ?thesis
    using assms chi_eq [of "rho_pi_ref (theta_ref A)"]
    by (simp add: keccakf_round_def round_ref_def Let_def theta_eq rho_pi_eq keccakf_chi_def)
qed

lemma keccakf_prefix_eq:
  "length A = 25 \<Longrightarrow> n \<le> 24 \<Longrightarrow>
   fold keccakf_round [0..<n] A = fold round_ref [0..<n] A \<and> length (fold round_ref [0..<n] A) = 25"
proof (induction n)
  case 0
  then show ?case by simp
next
  case (Suc n)
  then show ?case by (simp add: round_eq)
qed

lemma keccakf_24: "length A = 25 \<Longrightarrow> keccakf A 24 = keccak_p A"
  using keccakf_prefix_eq [of A 24] by (simp only: keccakf_def keccak_p_def)

lemma length_keccak_p: "length A = 25 \<Longrightarrow> length (keccak_p A) = 25"
  using keccakf_prefix_eq [of A 24] by (simp only: keccak_p_def)

section \<open>The hash function\<close>

text \<open>
  \<open>rsiz\<close> is computed in \<open>int\<close> arithmetic from the digest length. A digest of exactly
  200 bytes (\<open>sizeof(state_t)\<close>) selects the rate 136.
\<close>

definition keccak_rsiz :: "nat \<Rightarrow> int" where
  "keccak_rsiz mdlen = (if 200 = mdlen then 136 else 200 - 2 * int mdlen)"

text \<open>The inner loops \<open>st[i] ^= ((uint64_t * ) in)[i]\<close> over \<open>rsizw\<close> words.\<close>

definition xor_words :: "nat \<Rightarrow> u64 list \<Rightarrow> bytes \<Rightarrow> u64 list" where
  "xor_words rsizw st blk =
     fold (\<lambda>i st. st[i := st ! i XOR words_of 8 blk ! i]) [0..<rsizw] st"

text \<open>
  The loop over the full input blocks: the state, the remaining input and its length when
  it stops. A rate that is not positive never gets here.
\<close>

function keccak_blocks ::
  "nat \<Rightarrow> u64 list \<Rightarrow> bytes \<Rightarrow> nat \<Rightarrow> (u64 list \<times> bytes \<times> nat) option" where
  "keccak_blocks rsiz st inp inlen =
     (if 0 < rsiz \<and> rsiz \<le> inlen
      then (case load inp 0 (8 * (rsiz div 8)) of
              None \<Rightarrow> None
            | Some blk \<Rightarrow>
                keccak_blocks rsiz (keccakf (xor_words (rsiz div 8) st blk) 24)
                  (drop rsiz inp) (inlen - rsiz))
      else Some (st, inp, inlen))"
  by pat_completeness auto
termination
  by (relation "measure (\<lambda>(rsiz, st, inp, inlen). inlen)") auto

declare keccak_blocks.simps [simp del]

text \<open>
  The last block and its padding, built in the 144-byte local buffer \<open>temp\<close>, which
  holds whatever the stack held: the first \<open>rsizw\<close> words of it are what is absorbed.
\<close>

definition keccak_last_block :: "bytes \<Rightarrow> bytes \<Rightarrow> nat \<Rightarrow> nat \<Rightarrow> bytes option" where
  "keccak_last_block temp inp inlen rsiz =
    do {
      temp \<leftarrow> memcpy temp 0 inp 0 inlen;
      temp \<leftarrow> put_at temp inlen 1;
      temp \<leftarrow> memset temp (inlen + 1) 0 (rsiz - (inlen + 1));
      b \<leftarrow> get_at temp (rsiz - 1);
      temp \<leftarrow> put_at temp (rsiz - 1) (b OR 0x80);
      load temp 0 (8 * (rsiz div 8))
    }"

text \<open>
  \<open>keccak temp inp inlen mdlen\<close> are the \<open>mdlen\<close> bytes written to \<open>md\<close>. With a rate
  that is not positive the block loop does not end, and a rate above 144 overruns
  \<open>temp\<close>: both are \<open>None\<close>.
\<close>

definition keccak :: "bytes \<Rightarrow> bytes \<Rightarrow> nat \<Rightarrow> nat \<Rightarrow> bytes option" where
  "keccak temp inp inlen mdlen =
    (if keccak_rsiz mdlen \<le> 0 then None
     else do {
       let rsiz = nat (keccak_rsiz mdlen);
       let rsizw = rsiz div 8;
       (st, inp, inlen) \<leftarrow> keccak_blocks rsiz (replicate 25 0) inp inlen;
       blk \<leftarrow> keccak_last_block temp inp inlen rsiz;
       load (bytes_of 8 (keccakf (xor_words rsizw st blk) 24)) 0 mdlen
     })"

definition keccak1600 :: "bytes \<Rightarrow> bytes \<Rightarrow> nat \<Rightarrow> bytes option" where
  "keccak1600 temp inp inlen = keccak temp inp inlen 200"

section \<open>Reference sponge\<close>

definition keccak_pad :: "nat \<Rightarrow> bytes \<Rightarrow> bytes" where
  "keccak_pad r m =
    (let q = r - length m mod r
     in m @ (if q = 1 then [0x81] else [0x01] @ replicate (q - 2) 0 @ [0x80]))"

definition keccak_absorb :: "nat \<Rightarrow> bytes \<Rightarrow> u64 list \<Rightarrow> u64 list" where
  "keccak_absorb r blk A =
     keccak_p (map2 (XOR) A (words_of 8 blk @ replicate (25 - r div 8) 0))"

definition keccak_sponge :: "nat \<Rightarrow> bytes \<Rightarrow> u64 list" where
  "keccak_sponge r m = fold (keccak_absorb r) (full_blocks r (keccak_pad r m)) (replicate 25 0)"

section \<open>The hash is the sponge\<close>

lemma xor_words_eq:
  assumes "length st = 25" and "length blk = 8 * n" and "n \<le> 25"
  shows "xor_words n st blk = map2 (XOR) st (words_of 8 blk @ replicate (25 - n) 0)"
proof -
  have "xor_words n st blk
      = map (\<lambda>i. if i < n then st ! i XOR words_of 8 blk ! i else st ! i) [0..<length st]"
    unfolding xor_words_def
    by (rule fold_update_upt [where f = "\<lambda>i y. y XOR words_of 8 blk ! i"]) (use assms in simp)
  then show ?thesis using assms by (auto intro!: nth_equalityI simp: nth_append)
qed

lemma length_keccak_absorb:
  assumes "length A = 25" and "r div 8 \<le> 25" and "length blk = 8 * (r div 8)"
  shows "length (keccak_absorb r blk A) = 25"
  using assms by (simp add: keccak_absorb_def length_keccak_p)

lemma keccak_step_eq:
  assumes "length st = 25" and "length blk = 8 * (r div 8)" and "r div 8 \<le> 25"
  shows "keccakf (xor_words (r div 8) st blk) 24 = keccak_absorb r blk st"
  using assms by (simp add: xor_words_eq keccak_absorb_def keccakf_24)

lemma keccak_blocks_eq:
  assumes "0 < r" "8 dvd r" "r \<le> 200" "length st = 25" "inlen \<le> length inp"
  shows "keccak_blocks r st inp inlen =
    Some (fold (keccak_absorb r) (full_blocks r (take inlen inp)) st,
          drop (inlen - inlen mod r) inp, inlen mod r)
    \<and> length (fold (keccak_absorb r) (full_blocks r (take inlen inp)) st) = 25"
  using assms
proof (induction r st inp inlen rule: keccak_blocks.induct)
  case (1 r st inp inlen)
  have r8: "8 * (r div 8) = r" using 1 by simp
  show ?case
  proof (cases "r \<le> inlen")
    case False
    then have "full_blocks r (take inlen inp) = []" using 1 by (simp add: full_blocks_short)
    then show ?thesis using False 1 by (subst keccak_blocks.simps) simp
  next
    case True
    have ld: "load inp 0 (8 * (r div 8)) = Some (take r inp)"
      using 1 True r8 by (simp add: load_def)
    have stp: "keccakf (xor_words (r div 8) st (take r inp)) 24 = keccak_absorb r (take r inp) st"
      by (rule keccak_step_eq) (use 1 True r8 in auto)
    have len: "length (keccak_absorb r (take r inp) st) = 25"
      by (rule length_keccak_absorb) (use 1 True r8 in auto)
    have fb: "full_blocks r (take inlen inp)
        = take r inp # full_blocks r (take (inlen - r) (drop r inp))"
    proof -
      have "take inlen inp = take r inp @ take (inlen - r) (drop r inp)"
        using True by (simp flip: take_add)
      then show ?thesis using full_blocks_step [of r "take r inp"] 1 True by simp
    qed
    have IH: "keccak_blocks r (keccak_absorb r (take r inp) st) (drop r inp) (inlen - r) =
        Some (fold (keccak_absorb r) (full_blocks r (take (inlen - r) (drop r inp)))
                (keccak_absorb r (take r inp) st),
              drop (inlen - r - (inlen - r) mod r) (drop r inp), (inlen - r) mod r)
      \<and> length (fold (keccak_absorb r) (full_blocks r (take (inlen - r) (drop r inp)))
                (keccak_absorb r (take r inp) st)) = 25"
      using 1(1) [OF _ ld] 1(2-) True stp len by simp
    have "(inlen - r) mod r \<le> inlen - r" "(inlen - r) mod r = inlen mod r"
      using True by (simp_all add: le_mod_geq)
    then have "inlen - r - (inlen - r) mod r + r = inlen - inlen mod r" using True by linarith
    with \<open>(inlen - r) mod r = inlen mod r\<close> show ?thesis using IH fb ld stp True 1
      by (subst keccak_blocks.simps) simp
  qed
qed

text \<open>The last block of the C code: the bytes left over, then 1, zeros and the top bit of the last byte.\<close>

lemma keccak_last_block_pad:
  assumes "l < r" "length p = l" "length temp = 144" "r \<le> 144" "8 dvd r"
  shows "keccak_last_block temp (p @ rest) l r
    = Some (p @ (if r - l = 1 then [0x81] else [0x01] @ replicate (r - l - 2) 0 @ [0x80 :: u8]))"
    (is "?lhs = Some (p @ ?t)")
proof -
  let ?c = "drop r temp"
  have 1: "drop l temp = (drop l temp ! 0) # drop (l + 1) temp"
    using assms by (metis Cons_nth_drop_Suc Suc_eq_plus1 add_0_right le_trans less_or_eq_imp_le
        linorder_not_le nth_drop order_less_le_trans)
  have t1: "memcpy temp 0 (p @ rest) 0 l = Some (p @ drop l temp)"
    using assms by (simp add: memcpy_Some)
  have t2: "put_at (p @ drop l temp) l 1 = Some (p @ 1 # drop (l + 1) temp)"
    using assms by (subst 1) (simp add: put_at_def list_update_append)
  have t3: "memset (p @ 1 # drop (l + 1) temp) (l + 1) 0 (r - (l + 1))
      = Some (p @ 1 # replicate (r - (l + 1)) 0 @ ?c)"
    using assms by (simp add: memset_Some drop_Cons')
  define k where "k = r - (l + 1)"
  have len: "r - 1 = l + k" "length p = l" "length (p @ 1 # replicate k (0::u8) @ ?c) = 144"
    using assms by (simp_all add: k_def)
  have lk: "l + k < 144" using assms by (simp add: k_def)
  show ?thesis
  proof (cases k)
    case 0
    then have "r = Suc l" using assms by (simp add: k_def)
    moreover have "8 * (Suc l div 8) = Suc l" using assms calculation by simp
    ultimately show ?thesis using assms t1 t2 t3 len
      by (simp add: keccak_last_block_def 0 [unfolded k_def] get_at_def put_at_def load_def nth_append list_update_append)
  next
    case (Suc j)
    then have r: "r = l + j + 2" using assms by (simp add: k_def)
    have rep: "replicate (Suc j) (0::u8) = replicate j 0 @ [0]" by (simp add: replicate_append_same)
    have t3': "memset (p @ 1 # drop (l + 1) temp) (l + 1) 0 (r - (l + 1))
      = Some (p @ 1 # replicate j 0 @ 0 # ?c)"
      using t3 Suc rep by (simp add: k_def)
    have t4: "get_at (p @ 1 # replicate j 0 @ 0 # ?c) (r - 1) = Some 0"
      using assms r by (simp add: get_at_def nth_append)
    have t5: "put_at (p @ 1 # replicate j 0 @ 0 # ?c) (r - 1) (0 OR 0x80)
        = Some (p @ 1 # replicate j 0 @ 0x80 # ?c)"
      using assms r by (simp add: put_at_def list_update_append)
    have t6: "load (p @ 1 # replicate j 0 @ 0x80 # ?c) 0 r = Some (p @ 1 # replicate j 0 @ [0x80])"
      using assms r by (simp add: load_def)
    have r8: "8 * (r div 8) = r" using assms by simp
    show ?thesis unfolding keccak_last_block_def r8 using t1 t2 t3' t4 t5 t6 r by simp
  qed
qed

lemma full_blocks_keccak_pad:
  assumes "0 < r"
  shows "full_blocks r (keccak_pad r m) = full_blocks r m @ [partial_block r m @
    (if r - length m mod r = 1 then [0x81] else [0x01] @ replicate (r - length m mod r - 2) 0 @ [0x80])]"
proof -
  let ?t = "if r - length m mod r = 1 then [0x81] else [0x01] @ replicate (r - length m mod r - 2) 0 @ [0x80 :: u8]"
  have "length m mod r < r" using assms by simp
  then have "length (partial_block r m @ ?t) = r"
    by (simp add: length_partial_block split: if_split) arith
  then have "full_blocks r (partial_block r m @ ?t) = [partial_block r m @ ?t]"
    by (rule full_blocks_single [OF assms])
  then show ?thesis
    unfolding keccak_pad_def Let_def full_blocks_front [OF assms, of m ?t] by simp
qed

lemma keccak_sponge_blocks:
  assumes "0 < r"
  shows "keccak_sponge r m = keccak_absorb r (partial_block r m @
    (if r - length m mod r = 1 then [0x81] else [0x01] @ replicate (r - length m mod r - 2) 0 @ [0x80]))
    (fold (keccak_absorb r) (full_blocks r m) (replicate 25 0))"
  unfolding keccak_sponge_def full_blocks_keccak_pad [OF assms] by simp

lemma keccak_sponge_eq:
  assumes rate: "keccak_rsiz mdlen = int r" "0 < r" "r \<le> 144" "8 dvd r"
    and mem: "length temp = 144" "inlen \<le> length inp"
  shows "keccak temp inp inlen mdlen
    = Some (take mdlen (bytes_of 8 (keccak_sponge r (take inlen inp))))"
proof -
  define m where "m = take inlen inp"
  define l where "l = inlen mod r"
  define p where "p = partial_block r m"
  define A where "A = fold (keccak_absorb r) (full_blocks r m) (replicate 25 0)"
  define blk where "blk = p @ (if r - l = 1 then [0x81] else [0x01] @ replicate (r - l - 2) 0 @ [0x80 :: u8])"
  have lm: "length m = inlen" using mem by (simp add: m_def)
  have lr: "l < r" using rate by (simp add: l_def)
  have lp: "length p = l" by (simp add: p_def l_def lm length_partial_block)
  have r8: "8 * (r div 8) = r" using rate by simp
  have md: "mdlen \<le> 200" using rate by (auto simp: keccak_rsiz_def split: if_splits)
  have bl: "keccak_blocks r (replicate 25 0) inp inlen = Some (A, drop (inlen - l) inp, l)"
    and lA: "length A = 25"
    using keccak_blocks_eq [of r "replicate 25 0" inlen inp] rate mem
    by (simp_all add: A_def m_def l_def)
  have rest: "drop (inlen - l) inp = p @ drop inlen inp"
  proof -
    have "l \<le> inlen" by (simp add: l_def)
    then have "inp = take (inlen - l) inp @ take l (drop (inlen - l) inp) @ drop inlen inp"
      using append_take_drop_id [of l "drop (inlen - l) inp"] by simp
    moreover have "p = take l (drop (inlen - l) inp)"
      using \<open>l \<le> inlen\<close> mem lm by (simp add: p_def partial_block_def l_def m_def drop_take)
    ultimately show ?thesis
      using append_take_drop_id [of l "drop (inlen - l) inp"] \<open>l \<le> inlen\<close> by simp
  qed
  have lblk: "length blk = r" using lr lp unfolding blk_def by (simp split: if_split) arith
  have st: "keccakf (xor_words (r div 8) A blk) 24 = keccak_absorb r blk A"
    by (rule keccak_step_eq) (use lA lblk r8 rate in auto)
  have sp: "keccak_sponge r m = keccak_absorb r blk A"
    using rate by (simp add: keccak_sponge_blocks blk_def A_def p_def l_def lm)
  have "length (keccak_absorb r blk A) = 25"
    by (rule length_keccak_absorb) (use lA lblk r8 rate in auto)
  then have out: "load (bytes_of 8 (keccak_absorb r blk A)) 0 mdlen = Some (take mdlen (bytes_of 8 (keccak_absorb r blk A)))"
    using md by (simp add: load_def)
  have "keccak temp inp inlen mdlen =
    do { blk \<leftarrow> keccak_last_block temp (p @ drop inlen inp) l r;
         load (bytes_of 8 (keccakf (xor_words (r div 8) A blk) 24)) 0 mdlen }"
    using rate bl by (simp add: keccak_def rest Let_def)
  also have "\<dots> = Some (take mdlen (bytes_of 8 (keccak_sponge r m)))"
    unfolding keccak_last_block_pad [OF lr lp mem(1) rate(3,4)] using st sp out by (simp add: blk_def)
  finally show ?thesis by (simp add: m_def)
qed


lemma length_xor_words [simp]: "length (xor_words n st blk) = length st"
proof -
  have "length (fold (\<lambda>i st. st[i := st ! i XOR words_of 8 blk ! i]) is xs) = length xs" for "is" xs
    by (induction "is" arbitrary: xs) simp_all
  then show ?thesis by (simp add: xor_words_def)
qed

lemma length_keccakf_24: "length A = 25 \<Longrightarrow> length (keccakf A 24) = 25"
  by (simp add: keccakf_24 length_keccak_p)

lemma keccak_blocks_returns:
  assumes "0 < r" "length st = 25" "inlen \<le> length inp"
  shows "\<exists>st'. keccak_blocks r st inp inlen = Some (st', drop (inlen - inlen mod r) inp, inlen mod r)
    \<and> length st' = 25"
  using assms
proof (induction r st inp inlen rule: keccak_blocks.induct)
  case (1 r st inp inlen)
  show ?case
  proof (cases "r \<le> inlen")
    case False
    then show ?thesis using 1 by (subst keccak_blocks.simps) simp
  next
    case True
    then have ld: "load inp 0 (8 * (r div 8)) = Some (take (8 * (r div 8)) inp)"
    proof -
      have "8 * (r div 8) \<le> r" by simp
      then show ?thesis using True 1 by (simp add: load_def)
    qed
    have "(inlen - r) mod r \<le> inlen - r" "(inlen - r) mod r = inlen mod r"
      using True by (simp_all add: le_mod_geq)
    then have "inlen - r - (inlen - r) mod r + r = inlen - inlen mod r" using True by linarith
    then show ?thesis
      using 1(1) [OF _ ld] 1(2-) True ld \<open>(inlen - r) mod r = inlen mod r\<close>
      by (subst keccak_blocks.simps) (simp add: length_keccakf_24)
  qed
qed

lemma keccak_last_block_returns:
  assumes "l < r" "l \<le> length inp" "length temp = 144" "r \<le> 144"
  shows "\<exists>blk. keccak_last_block temp inp l r = Some blk"
proof -
  define t1 where "t1 = take l inp @ drop l temp"
  have 1: "memcpy temp 0 inp 0 l = Some t1" "length t1 = 144"
    using assms by (simp_all add: memcpy_Some t1_def)
  have 2: "put_at t1 l 1 = Some (t1[l := 1])" using assms 1 by (simp add: put_at_def)
  define t3 where "t3 = take (l + 1) (t1[l := 1]) @ replicate (r - (l + 1)) 0 @ drop r (t1[l := 1])"
  have 3: "memset (t1[l := 1]) (l + 1) 0 (r - (l + 1)) = Some t3" "length t3 = 144"
    using assms 1 by (simp_all add: memset_Some t3_def)
  have 4: "get_at t3 (r - 1) = Some (t3 ! (r - 1))" using assms 3 by (simp add: get_at_def)
  have 5: "put_at t3 (r - 1) b = Some (t3[r - 1 := b])" for b using assms 3 by (simp add: put_at_def)
  have 6: "\<exists>blk. load t 0 (8 * (r div 8)) = Some blk" if "length t = 144" for t :: bytes
  proof -
    have "8 * (r div 8) \<le> r" by simp
    then have "8 * (r div 8) \<le> 144" using assms(4) by (rule le_trans)
    then show ?thesis using that by (simp add: load_def)
  qed
  show ?thesis unfolding keccak_last_block_def 1(1) bind.bind_lunit 2 3(1) 4 5
    by (rule 6) (simp add: 3)
qed

lemma keccak_last_block_overrun:
  assumes "length temp = 144" "144 < r"
  shows "keccak_last_block temp inp l r = None"
proof (rule ccontr)
  assume "keccak_last_block temp inp l r \<noteq> None"
  then obtain t1 t2 t3 b where "memcpy temp 0 inp 0 l = Some t1" "put_at t1 l 1 = Some t2"
    "memset t2 (l + 1) 0 (r - (l + 1)) = Some t3" "get_at t3 (r - 1) = Some b"
    by (auto simp: keccak_last_block_def bind_eq_Some_conv)
  moreover from this have "length t3 = 144" using assms(1)
    by (auto simp: put_at_def memset_def dest!: store_length memcpy_length split: if_splits)
  ultimately show False using assms(2) by (simp add: get_at_def split: if_splits)
qed

lemma keccak_returns:
  assumes "length temp = 144" "inlen \<le> length inp"
  shows "(\<exists>d. keccak temp inp inlen mdlen = Some d) \<longleftrightarrow> 28 \<le> mdlen \<and> mdlen < 100 \<or> mdlen = 200"
proof (cases "keccak_rsiz mdlen \<le> 0")
  case True
  then show ?thesis by (auto simp: keccak_def keccak_rsiz_def split: if_splits)
next
  case False
  define r where "r = nat (keccak_rsiz mdlen)"
  have r: "0 < r" "r \<le> 200" "mdlen \<le> 200"
    using False by (auto simp: r_def keccak_rsiz_def split: if_splits)
  define l where "l = inlen mod r"
  have l: "l < r" "l \<le> inlen" using r by (simp_all add: l_def)
  have r144: "r \<le> 144 \<longleftrightarrow> 28 \<le> mdlen \<and> mdlen < 100 \<or> mdlen = 200"
    using False by (auto simp: r_def keccak_rsiz_def split: if_splits)
  obtain st where st: "keccak_blocks r (replicate 25 0) inp inlen = Some (st, drop (inlen - l) inp, l)"
      "length st = 25"
    using keccak_blocks_returns [OF r(1), of "replicate 25 0" inlen inp] assms by (auto simp: l_def)
  have ll: "l \<le> length (drop (inlen - l) inp)" using assms l by simp
  have kk: "keccak temp inp inlen mdlen =
    do { blk \<leftarrow> keccak_last_block temp (drop (inlen - l) inp) l r;
         load (bytes_of 8 (keccakf (xor_words (r div 8) st blk) 24)) 0 mdlen }"
    using False st by (simp add: keccak_def Let_def flip: r_def)
  show ?thesis
  proof (cases "r \<le> 144")
    case True
    then obtain blk where "keccak_last_block temp (drop (inlen - l) inp) l r = Some blk"
      using keccak_last_block_returns [OF l(1) ll assms(1)] by auto
    then show ?thesis using True r144 st(2) r
      by (simp add: kk load_def length_keccakf_24)
  next
    case False
    then have "keccak_last_block temp (drop (inlen - l) inp) l r = None"
      using keccak_last_block_overrun [OF assms(1)] by simp
    then show ?thesis using r144 False by (simp add: kk)
  qed
qed

section \<open>Properties\<close>

text \<open>
  The permutation computed in place by the unrolled code, from its tables of rotations and
  round constants, is the Keccak-f[1600] permutation of the specification, whose offsets come
  from the walk over the lanes and whose constants come from the shift register.
\<close>

theorem keccakf_is_keccak_p:
  assumes "length st = 25"
  shows "keccakf st 24 = keccak_p st"
  using assms by (rule keccakf_24)

theorem keccakf_is_keccak_p_witness:
  "keccakf (replicate 25 0x0123456789abcdef) 24 = keccak_p (replicate 25 0x0123456789abcdef)"
  by (rule keccakf_is_keccak_p) simp

text \<open>
  C16. For every rate that is a multiple of a word and fits the local buffer, \<open>keccak\<close> returns the
  first \<open>mdlen\<close> bytes of the sponge over the padded message, whatever the local buffer held.
\<close>

theorem keccak_is_sponge:
  assumes "keccak_rsiz mdlen = int r" "0 < r" "r \<le> 144" "8 dvd r"
    and "length temp = 144" "inlen \<le> length inp"
  shows "keccak temp inp inlen mdlen
    = Some (take mdlen (bytes_of 8 (keccak_sponge r (take inlen inp))))"
  using assms by (rule keccak_sponge_eq)

theorem keccak_is_sponge_witness:
  "keccak (replicate 144 7) [1, 2, 3] 2 32
    = Some (take 32 (bytes_of 8 (keccak_sponge 136 (take 2 [1, 2, 3]))))
   \<and> keccak (replicate 144 7) [1, 2, 3] 2 200
    = Some (take 200 (bytes_of 8 (keccak_sponge 136 (take 2 [1, 2, 3]))))"
  using keccak_is_sponge [of 32 136 "replicate 144 7" 2 "[1, 2, 3]"]
    keccak_is_sponge [of 200 136 "replicate 144 7" 2 "[1, 2, 3]"]
  by (simp add: keccak_rsiz_def)

text \<open>
  C30. The digest lengths the code serves at all: below 28 bytes the rate is larger than the local
  buffer, which is overrun, and from 100 bytes on (200 excepted, which selects rate 136) the rate
  is zero or negative, and no digest is returned.
\<close>

theorem keccak_returns_iff:
  assumes "length temp = 144" "inlen \<le> length inp"
  shows "(\<exists>d. keccak temp inp inlen mdlen = Some d) \<longleftrightarrow> 28 \<le> mdlen \<and> mdlen < 100 \<or> mdlen = 200"
  using assms by (rule keccak_returns)

theorem keccak_returns_iff_witness:
  "(\<exists>d. keccak (replicate 144 0) [1] 1 28 = Some d) \<and> keccak (replicate 144 0) [1] 1 27 = None"
  using keccak_returns_iff [of "replicate 144 0" 1 "[1]" 28]
    keccak_returns_iff [of "replicate 144 0" 1 "[1]" 27]
  by (cases "keccak (replicate 144 0) [1] 1 27") simp_all

end
