(* ===== verification/Blake256.thy ===== *)
theory Blake256
  imports Hash_Interface
begin

text \<open>
  \<open>src/src/crypto/c_blake256.c\<close>: the state of BLAKE-256 and BLAKE-224, the compression
  function, the incremental interface (init, update, final) and the one-shot hashes. The
  reference is BLAKE as its submission states it: columns and diagonals of a 4 by 4 matrix,
  the padding rule, and the counter each block is compressed with.
\<close>

section \<open>Data of c_blake256.c\<close>

record blake_state =
  bl_h :: "u32 list"
  bl_s :: "u32 list"
  bl_t0 :: u32
  bl_t1 :: u32
  bl_buflen :: nat
  bl_nullt :: bool
  bl_buf :: bytes

definition blake_sigma :: "nat list list" where
  "blake_sigma = [
    [ 0, 1, 2, 3, 4, 5, 6, 7, 8, 9,10,11,12,13,14,15],
    [14,10, 4, 8, 9,15,13, 6, 1,12, 0, 2,11, 7, 5, 3],
    [11, 8,12, 0, 5, 2,15,13,10,14, 3, 6, 7, 1, 9, 4],
    [ 7, 9, 3, 1,13,12,11,14, 2, 6, 5,10, 4, 0,15, 8],
    [ 9, 0, 5, 7, 2, 4,10,15,14, 1,11,12, 6, 8, 3,13],
    [ 2,12, 6,10, 0,11, 8, 3, 4,13, 7, 5,15,14, 1, 9],
    [12, 5, 1,15,14,13, 4,10, 0, 7, 6, 3, 9, 2, 8,11],
    [13,11, 7,14,12, 1, 3, 9, 5, 0,15, 4, 8, 6, 2,10],
    [ 6,15,14, 9,11, 3, 0, 8,12, 2,13, 7, 1, 4,10, 5],
    [10, 2, 8, 4, 7, 6, 1, 5,15,11, 9,14, 3,12,13, 0],
    [ 0, 1, 2, 3, 4, 5, 6, 7, 8, 9,10,11,12,13,14,15],
    [14,10, 4, 8, 9,15,13, 6, 1,12, 0, 2,11, 7, 5, 3],
    [11, 8,12, 0, 5, 2,15,13,10,14, 3, 6, 7, 1, 9, 4],
    [ 7, 9, 3, 1,13,12,11,14, 2, 6, 5,10, 4, 0,15, 8]]"

definition blake_cst :: "u32 list" where
  "blake_cst = [
    0x243F6A88, 0x85A308D3, 0x13198A2E, 0x03707344,
    0xA4093822, 0x299F31D0, 0x082EFA98, 0xEC4E6C89,
    0x452821E6, 0x38D01377, 0xBE5466CF, 0x34E90C6C,
    0xC0AC29B7, 0xC97C50DD, 0x3F84D5B5, 0xB5470917]"

definition blake_padding :: bytes where
  "blake_padding = 0x80 # replicate 63 0"

definition U8TO32 :: "bytes \<Rightarrow> u32" where
  "U8TO32 p = push_bit 24 (ucast (p ! 0)) OR push_bit 16 (ucast (p ! 1)) OR
              push_bit 8 (ucast (p ! 2)) OR ucast (p ! 3)"

definition U32TO8 :: "u32 \<Rightarrow> bytes" where
  "U32TO8 v = [ucast (drop_bit 24 v), ucast (drop_bit 16 v), ucast (drop_bit 8 v), ucast v]"

section \<open>Compression\<close>

text \<open>The macro \<open>G(a,b,c,d,e)\<close> of round \<open>i\<close>, on the array \<open>v\<close>.\<close>

definition blake_G :: "u32 list \<Rightarrow> nat \<Rightarrow> nat \<Rightarrow> nat \<Rightarrow> nat \<Rightarrow> nat \<Rightarrow> nat \<Rightarrow> u32 list \<Rightarrow> u32 list" where
  "blake_G m i a b c d e v =
    (let sg = blake_sigma ! i;
         v = v[a := v ! a + ((m ! (sg ! e) XOR blake_cst ! (sg ! (e + 1))) + v ! b)];
         v = v[d := rotr (v ! d XOR v ! a) 16];
         v = v[c := v ! c + v ! d];
         v = v[b := rotr (v ! b XOR v ! c) 12];
         v = v[a := v ! a + ((m ! (sg ! (e + 1)) XOR blake_cst ! (sg ! e)) + v ! b)];
         v = v[d := rotr (v ! d XOR v ! a) 8];
         v = v[c := v ! c + v ! d]
     in v[b := rotr (v ! b XOR v ! c) 7])"

definition blake_round :: "u32 list \<Rightarrow> nat \<Rightarrow> u32 list \<Rightarrow> u32 list" where
  "blake_round m i v =
    (let v = blake_G m i 0 4  8 12  0 v;
         v = blake_G m i 1 5  9 13  2 v;
         v = blake_G m i 2 6 10 14  4 v;
         v = blake_G m i 3 7 11 15  6 v;
         v = blake_G m i 3 4  9 14 14 v;
         v = blake_G m i 2 7  8 13 12 v;
         v = blake_G m i 0 5 10 15  8 v
     in blake_G m i 1 6 11 12 10 v)"

definition blake256_compress :: "blake_state \<Rightarrow> bytes \<Rightarrow> blake_state" where
  "blake256_compress S block =
    (let m = map (\<lambda>i. U8TO32 (drop (i * 4) block)) [0..<16];
         v = map (\<lambda>i. bl_h S ! i) [0..<8] @
             [bl_s S ! 0 XOR 0x243F6A88, bl_s S ! 1 XOR 0x85A308D3,
              bl_s S ! 2 XOR 0x13198A2E, bl_s S ! 3 XOR 0x03707344,
              0xA4093822, 0x299F31D0, 0x082EFA98, 0xEC4E6C89];
         v = (if \<not> bl_nullt S
              then v[12 := v ! 12 XOR bl_t0 S, 13 := v ! 13 XOR bl_t0 S,
                     14 := v ! 14 XOR bl_t1 S, 15 := v ! 15 XOR bl_t1 S]
              else v);
         v = fold (blake_round m) [0..<14] v;
         h = fold (\<lambda>i h. h[i mod 8 := h ! (i mod 8) XOR v ! i]) [0..<16] (bl_h S);
         h = fold (\<lambda>i h. h[i := h ! i XOR bl_s S ! (i mod 4)]) [0..<8] h
     in S\<lparr>bl_h := h\<rparr>)"

section \<open>Incremental interface\<close>

text \<open>The initialisers write every field but the buffer.\<close>

definition blake_init :: "u32 list \<Rightarrow> blake_state \<Rightarrow> blake_state" where
  "blake_init iv S = S\<lparr>bl_h := iv, bl_t0 := 0, bl_t1 := 0, bl_buflen := 0, bl_nullt := False,
     bl_s := [0, 0, 0, 0]\<rparr>"

definition blake256_iv :: "u32 list" where
  "blake256_iv = [0x6A09E667, 0xBB67AE85, 0x3C6EF372, 0xA54FF53A,
                  0x510E527F, 0x9B05688C, 0x1F83D9AB, 0x5BE0CD19]"

definition blake224_iv :: "u32 list" where
  "blake224_iv = [0xC1059ED8, 0x367CD507, 0x3070DD17, 0xF70E5939,
                  0xFFC00B31, 0x68581511, 0x64F98FA7, 0xBEFA4FA4]"

definition blake256_init :: "blake_state \<Rightarrow> blake_state" where
  "blake256_init = blake_init blake256_iv"

definition blake224_init :: "blake_state \<Rightarrow> blake_state" where
  "blake224_init = blake_init blake224_iv"

text \<open>\<open>S->t[0] += 512; if (S->t[0] == 0) S->t[1]++\<close>\<close>

definition blake_count :: "blake_state \<Rightarrow> blake_state" where
  "blake_count S =
    (let S = S\<lparr>bl_t0 := bl_t0 S + 512\<rparr>
     in if bl_t0 S = 0 then S\<lparr>bl_t1 := bl_t1 S + 1\<rparr> else S)"

text \<open>The loop over whole blocks of the caller's data; lengths are in bits, as in C.\<close>

function blake_update_blocks ::
  "blake_state \<Rightarrow> bytes \<Rightarrow> nat \<Rightarrow> (blake_state \<times> bytes \<times> nat) option" where
  "blake_update_blocks S data datalen =
    (if 512 \<le> datalen
     then (case load data 0 64 of
             None \<Rightarrow> None
           | Some blk \<Rightarrow>
               blake_update_blocks (blake256_compress (blake_count S) blk) (drop 64 data) (datalen - 512))
     else Some (S, data, datalen))"
  by pat_completeness auto
termination
  by (relation "measure (\<lambda>(S, data, datalen). datalen)") auto

declare blake_update_blocks.simps [simp del]

definition blake256_update :: "blake_state \<Rightarrow> bytes \<Rightarrow> nat \<Rightarrow> blake_state option" where
  "blake256_update S data datalen =
    do {
      let left = bl_buflen S div 8;
      let fill = 64 - int left;
      (S, data, datalen, left) \<leftarrow>
        (if left \<noteq> 0 \<and> fill mod 2 ^ 32 \<le> int (datalen div 8 mod 64)
         then do {
           buf \<leftarrow> memcpy (bl_buf S) left data 0 (nat fill);
           let S = blake256_compress (blake_count (S\<lparr>bl_buf := buf\<rparr>)) buf;
           Some (S, drop (nat fill) data, datalen - 8 * nat fill, 0)
         }
         else Some (S, data, datalen, left));
      (S, data, datalen) \<leftarrow> blake_update_blocks S data datalen;
      if 0 < datalen
      then do {
        buf \<leftarrow> memcpy (bl_buf S) left data 0 (datalen div 8);
        Some (S\<lparr>bl_buf := buf, bl_buflen := 8 * left + datalen\<rparr>)
      }
      else Some (S\<lparr>bl_buflen := 0\<rparr>)
    }"

definition blake224_update :: "blake_state \<Rightarrow> bytes \<Rightarrow> nat \<Rightarrow> blake_state option" where
  "blake224_update S data datalen = blake256_update S data datalen"

text \<open>The padding of the last block or two, then the digest; \<open>pa\<close> and \<open>pb\<close> are the
  bytes that close it with and without zeros before.\<close>

definition blake256_final_h :: "blake_state \<Rightarrow> u8 \<Rightarrow> u8 \<Rightarrow> (blake_state \<times> bytes) option" where
  "blake256_final_h S pa pb =
    do {
      let lo = bl_t0 S + of_nat (bl_buflen S);
      let hi = (if lo < of_nat (bl_buflen S) then bl_t1 S + 1 else bl_t1 S);
      let msglen = U32TO8 hi @ U32TO8 lo;
      S \<leftarrow>
        (if bl_buflen S = 440
         then blake256_update (S\<lparr>bl_t0 := bl_t0 S - 8\<rparr>) [pa] 8
         else do {
           S \<leftarrow>
             (if bl_buflen S < 440
              then do {
                let S = (if bl_buflen S = 0 then S\<lparr>bl_nullt := True\<rparr> else S);
                blake256_update (S\<lparr>bl_t0 := bl_t0 S - of_nat (440 - bl_buflen S)\<rparr>)
                  blake_padding (440 - bl_buflen S)
              }
              else do {
                S \<leftarrow> blake256_update (S\<lparr>bl_t0 := bl_t0 S - of_nat (512 - bl_buflen S)\<rparr>)
                  blake_padding (512 - bl_buflen S);
                S \<leftarrow> blake256_update (S\<lparr>bl_t0 := bl_t0 S - 440\<rparr>) (drop 1 blake_padding) 440;
                Some (S\<lparr>bl_nullt := True\<rparr>)
              });
           S \<leftarrow> blake256_update S [pb] 8;
           Some (S\<lparr>bl_t0 := bl_t0 S - 8\<rparr>)
         });
      S \<leftarrow> blake256_update (S\<lparr>bl_t0 := bl_t0 S - 64\<rparr>) msglen 64;
      Some (S, concat (map (\<lambda>i. U32TO8 (bl_h S ! i)) [0..<8]))
    }"

definition blake256_final :: "blake_state \<Rightarrow> (blake_state \<times> bytes) option" where
  "blake256_final S = blake256_final_h S 0x81 0x01"

definition blake224_final :: "blake_state \<Rightarrow> (blake_state \<times> bytes) option" where
  "blake224_final S = blake256_final_h S 0x80 0x00"

text \<open>
  The one-shot hashes: \<open>S\<close> is the uninitialised local state; the bit length
  \<open>inlen * 8\<close> is computed modulo \<open>2 ^ 64\<close>.
\<close>

definition blake256_hash :: "blake_state \<Rightarrow> bytes \<Rightarrow> nat \<Rightarrow> bytes option" where
  "blake256_hash S inp inlen =
    do {
      S \<leftarrow> blake256_update (blake256_init S) inp ((inlen * 8) mod 2 ^ 64);
      (S, out) \<leftarrow> blake256_final S;
      Some out
    }"

definition blake224_hash :: "blake_state \<Rightarrow> bytes \<Rightarrow> nat \<Rightarrow> bytes option" where
  "blake224_hash S inp inlen =
    do {
      S \<leftarrow> blake224_update (blake224_init S) inp ((inlen * 8) mod 2 ^ 64);
      (S, out) \<leftarrow> blake224_final S;
      Some out
    }"

section \<open>Reference\<close>

text \<open>
  The quarter function of the BLAKE submission, with its two message words (already combined
  with the constants) as arguments, on a column or a diagonal of the 4 by 4 matrix.
\<close>

fun blake_quarter :: "u32 \<Rightarrow> u32 \<Rightarrow> u32 \<times> u32 \<times> u32 \<times> u32 \<Rightarrow> u32 \<times> u32 \<times> u32 \<times> u32" where
  "blake_quarter x y (a, b, c, d) =
    (let a = a + b + x;  d = rotr (d XOR a) 16;
         c = c + d;      b = rotr (b XOR c) 12;
         a = a + b + y;  d = rotr (d XOR a) 8;
         c = c + d;      b = rotr (b XOR c) 7
     in (a, b, c, d))"

text \<open>\<open>G\<^sub>i\<close> of round \<open>r\<close>: the permutation of the message words repeats after ten rounds.\<close>

definition blake_G_ref ::
  "u32 list \<Rightarrow> nat \<Rightarrow> nat \<Rightarrow> u32 \<times> u32 \<times> u32 \<times> u32 \<Rightarrow> u32 \<times> u32 \<times> u32 \<times> u32" where
  "blake_G_ref m r i q =
    (let sg = take 10 blake_sigma ! (r mod 10)
     in blake_quarter (m ! (sg ! (2 * i)) XOR blake_cst ! (sg ! (2 * i + 1)))
                      (m ! (sg ! (2 * i + 1)) XOR blake_cst ! (sg ! (2 * i))) q)"

fun quad_nth :: "'a \<times> 'a \<times> 'a \<times> 'a \<Rightarrow> nat \<Rightarrow> 'a" where
  "quad_nth (a, b, c, d) k = (if k = 0 then a else if k = 1 then b else if k = 2 then c else d)"

text \<open>Entry \<open>k\<close> of the matrix is in row \<open>k div 4\<close> and column \<open>k mod 4\<close>.\<close>

definition blake_columns :: "u32 list \<Rightarrow> nat \<Rightarrow> u32 list \<Rightarrow> u32 list" where
  "blake_columns m r v =
    map (\<lambda>k. let i = k mod 4
             in quad_nth (blake_G_ref m r i (v ! i, v ! (4 + i), v ! (8 + i), v ! (12 + i))) (k div 4))
      [0..<16]"

definition blake_diagonals :: "u32 list \<Rightarrow> nat \<Rightarrow> u32 list \<Rightarrow> u32 list" where
  "blake_diagonals m r v =
    map (\<lambda>k. let i = (k mod 4 + 4 - k div 4) mod 4
             in quad_nth (blake_G_ref m r (4 + i)
                  (v ! i, v ! (4 + (i + 1) mod 4), v ! (8 + (i + 2) mod 4), v ! (12 + (i + 3) mod 4)))
                  (k div 4))
      [0..<16]"

text \<open>The compression function of hash value \<open>h\<close>, salt \<open>s\<close>, counter \<open>t0, t1\<close> and a block.\<close>

definition blake_compress_ref :: "u32 list \<Rightarrow> u32 list \<Rightarrow> u32 \<Rightarrow> u32 \<Rightarrow> bytes \<Rightarrow> u32 list" where
  "blake_compress_ref h s t0 t1 blk =
    (let m = map (\<lambda>i. U8TO32 (drop (4 * i) blk)) [0..<16];
         v = h @ map2 (XOR) (s @ [t0, t0, t1, t1]) (take 8 blake_cst);
         v = fold (\<lambda>r v. blake_diagonals m r (blake_columns m r v)) [0..<14] v
     in map (\<lambda>i. h ! i XOR s ! (i mod 4) XOR v ! i XOR v ! (i + 8)) [0..<8])"

section \<open>The code's compression is the reference\<close>

lemma blake_G_quarter:
  assumes "distinct [a, b, c, d]" and "a < length v" "b < length v" "c < length v" "d < length v"
  shows "blake_G m i a b c d e v =
    (let sg = blake_sigma ! i;
         q = blake_quarter (m ! (sg ! e) XOR blake_cst ! (sg ! (e + 1)))
               (m ! (sg ! (e + 1)) XOR blake_cst ! (sg ! e)) (v ! a, v ! b, v ! c, v ! d)
     in v[a := quad_nth q 0, b := quad_nth q 1, c := quad_nth q 2, d := quad_nth q 3])"
  using assms
  by (auto simp: blake_G_def Let_def nth_list_update ac_simps intro!: nth_equalityI)

lemma blake_sigma_period: "r < 14 \<Longrightarrow> take 10 blake_sigma ! (r mod 10) = blake_sigma ! r"
proof -
  have "map (\<lambda>r. take 10 blake_sigma ! (r mod 10)) [0..<14] = map ((!) blake_sigma) [0..<14]"
    by code_simp
  then show "r < 14 \<Longrightarrow> ?thesis" by (simp only: map_eq_conv) simp
qed

lemma blake_G_eq:
  assumes "r < 14" "distinct [a, b, c, d]" and "a < length v" "b < length v" "c < length v" "d < length v"
  shows "blake_G m r a b c d (2 * i) v =
    (let q = blake_G_ref m r i (v ! a, v ! b, v ! c, v ! d)
     in v[a := quad_nth q 0, b := quad_nth q 1, c := quad_nth q 2, d := quad_nth q 3])"
  using assms by (simp only: blake_G_quarter blake_G_ref_def blake_sigma_period Let_def)

lemma blake_round_eq:
  assumes "r < 14" "length v = 16"
  shows "blake_round m r v = blake_diagonals m r (blake_columns m r v)"
proof -
  note G = blake_G_eq [OF assms(1), where m = m]
  note Gs = G [where i = 0, simplified] G [where i = 1, simplified] G [where i = 2, simplified]
    G [where i = 3, simplified] G [where i = 4, simplified] G [where i = 5, simplified]
    G [where i = 6, simplified] G [where i = 7, simplified]
  from assms(2) show ?thesis
    by (elim list_of_16)
      (simp add: blake_round_def Gs Let_def blake_columns_def blake_diagonals_def upt_16
        numeral_2_eq_2 [symmetric] numeral_3_eq_3 [symmetric])
qed

lemma length_blake_diagonals [simp]: "length (blake_diagonals m r v) = 16"
  by (simp add: blake_diagonals_def)

lemma blake_rounds_eq:
  "length v = 16 \<Longrightarrow> n \<le> 14 \<Longrightarrow>
   fold (blake_round m) [0..<n] v = fold (\<lambda>r v. blake_diagonals m r (blake_columns m r v)) [0..<n] v
   \<and> length (fold (\<lambda>r v. blake_diagonals m r (blake_columns m r v)) [0..<n] v) = 16"
  by (induction n) (simp_all add: blake_round_eq)

lemma blake_feedforward:
  assumes "length h = 8" "length s = 4" "length v = 16"
  shows "fold (\<lambda>i h. h[i := h ! i XOR s ! (i mod 4)]) [0..<8]
           (fold (\<lambda>i h. h[i mod 8 := h ! (i mod 8) XOR v ! i]) [0..<16] h)
    = map (\<lambda>i. h ! i XOR s ! (i mod 4) XOR v ! i XOR v ! (i + 8)) [0..<8]"
  using assms by (elim list_of_16 list_of_8 list_of_4) (simp add: upt_8 upt_16 ac_simps)

lemma blake_start:
  assumes "length h = 8" "length s = 4"
  shows "(map (\<lambda>i. h ! i) [0..<8] @
             [s ! 0 XOR 0x243F6A88, s ! 1 XOR 0x85A308D3,
              s ! 2 XOR 0x13198A2E, s ! 3 XOR 0x03707344,
              0xA4093822, 0x299F31D0, 0x082EFA98, 0xEC4E6C89 :: u32])
    = h @ map2 (XOR) (s @ [0, 0, 0, 0]) (take 8 blake_cst)"
  using assms by (elim list_of_8 list_of_4) (simp add: upt_8 blake_cst_def)

lemma blake_start_counter:
  assumes "length h = 8" "length s = 4"
  shows "(let v = h @ map2 (XOR) (s @ [0, 0, 0, 0]) (take 8 blake_cst)
          in v[12 := v ! 12 XOR t0, 13 := v ! 13 XOR t0, 14 := v ! 14 XOR t1, 15 := v ! 15 XOR t1])
    = h @ map2 (XOR) (s @ [t0, t0, t1, t1]) (take 8 blake_cst)"
  using assms by (elim list_of_8 list_of_4) (simp add: blake_cst_def ac_simps)

lemma blake256_compress_eq:
  assumes "length (bl_h S) = 8" "length (bl_s S) = 4"
  shows "blake256_compress S blk = S\<lparr>bl_h := blake_compress_ref (bl_h S) (bl_s S)
      (if bl_nullt S then 0 else bl_t0 S) (if bl_nullt S then 0 else bl_t1 S) blk\<rparr>"
proof -
  define v where "v = bl_h S @ map2 (XOR)
    (bl_s S @ (if bl_nullt S then [0, 0, 0, 0] else [bl_t0 S, bl_t0 S, bl_t1 S, bl_t1 S]))
    (take 8 blake_cst)"
  define m where "m = map (\<lambda>i. U8TO32 (drop (4 * i) blk)) [0..<16]"
  let ?ref = "fold (\<lambda>r v. blake_diagonals m r (blake_columns m r v)) [0..<14] v"
  have lv: "length v = 16" using assms by (simp add: v_def blake_cst_def)
  have m: "map (\<lambda>i. U8TO32 (drop (i * 4) blk)) [0..<16] = m" by (simp add: m_def mult.commute)
  have v: "(let v = map (\<lambda>i. bl_h S ! i) [0..<8] @
             [bl_s S ! 0 XOR 0x243F6A88, bl_s S ! 1 XOR 0x85A308D3,
              bl_s S ! 2 XOR 0x13198A2E, bl_s S ! 3 XOR 0x03707344,
              0xA4093822, 0x299F31D0, 0x082EFA98, 0xEC4E6C89]
        in if \<not> bl_nullt S
           then v[12 := v ! 12 XOR bl_t0 S, 13 := v ! 13 XOR bl_t0 S,
                  14 := v ! 14 XOR bl_t1 S, 15 := v ! 15 XOR bl_t1 S]
           else v) = v"
    using blake_start_counter [OF assms, of "bl_t0 S" "bl_t1 S"]
    by (simp only: blake_start [OF assms] v_def Let_def split: if_split) simp
  have r: "fold (blake_round m) [0..<14] v = ?ref" "length ?ref = 16"
    using blake_rounds_eq [OF lv, of 14] by simp_all
  have "blake256_compress S blk = (let v' = fold (blake_round m) [0..<14] v
      in S\<lparr>bl_h := map (\<lambda>i. bl_h S ! i XOR bl_s S ! (i mod 4) XOR v' ! i XOR v' ! (i + 8)) [0..<8]\<rparr>)"
    using v unfolding blake256_compress_def m Let_def
    by (simp only: blake_feedforward [OF assms] r)
  also have "\<dots> = S\<lparr>bl_h := blake_compress_ref (bl_h S) (bl_s S)
      (if bl_nullt S then 0 else bl_t0 S) (if bl_nullt S then 0 else bl_t1 S) blk\<rparr>"
    unfolding blake_compress_ref_def Let_def m_def [symmetric] r by (simp add: v_def)
  finally show ?thesis .
qed

section \<open>Reference hash\<close>

text \<open>
  The chain of compressions over the blocks \<open>bs\<close> from block number \<open>i\<close> on, block \<open>j\<close>
  being compressed with the counter \<open>cnt j\<close>, a number of message bits.
\<close>

fun blake_chain :: "(nat \<Rightarrow> nat) \<Rightarrow> u32 list \<Rightarrow> nat \<Rightarrow> bytes list \<Rightarrow> u32 list" where
  "blake_chain cnt h i [] = h"
| "blake_chain cnt h i (b # bs) =
     blake_chain cnt
       (blake_compress_ref h [0, 0, 0, 0] (of_nat (cnt i)) (of_nat (cnt i div 2 ^ 32)) b) (Suc i) bs"

text \<open>The counter of a block is the number of message bits up to its end, and 0 for a block without any.\<close>

definition blake_counter :: "nat \<Rightarrow> nat \<Rightarrow> nat" where
  "blake_counter bits i = (if bits \<le> 512 * i then 0 else min bits (512 * (i + 1)))"

lemma U32TO8_be: "U32TO8 (of_nat n) = be_bytes 4 n"
proof -
  have "be_bytes 4 n = map (\<lambda>i. be_bytes 4 n ! i) [0, 1, 2, 3]"
    using map_nth [of "be_bytes 4 n"] by (simp add: upt_rec numeral_2_eq_2 numeral_3_eq_3)
  then show ?thesis by (simp add: U32TO8_def be_bytes_nth [where 'a = 32])
qed

definition blake_tail :: "u8 \<Rightarrow> u8 \<Rightarrow> nat \<Rightarrow> bytes" where
  "blake_tail pa pb n =
    (if n mod 64 = 55 then [pa] else [0x80] @ replicate ((118 - n mod 64) mod 64) 0 @ [pb])
    @ be_bytes 8 (8 * n)"

definition blake_hash_ref :: "u32 list \<Rightarrow> u8 \<Rightarrow> u8 \<Rightarrow> bytes \<Rightarrow> bytes" where
  "blake_hash_ref iv pa pb msg =
    concat (map U32TO8
      (blake_chain (blake_counter (8 * length msg)) iv 0
        (full_blocks 64 (msg @ blake_tail pa pb (length msg)))))"

lemma blake_chain_append:
  "blake_chain cnt h i (as @ bs) = blake_chain cnt (blake_chain cnt h i as) (i + length as) bs"
  by (induction "as" arbitrary: h i) simp_all

lemma blake_chain_cong:
  "(\<And>j. i \<le> j \<Longrightarrow> j < i + length bs \<Longrightarrow> cnt j = cnt' j) \<Longrightarrow>
   blake_chain cnt h i bs = blake_chain cnt' h i bs"
proof (induction bs arbitrary: h i)
  case Nil
  then show ?case by simp
next
  case (Cons b bs)
  have "cnt i = cnt' i" using Cons.prems [of i] by simp
  then show ?case using Cons.IH [of "Suc i"] Cons.prems by simp
qed

lemma length_blake_compress_ref [simp]: "length (blake_compress_ref h s t0 t1 b) = 8"
  by (simp add: blake_compress_ref_def Let_def)

lemma length_blake_chain: "length h = 8 \<Longrightarrow> length (blake_chain cnt h i bs) = 8"
  by (induction bs arbitrary: h i) simp_all

section \<open>What a state stands for\<close>

definition full_count :: "nat \<Rightarrow> nat" where
  "full_count i = 512 * (i + 1)"

text \<open>The part of the state the compressions of \<open>bs\<close> leave, whatever is buffered.\<close>

definition blake_core :: "u32 list \<Rightarrow> blake_state \<Rightarrow> bytes list \<Rightarrow> bool" where
  "blake_core iv S bs \<longleftrightarrow>
     bl_h S = blake_chain full_count iv 0 bs \<and> length iv = 8 \<and> bl_s S = [0, 0, 0, 0] \<and>
     bl_t0 S = of_nat (512 * length bs) \<and> bl_t1 S = of_nat (512 * length bs div 2 ^ 32) \<and>
     \<not> bl_nullt S"

text \<open>\<open>blake_repr iv S msg\<close>: initialised with \<open>iv\<close>, the state \<open>S\<close> has taken in \<open>msg\<close>.\<close>

definition blake_repr :: "u32 list \<Rightarrow> blake_state \<Rightarrow> bytes \<Rightarrow> bool" where
  "blake_repr iv S msg \<longleftrightarrow>
     blake_core iv S (full_blocks 64 msg) \<and> bl_buflen S = 8 * (length msg mod 64) \<and>
     length (bl_buf S) = 64 \<and> take (length msg mod 64) (bl_buf S) = partial_block 64 msg"

lemma blake_core_cong:
  "bl_h S' = bl_h S \<Longrightarrow> bl_s S' = bl_s S \<Longrightarrow> bl_t0 S' = bl_t0 S \<Longrightarrow> bl_t1 S' = bl_t1 S \<Longrightarrow>
   bl_nullt S' = bl_nullt S \<Longrightarrow> blake_core iv S' bs = blake_core iv S bs"
  by (simp add: blake_core_def)

lemma blake_init_repr:
  "length (bl_buf S) = 64 \<Longrightarrow> length iv = 8 \<Longrightarrow> blake_repr iv (blake_init iv S) []"
  by (simp add: blake_repr_def blake_core_def blake_init_def full_blocks_short partial_block_def)

lemma word32_zero_iff: "(of_nat n :: u32) = 0 \<longleftrightarrow> 2 ^ 32 dvd n"
  using word_of_nat_eq_0_iff [where 'a = 32, of n] by simp

lemma blake_carry:
  "(512 * k + 512) div 2 ^ 32
    = 512 * k div 2 ^ 32 + (if 2 ^ 32 dvd 512 * k + 512 then 1 else (0 :: nat))"
proof -
  have a: "512 * j div 2 ^ 32 = j div 2 ^ 23" for j :: nat
    using div_mult_mult1 [of "512 :: nat" j "2 ^ 23"] by simp
  have b: "2 ^ 32 dvd 512 * j \<longleftrightarrow> 2 ^ 23 dvd j" for j :: nat
    using nat_mult_dvd_cancel_disj [of 512 "2 ^ 23" j] by simp
  have c: "512 * k + 512 = 512 * Suc k" by simp
  show ?thesis unfolding c a b by (simp add: div_Suc dvd_eq_mod_eq_0)
qed

lemma blake_core_step:
  assumes "blake_core iv S bs"
  shows "blake_core iv (blake256_compress (blake_count S) b) (bs @ [b])"
proof -
  define N where "N = 512 * length bs"
  have len: "length (bl_h S) = 8" "length (bl_s S) = 4"
    using assms by (simp_all add: blake_core_def length_blake_chain)
  have t0: "bl_t0 (blake_count S) = of_nat (N + 512)"
    using assms by (simp add: blake_core_def blake_count_def Let_def N_def)
  have t1: "bl_t1 (blake_count S) = of_nat ((N + 512) div 2 ^ 32)"
  proof -
    have c: "bl_t0 S + 512 = of_nat (N + 512)" using assms by (simp add: blake_core_def N_def)
    have "bl_t0 S + 512 = 0 \<longleftrightarrow> 2 ^ 32 dvd N + 512" unfolding c by (rule word32_zero_iff)
    moreover have "bl_t1 S = of_nat (N div 2 ^ 32)"
      using assms unfolding blake_core_def N_def by blast
    moreover have "(N + 512) div 2 ^ 32 = N div 2 ^ 32 + (if 2 ^ 32 dvd N + 512 then 1 else 0)"
      unfolding N_def by (rule blake_carry)
    ultimately show ?thesis by (simp add: blake_count_def Let_def)
  qed
  have "blake256_compress (blake_count S) b = (blake_count S)\<lparr>bl_h :=
      blake_compress_ref (bl_h S) [0, 0, 0, 0] (of_nat (N + 512)) (of_nat ((N + 512) div 2 ^ 32)) b\<rparr>"
    using blake256_compress_eq [of "blake_count S" b] len assms t0 t1
    by (simp add: blake_count_def Let_def blake_core_def split: if_splits)
  moreover have "full_count (length bs) = N + 512" "512 * length (bs @ [b]) = N + 512"
    by (simp_all add: full_count_def N_def)
  moreover have "bl_h S = blake_chain full_count iv 0 bs" "length iv = 8"
      "bl_s (blake_count S) = [0, 0, 0, 0]" "\<not> bl_nullt (blake_count S)"
    using assms by (simp_all add: blake_core_def blake_count_def Let_def)
  ultimately show ?thesis using t0 t1
    unfolding blake_core_def by (simp only: blake_chain_append) simp
qed

lemma blake_count_buf [simp]:
  "bl_buf (blake_count S) = bl_buf S" "bl_buflen (blake_count S) = bl_buflen S"
  "bl_nullt (blake_count S) = bl_nullt S" "bl_h (blake_count S) = bl_h S" "bl_s (blake_count S) = bl_s S"
  by (simp_all add: blake_count_def Let_def)

lemma blake_compress_buf [simp]:
  "bl_buf (blake256_compress S b) = bl_buf S" "bl_buflen (blake256_compress S b) = bl_buflen S"
  "bl_nullt (blake256_compress S b) = bl_nullt S" "bl_t0 (blake256_compress S b) = bl_t0 S"
  "bl_t1 (blake256_compress S b) = bl_t1 S" "bl_s (blake256_compress S b) = bl_s S"
  by (simp_all add: blake256_compress_def Let_def)

lemma blake_update_blocks_eq:
  assumes "blake_core iv S bs" "n \<le> length data"
  shows "\<exists>S'. blake_update_blocks S data (8 * n) = Some (S', drop (n - n mod 64) data, 8 * (n mod 64))
    \<and> blake_core iv S' (bs @ full_blocks 64 (take n data))
    \<and> bl_buf S' = bl_buf S \<and> bl_buflen S' = bl_buflen S"
  using assms
proof (induction n arbitrary: S bs data rule: less_induct)
  case (less n)
  show ?case
  proof (cases "64 \<le> n")
    case False
    then show ?thesis using less.prems
      by (subst blake_update_blocks.simps) (simp add: full_blocks_short)
  next
    case True
    define S1 where "S1 = blake256_compress (blake_count S) (take 64 data)"
    have c: "blake_core iv S1 (bs @ [take 64 data])"
      unfolding S1_def by (rule blake_core_step [OF less.prems(1)])
    have fb: "full_blocks 64 (take n data)
        = take 64 data # full_blocks 64 (take (n - 64) (drop 64 data))"
    proof -
      have "take n data = take 64 data @ take (n - 64) (drop 64 data)"
        using True by (simp flip: take_add)
      then show ?thesis using full_blocks_step [of 64 "take 64 data"] True less.prems by simp
    qed
    have ar: "(n - 64) mod 64 = n mod 64" "n - 64 - (n - 64) mod 64 + 64 = n - n mod 64"
    proof -
      show 1: "(n - 64) mod 64 = n mod 64" using True by (simp add: le_mod_geq)
      have "(n - 64) mod 64 \<le> n - 64" by simp
      then show "n - 64 - (n - 64) mod 64 + 64 = n - n mod 64" using 1 True by linarith
    qed
    have stp: "blake_update_blocks S data (8 * n) = blake_update_blocks S1 (drop 64 data) (8 * (n - 64))"
    proof -
      have "8 * n - 512 = 8 * (n - 64)" using True by simp
      then show ?thesis using True less.prems
        by (subst blake_update_blocks.simps) (simp add: load_def S1_def)
    qed
    have IH: "\<exists>S'. blake_update_blocks S1 (drop 64 data) (8 * (n - 64))
          = Some (S', drop (n - 64 - (n - 64) mod 64) (drop 64 data), 8 * ((n - 64) mod 64))
        \<and> blake_core iv S' ((bs @ [take 64 data]) @ full_blocks 64 (take (n - 64) (drop 64 data)))
        \<and> bl_buf S' = bl_buf S1 \<and> bl_buflen S' = bl_buflen S1"
      by (rule less.IH [OF _ c]) (use True less.prems in auto)
    have "drop (n - 64 - (n - 64) mod 64) (drop 64 data) = drop (n - n mod 64) data"
      unfolding drop_drop ar(2) ..
    then show ?thesis using IH unfolding stp fb ar(1) by (simp add: S1_def)
  qed
qed

section \<open>Taking in data\<close>

text \<open>
  The message a state stands for after \<open>d\<close> is given to \<open>blake256_update\<close>. When the buffer is
  empty, or when the rest of \<open>d\<close> modulo a block completes it, or when all of \<open>d\<close> fits it, that is
  \<open>m @ d\<close>. Otherwise the code compresses the whole blocks of \<open>d\<close> before the bytes that were
  buffered, and drops the buffered bytes when no byte of \<open>d\<close> is left over.
\<close>

definition blake_joined :: "bytes \<Rightarrow> bytes \<Rightarrow> bytes" where
  "blake_joined m d =
    (let left = length m mod 64; n = length d
     in if left = 0 \<or> 64 - left \<le> n mod 64 then m @ d
        else concat (full_blocks 64 m) @ concat (full_blocks 64 d) @
             (if n mod 64 = 0 then [] else partial_block 64 m @ partial_block 64 d))"

lemma blake_joined_empty: "64 dvd length m \<Longrightarrow> blake_joined m d = m @ d"
  by (simp add: blake_joined_def)

lemma blake_joined_short:
  assumes "d \<noteq> []" "length m mod 64 + length d < 64"
  shows "blake_joined m d = m @ d"
proof -
  have "length d mod 64 = length d" "full_blocks 64 d = []" "partial_block 64 d = d"
    using assms by (simp_all add: full_blocks_short partial_block_def)
  then show ?thesis using assms concat_full_blocks [of 64 m]
    by (simp add: blake_joined_def Let_def flip: append_assoc)
qed

lemma blake_joined_fill:
  "64 - length m mod 64 \<le> length d mod 64 \<Longrightarrow> blake_joined m d = m @ d"
  by (simp add: blake_joined_def Let_def)

lemma blake_fill_test:
  "left \<le> 64 \<Longrightarrow> (64 - int left) mod 2 ^ 32 \<le> int (n mod 64) \<longleftrightarrow> 64 - left \<le> n mod 64"
  by (simp add: of_nat_diff [symmetric] del: of_nat_mod) linarith

lemma blake_update_buffer:
  assumes "bl_buflen S = 8 * left" "length (bl_buf S) = 64" "left + n < 64" "0 < n" "n \<le> length d"
  shows "blake256_update S d (8 * n) = Some (S\<lparr>bl_buf := take left (bl_buf S) @ take n d @ drop (left + n) (bl_buf S),
    bl_buflen := 8 * (left + n)\<rparr>)"
proof -
  have "blake_update_blocks S d (8 * n) = Some (S, d, 8 * n)"
    using assms by (subst blake_update_blocks.simps) simp
  moreover have "\<not> 64 - left \<le> n mod 64" using assms by simp
  ultimately show ?thesis
    using assms blake_fill_test [of left n]
    by (simp add: blake256_update_def Let_def memcpy_Some)
qed

lemma blake_update_fill:
  assumes "bl_buflen S = 8 * left" "length (bl_buf S) = 64" "0 < left" "left + n = 64" "n \<le> length d"
  shows "blake256_update S d (8 * n) =
    (let b = take left (bl_buf S) @ take n d
     in Some ((blake256_compress (blake_count (S\<lparr>bl_buf := b\<rparr>)) b)\<lparr>bl_buflen := 0\<rparr>))"
proof -
  have u: "blake_update_blocks S' d' 0 = Some (S', d', 0)" for S' d'
    by (subst blake_update_blocks.simps) simp
  have l: "64 - left = n" "64 - int left = int n" "left \<le> 64" using assms by simp_all
  have "n mod 64 = n" using assms by simp
  then show ?thesis
    using assms blake_fill_test [OF l(3), of n]
    by (simp add: blake256_update_def Let_def memcpy_Some l u)
qed

text \<open>The end of \<open>blake256_update\<close>: what is left of the data goes to the buffer.\<close>

lemma blake_update_rest:
  assumes "blake_core iv S (full_blocks 64 M)" "length (bl_buf S) = 64" "left + r < 64"
    and "partial_block 64 M = (if r = 0 then [] else take left (bl_buf S) @ take r data)"
    and "r \<le> length data"
  shows "\<exists>S'. (if 0 < 8 * r
      then do {
        buf \<leftarrow> memcpy (bl_buf S) left data 0 (8 * r div 8);
        Some (S\<lparr>bl_buf := buf, bl_buflen := 8 * left + 8 * r\<rparr>)
      }
      else Some (S\<lparr>bl_buflen := 0\<rparr>)) = Some S' \<and> blake_repr iv S' M"
proof -
  have len: "length M mod 64 = (if r = 0 then 0 else left + r)"
    using assms length_partial_block [of 64 M] by (auto split: if_splits)
  show ?thesis
  proof (cases "r = 0")
    case True
    then show ?thesis using assms len
      by (simp add: blake_repr_def cong: blake_core_cong)
  next
    case False
    let ?buf = "take left (bl_buf S) @ take r data @ drop (left + r) (bl_buf S)"
    have "memcpy (bl_buf S) left data 0 r = Some ?buf"
      using assms by (simp add: memcpy_Some)
    moreover have "blake_core iv (S\<lparr>bl_buf := b, bl_buflen := k\<rparr>) bs = blake_core iv S bs" for b k bs
      by (rule blake_core_cong) simp_all
    ultimately show ?thesis using assms len False
      by (simp add: blake_repr_def)
  qed
qed

lemma blake_update_eq:
  assumes "blake_repr iv S m" "n \<le> length d"
  shows "\<exists>S'. blake256_update S d (8 * n) = Some S' \<and> blake_repr iv S' (blake_joined m (take n d))"
proof -
  define left where "left = length m mod 64"
  have S: "blake_core iv S (full_blocks 64 m)" "bl_buflen S = 8 * left" "length (bl_buf S) = 64"
      "take left (bl_buf S) = partial_block 64 m"
    using assms by (simp_all add: blake_repr_def left_def)
  have left: "left < 64" by (simp add: left_def)
  have lp: "length (partial_block 64 m) = left" by (simp add: left_def length_partial_block)
  have ld: "length (take n d) = n" using assms by simp
  show ?thesis
  proof (cases "left \<noteq> 0 \<and> 64 - left \<le> n mod 64")
    case True
    define k where "k = 64 - left"
    have k: "k \<le> n mod 64" "k \<le> n" "64 - int left = int k" "left + k = 64"
      using True left by (auto simp: k_def intro: order_trans [OF _ mod_less_eq_dividend])
    define b where "b = take left (bl_buf S) @ take k d"
    define S1 where "S1 = blake256_compress (blake_count (S\<lparr>bl_buf := b\<rparr>)) b"
    have b: "memcpy (bl_buf S) left d 0 k = Some b" "length b = 64"
      using S k assms lp by (simp_all add: memcpy_Some b_def)
    have c1: "blake_core iv S1 (full_blocks 64 m @ [b])"
      unfolding S1_def
      by (rule blake_core_step) (use S in \<open>simp cong: blake_core_cong\<close>)
    obtain S2 where S2: "blake_update_blocks S1 (drop k d) (8 * (n - k))
          = Some (S2, drop (n - k - (n - k) mod 64) (drop k d), 8 * ((n - k) mod 64))"
        "blake_core iv S2 ((full_blocks 64 m @ [b]) @ full_blocks 64 (take (n - k) (drop k d)))"
        "bl_buf S2 = bl_buf S1"
      using blake_update_blocks_eq [OF c1, of "n - k" "drop k d"] diff_le_mono [OF assms(2), of k]
      by (auto simp del: drop_drop)
    have md: "partial_block 64 m @ take n d = b @ take (n - k) (drop k d)"
      using S(4) k by (simp add: b_def flip: take_add)
    have fb: "full_blocks 64 (m @ take n d)
        = (full_blocks 64 m @ [b]) @ full_blocks 64 (take (n - k) (drop k d))"
      using full_blocks_front [of 64 m "take n d"] md b(2) full_blocks_step [of 64 b] by simp
    have "m @ take n d = (concat (full_blocks 64 m) @ b) @ take (n - k) (drop k d)"
      using concat_full_blocks [of 64 m] md by (metis append_assoc)
    then have pb: "partial_block 64 (m @ take n d) = partial_block 64 (take (n - k) (drop k d))"
      using partial_block_append [of 64 "concat (full_blocks 64 m) @ b"] b(2)
        dvd_length_full_blocks [of 64 m] by simp
    have jn: "blake_joined m (take n d) = m @ take n d"
      by (rule blake_joined_fill) (use k ld in \<open>simp add: k_def left_def\<close>)
    let ?r = "(n - k) mod 64" and ?data = "drop (n - k - (n - k) mod 64) (drop k d)"
    have rd: "?r \<le> length ?data"
    proof -
      have "n - k \<le> length d - k" using assms by simp
      moreover have "?r \<le> n - k" by simp
      ultimately show ?thesis by simp
    qed
    have pt: "partial_block 64 (take (n - k) (drop k d)) = take ?r ?data"
      using assms k by (simp add: partial_block_def drop_take del: drop_drop)
    have "\<exists>S'. (if 0 < 8 * ?r
      then do {
        buf \<leftarrow> memcpy (bl_buf S2) 0 ?data 0 (8 * ?r div 8);
        Some (S2\<lparr>bl_buf := buf, bl_buflen := 8 * 0 + 8 * ?r\<rparr>)
      }
      else Some (S2\<lparr>bl_buflen := 0\<rparr>)) = Some S' \<and> blake_repr iv S' (m @ take n d)"
      by (rule blake_update_rest)
        (use S2 fb pb pt rd b(2) in \<open>simp_all add: S1_def del: drop_drop\<close>)
    moreover have "blake256_update S d (8 * n) = (if 0 < 8 * ?r
      then do {
        buf \<leftarrow> memcpy (bl_buf S2) 0 ?data 0 (8 * ?r div 8);
        Some (S2\<lparr>bl_buf := buf, bl_buflen := 8 * 0 + 8 * ?r\<rparr>)
      }
      else Some (S2\<lparr>bl_buflen := 0\<rparr>))"
    proof -
      have "8 * n - 8 * k = 8 * (n - k)" by simp
      then show ?thesis
        using S(2) True blake_fill_test [of left n] left b(1) S2(1) k(3)
        by (simp add: blake256_update_def Let_def S1_def del: drop_drop)
    qed
    ultimately show ?thesis by (simp only: jn)
  next
    case False
    then have lr: "left + n mod 64 < 64" by auto
    obtain S2 where S2: "blake_update_blocks S d (8 * n) = Some (S2, drop (n - n mod 64) d, 8 * (n mod 64))"
        "blake_core iv S2 (full_blocks 64 m @ full_blocks 64 (take n d))" "bl_buf S2 = bl_buf S"
      using blake_update_blocks_eq [OF S(1) assms(2)] by auto
    define M where "M = blake_joined m (take n d)"
    have pd: "partial_block 64 (take n d) = take (n mod 64) (drop (n - n mod 64) d)"
      using assms by (simp add: partial_block_def drop_take)
    let ?p = "if n mod 64 = 0 then [] else partial_block 64 m @ partial_block 64 (take n d)"
    have M: "M = (concat (full_blocks 64 m) @ concat (full_blocks 64 (take n d))) @ ?p"
    proof (cases "left = 0")
      case True
      then have "partial_block 64 m = []" using lp by simp
      moreover have "concat (full_blocks 64 (take n d)) = take n d" if "n mod 64 = 0"
        using concat_full_blocks [of 64 "take n d"] pd that by simp
      ultimately show ?thesis
        using True concat_full_blocks [of 64 m] concat_full_blocks [of 64 "take n d"] assms(2)
        by (simp add: M_def blake_joined_def Let_def left_def split: if_splits)
    next
      case f: False
      then have "\<not> 64 - left \<le> n mod 64" using False by simp
      then show ?thesis using f ld unfolding M_def blake_joined_def Let_def left_def by simp
    qed
    have dv: "64 dvd length (concat (full_blocks 64 m) @ concat (full_blocks 64 (take n d)))"
      using dvd_length_full_blocks [of 64 m] dvd_length_full_blocks [of 64 "take n d"] by simp
    have lp': "length ?p < 64"
      using lr lp ld by (auto simp: length_partial_block)
    have fb: "full_blocks 64 M = full_blocks 64 m @ full_blocks 64 (take n d)"
      using full_blocks_append [OF _ dv, of ?p] full_blocks_short [OF lp'] M
        full_blocks_append [of 64 "concat (full_blocks 64 m)" "concat (full_blocks 64 (take n d))"]
        dvd_length_full_blocks [of 64 m] by (simp add: full_blocks_concat)
    have pb: "partial_block 64 M = ?p"
      using partial_block_append [OF _ dv, of ?p] partial_block_id [OF lp'] M by simp
    have "n mod 64 \<le> length (drop (n - n mod 64) d)"
      using assms(2) mod_less_eq_dividend [of n 64] unfolding length_drop by linarith
    then have "\<exists>S'. (if 0 < 8 * (n mod 64)
      then do {
        buf \<leftarrow> memcpy (bl_buf S2) left (drop (n - n mod 64) d) 0 (8 * (n mod 64) div 8);
        Some (S2\<lparr>bl_buf := buf, bl_buflen := 8 * left + 8 * (n mod 64)\<rparr>)
      }
      else Some (S2\<lparr>bl_buflen := 0\<rparr>)) = Some S' \<and> blake_repr iv S' M"
      by (intro blake_update_rest) (use S S2 fb pb pd lr in simp_all)
    moreover have "blake256_update S d (8 * n) = (if 0 < 8 * (n mod 64)
      then do {
        buf \<leftarrow> memcpy (bl_buf S2) left (drop (n - n mod 64) d) 0 (8 * (n mod 64) div 8);
        Some (S2\<lparr>bl_buf := buf, bl_buflen := 8 * left + 8 * (n mod 64)\<rparr>)
      }
      else Some (S2\<lparr>bl_buflen := 0\<rparr>))"
      using S(2) False blake_fill_test [of left n] left S2(1)
      by (auto simp: blake256_update_def Let_def)
    ultimately show ?thesis by (simp only: M_def)
  qed
qed

section \<open>Finishing\<close>

lemma take_blake_padding: "k \<le> 64 \<Longrightarrow> 0 < k \<Longrightarrow> take k blake_padding = 0x80 # replicate (k - 1) 0"
  by (cases k) (simp_all add: blake_padding_def)

lemma take_drop_blake_padding: "k \<le> 63 \<Longrightarrow> take k (drop 1 blake_padding) = replicate k 0"
  by (simp add: blake_padding_def)

lemma length_U32TO8 [simp]: "length (U32TO8 v) = 4"
  by (simp add: U32TO8_def)

lemma blake_digest_words:
  "length h = 8 \<Longrightarrow> map (\<lambda>i. U32TO8 (h ! i)) [0..<8] = map U32TO8 h"
  by (elim list_of_8) (simp add: upt_8)

text \<open>The three ways a message is padded, in terms of its partial block \<open>p\<close>.\<close>

lemma blake_counter_full: "i < length m div 64 \<Longrightarrow> blake_counter (8 * length m) i = full_count i"
proof -
  assume "i < length m div 64"
  then have "64 * (i + 1) \<le> length m" by (simp add: less_eq_div_iff_mult_less_eq Suc_le_eq [symmetric] mult.commute)
  then show ?thesis by (simp add: blake_counter_def full_count_def)
qed

lemma blake_hash_ref_split:
  assumes "blake_core iv S (full_blocks 64 m)"
  shows "blake_hash_ref iv pa pb m = concat (map U32TO8
    (blake_chain (blake_counter (8 * length m)) (bl_h S) (length m div 64)
      (full_blocks 64 (partial_block 64 m @ blake_tail pa pb (length m)))))"
proof -
  have "full_blocks 64 (m @ blake_tail pa pb (length m))
      = full_blocks 64 m @ full_blocks 64 (partial_block 64 m @ blake_tail pa pb (length m))"
    by (rule full_blocks_front) simp
  moreover have "blake_chain (blake_counter (8 * length m)) iv 0 (full_blocks 64 m)
      = blake_chain full_count iv 0 (full_blocks 64 m)"
    by (rule blake_chain_cong) (simp add: length_full_blocks blake_counter_full)
  ultimately show ?thesis using assms
    by (simp add: blake_hash_ref_def blake_chain_append length_full_blocks blake_core_def)
qed

lemma blake_tail_words:
  fixes n :: nat
  defines "q \<equiv> n div 64" and "r \<equiv> n mod 64"
  shows "(of_nat (512 * q) + of_nat (8 * r) :: u32) = of_nat (8 * n)"
    and "(512 * q + 8 * r) = 8 * n"
    and "8 * n div 2 ^ 32 = 512 * q div 2 ^ 32"
    and "(of_nat (8 * n) :: u32) < of_nat (8 * r) \<longleftrightarrow> False"
    and "(of_nat (8 * n) :: u32) = 0 \<longleftrightarrow> r = 0 \<and> 2 ^ 32 dvd 512 * q"
proof -
  have n: "n = 64 * q + r" by (simp add: q_def r_def)
  have r: "r < 64" by (simp add: r_def)
  show 1: "512 * q + 8 * r = 8 * n" by (simp add: n)
  show "(of_nat (512 * q) + of_nat (8 * r) :: u32) = of_nat (8 * n)"
    unfolding 1 [symmetric] by (simp only: of_nat_add)
  define a where "a = q div 2 ^ 23"
  define b where "b = q mod 2 ^ 23"
  have q: "q = 2 ^ 23 * a + b" by (simp add: a_def b_def)
  have b: "b < 2 ^ 23" by (simp add: b_def)
  have e: "8 * n = 2 ^ 32 * a + (512 * b + 8 * r)" "512 * q = 2 ^ 32 * a + 512 * b"
    by (simp_all add: n q)
  have l: "512 * b + 8 * r < 2 ^ 32" "512 * b < 2 ^ 32" using b r by simp_all
  show "8 * n div 2 ^ 32 = 512 * q div 2 ^ 32" unfolding e using l by (simp only: div_mult_self4) simp
  have m: "8 * n mod 2 ^ 32 = 512 * b + 8 * r" "512 * q mod 2 ^ 32 = 512 * b"
    unfolding e using l by simp_all
  show "(of_nat (8 * n) :: u32) < of_nat (8 * r) \<longleftrightarrow> False"
    using m r by (simp only: word_less_nat_alt unat_of_nat) simp
  show "(of_nat (8 * n) :: u32) = 0 \<longleftrightarrow> r = 0 \<and> 2 ^ 32 dvd 512 * q"
    unfolding word32_zero_iff dvd_eq_mod_eq_0 m by auto
qed

lemma blake_compress_h:
  assumes "length (bl_h S) = 8" "bl_s S = [0, 0, 0, 0]"
  shows "bl_h (blake256_compress S b) = blake_compress_ref (bl_h S) [0, 0, 0, 0]
    (if bl_nullt S then 0 else bl_t0 S) (if bl_nullt S then 0 else bl_t1 S) b"
  using assms blake256_compress_eq [of S b] by simp

lemma blake_count_t [simp]:
  "bl_t0 (blake_count S) = bl_t0 S + 512"
  "bl_t1 (blake_count S) = (if bl_t0 S + 512 = 0 then bl_t1 S + 1 else bl_t1 S)"
  by (simp_all add: blake_count_def Let_def)

lemma length_blake_padding [simp]: "length blake_padding = 64"
  by (simp add: blake_padding_def)

text \<open>The last message byte fills byte 54 of its block: one byte of padding.\<close>

lemma blake_final_one:
  assumes S: "S = \<lparr>bl_h = h, bl_s = [0, 0, 0, 0], bl_t0 = t0, bl_t1 = t1, bl_buflen = 440,
      bl_nullt = False, bl_buf = p @ rest\<rparr>"
    and len: "length h = 8" "length p = 55" "length rest = 9"
    and t: "t0 + 440 \<noteq> 0" "\<not> t0 + 440 < 440"
  shows "\<exists>S'. blake256_final_h S pa pb = Some (S', concat (map U32TO8
    (blake_compress_ref h [0, 0, 0, 0] (t0 + 440) t1 (p @ [pa] @ U32TO8 t1 @ U32TO8 (t0 + 440)))))"
proof -
  let ?ml = "U32TO8 t1 @ U32TO8 (t0 + 440)"
  define S1 where "S1 = S\<lparr>bl_t0 := t0 - 8, bl_buf := p @ pa # drop 1 rest, bl_buflen := 448\<rparr>"
  have 1: "blake256_update (S\<lparr>bl_t0 := bl_t0 S - 8\<rparr>) [pa] 8 = Some S1"
    using blake_update_buffer [where S = "S\<lparr>bl_t0 := bl_t0 S - 8\<rparr>" and left = 55 and n = 1 and d = "[pa]"] len
    by (simp add: S S1_def)
  define S2 where "S2 = (blake256_compress (blake_count (S1\<lparr>bl_t0 := t0 - 72, bl_buf := p @ [pa] @ ?ml\<rparr>))
      (p @ [pa] @ ?ml))\<lparr>bl_buflen := 0\<rparr>"
  have 2: "blake256_update (S1\<lparr>bl_t0 := bl_t0 S1 - 64\<rparr>) ?ml 64 = Some S2"
    using blake_update_fill [where S = "S1\<lparr>bl_t0 := bl_t0 S1 - 64\<rparr>" and left = 56 and n = 8 and d = ?ml] len
    by (simp add: S1_def S2_def S Let_def)
  have "bl_h S2 = blake_compress_ref h [0, 0, 0, 0] (t0 + 440) t1 (p @ [pa] @ ?ml)"
    using len t by (simp add: S2_def blake_compress_h S1_def S add.commute [of 440])
  moreover have "blake256_final_h S pa pb = Some (S2, concat (map (\<lambda>i. U32TO8 (bl_h S2 ! i)) [0..<8]))"
    using 1 2 t by (simp add: blake256_final_h_def S Let_def)
  ultimately show ?thesis by (simp add: blake_digest_words)
qed

text \<open>The padding, the closing byte and the length fit the block.\<close>

lemma blake_final_fits:
  assumes S: "S = \<lparr>bl_h = h, bl_s = [0, 0, 0, 0], bl_t0 = t0, bl_t1 = t1, bl_buflen = 8 * r,
      bl_nullt = False, bl_buf = p @ rest\<rparr>"
    and len: "length h = 8" "length p = r" "length rest = 64 - r" "r < 55"
    and t: "0 < r \<Longrightarrow> t0 + of_nat (8 * r) \<noteq> 0" "\<not> t0 + of_nat (8 * r) < of_nat (8 * r)"
  shows "\<exists>S'. blake256_final_h S pa pb = Some (S', concat (map U32TO8
    (blake_compress_ref h [0, 0, 0, 0] (if r = 0 then 0 else t0 + of_nat (8 * r)) (if r = 0 then 0 else t1)
      (p @ [0x80] @ replicate (54 - r) 0 @ [pb] @ U32TO8 t1 @ U32TO8 (t0 + of_nat (8 * r))))))"
proof -
  let ?ml = "U32TO8 t1 @ U32TO8 (t0 + of_nat (8 * r))"
  let ?z = "[0x80] @ replicate (54 - r) 0"
  define q where "q = p @ ?z"
  have lq: "length q = 55" using len by (simp add: q_def)
  define S0 where "S0 = S\<lparr>bl_nullt := (r = 0)\<rparr>"
  define S1 where "S1 = S0\<lparr>bl_t0 := t0 - of_nat (440 - 8 * r), bl_buf := q @ drop (55 - r) rest, bl_buflen := 440\<rparr>"
  have 1: "blake256_update (S0\<lparr>bl_t0 := t0 - of_nat (440 - 8 * r)\<rparr>) blake_padding (440 - 8 * r) = Some S1"
    using blake_update_buffer [where S = "S0\<lparr>bl_t0 := t0 - of_nat (440 - 8 * r)\<rparr>" and left = r and n = "55 - r"
        and d = blake_padding] len
    by (simp add: q_def S S0_def S1_def take_blake_padding diff_mult_distrib2)
  define S2 where "S2 = S1\<lparr>bl_buf := q @ pb # drop (Suc (55 - r)) rest, bl_buflen := 448\<rparr>"
  have 2: "blake256_update S1 [pb] 8 = Some S2"
    using blake_update_buffer [where S = S1 and left = 55 and n = 1 and d = "[pb]"] len lq
    by (simp add: S S0_def S1_def S2_def)
  define S3 where "S3 = (blake256_compress (blake_count (S2\<lparr>bl_t0 := bl_t0 S2 - 72, bl_buf := q @ [pb] @ ?ml\<rparr>))
      (q @ [pb] @ ?ml))\<lparr>bl_buflen := 0\<rparr>"
  have 3: "blake256_update (S2\<lparr>bl_t0 := bl_t0 S2 - 72\<rparr>) ?ml 64 = Some S3"
    using blake_update_fill [where S = "S2\<lparr>bl_t0 := bl_t0 S2 - 72\<rparr>" and left = 56 and n = 8 and d = ?ml] len lq
    by (simp add: S0_def S1_def S2_def S3_def S Let_def)
  have tt: "t0 - of_nat (440 - 8 * r) - 72 + 512 = t0 + of_nat (8 * r)"
    using len by (simp add: of_nat_diff)
  have "bl_h S3 = blake_compress_ref h [0, 0, 0, 0] (if r = 0 then 0 else t0 + of_nat (8 * r)) (if r = 0 then 0 else t1)
      (q @ [pb] @ ?ml)"
    using len t tt by (simp add: S3_def blake_compress_h S2_def S1_def S0_def S)
  moreover have "blake256_final_h S pa pb = Some (S3, concat (map (\<lambda>i. U32TO8 (bl_h S3 ! i)) [0..<8]))"
  proof -
    have "(if bl_buflen S = 0 then S\<lparr>bl_nullt := True\<rparr> else S) = S0" by (simp add: S0_def S)
    moreover have "bl_t0 S0 = t0" "bl_buflen S0 = 8 * r" by (simp_all add: S0_def S)
    moreover have "bl_t0 S = t0" "bl_t1 S = t1" "bl_buflen S = 8 * r" by (simp_all add: S)
    ultimately show ?thesis
      using 1 2 3 t len by (simp add: blake256_final_h_def Let_def)
  qed
  ultimately show ?thesis by (simp add: blake_digest_words q_def)
qed

text \<open>The padding needs a second block, which holds no message bit.\<close>

lemma blake_final_two:
  assumes S: "S = \<lparr>bl_h = h, bl_s = [0, 0, 0, 0], bl_t0 = t0, bl_t1 = t1, bl_buflen = 8 * r,
      bl_nullt = False, bl_buf = p @ rest\<rparr>"
    and len: "length h = 8" "length p = r" "length rest = 64 - r" "55 < r" "r < 64"
    and t: "t0 + of_nat (8 * r) \<noteq> 0" "\<not> t0 + of_nat (8 * r) < of_nat (8 * r)"
  shows "\<exists>S'. blake256_final_h S pa pb = Some (S', concat (map U32TO8
    (blake_compress_ref
      (blake_compress_ref h [0, 0, 0, 0] (t0 + of_nat (8 * r)) t1 (p @ [0x80] @ replicate (63 - r) 0))
      [0, 0, 0, 0] 0 0
      (replicate 55 0 @ [pb] @ U32TO8 t1 @ U32TO8 (t0 + of_nat (8 * r))))))"
proof -
  let ?ml = "U32TO8 t1 @ U32TO8 (t0 + of_nat (8 * r))"
  let ?b1 = "p @ [0x80] @ replicate (63 - r) 0" and ?b2 = "replicate 55 0 @ [pb] @ ?ml"
  define Sa where "Sa = S\<lparr>bl_t0 := t0 - of_nat (512 - 8 * r)\<rparr>"
  define S1 where "S1 = (blake256_compress (blake_count (Sa\<lparr>bl_buf := ?b1\<rparr>)) ?b1)\<lparr>bl_buflen := 0\<rparr>"
  have 1: "blake256_update Sa blake_padding (512 - 8 * r) = Some S1"
    using blake_update_fill [where S = Sa and left = r and n = "64 - r" and d = blake_padding] len
    by (simp add: S Sa_def S1_def take_blake_padding diff_mult_distrib2 Let_def)
  have tt: "t0 - of_nat (512 - 8 * r) + 512 = t0 + of_nat (8 * r)"
    using len by (simp add: of_nat_diff)
  have S1: "bl_h S1 = blake_compress_ref h [0, 0, 0, 0] (t0 + of_nat (8 * r)) t1 ?b1"
      "bl_s S1 = [0, 0, 0, 0]" "bl_buflen S1 = 0" "bl_buf S1 = ?b1" "length (bl_h S1) = 8" "\<not> bl_nullt S1"
    using len t tt by (simp_all add: S1_def blake_compress_h Sa_def S)
  define Sb where "Sb = S1\<lparr>bl_t0 := bl_t0 S1 - 440\<rparr>"
  define S2 where "S2 = Sb\<lparr>bl_buf := replicate 55 0 @ drop 55 ?b1, bl_buflen := 440\<rparr>"
  have 2: "blake256_update Sb (drop 1 blake_padding) 440 = Some S2"
    using blake_update_buffer [where S = Sb and left = 0 and n = 55 and d = "drop 1 blake_padding"] S1 len
    by (simp add: Sb_def S2_def take_drop_blake_padding [simplified] del: drop_append append_Cons)
  define Sc where "Sc = S2\<lparr>bl_nullt := True\<rparr>"
  define S3 where "S3 = Sc\<lparr>bl_buf := replicate 55 0 @ pb # drop 56 ?b1, bl_buflen := 448\<rparr>"
  have 3: "blake256_update Sc [pb] 8 = Some S3"
    using blake_update_buffer [where S = Sc and left = 55 and n = 1 and d = "[pb]"] len
    by (simp add: Sc_def S2_def S3_def del: append_Cons)
  define S4 where "S4 = (blake256_compress (blake_count (S3\<lparr>bl_t0 := bl_t0 S3 - 72, bl_buf := ?b2\<rparr>)) ?b2)\<lparr>bl_buflen := 0\<rparr>"
  have 4: "blake256_update (S3\<lparr>bl_t0 := bl_t0 S3 - 72\<rparr>) ?ml 64 = Some S4"
    using blake_update_fill [where S = "S3\<lparr>bl_t0 := bl_t0 S3 - 72\<rparr>" and left = 56 and n = 8 and d = ?ml] len
    by (simp add: S3_def S4_def Let_def)
  have "bl_h S4 = blake_compress_ref (bl_h S1) [0, 0, 0, 0] 0 0 ?b2"
    using S1 by (simp add: S4_def blake_compress_h S3_def Sc_def S2_def Sb_def)
  moreover have "blake256_final_h S pa pb = Some (S4, concat (map (\<lambda>i. U32TO8 (bl_h S4 ! i)) [0..<8]))"
  proof -
    have "bl_t0 S = t0" "bl_t1 S = t1" "bl_buflen S = 8 * r" by (simp_all add: S)
    then show ?thesis
      using 1 [unfolded Sa_def] 2 [unfolded Sb_def] 3 [unfolded Sc_def] 4 t len
      by (simp add: blake256_final_h_def Let_def)
  qed
  ultimately show ?thesis using S1(1) by (simp add: blake_digest_words)
qed

lemma blake_repr_cases:
  assumes "blake_repr iv S m"
  defines "q \<equiv> length m div 64" and "r \<equiv> length m mod 64"
  obtains h rest where
    "S = \<lparr>bl_h = h, bl_s = [0, 0, 0, 0], bl_t0 = of_nat (512 * q), bl_t1 = of_nat (512 * q div 2 ^ 32),
      bl_buflen = 8 * r, bl_nullt = False, bl_buf = partial_block 64 m @ rest\<rparr>"
    and "length h = 8" "length rest = 64 - r" "blake_core iv S (full_blocks 64 m)"
proof (rule that)
  have r: "take r (bl_buf S) = partial_block 64 m" and l: "length (bl_buf S) = 64"
    and c: "blake_core iv S (full_blocks 64 m)"
    using assms by (simp_all add: blake_repr_def)
  then have "bl_buf S = partial_block 64 m @ drop r (bl_buf S)" by (metis append_take_drop_id)
  then show "S = \<lparr>bl_h = bl_h S, bl_s = [0, 0, 0, 0], bl_t0 = of_nat (512 * q), bl_t1 = of_nat (512 * q div 2 ^ 32),
      bl_buflen = 8 * r, bl_nullt = False, bl_buf = partial_block 64 m @ drop r (bl_buf S)\<rparr>"
    using assms unfolding blake_repr_def blake_core_def length_full_blocks by (cases S) simp
  show "length (bl_h S) = 8" using c by (simp add: blake_core_def length_blake_chain)
  show "length (drop r (bl_buf S)) = 64 - r" using l by simp
  show "blake_core iv S (full_blocks 64 m)" by (rule c)
qed

lemma blake_final_eq:
  assumes "blake_repr iv S m"
  shows "\<exists>S'. blake256_final_h S pa pb = Some (S', blake_hash_ref iv pa pb m)"
proof -
  define n where "n = length m"
  define q where "q = n div 64"
  define r where "r = n mod 64"
  define p where "p = partial_block 64 m"
  define t0 :: u32 where "t0 = of_nat (512 * q)"
  define t1 :: u32 where "t1 = of_nat (512 * q div 2 ^ 32)"
  obtain h rest where S: "S = \<lparr>bl_h = h, bl_s = [0, 0, 0, 0], bl_t0 = t0, bl_t1 = t1,
      bl_buflen = 8 * r, bl_nullt = False, bl_buf = p @ rest\<rparr>"
    and len: "length h = 8" "length rest = 64 - r" and core: "blake_core iv S (full_blocks 64 m)"
    using blake_repr_cases [OF assms] unfolding n_def q_def r_def p_def t0_def t1_def by metis
  have lp: "length p = r" by (simp add: p_def r_def n_def length_partial_block)
  have r: "r < 64" by (simp add: r_def)
  have n: "n = 64 * q + r" by (simp add: q_def r_def)
  note w = blake_tail_words [of n, folded q_def r_def]
  have ml: "U32TO8 t1 @ U32TO8 (t0 + of_nat (8 * r)) = be_bytes 8 (8 * n)"
    using be_bytes_append [of 4 4 "8 * n"] unfolding t0_def t1_def w(1) w(3) [symmetric] U32TO8_be by simp
  have nz: "t0 + of_nat (8 * r) \<noteq> 0" if "0 < r" using w(5) that unfolding t0_def w(1) by simp
  have nl: "\<not> t0 + of_nat (8 * r) < of_nat (8 * r)" using w(4) unfolding t0_def w(1) by simp
  have cq: "of_nat (blake_counter (8 * n) q) = (if r = 0 then 0 else t0 + of_nat (8 * r))"
    "of_nat (blake_counter (8 * n) q div 2 ^ 32) = (if r = 0 then 0 else t1)"
  proof -
    have "blake_counter (8 * n) q = (if r = 0 then 0 else 8 * n)"
      using r by (simp add: blake_counter_def n)
    then show "of_nat (blake_counter (8 * n) q) = (if r = 0 then 0 else t0 + of_nat (8 * r))"
      "of_nat (blake_counter (8 * n) q div 2 ^ 32) = (if r = 0 then 0 else t1)"
      by (simp_all only: t0_def t1_def w(1) w(3) split: if_split) simp_all
  qed
  have cq1: "blake_counter (8 * n) (Suc q) = 0" using r by (simp add: blake_counter_def n)
  have ref: "blake_hash_ref iv pa pb m = concat (map U32TO8
      (blake_chain (blake_counter (8 * n)) h q (full_blocks 64 (p @ blake_tail pa pb n))))"
    using blake_hash_ref_split [OF core, of pa pb] by (simp add: n_def q_def p_def S)
  consider "r = 55" | "r < 55" | "55 < r" by linarith
  then show ?thesis
  proof cases
    case 1
    have t: "blake_tail pa pb n = [pa] @ be_bytes 8 (8 * n)"
      using 1 by (simp add: blake_tail_def flip: r_def)
    have "full_blocks 64 (p @ blake_tail pa pb n) = [p @ [pa] @ be_bytes 8 (8 * n)]"
      unfolding t by (rule full_blocks_single) (use 1 lp in simp_all)
    then show ?thesis
      using blake_final_one [of S h t0 t1 p rest pa pb] S len lp 1 nz nl ml ref cq by simp
  next
    case 2
    have "(118 - r) mod 64 = 54 - r"
    proof -
      have "118 - r = 64 + (54 - r)" using 2 by simp
      then show ?thesis by (simp only: mod_add_self1) simp
    qed
    then have t: "blake_tail pa pb n = [0x80] @ replicate (54 - r) 0 @ [pb] @ be_bytes 8 (8 * n)"
      using 2 by (simp add: blake_tail_def flip: r_def)
    have "full_blocks 64 (p @ blake_tail pa pb n) = [p @ [0x80] @ replicate (54 - r) 0 @ [pb] @ be_bytes 8 (8 * n)]"
      unfolding t by (rule full_blocks_single) (use 2 lp in simp_all)
    then show ?thesis
      using blake_final_fits [of S h t0 t1 r p rest pa pb, OF S len(1) lp len(2) 2 nz nl] ml ref cq
      by simp
  next
    case 3
    have "118 - r = (63 - r) + 55" "(63 - r) + 55 < 64" using 3 r by simp_all
    then have "(118 - r) mod 64 = (63 - r) + 55" by (simp only: mod_less)
    moreover have "r \<noteq> 55" using 3 by simp
    ultimately have t: "blake_tail pa pb n
        = ([0x80] @ replicate (63 - r) 0) @ replicate 55 0 @ [pb] @ be_bytes 8 (8 * n)"
      by (simp only: blake_tail_def r_def [symmetric] replicate_add if_False append_assoc)
    have "full_blocks 64 (p @ blake_tail pa pb n)
        = [p @ [0x80] @ replicate (63 - r) 0, replicate 55 0 @ [pb] @ be_bytes 8 (8 * n)]"
      using full_blocks_step [of 64 "p @ [0x80] @ replicate (63 - r) 0"] 3 r lp
        full_blocks_single [of 64 "replicate 55 0 @ [pb] @ be_bytes 8 (8 * n)"]
      unfolding t by simp
    then show ?thesis
      using blake_final_two [of S h t0 t1 r p rest pa pb, OF S len(1) lp len(2) 3 r nz nl] 3 ml ref cq cq1
      by simp
  qed
qed

section \<open>The interface\<close>

definition blake_ready :: "blake_state \<Rightarrow> bool" where
  "blake_ready S \<longleftrightarrow> length (bl_buf S) = 64"

interpretation b256: stream_hash blake256_init blake256_update blake256_final blake_ready
  "blake_repr blake256_iv" 64 "\<lambda>_. True" "blake_hash_ref blake256_iv 0x81 0x01"
proof (unfold_locales, goal_cases)
  case (1 S)
  then show ?case by (simp add: blake256_init_def blake_init_repr blake_ready_def blake256_iv_def)
next
  case (2 S m n d)
  then show ?case using blake_update_eq [of blake256_iv S m n d] by (simp add: blake_joined_empty)
next
  case (3 S m)
  then show ?case by (simp add: blake256_final_def blake_final_eq)
qed

interpretation b224: stream_hash blake224_init blake224_update blake224_final blake_ready
  "blake_repr blake224_iv" 64 "\<lambda>_. True" "blake_hash_ref blake224_iv 0x80 0x00"
proof (unfold_locales, goal_cases)
  case (1 S)
  then show ?case by (simp add: blake224_init_def blake_init_repr blake_ready_def blake224_iv_def)
next
  case (2 S m n d)
  then show ?case
    using blake_update_eq [of blake224_iv S m n d] by (simp add: blake224_update_def blake_joined_empty)
next
  case (3 S m)
  then show ?case by (simp add: blake224_final_def blake_final_eq)
qed

lemma blake_hashes_eq:
  assumes "blake_ready S" "inlen \<le> length inp" "8 * inlen < 2 ^ 64"
  shows "blake256_hash S inp inlen = Some (blake_hash_ref blake256_iv 0x81 0x01 (take inlen inp))"
    and "blake224_hash S inp inlen = Some (blake_hash_ref blake224_iv 0x80 0x00 (take inlen inp))"
proof -
  have r: "blake_ready S" and n: "(inlen * 8) mod 2 ^ 64 = 8 * inlen"
    using assms by (simp_all add: blake_ready_def mult.commute)
  show "blake256_hash S inp inlen = Some (blake_hash_ref blake256_iv 0x81 0x01 (take inlen inp))"
    by (rule b256.one_shot [OF r assms(2) TrueI]) (simp only: blake256_hash_def n bind.bind_lunit prod.case)
  show "blake224_hash S inp inlen = Some (blake_hash_ref blake224_iv 0x80 0x00 (take inlen inp))"
    by (rule b224.one_shot [OF r assms(2) TrueI]) (simp only: blake224_hash_def n bind.bind_lunit prod.case)
qed

lemma length_blake_hash_ref: "length iv = 8 \<Longrightarrow> length (blake_hash_ref iv pa pb m) = 32"
  by (simp add: blake_hash_ref_def length_concat o_def length_blake_chain sum_list_triv)

section \<open>Properties\<close>

text \<open>
  C17. The one-shot hashes return, for every message shorter than \<open>2 ^ 61\<close> bytes and whatever the
  uninitialised state held, BLAKE-256 and (in their first 28 bytes) BLAKE-224 of the message: the
  blocks of the padded message compressed in order, each with the counter of the specification.
\<close>

theorem blake_hashes_are_blake:
  assumes "length (bl_buf S) = 64" "inlen \<le> length inp" "8 * inlen < 2 ^ 64"
  shows "blake256_hash S inp inlen = Some (blake_hash_ref blake256_iv 0x81 0x01 (take inlen inp)) \<and>
    blake224_hash S inp inlen = Some (blake_hash_ref blake224_iv 0x80 0x00 (take inlen inp))"
  using blake_hashes_eq [of S inlen inp] assms by (simp add: blake_ready_def)

definition blank_state :: blake_state where
  "blank_state = \<lparr>bl_h = replicate 8 5, bl_s = replicate 4 5, bl_t0 = 5, bl_t1 = 5, bl_buflen = 5,
     bl_nullt = True, bl_buf = replicate 64 5\<rparr>"

theorem blake_hashes_are_blake_witness:
  "blake256_hash blank_state [0] 1 = Some (blake_hash_ref blake256_iv 0x81 0x01 [0]) \<and>
   blake224_hash blank_state [0] 1 = Some (blake_hash_ref blake224_iv 0x80 0x00 [0])"
  using blake_hashes_are_blake [of blank_state 1 "[0]"] by (simp add: blank_state_def)

text \<open>
  The compression function, written over one array with the diagonals in another order, is the
  function of the specification on columns and diagonals, with the counter left out under \<open>nullt\<close>.
\<close>

theorem blake256_compress_is_reference:
  assumes "length (bl_h S) = 8" "length (bl_s S) = 4"
  shows "blake256_compress S blk = S\<lparr>bl_h := blake_compress_ref (bl_h S) (bl_s S)
      (if bl_nullt S then 0 else bl_t0 S) (if bl_nullt S then 0 else bl_t1 S) blk\<rparr>"
  using assms by (rule blake256_compress_eq)

theorem blake256_compress_is_reference_witness:
  "bl_h (blake256_compress blank_state (replicate 64 9))
    = blake_compress_ref (replicate 8 5) (replicate 4 5) 0 0 (replicate 64 9)"
  using blake256_compress_is_reference [of blank_state "replicate 64 9"] by (simp add: blank_state_def)

text \<open>
  What \<open>blake256_update\<close> makes of a state that stands for \<open>m\<close>, for every length: the state
  stands for \<open>m\<close> followed by the data when the buffer is empty, when the data fits it, and when the
  length modulo a block reaches its end; otherwise for the message \<open>blake_joined\<close> describes.
\<close>

theorem blake256_update_joined:
  assumes "blake_repr iv S m" "n \<le> length d"
  shows "\<exists>S'. blake256_update S d (8 * n) = Some S' \<and> blake_repr iv S' (blake_joined m (take n d))"
  using assms by (rule blake_update_eq)

theorem blake256_update_joined_witness:
  "\<exists>S'. blake256_update (blake256_init blank_state) [1, 2, 3] (8 * 2) = Some S' \<and>
     blake_repr blake256_iv S' [1, 2]"
  using blake256_update_joined [of blake256_iv "blake256_init blank_state" "[]" 2 "[1, 2, 3]"]
    blake_init_repr [of blank_state blake256_iv]
  by (simp add: blank_state_def blake256_init_def blake256_iv_def blake_joined_empty)

text \<open>
  Whole blocks given to a state with a partly filled buffer: the buffered bytes are lost, and
  the state is that of a message without them.
\<close>

theorem blake256_update_loses_buffer:
  assumes "blake_repr iv S (a @ b)" "64 dvd length a" "b \<noteq> []" "length b < 64"
    and "64 dvd n" "n \<le> length d"
  shows "\<exists>S'. blake256_update S d (8 * n) = Some S' \<and> blake_repr iv S' (a @ take n d)"
proof -
  have "full_blocks 64 (a @ b) = full_blocks 64 a" "partial_block 64 a = []"
    using assms by (simp_all add: full_blocks_append full_blocks_short partial_block_def dvd_eq_mod_eq_0)
  then have "concat (full_blocks 64 (a @ b)) = a" using concat_full_blocks [of 64 a] by simp
  moreover have "partial_block 64 (take n d) = []"
    using assms by (simp add: partial_block_def dvd_eq_mod_eq_0)
  then have "concat (full_blocks 64 (take n d)) = take n d" using concat_full_blocks [of 64 "take n d"] by simp
  moreover have "length (a @ b) mod 64 = length b" using assms by (auto elim!: dvdE)
  ultimately have "blake_joined (a @ b) (take n d) = a @ take n d"
    using assms by (simp add: blake_joined_def Let_def dvd_eq_mod_eq_0)
  then show ?thesis using blake_update_eq [OF assms(1,6)] by simp
qed

definition one_byte_in :: blake_state where
  "one_byte_in = \<lparr>bl_h = blake256_iv, bl_s = [0, 0, 0, 0], bl_t0 = 0, bl_t1 = 0, bl_buflen = 8,
     bl_nullt = False, bl_buf = 7 # replicate 63 0\<rparr>"

lemma one_byte_in_repr: "blake_repr blake256_iv one_byte_in [7]"
  by (simp add: blake_repr_def blake_core_def one_byte_in_def blake256_iv_def full_blocks_short partial_block_def)

theorem blake256_update_loses_buffer_witness:
  "blake256_update (blake256_init blank_state) [7] 8 \<noteq> None \<and> blake_repr blake256_iv one_byte_in [7] \<and>
   (\<exists>S'. blake256_update one_byte_in (replicate 64 1) (8 * 64) = Some S' \<and>
      blake_repr blake256_iv S' (replicate 64 1))"
proof -
  have "blake256_update (blake256_init blank_state) [7] (8 * 1) \<noteq> None"
    by (subst blake_update_buffer [where left = 0]) (simp_all add: blake256_init_def blake_init_def blank_state_def)
  then show ?thesis
    using one_byte_in_repr
      blake256_update_loses_buffer [of blake256_iv one_byte_in "[]" "[7]" 64 "replicate 64 1"]
    by simp
qed

end
