(* ===== verification/Hmac_Blake.thy ===== *)
theory Hmac_Blake
  imports Blake256
begin

text \<open>
  The keyed hashes at the end of \<open>src/src/crypto/c_blake256.c\<close>. The reference is HMAC of
  RFC 2104 over an arbitrary hash and a key of at most one block.
\<close>

section \<open>The code\<close>

record hmac_state =
  hm_inner :: blake_state
  hm_outer :: blake_state

text \<open>\<open>for (i = 0; i < keylen; ++i) pad[i] ^= key[i]\<close>\<close>

fun hmac_xor_key :: "bytes \<Rightarrow> bytes \<Rightarrow> nat list \<Rightarrow> bytes option" where
  "hmac_xor_key pad key [] = Some pad"
| "hmac_xor_key pad key (i # is) =
     do {
       p \<leftarrow> get_at pad i;
       k \<leftarrow> get_at key i;
       pad \<leftarrow> put_at pad i (p XOR k);
       hmac_xor_key pad key is
     }"

text \<open>
  \<open>L\<close> is the uninitialised local state of the nested \<open>blake256_hash\<close>, \<open>pad\<close> the
  uninitialised pad. The key buffer that is cleared at the end is local and not returned.
\<close>

definition hmac_blake256_init ::
  "blake_state \<Rightarrow> bytes \<Rightarrow> hmac_state \<Rightarrow> bytes \<Rightarrow> nat \<Rightarrow> hmac_state option" where
  "hmac_blake256_init L pad S key keylen =
    do {
      (key, keylen) \<leftarrow>
        (if 64 < keylen
         then do { keyhash \<leftarrow> blake256_hash L key keylen; Some (keyhash, 32) }
         else Some (key, keylen));
      let inner = blake256_init (hm_inner S);
      pad \<leftarrow> memset pad 0 0x36 64;
      pad \<leftarrow> hmac_xor_key pad key [0..<keylen];
      inner \<leftarrow> blake256_update inner pad 512;
      let outer = blake256_init (hm_outer S);
      pad \<leftarrow> memset pad 0 0x5c 64;
      pad \<leftarrow> hmac_xor_key pad key [0..<keylen];
      outer \<leftarrow> blake256_update outer pad 512;
      Some \<lparr>hm_inner = inner, hm_outer = outer\<rparr>
    }"

definition hmac_blake224_init ::
  "blake_state \<Rightarrow> bytes \<Rightarrow> hmac_state \<Rightarrow> bytes \<Rightarrow> nat \<Rightarrow> hmac_state option" where
  "hmac_blake224_init L pad S key keylen =
    do {
      (key, keylen) \<leftarrow>
        (if 64 < keylen
         then do { keyhash \<leftarrow> blake256_hash L key keylen; Some (keyhash, 28) }
         else Some (key, keylen));
      let inner = blake224_init (hm_inner S);
      pad \<leftarrow> memset pad 0 0x36 64;
      pad \<leftarrow> hmac_xor_key pad key [0..<keylen];
      inner \<leftarrow> blake224_update inner pad 512;
      let outer = blake224_init (hm_outer S);
      pad \<leftarrow> memset pad 0 0x5c 64;
      pad \<leftarrow> hmac_xor_key pad key [0..<keylen];
      outer \<leftarrow> blake224_update outer pad 512;
      Some \<lparr>hm_inner = inner, hm_outer = outer\<rparr>
    }"

definition hmac_blake256_update :: "hmac_state \<Rightarrow> bytes \<Rightarrow> nat \<Rightarrow> hmac_state option" where
  "hmac_blake256_update S data datalen =
    do { inner \<leftarrow> blake256_update (hm_inner S) data datalen; Some (S\<lparr>hm_inner := inner\<rparr>) }"

definition hmac_blake224_update :: "hmac_state \<Rightarrow> bytes \<Rightarrow> nat \<Rightarrow> hmac_state option" where
  "hmac_blake224_update S data datalen =
    do { inner \<leftarrow> blake224_update (hm_inner S) data datalen; Some (S\<lparr>hm_inner := inner\<rparr>) }"

definition hmac_blake256_final :: "hmac_state \<Rightarrow> (hmac_state \<times> bytes) option" where
  "hmac_blake256_final S =
    do {
      (inner, ihash) \<leftarrow> blake256_final (hm_inner S);
      outer \<leftarrow> blake256_update (hm_outer S) ihash 256;
      (outer, digest) \<leftarrow> blake256_final outer;
      Some (\<lparr>hm_inner = inner, hm_outer = outer\<rparr>, digest)
    }"

definition hmac_blake224_final :: "hmac_state \<Rightarrow> (hmac_state \<times> bytes) option" where
  "hmac_blake224_final S =
    do {
      (inner, ihash) \<leftarrow> blake224_final (hm_inner S);
      outer \<leftarrow> blake224_update (hm_outer S) ihash 224;
      (outer, digest) \<leftarrow> blake224_final outer;
      Some (\<lparr>hm_inner = inner, hm_outer = outer\<rparr>, digest)
    }"

definition hmac_blake256_hash ::
  "blake_state \<Rightarrow> bytes \<Rightarrow> hmac_state \<Rightarrow> bytes \<Rightarrow> nat \<Rightarrow> bytes \<Rightarrow> nat \<Rightarrow> bytes option" where
  "hmac_blake256_hash L pad S key keylen inp inlen =
    do {
      S \<leftarrow> hmac_blake256_init L pad S key keylen;
      S \<leftarrow> hmac_blake256_update S inp ((inlen * 8) mod 2 ^ 64);
      (S, out) \<leftarrow> hmac_blake256_final S;
      Some out
    }"

definition hmac_blake224_hash ::
  "blake_state \<Rightarrow> bytes \<Rightarrow> hmac_state \<Rightarrow> bytes \<Rightarrow> nat \<Rightarrow> bytes \<Rightarrow> nat \<Rightarrow> bytes option" where
  "hmac_blake224_hash L pad S key keylen inp inlen =
    do {
      S \<leftarrow> hmac_blake224_init L pad S key keylen;
      S \<leftarrow> hmac_blake224_update S inp ((inlen * 8) mod 2 ^ 64);
      (S, out) \<leftarrow> hmac_blake224_final S;
      Some out
    }"

section \<open>Reference\<close>

text \<open>A key of at most 64 bytes, filled with zeros to a block and combined with a pad byte.\<close>

definition hmac_key_pad :: "u8 \<Rightarrow> bytes \<Rightarrow> bytes" where
  "hmac_key_pad c key = map ((XOR) c) (key @ replicate (64 - length key) 0)"

definition hmac_ref :: "(bytes \<Rightarrow> bytes) \<Rightarrow> bytes \<Rightarrow> bytes \<Rightarrow> bytes" where
  "hmac_ref H key msg = H (hmac_key_pad 0x5c key @ H (hmac_key_pad 0x36 key @ msg))"

section \<open>The code is HMAC\<close>

lemma length_hmac_key_pad: "length key \<le> 64 \<Longrightarrow> length (hmac_key_pad c key) = 64"
  by (simp add: hmac_key_pad_def)

lemma hmac_xor_key_prefix:
  "i \<le> n \<Longrightarrow> n \<le> length key \<Longrightarrow> n \<le> length rest + i \<Longrightarrow>
   hmac_xor_key (map ((XOR) c) (take i key) @ replicate (length rest) c) key [i..<n]
    = Some (map ((XOR) c) (take n key) @ replicate (length rest + i - n) c)"
proof (induction "n - i" arbitrary: i rest)
  case 0
  then show ?case by simp
next
  case (Suc k)
  then have i: "i < n" by simp
  then obtain x r where rest: "rest = x # r" using Suc.prems by (cases rest) auto
  have "(map ((XOR) c) (take i key) @ replicate (length rest) c)[i := c XOR key ! i]
      = map ((XOR) c) (take (Suc i) key) @ replicate (length r) c"
    using i Suc.prems by (simp add: rest list_update_append take_Suc_conv_app_nth)
  moreover have "hmac_xor_key (map ((XOR) c) (take (Suc i) key) @ replicate (length r) c) key [Suc i..<n]
      = Some (map ((XOR) c) (take n key) @ replicate (length r + Suc i - n) c)"
    by (rule Suc.hyps) (use Suc.hyps(2) i Suc.prems rest in auto)
  ultimately show ?case
    using i Suc.prems
    by (simp add: upt_conv_Cons get_at_def put_at_def nth_append rest del: upt_Suc)
qed

lemma hmac_pad_eq:
  assumes "length pad = 64" "keylen \<le> 64" "keylen \<le> length key"
  shows "memset pad 0 c 64 = Some (replicate 64 c)"
    and "hmac_xor_key (replicate 64 c) key [0..<keylen] = Some (hmac_key_pad c (take keylen key))"
  using hmac_xor_key_prefix [of 0 keylen key "replicate 64 ()" c] assms
  by (simp_all add: memset_Some hmac_key_pad_def)

text \<open>The key the code uses: a long key is hashed with BLAKE-256 and cut to \<open>n\<close> bytes.\<close>

definition hmac_short_key :: "nat \<Rightarrow> bytes \<Rightarrow> bytes" where
  "hmac_short_key n key =
    (if 64 < length key then take n (blake_hash_ref blake256_iv 0x81 0x01 key) else key)"

context stream_hash
begin

text \<open>The calls of a keyed hash: pads of whole blocks, one message, \<open>k\<close> bytes of the inner digest.\<close>

lemma keyed:
  assumes "ready Si" "ready So" "block dvd length ip" "block dvd length op" "n \<le> length d"
    and "\<And>m. k \<le> length (digest m)" "\<And>n. admits n"
  obtains I1 O1 I2 I3 O2 O3 where
    "upd (init Si) ip (8 * length ip) = Some I1" "upd (init So) op (8 * length op) = Some O1"
    "upd I1 d (8 * n) = Some I2" "fin I2 = Some (I3, digest (ip @ take n d))"
    "upd O1 (digest (ip @ take n d)) (8 * k) = Some O2"
    "fin O2 = Some (O3, digest (op @ take k (digest (ip @ take n d))))"
proof -
  obtain I1 where I1: "upd (init Si) ip (8 * length ip) = Some I1" "stands I1 ip"
    and I2: "\<And>d n. n \<le> length d \<Longrightarrow> admits n \<Longrightarrow> \<exists>S2 S3. upd I1 d (8 * n) = Some S2 \<and> stands S2 (ip @ take n d) \<and>
      fin S2 = Some (S3, digest (ip @ take n d))"
    using prefixed [OF assms(1,3) assms(7)] by blast
  obtain O1 where O1: "upd (init So) op (8 * length op) = Some O1" "stands O1 op"
    and O2: "\<And>d n. n \<le> length d \<Longrightarrow> admits n \<Longrightarrow> \<exists>S2 S3. upd O1 d (8 * n) = Some S2 \<and> stands S2 (op @ take n d) \<and>
      fin S2 = Some (S3, digest (op @ take n d))"
    using prefixed [OF assms(2,4) assms(7)] by blast
  show thesis using I1(1) O1(1) I2 [OF assms(5,7)] O2 [OF assms(6,7)] that by blast
qed

end

lemma hmac_blake256_eq:
  assumes "blake_ready L" "blake_ready (hm_inner S)" "blake_ready (hm_outer S)" "length pad = 64"
    and "keylen \<le> length key" "8 * keylen < 2 ^ 64" "inlen \<le> length inp" "8 * inlen < 2 ^ 64"
  shows "hmac_blake256_hash L pad S key keylen inp inlen
    = Some (hmac_ref (blake_hash_ref blake256_iv 0x81 0x01) (hmac_short_key 32 (take keylen key)) (take inlen inp))"
proof -
  let ?H = "blake_hash_ref blake256_iv 0x81 0x01"
  define K where "K = hmac_short_key 32 (take keylen key)"
  define key' where "key' = (if 64 < keylen then ?H (take keylen key) else key)"
  define n' where "n' = (if 64 < keylen then 32 else keylen)"
  have H: "length (?H m) = 32" for m by (rule length_blake_hash_ref) (simp add: blake256_iv_def)
  have k: "(if 64 < keylen
         then do { keyhash \<leftarrow> blake256_hash L key keylen; Some (keyhash, 32) }
         else Some (key, keylen)) = Some (key', n')"
    using blake_hashes_eq(1) [of L keylen key] assms by (simp add: key'_def n'_def)
  have n': "n' \<le> 64" "n' \<le> length key'" using assms H by (auto simp: n'_def key'_def)
  have K: "take n' key' = K" using assms H by (simp add: K_def hmac_short_key_def n'_def key'_def)
  have lK: "length K \<le> 64" using n' by (simp flip: K)
  have m: "memset p 0 c 64 = Some (replicate 64 c)" if "length p = 64" for p and c :: u8
    using hmac_pad_eq(1) [OF that n'] .
  have x: "hmac_xor_key (replicate 64 c) key' [0..<n'] = Some (hmac_key_pad c K)" for c
    using hmac_pad_eq(2) [OF assms(4) n'] by (simp add: K)
  have l: "length (hmac_key_pad c K) = 64" for c using lK by (rule length_hmac_key_pad)
  obtain I1 O1 I2 I3 O2 O3 where calls:
    "blake256_update (blake256_init (hm_inner S)) (hmac_key_pad 0x36 K) 512 = Some I1"
    "blake256_update (blake256_init (hm_outer S)) (hmac_key_pad 0x5c K) 512 = Some O1"
    "blake256_update I1 inp (8 * inlen) = Some I2"
    "blake256_final I2 = Some (I3, ?H (hmac_key_pad 0x36 K @ take inlen inp))"
    "blake256_update O1 (?H (hmac_key_pad 0x36 K @ take inlen inp)) 256 = Some O2"
    "blake256_final O2 = Some (O3, hmac_ref ?H K (take inlen inp))"
    by (rule b256.keyed [OF assms(2,3) _ _ assms(7), of "hmac_key_pad 0x36 K" "hmac_key_pad 0x5c K" 32])
      (use that l H in \<open>simp_all add: hmac_ref_def\<close>)
  have "(inlen * 8) mod 2 ^ 64 = 8 * inlen" using assms by (simp add: mult.commute)
  then show ?thesis
    unfolding hmac_blake256_hash_def hmac_blake256_init_def hmac_blake256_update_def
      hmac_blake256_final_def k
    by (simp add: m x l assms calls flip: K_def)
qed

lemma hmac_blake224_eq:
  assumes "blake_ready L" "blake_ready (hm_inner S)" "blake_ready (hm_outer S)" "length pad = 64"
    and "keylen \<le> length key" "8 * keylen < 2 ^ 64" "inlen \<le> length inp" "8 * inlen < 2 ^ 64"
  shows "\<exists>out. hmac_blake224_hash L pad S key keylen inp inlen = Some out \<and> length out = 32 \<and> take 28 out
    = hmac_ref (\<lambda>m. take 28 (blake_hash_ref blake224_iv 0x80 0x00 m)) (hmac_short_key 28 (take keylen key)) (take inlen inp)"
proof -
  let ?H = "blake_hash_ref blake224_iv 0x80 0x00" and ?K = "blake_hash_ref blake256_iv 0x81 0x01"
  define K where "K = hmac_short_key 28 (take keylen key)"
  define key' where "key' = (if 64 < keylen then ?K (take keylen key) else key)"
  define n' where "n' = (if 64 < keylen then 28 else keylen)"
  have H: "length (?H m) = 32" "length (?K m) = 32" for m
    by (rule length_blake_hash_ref; simp add: blake256_iv_def blake224_iv_def)+
  have k: "(if 64 < keylen
         then do { keyhash \<leftarrow> blake256_hash L key keylen; Some (keyhash, 28) }
         else Some (key, keylen)) = Some (key', n')"
    using blake_hashes_eq(1) [of L keylen key] assms by (simp add: key'_def n'_def)
  have n': "n' \<le> 64" "n' \<le> length key'" using assms H by (auto simp: n'_def key'_def)
  have K: "take n' key' = K" using assms H by (simp add: K_def hmac_short_key_def n'_def key'_def)
  have lK: "length K \<le> 64" using n' by (simp flip: K)
  have m: "memset p 0 c 64 = Some (replicate 64 c)" if "length p = 64" for p and c :: u8
    using hmac_pad_eq(1) [OF that n'] .
  have x: "hmac_xor_key (replicate 64 c) key' [0..<n'] = Some (hmac_key_pad c K)" for c
    using hmac_pad_eq(2) [OF assms(4) n'] by (simp add: K)
  have l: "length (hmac_key_pad c K) = 64" for c using lK by (rule length_hmac_key_pad)
  obtain I1 O1 I2 I3 O2 O3 where calls:
    "blake224_update (blake224_init (hm_inner S)) (hmac_key_pad 0x36 K) 512 = Some I1"
    "blake224_update (blake224_init (hm_outer S)) (hmac_key_pad 0x5c K) 512 = Some O1"
    "blake224_update I1 inp (8 * inlen) = Some I2"
    "blake224_final I2 = Some (I3, ?H (hmac_key_pad 0x36 K @ take inlen inp))"
    "blake224_update O1 (?H (hmac_key_pad 0x36 K @ take inlen inp)) 224 = Some O2"
    "blake224_final O2 = Some (O3, ?H (hmac_key_pad 0x5c K @ take 28 (?H (hmac_key_pad 0x36 K @ take inlen inp))))"
    by (rule b224.keyed [OF assms(2,3) _ _ assms(7), of "hmac_key_pad 0x36 K" "hmac_key_pad 0x5c K" 28])
      (use that l H in \<open>simp_all add: hmac_ref_def\<close>)
  have "(inlen * 8) mod 2 ^ 64 = 8 * inlen" using assms by (simp add: mult.commute)
  then show ?thesis
    unfolding hmac_blake224_hash_def hmac_blake224_init_def hmac_blake224_update_def
      hmac_blake224_final_def k
    by (simp add: m x l assms calls H hmac_ref_def flip: K_def)
qed

section \<open>Properties\<close>

text \<open>
  \<open>hmac_blake256_hash\<close> is HMAC (RFC 2104) over BLAKE-256 for every key and message, keys longer
  than a block being replaced by their BLAKE-256 hash.
\<close>

theorem hmac_blake256_is_hmac:
  assumes "blake_ready L" "blake_ready (hm_inner S)" "blake_ready (hm_outer S)" "length pad = 64"
    and "keylen \<le> length key" "8 * keylen < 2 ^ 64" "inlen \<le> length inp" "8 * inlen < 2 ^ 64"
  shows "hmac_blake256_hash L pad S key keylen inp inlen
    = Some (hmac_ref (blake_hash_ref blake256_iv 0x81 0x01) (hmac_short_key 32 (take keylen key)) (take inlen inp))"
  using assms by (rule hmac_blake256_eq)

theorem hmac_blake256_is_hmac_witness:
  "hmac_blake256_hash blank_state (replicate 64 3) \<lparr>hm_inner = blank_state, hm_outer = blank_state\<rparr>
     [1, 2, 3] 3 [4, 5] 2
    = Some (hmac_ref (blake_hash_ref blake256_iv 0x81 0x01) [1, 2, 3] [4, 5])"
  using hmac_blake256_is_hmac [of blank_state "\<lparr>hm_inner = blank_state, hm_outer = blank_state\<rparr>"
      "replicate 64 3" 3 "[1, 2, 3]" 2 "[4, 5]"]
  by (simp add: blake_ready_def blank_state_def hmac_short_key_def)

text \<open>
  \<open>hmac_blake224_hash\<close> writes 32 bytes, whose first 28 are HMAC over BLAKE-224 for a key of at
  most a block; a longer key is replaced by the first 28 bytes of its BLAKE-256 hash, not by its
  BLAKE-224 hash as the construction has it.
\<close>

theorem hmac_blake224_keys:
  assumes "blake_ready L" "blake_ready (hm_inner S)" "blake_ready (hm_outer S)" "length pad = 64"
    and "keylen \<le> length key" "8 * keylen < 2 ^ 64" "inlen \<le> length inp" "8 * inlen < 2 ^ 64"
  shows "\<exists>out. hmac_blake224_hash L pad S key keylen inp inlen = Some out \<and> length out = 32 \<and> take 28 out
    = hmac_ref (\<lambda>m. take 28 (blake_hash_ref blake224_iv 0x80 0x00 m)) (hmac_short_key 28 (take keylen key)) (take inlen inp)"
  using assms by (rule hmac_blake224_eq)

theorem hmac_blake224_keys_witness:
  "\<exists>out. hmac_blake224_hash blank_state (replicate 64 3) \<lparr>hm_inner = blank_state, hm_outer = blank_state\<rparr>
     (replicate 65 1) 65 [4, 5] 2 = Some out \<and> take 28 out
    = hmac_ref (\<lambda>m. take 28 (blake_hash_ref blake224_iv 0x80 0x00 m))
        (take 28 (blake_hash_ref blake256_iv 0x81 0x01 (replicate 65 1))) [4, 5]"
  using hmac_blake224_keys [of blank_state "\<lparr>hm_inner = blank_state, hm_outer = blank_state\<rparr>"
      "replicate 64 3" 65 "replicate 65 1" 2 "[4, 5]"]
  by (auto simp: blake_ready_def blank_state_def hmac_short_key_def)

end
