(* ===== verification/Soft_Aes.thy ===== *)
theory Soft_Aes
  imports Prelude
begin

text \<open>
  \<open>src/src/crypto/soft_aes.c\<close> and \<open>soft_aes.h\<close>: an AES encryption round and the AES key
  generation assist, in software. Each file holds the S-box and builds four tables of 32-bit words
  from it, which together do the substitution, the row shift and the column mix of a round. The
  reference works on the 16 bytes of the state as FIPS 197 does, and the S-box is checked against
  the field inverse and the affine map that define it.
\<close>

section \<open>128-bit registers\<close>

text \<open>
  The SSE2 operations the code uses, all of them moves and bitwise operations on the four 32-bit
  lanes of a register.
\<close>

definition mm_lane :: "nat \<Rightarrow> m128 \<Rightarrow> u32" where
  "mm_lane i w = ucast (drop_bit (32 * i) w)"

definition mm_set_epi32 :: "u32 \<Rightarrow> u32 \<Rightarrow> u32 \<Rightarrow> u32 \<Rightarrow> m128" where
  "mm_set_epi32 e3 e2 e1 e0 =
     push_bit 96 (ucast e3) OR push_bit 64 (ucast e2) OR push_bit 32 (ucast e1) OR ucast e0"

definition mm_cvtsi128_si32 :: "m128 \<Rightarrow> u32" where
  "mm_cvtsi128_si32 w = mm_lane 0 w"

definition mm_shuffle_epi32 :: "m128 \<Rightarrow> nat \<Rightarrow> m128" where
  "mm_shuffle_epi32 w imm =
     mm_set_epi32 (mm_lane (imm div 64 mod 4) w) (mm_lane (imm div 16 mod 4) w)
       (mm_lane (imm div 4 mod 4) w) (mm_lane (imm mod 4) w)"

section \<open>Tables of soft_aes.c\<close>

definition sb_data :: "u8 list" where
  "sb_data = [
     0x63, 0x7c, 0x77, 0x7b, 0xf2, 0x6b, 0x6f, 0xc5, 0x30, 0x01, 0x67, 0x2b, 0xfe, 0xd7, 0xab, 0x76,
     0xca, 0x82, 0xc9, 0x7d, 0xfa, 0x59, 0x47, 0xf0, 0xad, 0xd4, 0xa2, 0xaf, 0x9c, 0xa4, 0x72, 0xc0,
     0xb7, 0xfd, 0x93, 0x26, 0x36, 0x3f, 0xf7, 0xcc, 0x34, 0xa5, 0xe5, 0xf1, 0x71, 0xd8, 0x31, 0x15,
     0x04, 0xc7, 0x23, 0xc3, 0x18, 0x96, 0x05, 0x9a, 0x07, 0x12, 0x80, 0xe2, 0xeb, 0x27, 0xb2, 0x75,
     0x09, 0x83, 0x2c, 0x1a, 0x1b, 0x6e, 0x5a, 0xa0, 0x52, 0x3b, 0xd6, 0xb3, 0x29, 0xe3, 0x2f, 0x84,
     0x53, 0xd1, 0x00, 0xed, 0x20, 0xfc, 0xb1, 0x5b, 0x6a, 0xcb, 0xbe, 0x39, 0x4a, 0x4c, 0x58, 0xcf,
     0xd0, 0xef, 0xaa, 0xfb, 0x43, 0x4d, 0x33, 0x85, 0x45, 0xf9, 0x02, 0x7f, 0x50, 0x3c, 0x9f, 0xa8,
     0x51, 0xa3, 0x40, 0x8f, 0x92, 0x9d, 0x38, 0xf5, 0xbc, 0xb6, 0xda, 0x21, 0x10, 0xff, 0xf3, 0xd2,
     0xcd, 0x0c, 0x13, 0xec, 0x5f, 0x97, 0x44, 0x17, 0xc4, 0xa7, 0x7e, 0x3d, 0x64, 0x5d, 0x19, 0x73,
     0x60, 0x81, 0x4f, 0xdc, 0x22, 0x2a, 0x90, 0x88, 0x46, 0xee, 0xb8, 0x14, 0xde, 0x5e, 0x0b, 0xdb,
     0xe0, 0x32, 0x3a, 0x0a, 0x49, 0x06, 0x24, 0x5c, 0xc2, 0xd3, 0xac, 0x62, 0x91, 0x95, 0xe4, 0x79,
     0xe7, 0xc8, 0x37, 0x6d, 0x8d, 0xd5, 0x4e, 0xa9, 0x6c, 0x56, 0xf4, 0xea, 0x65, 0x7a, 0xae, 0x08,
     0xba, 0x78, 0x25, 0x2e, 0x1c, 0xa6, 0xb4, 0xc6, 0xe8, 0xdd, 0x74, 0x1f, 0x4b, 0xbd, 0x8b, 0x8a,
     0x70, 0x3e, 0xb5, 0x66, 0x48, 0x03, 0xf6, 0x0e, 0x61, 0x35, 0x57, 0xb9, 0x86, 0xc1, 0x1d, 0x9e,
     0xe1, 0xf8, 0x98, 0x11, 0x69, 0xd9, 0x8e, 0x94, 0x9b, 0x1e, 0x87, 0xe9, 0xce, 0x55, 0x28, 0xdf,
     0x8c, 0xa1, 0x89, 0x0d, 0xbf, 0xe6, 0x42, 0x68, 0x41, 0x99, 0x2d, 0x0f, 0xb0, 0x54, 0xbb, 0x16]"

definition Sbox :: "u8 list" where
  "Sbox = [
     0x63, 0x7c, 0x77, 0x7b, 0xf2, 0x6b, 0x6f, 0xc5, 0x30, 0x01, 0x67, 0x2b, 0xfe, 0xd7, 0xab, 0x76,
     0xca, 0x82, 0xc9, 0x7d, 0xfa, 0x59, 0x47, 0xf0, 0xad, 0xd4, 0xa2, 0xaf, 0x9c, 0xa4, 0x72, 0xc0,
     0xb7, 0xfd, 0x93, 0x26, 0x36, 0x3f, 0xf7, 0xcc, 0x34, 0xa5, 0xe5, 0xf1, 0x71, 0xd8, 0x31, 0x15,
     0x04, 0xc7, 0x23, 0xc3, 0x18, 0x96, 0x05, 0x9a, 0x07, 0x12, 0x80, 0xe2, 0xeb, 0x27, 0xb2, 0x75,
     0x09, 0x83, 0x2c, 0x1a, 0x1b, 0x6e, 0x5a, 0xa0, 0x52, 0x3b, 0xd6, 0xb3, 0x29, 0xe3, 0x2f, 0x84,
     0x53, 0xd1, 0x00, 0xed, 0x20, 0xfc, 0xb1, 0x5b, 0x6a, 0xcb, 0xbe, 0x39, 0x4a, 0x4c, 0x58, 0xcf,
     0xd0, 0xef, 0xaa, 0xfb, 0x43, 0x4d, 0x33, 0x85, 0x45, 0xf9, 0x02, 0x7f, 0x50, 0x3c, 0x9f, 0xa8,
     0x51, 0xa3, 0x40, 0x8f, 0x92, 0x9d, 0x38, 0xf5, 0xbc, 0xb6, 0xda, 0x21, 0x10, 0xff, 0xf3, 0xd2,
     0xcd, 0x0c, 0x13, 0xec, 0x5f, 0x97, 0x44, 0x17, 0xc4, 0xa7, 0x7e, 0x3d, 0x64, 0x5d, 0x19, 0x73,
     0x60, 0x81, 0x4f, 0xdc, 0x22, 0x2a, 0x90, 0x88, 0x46, 0xee, 0xb8, 0x14, 0xde, 0x5e, 0x0b, 0xdb,
     0xe0, 0x32, 0x3a, 0x0a, 0x49, 0x06, 0x24, 0x5c, 0xc2, 0xd3, 0xac, 0x62, 0x91, 0x95, 0xe4, 0x79,
     0xe7, 0xc8, 0x37, 0x6d, 0x8d, 0xd5, 0x4e, 0xa9, 0x6c, 0x56, 0xf4, 0xea, 0x65, 0x7a, 0xae, 0x08,
     0xba, 0x78, 0x25, 0x2e, 0x1c, 0xa6, 0xb4, 0xc6, 0xe8, 0xdd, 0x74, 0x1f, 0x4b, 0xbd, 0x8b, 0x8a,
     0x70, 0x3e, 0xb5, 0x66, 0x48, 0x03, 0xf6, 0x0e, 0x61, 0x35, 0x57, 0xb9, 0x86, 0xc1, 0x1d, 0x9e,
     0xe1, 0xf8, 0x98, 0x11, 0x69, 0xd9, 0x8e, 0x94, 0x9b, 0x1e, 0x87, 0xe9, 0xce, 0x55, 0x28, 0xdf,
     0x8c, 0xa1, 0x89, 0x0d, 0xbf, 0xe6, 0x42, 0x68, 0x41, 0x99, 0x2d, 0x0f, 0xb0, 0x54, 0xbb, 0x16]"

text \<open>The table macros, evaluated by the compiler in 32-bit integers on the bytes of the S-box.\<close>

definition bytes2word :: "u32 \<Rightarrow> u32 \<Rightarrow> u32 \<Rightarrow> u32 \<Rightarrow> u32" where
  "bytes2word b0 b1 b2 b3 = push_bit 24 b3 OR push_bit 16 b2 OR push_bit 8 b1 OR b0"

definition aes_f2 :: "u32 \<Rightarrow> u32" where
  "aes_f2 x = push_bit 1 x XOR ((drop_bit 7 x AND 1) * 0x011b)"

definition aes_f3 :: "u32 \<Rightarrow> u32" where
  "aes_f3 x = aes_f2 x XOR x"

definition aes_u0 :: "u8 \<Rightarrow> u32" where
  "aes_u0 b = (let p = ucast b in bytes2word (aes_f2 p) p p (aes_f3 p))"

definition aes_u1 :: "u8 \<Rightarrow> u32" where
  "aes_u1 b = (let p = ucast b in bytes2word (aes_f3 p) (aes_f2 p) p p)"

definition aes_u2 :: "u8 \<Rightarrow> u32" where
  "aes_u2 b = (let p = ucast b in bytes2word p (aes_f3 p) (aes_f2 p) p)"

definition aes_u3 :: "u8 \<Rightarrow> u32" where
  "aes_u3 b = (let p = ucast b in bytes2word p p (aes_f3 p) (aes_f2 p))"

definition t_fn :: "u32 list list" where
  "t_fn = [map aes_u0 sb_data, map aes_u1 sb_data, map aes_u2 sb_data, map aes_u3 sb_data]"

section \<open>The round and the key assist of soft_aes.c\<close>

definition soft_aesenc :: "m128 \<Rightarrow> m128 \<Rightarrow> m128" where
  "soft_aesenc inp key =
    (let x0 = mm_cvtsi128_si32 inp;
         x1 = mm_cvtsi128_si32 (mm_shuffle_epi32 inp 0x55);
         x2 = mm_cvtsi128_si32 (mm_shuffle_epi32 inp 0xAA);
         x3 = mm_cvtsi128_si32 (mm_shuffle_epi32 inp 0xFF);
         out = mm_set_epi32
           (t_fn ! 0 ! unat (x3 AND 0xff) XOR t_fn ! 1 ! unat (drop_bit 8 x0 AND 0xff) XOR
            t_fn ! 2 ! unat (drop_bit 16 x1 AND 0xff) XOR t_fn ! 3 ! unat (drop_bit 24 x2))
           (t_fn ! 0 ! unat (x2 AND 0xff) XOR t_fn ! 1 ! unat (drop_bit 8 x3 AND 0xff) XOR
            t_fn ! 2 ! unat (drop_bit 16 x0 AND 0xff) XOR t_fn ! 3 ! unat (drop_bit 24 x1))
           (t_fn ! 0 ! unat (x1 AND 0xff) XOR t_fn ! 1 ! unat (drop_bit 8 x2 AND 0xff) XOR
            t_fn ! 2 ! unat (drop_bit 16 x3 AND 0xff) XOR t_fn ! 3 ! unat (drop_bit 24 x0))
           (t_fn ! 0 ! unat (x0 AND 0xff) XOR t_fn ! 1 ! unat (drop_bit 8 x1 AND 0xff) XOR
            t_fn ! 2 ! unat (drop_bit 16 x2 AND 0xff) XOR t_fn ! 3 ! unat (drop_bit 24 x3))
     in out XOR key)"

text \<open>\<open>sub_word\<close> of the C file works on the four bytes of its argument in place.\<close>

definition sub_word :: "bytes \<Rightarrow> bytes" where
  "sub_word key =
    (let key = key[0 := Sbox ! unat (key ! 0)];
         key = key[1 := Sbox ! unat (key ! 1)];
         key = key[2 := Sbox ! unat (key ! 2)]
     in key[3 := Sbox ! unat (key ! 3)])"

definition aes_rotr :: "u32 \<Rightarrow> nat \<Rightarrow> u32" where
  "aes_rotr value amount = drop_bit amount value OR push_bit ((32 - amount) mod 32) value"

definition soft_aeskeygenassist :: "m128 \<Rightarrow> u8 \<Rightarrow> m128" where
  "soft_aeskeygenassist key rcon =
    (let X1 = mm_cvtsi128_si32 (mm_shuffle_epi32 key 0x55);
         X3 = mm_cvtsi128_si32 (mm_shuffle_epi32 key 0xFF);
         X1 = le_word (sub_word (le_bytes 4 X1));
         X3 = le_word (sub_word (le_bytes 4 X3))
     in mm_set_epi32 (aes_rotr X3 8 XOR ucast rcon) X3 (aes_rotr X1 8 XOR ucast rcon) X1)"

section \<open>The versions of soft_aes.h\<close>

definition saes_data :: "u8 list" where
  "saes_data = [
     0x63, 0x7c, 0x77, 0x7b, 0xf2, 0x6b, 0x6f, 0xc5, 0x30, 0x01, 0x67, 0x2b, 0xfe, 0xd7, 0xab, 0x76,
     0xca, 0x82, 0xc9, 0x7d, 0xfa, 0x59, 0x47, 0xf0, 0xad, 0xd4, 0xa2, 0xaf, 0x9c, 0xa4, 0x72, 0xc0,
     0xb7, 0xfd, 0x93, 0x26, 0x36, 0x3f, 0xf7, 0xcc, 0x34, 0xa5, 0xe5, 0xf1, 0x71, 0xd8, 0x31, 0x15,
     0x04, 0xc7, 0x23, 0xc3, 0x18, 0x96, 0x05, 0x9a, 0x07, 0x12, 0x80, 0xe2, 0xeb, 0x27, 0xb2, 0x75,
     0x09, 0x83, 0x2c, 0x1a, 0x1b, 0x6e, 0x5a, 0xa0, 0x52, 0x3b, 0xd6, 0xb3, 0x29, 0xe3, 0x2f, 0x84,
     0x53, 0xd1, 0x00, 0xed, 0x20, 0xfc, 0xb1, 0x5b, 0x6a, 0xcb, 0xbe, 0x39, 0x4a, 0x4c, 0x58, 0xcf,
     0xd0, 0xef, 0xaa, 0xfb, 0x43, 0x4d, 0x33, 0x85, 0x45, 0xf9, 0x02, 0x7f, 0x50, 0x3c, 0x9f, 0xa8,
     0x51, 0xa3, 0x40, 0x8f, 0x92, 0x9d, 0x38, 0xf5, 0xbc, 0xb6, 0xda, 0x21, 0x10, 0xff, 0xf3, 0xd2,
     0xcd, 0x0c, 0x13, 0xec, 0x5f, 0x97, 0x44, 0x17, 0xc4, 0xa7, 0x7e, 0x3d, 0x64, 0x5d, 0x19, 0x73,
     0x60, 0x81, 0x4f, 0xdc, 0x22, 0x2a, 0x90, 0x88, 0x46, 0xee, 0xb8, 0x14, 0xde, 0x5e, 0x0b, 0xdb,
     0xe0, 0x32, 0x3a, 0x0a, 0x49, 0x06, 0x24, 0x5c, 0xc2, 0xd3, 0xac, 0x62, 0x91, 0x95, 0xe4, 0x79,
     0xe7, 0xc8, 0x37, 0x6d, 0x8d, 0xd5, 0x4e, 0xa9, 0x6c, 0x56, 0xf4, 0xea, 0x65, 0x7a, 0xae, 0x08,
     0xba, 0x78, 0x25, 0x2e, 0x1c, 0xa6, 0xb4, 0xc6, 0xe8, 0xdd, 0x74, 0x1f, 0x4b, 0xbd, 0x8b, 0x8a,
     0x70, 0x3e, 0xb5, 0x66, 0x48, 0x03, 0xf6, 0x0e, 0x61, 0x35, 0x57, 0xb9, 0x86, 0xc1, 0x1d, 0x9e,
     0xe1, 0xf8, 0x98, 0x11, 0x69, 0xd9, 0x8e, 0x94, 0x9b, 0x1e, 0x87, 0xe9, 0xce, 0x55, 0x28, 0xdf,
     0x8c, 0xa1, 0x89, 0x0d, 0xbf, 0xe6, 0x42, 0x68, 0x41, 0x99, 0x2d, 0x0f, 0xb0, 0x54, 0xbb, 0x16]"

definition saes_b2w :: "u32 \<Rightarrow> u32 \<Rightarrow> u32 \<Rightarrow> u32 \<Rightarrow> u32" where
  "saes_b2w b0 b1 b2 b3 = push_bit 24 b3 OR push_bit 16 b2 OR push_bit 8 b1 OR b0"

definition saes_f2 :: "u32 \<Rightarrow> u32" where
  "saes_f2 x = push_bit 1 x XOR ((drop_bit 7 x AND 1) * 0x011b)"

definition saes_f3 :: "u32 \<Rightarrow> u32" where
  "saes_f3 x = saes_f2 x XOR x"

definition saes_table :: "u32 list list" where
  "saes_table =
    [map (\<lambda>b. let p = ucast b in saes_b2w (saes_f2 p) p p (saes_f3 p)) saes_data,
     map (\<lambda>b. let p = ucast b in saes_b2w (saes_f3 p) (saes_f2 p) p p) saes_data,
     map (\<lambda>b. let p = ucast b in saes_b2w p (saes_f3 p) (saes_f2 p) p) saes_data,
     map (\<lambda>b. let p = ucast b in saes_b2w p p (saes_f3 p) (saes_f2 p)) saes_data]"

definition saes_sbox :: "u8 list" where
  "saes_sbox = saes_data"

text \<open>The four words at the pointer \<open>in\<close> are the first four of the list.\<close>

definition saes_aesenc :: "u32 list \<Rightarrow> m128 \<Rightarrow> m128 option" where
  "saes_aesenc inp key =
    do {
      x0 \<leftarrow> get_at inp 0;
      x1 \<leftarrow> get_at inp 1;
      x2 \<leftarrow> get_at inp 2;
      x3 \<leftarrow> get_at inp 3;
      let out = mm_set_epi32
           (saes_table ! 0 ! unat (x3 AND 0xff) XOR saes_table ! 1 ! unat (drop_bit 8 x0 AND 0xff) XOR
            saes_table ! 2 ! unat (drop_bit 16 x1 AND 0xff) XOR saes_table ! 3 ! unat (drop_bit 24 x2))
           (saes_table ! 0 ! unat (x2 AND 0xff) XOR saes_table ! 1 ! unat (drop_bit 8 x3 AND 0xff) XOR
            saes_table ! 2 ! unat (drop_bit 16 x0 AND 0xff) XOR saes_table ! 3 ! unat (drop_bit 24 x1))
           (saes_table ! 0 ! unat (x1 AND 0xff) XOR saes_table ! 1 ! unat (drop_bit 8 x2 AND 0xff) XOR
            saes_table ! 2 ! unat (drop_bit 16 x3 AND 0xff) XOR saes_table ! 3 ! unat (drop_bit 24 x0))
           (saes_table ! 0 ! unat (x0 AND 0xff) XOR saes_table ! 1 ! unat (drop_bit 8 x1 AND 0xff) XOR
            saes_table ! 2 ! unat (drop_bit 16 x2 AND 0xff) XOR saes_table ! 3 ! unat (drop_bit 24 x3));
      Some (out XOR key)
    }"

text \<open>The bytes are promoted to \<open>int\<close> and shifted, then combined as 32-bit integers.\<close>

definition saes_sub_word :: "u32 \<Rightarrow> u32" where
  "saes_sub_word key =
     push_bit 24 (ucast (saes_sbox ! unat (drop_bit 24 key))) OR
     push_bit 16 (ucast (saes_sbox ! unat (drop_bit 16 key AND 0xff))) OR
     push_bit 8 (ucast (saes_sbox ! unat (drop_bit 8 key AND 0xff))) OR
     ucast (saes_sbox ! unat (key AND 0xff))"

definition saes_rotr :: "u32 \<Rightarrow> nat \<Rightarrow> u32" where
  "saes_rotr value amount = drop_bit amount value OR push_bit ((32 - amount) mod 32) value"

definition saes_aeskeygenassist :: "u8 \<Rightarrow> m128 \<Rightarrow> m128" where
  "saes_aeskeygenassist rcon key =
    (let X1 = saes_sub_word (mm_cvtsi128_si32 (mm_shuffle_epi32 key 0x55));
         X3 = saes_sub_word (mm_cvtsi128_si32 (mm_shuffle_epi32 key 0xFF))
     in mm_set_epi32 (saes_rotr X3 8 XOR ucast rcon) X3 (saes_rotr X1 8 XOR ucast rcon) X1)"

section \<open>Reference\<close>

text \<open>Arithmetic of the field of 256 elements modulo \<open>x^8 + x^4 + x^3 + x + 1\<close>.\<close>

definition xtime :: "u8 \<Rightarrow> u8" where
  "xtime b = push_bit 1 b XOR (if bit b 7 then 0x1b else 0)"

fun gf_mul_from :: "nat \<Rightarrow> u8 \<Rightarrow> u8 \<Rightarrow> u8" where
  "gf_mul_from 0 a b = 0"
| "gf_mul_from (Suc n) a b = (if bit b 0 then a else 0) XOR gf_mul_from n (xtime a) (drop_bit 1 b)"

definition gf_mul :: "u8 \<Rightarrow> u8 \<Rightarrow> u8" where
  "gf_mul = gf_mul_from 8"

text \<open>\<open>c\<close> is the inverse of \<open>b\<close>, with 0 for 0; the affine map of the S-box.\<close>

definition aes_inverse :: "u8 \<Rightarrow> u8 \<Rightarrow> bool" where
  "aes_inverse b c \<longleftrightarrow> (if b = 0 then c = 0 else gf_mul b c = 1)"

definition aes_affine :: "u8 \<Rightarrow> u8" where
  "aes_affine c = c XOR rotl c 1 XOR rotl c 2 XOR rotl c 3 XOR rotl c 4 XOR 0x63"

text \<open>A state is its 16 bytes, byte \<open>r + 4 c\<close> in row \<open>r\<close> and column \<open>c\<close>.\<close>

definition aes_sub :: "u8 \<Rightarrow> u8" where
  "aes_sub b = sb_data ! unat b"

definition aes_shift_rows :: "bytes \<Rightarrow> bytes" where
  "aes_shift_rows st = map (\<lambda>i. st ! (i mod 4 + 4 * ((i div 4 + i mod 4) mod 4))) [0..<16]"

definition aes_mix_columns :: "bytes \<Rightarrow> bytes" where
  "aes_mix_columns st =
    map (\<lambda>i. let r = i mod 4; b = (\<lambda>k. st ! ((r + k) mod 4 + 4 * (i div 4)))
             in gf_mul (b 0) 2 XOR gf_mul (b 1) 3 XOR b 2 XOR b 3) [0..<16]"

definition aes_round_ref :: "bytes \<Rightarrow> bytes \<Rightarrow> bytes" where
  "aes_round_ref st key = map2 (XOR) (aes_mix_columns (aes_shift_rows (map aes_sub st))) key"

text \<open>The key assist: the substituted words 1 and 3, plain and rotated by a byte with the constant.\<close>

definition aes_assist_ref :: "bytes \<Rightarrow> u8 \<Rightarrow> bytes" where
  "aes_assist_ref key rcon =
    (let s = map aes_sub key;
         rot = (\<lambda>k. [s ! (k + 1) XOR rcon, s ! (k + 2), s ! (k + 3), s ! k])
     in take 4 (drop 4 s) @ rot 4 @ take 4 (drop 12 s) @ rot 12)"


section \<open>The S-box\<close>

text \<open>The inverse of the affine map, which gives the field inverse of each entry.\<close>

definition aes_affine_inv :: "u8 \<Rightarrow> u8" where
  "aes_affine_inv s = rotl s 1 XOR rotl s 3 XOR rotl s 6 XOR 0x05"

lemma rotl_rotl_u8: "i < 8 \<Longrightarrow> j < 8 \<Longrightarrow> rotl (rotl (s :: u8) i) j = rotl s ((i + j) mod 8)"
proof (rule bit_word_eqI)
  fix k assume a: "i < 8" "j < 8" and "k < LENGTH(8)"
  moreover from a have "(i + j) mod 8 = (if i + j < 8 then i + j else i + j - 8)"
    by (auto simp: mod_if)
  ultimately show "bit (rotl (rotl s i) j) k = bit (rotl s ((i + j) mod 8)) k"
    by (auto simp: bit_rotl_iff add.commute [of i j])
qed
lemma rotl_0: "rotl (s :: u8) 0 = s"
  by (rule bit_word_eqI) (simp add: bit_rotl_iff)

lemma aes_affine_inv: "aes_affine (aes_affine_inv s) = s"
proof -
  have c: "rotl (5 :: u8) 1 = 10" "rotl (5 :: u8) 2 = 20" "rotl (5 :: u8) 3 = 40" "rotl (5 :: u8) 4 = 80"
    by (simp_all add: rotl_def)
  show ?thesis
    by (simp add: aes_affine_def aes_affine_inv_def rotl_xor rotl_rotl_u8 rotl_0 c ac_simps del: One_nat_def)
qed

definition aes_sbox_from :: "nat \<Rightarrow> nat \<Rightarrow> bool" where
  "aes_sbox_from n k =
     list_all2 (\<lambda>b s. aes_inverse b (aes_affine_inv s)) (map of_nat [n..<n + k]) (take k (drop n sb_data))"

lemma aes_sbox_0: "aes_sbox_from 0 64"
  by code_simp

lemma aes_sbox_64: "aes_sbox_from 64 64"
  by code_simp

lemma aes_sbox_128: "aes_sbox_from 128 64"
  by code_simp

lemma aes_sbox_192: "aes_sbox_from 192 64"
  by code_simp

lemma length_sb_data [simp]: "length sb_data = 256"
  by (simp add: sb_data_def)

lemma u8_bound: "unat (b :: u8) < 256"
  using unsigned_less [of b, where ?'a = nat] by simp

lemma aes_sbox_from_nth:
  assumes "aes_sbox_from n k" "n \<le> unat b" "unat b < n + k" "n + k \<le> 256"
  shows "aes_inverse b (aes_affine_inv (sb_data ! unat b))"
  using list_all2_nthD [OF assms(1) [unfolded aes_sbox_from_def], of "unat b - n"] assms
  by simp

lemma aes_sbox_eq: "\<exists>c. aes_inverse b c \<and> aes_sub b = aes_affine c"
proof -
  consider "unat b < 64" | "64 \<le> unat b \<and> unat b < 128" | "128 \<le> unat b \<and> unat b < 192" | "192 \<le> unat b"
    by linarith
  then have "aes_inverse b (aes_affine_inv (sb_data ! unat b))"
    by cases (use u8_bound [of b] aes_sbox_from_nth [OF aes_sbox_0] aes_sbox_from_nth [OF aes_sbox_64]
        aes_sbox_from_nth [OF aes_sbox_128] aes_sbox_from_nth [OF aes_sbox_192] in simp_all)
  then show ?thesis by (metis aes_affine_inv aes_sub_def)
qed

section \<open>Words and bytes\<close>

lemma le_bytes_xor: "le_bytes n (x XOR y) = map2 (XOR) (le_bytes n x) (le_bytes n y)"
  by (rule nth_equalityI) (auto intro!: bit_word_eqI simp: bit_le_bytes_iff bit_xor_iff)

lemma mm_lane_bytes:
  assumes "j < 4" "i < 4"
  shows "ucast (drop_bit (8 * j) (mm_lane i w)) = le_bytes 16 w ! (4 * i + j)"
proof (rule bit_word_eqI)
  fix k assume "k < LENGTH(8)"
  moreover have "32 * i + (8 * j + k) = 8 * (4 * i + j) + k" by simp
  ultimately show "bit (ucast (drop_bit (8 * j) (mm_lane i w)) :: u8) k = bit (le_bytes 16 w ! (4 * i + j)) k"
    using assms by (simp add: mm_lane_def bit_le_bytes_iff bit_ucast_iff bit_drop_bit_eq ac_simps)
qed

lemma u32_beyond [simp]:
  "\<not> bit (e :: u32) (32 + n)" "\<not> bit (e :: u32) (64 + n)" "\<not> bit (e :: u32) (96 + n)"
  by (auto dest: bit_imp_le_length)

lemma mm_lane_set:
  "mm_lane 0 (mm_set_epi32 e3 e2 e1 e0) = e0" "mm_lane (Suc 0) (mm_set_epi32 e3 e2 e1 e0) = e1"
  "mm_lane 2 (mm_set_epi32 e3 e2 e1 e0) = e2" "mm_lane 3 (mm_set_epi32 e3 e2 e1 e0) = e3"
  by (auto intro!: bit_word_eqI simp: mm_lane_def mm_set_epi32_def bit_ucast_iff bit_drop_bit_eq bit_or_iff
      bit_push_bit_iff dest: bit_imp_le_length)

lemma le_bytes_lane: "i < 4 \<Longrightarrow> le_bytes 4 (mm_lane i w) = take 4 (drop (4 * i) (le_bytes 16 w))"
  by (rule nth_equalityI) (simp_all add: mm_lane_bytes le_bytes_def [of 4])

lemma le_bytes_lanes:
  "le_bytes 16 w = le_bytes 4 (mm_lane 0 w) @ le_bytes 4 (mm_lane 1 w) @ le_bytes 4 (mm_lane 2 w) @ le_bytes 4 (mm_lane 3 w)"
proof -
  have "xs = take 4 xs @ take 4 (drop 4 xs) @ take 4 (drop 8 xs) @ take 4 (drop 12 xs)"
    if "length xs = 16" for xs :: bytes
    using that by (elim list_of_16) simp
  from this [of "le_bytes 16 w"] show ?thesis by (simp add: le_bytes_lane)
qed

lemma le_bytes_mm_set:
  "le_bytes 16 (mm_set_epi32 e3 e2 e1 e0) = le_bytes 4 e0 @ le_bytes 4 e1 @ le_bytes 4 e2 @ le_bytes 4 e3"
  by (simp add: le_bytes_lanes mm_lane_set)

lemma mm_cvt_shuffle:
  "mm_cvtsi128_si32 (mm_shuffle_epi32 w 0x55) = mm_lane 1 w"
  "mm_cvtsi128_si32 (mm_shuffle_epi32 w 0xAA) = mm_lane 2 w"
  "mm_cvtsi128_si32 (mm_shuffle_epi32 w 0xFF) = mm_lane 3 w"
  by (simp_all add: mm_cvtsi128_si32_def mm_shuffle_epi32_def mm_lane_set)

lemma unat_byte_in_word: "unat (ucast (b :: u8) :: u32) = unat b"
  using u8_bound [of b] by (simp add: unsigned_ucast_eq take_bit_nat_eq_self)

lemma byte_index:
  fixes x :: u32
  shows "unat (x AND 0xff) = unat (ucast x :: u8)"
    and "unat (drop_bit 24 x) = unat (ucast (drop_bit 24 x) :: u8)"
proof -
  have "x AND 0xff = ucast (ucast x :: u8)"
  proof (rule bit_word_eqI)
    fix k assume "k < LENGTH(32)"
    have "bit (0xff :: u32) k \<longleftrightarrow> k < 8"
      using bit_mask_iff [where 'a = "32 word", of 8 k] by (auto simp: mask_eq_exp_minus_1 dest: bit_imp_le_length)
    then show "bit (x AND 0xff) k = bit (ucast (ucast x :: u8) :: u32) k"
      by (auto simp: bit_and_iff bit_ucast_iff dest: bit_imp_le_length)
  qed
  then show "unat (x AND 0xff) = unat (ucast x :: u8)"
    by (simp add: unat_byte_in_word)
  have "drop_bit 24 x = ucast (ucast (drop_bit 24 x) :: u8)"
    by (rule bit_word_eqI) (auto simp: bit_ucast_iff bit_drop_bit_eq dest: bit_imp_le_length)
  then show "unat (drop_bit 24 x) = unat (ucast (drop_bit 24 x) :: u8)"
    by (metis unat_byte_in_word)
qed

section \<open>The tables\<close>

lemma aes_f2_check: "list_all (\<lambda>b. aes_f2 (ucast b) = ucast (xtime b)) (map of_nat [0..<256])"
  by code_simp

lemma aes_f2_xtime: "aes_f2 (ucast b) = ucast (xtime b)"
proof -
  have "b = of_nat (unat b)" by simp
  moreover have "unat b \<in> set [0..<256]" using u8_bound [of b] by simp
  ultimately have "b \<in> set (map of_nat [0..<256])" by (metis image_eqI list.set_map)
  then show ?thesis using aes_f2_check by (simp only: list_all_iff)
qed

lemma bytes2word_le: "bytes2word (ucast b0) (ucast b1) (ucast b2) (ucast b3) = le_word [b0, b1, b2, b3]"
  by (rule bit_word_eqI)
    (auto simp: bytes2word_def bit_or_iff bit_push_bit_iff bit_ucast_iff dest: bit_imp_le_length)

lemma aes_u_bytes:
  "le_bytes 4 (aes_u0 b) = [xtime b, b, b, xtime b XOR b]"
  "le_bytes 4 (aes_u1 b) = [xtime b XOR b, xtime b, b, b]"
  "le_bytes 4 (aes_u2 b) = [b, xtime b XOR b, xtime b, b]"
  "le_bytes 4 (aes_u3 b) = [b, b, xtime b XOR b, xtime b]"
proof -
  have f3: "aes_f3 (ucast b) = ucast (xtime b XOR b)"
    by (simp add: aes_f3_def aes_f2_xtime unsigned_xor_eq)
  show "le_bytes 4 (aes_u0 b) = [xtime b, b, b, xtime b XOR b]"
    by (simp add: aes_u0_def Let_def aes_f2_xtime f3 bytes2word_le le_bytes_le_word del: le_word.simps)
  show "le_bytes 4 (aes_u1 b) = [xtime b XOR b, xtime b, b, b]"
    by (simp add: aes_u1_def Let_def aes_f2_xtime f3 bytes2word_le le_bytes_le_word del: le_word.simps)
  show "le_bytes 4 (aes_u2 b) = [b, xtime b XOR b, xtime b, b]"
    by (simp add: aes_u2_def Let_def aes_f2_xtime f3 bytes2word_le le_bytes_le_word del: le_word.simps)
  show "le_bytes 4 (aes_u3 b) = [b, b, xtime b XOR b, xtime b]"
    by (simp add: aes_u3_def Let_def aes_f2_xtime f3 bytes2word_le le_bytes_le_word del: le_word.simps)
qed

lemma gf_mul_2_3: "gf_mul b 2 = xtime b" "gf_mul b 3 = xtime b XOR b"
proof -
  have 0: "gf_mul_from n a 0 = 0" for n a by (induction n arbitrary: a) simp_all
  have d: "drop_bit 1 (2 :: u8) = 1" "drop_bit 1 (3 :: u8) = 1" "drop_bit 1 (1 :: u8) = 0" by simp_all
  have 8: "(8 :: nat) = Suc (Suc 6)" by simp
  show "gf_mul b 2 = xtime b" "gf_mul b 3 = xtime b XOR b"
    unfolding gf_mul_def 8 gf_mul_from.simps d 0 by (simp_all add: ac_simps)
qed

section \<open>The round is the AES round\<close>

lemma t_fn_nth:
  "t_fn ! 0 ! unat (b :: u8) = aes_u0 (aes_sub b)" "t_fn ! 1 ! unat (b :: u8) = aes_u1 (aes_sub b)"
  "t_fn ! 2 ! unat (b :: u8) = aes_u2 (aes_sub b)" "t_fn ! 3 ! unat (b :: u8) = aes_u3 (aes_sub b)"
  using u8_bound [of b] by (simp_all add: t_fn_def aes_sub_def)

text \<open>The bytes of a column: four table entries combined.\<close>

lemma aes_column_bytes:
  "le_bytes 4 (aes_u0 a XOR aes_u1 b XOR aes_u2 c XOR aes_u3 d) =
    [gf_mul a 2 XOR gf_mul b 3 XOR c XOR d, gf_mul b 2 XOR gf_mul c 3 XOR d XOR a,
     gf_mul c 2 XOR gf_mul d 3 XOR a XOR b, gf_mul d 2 XOR gf_mul a 3 XOR b XOR c]"
  by (simp add: le_bytes_xor aes_u_bytes gf_mul_2_3 ac_simps)

lemma mm_lane_byte:
  "i < 4 \<Longrightarrow> ucast (mm_lane i w) = le_bytes 16 w ! (4 * i)"
  "i < 4 \<Longrightarrow> ucast (drop_bit 8 (mm_lane i w)) = le_bytes 16 w ! (4 * i + 1)"
  "i < 4 \<Longrightarrow> ucast (drop_bit 16 (mm_lane i w)) = le_bytes 16 w ! (4 * i + 2)"
  "i < 4 \<Longrightarrow> ucast (drop_bit 24 (mm_lane i w)) = le_bytes 16 w ! (4 * i + 3)"
  using mm_lane_bytes [of 0 i w] mm_lane_bytes [of 1 i w] mm_lane_bytes [of 2 i w] mm_lane_bytes [of 3 i w]
  by simp_all

lemma soft_aesenc_eq:
  "le_bytes 16 (soft_aesenc inp key) = aes_round_ref (le_bytes 16 inp) (le_bytes 16 key)"
proof -
  have "length (le_bytes 16 inp) = 16" by simp
  then obtain a0 a1 a2 a3 a4 a5 a6 a7 a8 a9 a10 a11 a12 a13 a14 a15
    where a: "le_bytes 16 inp = [a0,a1,a2,a3,a4,a5,a6,a7,a8,a9,a10,a11,a12,a13,a14,a15]"
    by (rule list_of_16)
  note lanes = mm_lane_byte [of 0 inp, unfolded a, simplified] mm_lane_byte [of 1 inp, unfolded a, simplified]
    mm_lane_byte [of 2 inp, unfolded a, simplified] mm_lane_byte [of 3 inp, unfolded a, simplified]
  have "mm_cvtsi128_si32 inp = mm_lane 0 inp" by (simp add: mm_cvtsi128_si32_def)
  then have "le_bytes 16 (soft_aesenc inp key) = map2 (XOR)
      (aes_mix_columns (aes_shift_rows (map aes_sub (le_bytes 16 inp)))) (le_bytes 16 key)"
    unfolding soft_aesenc_def Let_def mm_cvt_shuffle byte_index le_bytes_xor [of 16] le_bytes_mm_set
    by (simp only: One_nat_def lanes t_fn_nth [unfolded One_nat_def] aes_column_bytes a)
      (simp add: aes_mix_columns_def aes_shift_rows_def upt_16 Let_def ac_simps)
  then show ?thesis by (simp add: aes_round_ref_def)
qed

section \<open>The other versions\<close>

lemma tables_eq: "Sbox = sb_data" "saes_data = sb_data" "saes_sbox = sb_data" "saes_table = t_fn"
proof -
  show 1: "Sbox = sb_data" "saes_data = sb_data" by (simp_all only: Sbox_def sb_data_def saes_data_def)
  show "saes_sbox = sb_data" by (simp only: saes_sbox_def 1)
  have "aes_u0 = (\<lambda>b. let p = ucast b in saes_b2w (saes_f2 p) p p (saes_f3 p))"
    "aes_u1 = (\<lambda>b. let p = ucast b in saes_b2w (saes_f3 p) (saes_f2 p) p p)"
    "aes_u2 = (\<lambda>b. let p = ucast b in saes_b2w p (saes_f3 p) (saes_f2 p) p)"
    "aes_u3 = (\<lambda>b. let p = ucast b in saes_b2w p p (saes_f3 p) (saes_f2 p))"
    by (simp_all add: fun_eq_iff aes_u0_def aes_u1_def aes_u2_def aes_u3_def bytes2word_def saes_b2w_def
        saes_f3_def saes_f2_def aes_f3_def aes_f2_def Let_def)
  then show "saes_table = t_fn" by (simp only: saes_table_def t_fn_def 1)
qed

lemma saes_aesenc_eq:
  "saes_aesenc (map (\<lambda>i. mm_lane i inp) [0..<4]) key = Some (soft_aesenc inp key)"
proof -
  have "[0..<4] = [0, 1, 2, 3::nat]" by (simp add: upt_rec)
  then have l: "map (\<lambda>i. mm_lane i inp) [0..<4] = [mm_lane 0 inp, mm_lane 1 inp, mm_lane 2 inp, mm_lane 3 inp]"
    by simp
  have "mm_cvtsi128_si32 inp = mm_lane 0 inp" by (simp add: mm_cvtsi128_si32_def)
  then show ?thesis
    unfolding l saes_aesenc_def soft_aesenc_def tables_eq mm_cvt_shuffle
    by (simp add: get_at_def Let_def)
qed

lemma saes_rotr_eq: "saes_rotr = aes_rotr"
  by (simp add: fun_eq_iff saes_rotr_def aes_rotr_def)

lemma sub_word_bytes: "length k = 4 \<Longrightarrow> sub_word k = map aes_sub k"
  by (elim list_of_4) (simp add: sub_word_def aes_sub_def tables_eq Let_def numeral_2_eq_2 numeral_3_eq_3)

lemma saes_sub_word_le: "saes_sub_word x = le_word (map aes_sub (le_bytes 4 x))"
proof -
  have b: "saes_sub_word x = bytes2word (ucast (aes_sub (ucast x))) (ucast (aes_sub (ucast (drop_bit 8 x))))
      (ucast (aes_sub (ucast (drop_bit 16 x)))) (ucast (aes_sub (ucast (drop_bit 24 x))))"
    by (simp add: saes_sub_word_def bytes2word_def byte_index tables_eq aes_sub_def)
  have "le_bytes 4 x = [ucast x, ucast (drop_bit 8 x), ucast (drop_bit 16 x), ucast (drop_bit 24 x)]"
    by (simp add: le_bytes_def upt_rec)
  then show ?thesis unfolding b bytes2word_le by (simp only: list.map)
qed

lemma le_bytes_rotr8:
  "le_bytes 4 (aes_rotr (le_word [b0, b1, b2, b3]) 8) = [b1, b2, b3, b0]"
proof -
  have "aes_rotr (le_word [b0, b1, b2, b3]) 8 = le_word [b1, b2, b3, b0]"
    by (rule bit_word_eqI)
      (auto simp: aes_rotr_def bit_or_iff bit_push_bit_iff bit_drop_bit_eq bit_ucast_iff dest: bit_imp_le_length)
  then show ?thesis by (simp add: le_bytes_le_word del: le_word.simps)
qed

lemma le_bytes_4_rcon: "le_bytes 4 (ucast (rcon :: u8) :: u32) = [rcon, 0, 0, 0]"
proof -
  have "(ucast rcon :: u32) = le_word [rcon, 0, 0, 0]" by simp
  then show ?thesis by (simp add: le_bytes_le_word del: le_word.simps)
qed

lemma aes_assist_eq:
  assumes "\<And>x. sub x = le_word (map aes_sub (le_bytes 4 x))"
  shows "le_bytes 16
    (let X1 = sub (mm_lane 1 key); X3 = sub (mm_lane 3 key)
     in mm_set_epi32 (aes_rotr X3 8 XOR ucast rcon) X3 (aes_rotr X1 8 XOR ucast rcon) X1)
    = aes_assist_ref (le_bytes 16 key) rcon"
proof -
  obtain a0 a1 a2 a3 a4 a5 a6 a7 a8 a9 a10 a11 a12 a13 a14 a15
    where a: "le_bytes 16 key = [a0,a1,a2,a3,a4,a5,a6,a7,a8,a9,a10,a11,a12,a13,a14,a15]"
    by (rule list_of_16 [OF length_le_bytes])
  have "le_bytes 4 (mm_lane 1 key) = [a4, a5, a6, a7]" "le_bytes 4 (mm_lane 3 key) = [a12, a13, a14, a15]"
    by (simp_all add: le_bytes_lane a)
  then show ?thesis
    by (simp add: assms le_bytes_mm_set le_bytes_xor le_bytes_rotr8 le_bytes_4_rcon le_bytes_le_word
        aes_assist_ref_def a Let_def del: le_word.simps)
qed

lemma soft_aeskeygenassist_eq:
  "le_bytes 16 (soft_aeskeygenassist key rcon) = aes_assist_ref (le_bytes 16 key) rcon"
  using aes_assist_eq [where sub = "\<lambda>x. le_word (sub_word (le_bytes 4 x))"]
  by (simp add: soft_aeskeygenassist_def sub_word_bytes mm_cvt_shuffle Let_def)

lemma saes_aeskeygenassist_eq:
  "le_bytes 16 (saes_aeskeygenassist rcon key) = aes_assist_ref (le_bytes 16 key) rcon"
  using aes_assist_eq [where sub = saes_sub_word, OF saes_sub_word_le]
  by (simp add: saes_aeskeygenassist_def mm_cvt_shuffle saes_rotr_eq Let_def)

section \<open>Properties\<close>

text \<open>
  The S-box of the code is that of FIPS 197: each entry is the affine image of the field inverse
  of its index, and the three copies of the table and both sets of round tables agree.
\<close>

theorem aes_sbox_is_inverse:
  "(\<exists>c. aes_inverse b c \<and> aes_sub b = aes_affine c) \<and>
   Sbox = sb_data \<and> saes_sbox = sb_data \<and> saes_table = t_fn"
  using aes_sbox_eq tables_eq by blast

text \<open>
  C18. The table-driven round of both files, on any register and key, is the AES round on the 16
  bytes: substitution, row shift, column mix and key addition.
\<close>

theorem soft_aesenc_is_aes_round:
  "le_bytes 16 (soft_aesenc inp key) = aes_round_ref (le_bytes 16 inp) (le_bytes 16 key) \<and>
   saes_aesenc (map (\<lambda>i. mm_lane i inp) [0..<4]) key = Some (soft_aesenc inp key)"
  using soft_aesenc_eq saes_aesenc_eq by blast

text \<open>
  The key generation assist of both files gives the bytes the AES instruction gives, for every
  round constant.
\<close>

theorem soft_aeskeygenassist_bytes:
  "le_bytes 16 (soft_aeskeygenassist key rcon) = aes_assist_ref (le_bytes 16 key) rcon \<and>
   saes_aeskeygenassist rcon key = soft_aeskeygenassist key rcon"
proof -
  have "saes_aeskeygenassist rcon key = le_word (le_bytes 16 (saes_aeskeygenassist rcon key))"
    by (simp add: le_word_le_bytes)
  also have "\<dots> = soft_aeskeygenassist key rcon"
    unfolding saes_aeskeygenassist_eq soft_aeskeygenassist_eq [symmetric] by (simp add: le_word_le_bytes)
  finally show ?thesis using soft_aeskeygenassist_eq by blast
qed

end
