(* ===== verification/Groestl.thy ===== *)
theory Groestl
  imports Soft_Aes Hash_Interface
begin

text \<open>
  \<open>src/src/crypto/c_groestl.c\<close> with its table and header: the permutations P and Q of
  Groestl-512 on columns of two 32-bit words, the compression and output transformation, and the
  incremental interface with its buffer, block counter and padding. The reference states the
  permutations on the 64 bytes of the state and the hash over the padded message.
\<close>

section \<open>Permutations of c_groestl.c\<close>

definition groestl_T :: "u32 list" where
  "groestl_T = [
     0xa5f432c6, 0xc6a597f4, 0x84976ff8, 0xf884eb97, 0x99b05eee, 0xee99c7b0, 0x8d8c7af6, 0xf68df78c,
     0x0d17e8ff, 0xff0de517, 0xbddc0ad6, 0xd6bdb7dc, 0xb1c816de, 0xdeb1a7c8, 0x54fc6d91, 0x915439fc,
     0x50f09060, 0x6050c0f0, 0x03050702, 0x02030405, 0xa9e02ece, 0xcea987e0, 0x7d87d156, 0x567dac87,
     0x192bcce7, 0xe719d52b, 0x62a613b5, 0xb56271a6, 0xe6317c4d, 0x4de69a31, 0x9ab559ec, 0xec9ac3b5,
     0x45cf408f, 0x8f4505cf, 0x9dbca31f, 0x1f9d3ebc, 0x40c04989, 0x894009c0, 0x879268fa, 0xfa87ef92,
     0x153fd0ef, 0xef15c53f, 0xeb2694b2, 0xb2eb7f26, 0xc940ce8e, 0x8ec90740, 0x0b1de6fb, 0xfb0bed1d,
     0xec2f6e41, 0x41ec822f, 0x67a91ab3, 0xb3677da9, 0xfd1c435f, 0x5ffdbe1c, 0xea256045, 0x45ea8a25,
     0xbfdaf923, 0x23bf46da, 0xf7025153, 0x53f7a602, 0x96a145e4, 0xe496d3a1, 0x5bed769b, 0x9b5b2ded,
     0xc25d2875, 0x75c2ea5d, 0x1c24c5e1, 0xe11cd924, 0xaee9d43d, 0x3dae7ae9, 0x6abef24c, 0x4c6a98be,
     0x5aee826c, 0x6c5ad8ee, 0x41c3bd7e, 0x7e41fcc3, 0x0206f3f5, 0xf502f106, 0x4fd15283, 0x834f1dd1,
     0x5ce48c68, 0x685cd0e4, 0xf4075651, 0x51f4a207, 0x345c8dd1, 0xd134b95c, 0x0818e1f9, 0xf908e918,
     0x93ae4ce2, 0xe293dfae, 0x73953eab, 0xab734d95, 0x53f59762, 0x6253c4f5, 0x3f416b2a, 0x2a3f5441,
     0x0c141c08, 0x080c1014, 0x52f66395, 0x955231f6, 0x65afe946, 0x46658caf, 0x5ee27f9d, 0x9d5e21e2,
     0x28784830, 0x30286078, 0xa1f8cf37, 0x37a16ef8, 0x0f111b0a, 0x0a0f1411, 0xb5c4eb2f, 0x2fb55ec4,
     0x091b150e, 0x0e091c1b, 0x365a7e24, 0x2436485a, 0x9bb6ad1b, 0x1b9b36b6, 0x3d4798df, 0xdf3da547,
     0x266aa7cd, 0xcd26816a, 0x69bbf54e, 0x4e699cbb, 0xcd4c337f, 0x7fcdfe4c, 0x9fba50ea, 0xea9fcfba,
     0x1b2d3f12, 0x121b242d, 0x9eb9a41d, 0x1d9e3ab9, 0x749cc458, 0x5874b09c, 0x2e724634, 0x342e6872,
     0x2d774136, 0x362d6c77, 0xb2cd11dc, 0xdcb2a3cd, 0xee299db4, 0xb4ee7329, 0xfb164d5b, 0x5bfbb616,
     0xf601a5a4, 0xa4f65301, 0x4dd7a176, 0x764decd7, 0x61a314b7, 0xb76175a3, 0xce49347d, 0x7dcefa49,
     0x7b8ddf52, 0x527ba48d, 0x3e429fdd, 0xdd3ea142, 0x7193cd5e, 0x5e71bc93, 0x97a2b113, 0x139726a2,
     0xf504a2a6, 0xa6f55704, 0x68b801b9, 0xb96869b8, 0x00000000, 0x00000000, 0x2c74b5c1, 0xc12c9974,
     0x60a0e040, 0x406080a0, 0x1f21c2e3, 0xe31fdd21, 0xc8433a79, 0x79c8f243, 0xed2c9ab6, 0xb6ed772c,
     0xbed90dd4, 0xd4beb3d9, 0x46ca478d, 0x8d4601ca, 0xd9701767, 0x67d9ce70, 0x4bddaf72, 0x724be4dd,
     0xde79ed94, 0x94de3379, 0xd467ff98, 0x98d42b67, 0xe82393b0, 0xb0e87b23, 0x4ade5b85, 0x854a11de,
     0x6bbd06bb, 0xbb6b6dbd, 0x2a7ebbc5, 0xc52a917e, 0xe5347b4f, 0x4fe59e34, 0x163ad7ed, 0xed16c13a,
     0xc554d286, 0x86c51754, 0xd762f89a, 0x9ad72f62, 0x55ff9966, 0x6655ccff, 0x94a7b611, 0x119422a7,
     0xcf4ac08a, 0x8acf0f4a, 0x1030d9e9, 0xe910c930, 0x060a0e04, 0x0406080a, 0x819866fe, 0xfe81e798,
     0xf00baba0, 0xa0f05b0b, 0x44ccb478, 0x7844f0cc, 0xbad5f025, 0x25ba4ad5, 0xe33e754b, 0x4be3963e,
     0xf30eaca2, 0xa2f35f0e, 0xfe19445d, 0x5dfeba19, 0xc05bdb80, 0x80c01b5b, 0x8a858005, 0x058a0a85,
     0xadecd33f, 0x3fad7eec, 0xbcdffe21, 0x21bc42df, 0x48d8a870, 0x7048e0d8, 0x040cfdf1, 0xf104f90c,
     0xdf7a1963, 0x63dfc67a, 0xc1582f77, 0x77c1ee58, 0x759f30af, 0xaf75459f, 0x63a5e742, 0x426384a5,
     0x30507020, 0x20304050, 0x1a2ecbe5, 0xe51ad12e, 0x0e12effd, 0xfd0ee112, 0x6db708bf, 0xbf6d65b7,
     0x4cd45581, 0x814c19d4, 0x143c2418, 0x1814303c, 0x355f7926, 0x26354c5f, 0x2f71b2c3, 0xc32f9d71,
     0xe13886be, 0xbee16738, 0xa2fdc835, 0x35a26afd, 0xcc4fc788, 0x88cc0b4f, 0x394b652e, 0x2e395c4b,
     0x57f96a93, 0x93573df9, 0xf20d5855, 0x55f2aa0d, 0x829d61fc, 0xfc82e39d, 0x47c9b37a, 0x7a47f4c9,
     0xacef27c8, 0xc8ac8bef, 0xe73288ba, 0xbae76f32, 0x2b7d4f32, 0x322b647d, 0x95a442e6, 0xe695d7a4,
     0xa0fb3bc0, 0xc0a09bfb, 0x98b3aa19, 0x199832b3, 0xd168f69e, 0x9ed12768, 0x7f8122a3, 0xa37f5d81,
     0x66aaee44, 0x446688aa, 0x7e82d654, 0x547ea882, 0xabe6dd3b, 0x3bab76e6, 0x839e950b, 0x0b83169e,
     0xca45c98c, 0x8cca0345, 0x297bbcc7, 0xc729957b, 0xd36e056b, 0x6bd3d66e, 0x3c446c28, 0x283c5044,
     0x798b2ca7, 0xa779558b, 0xe23d81bc, 0xbce2633d, 0x1d273116, 0x161d2c27, 0x769a37ad, 0xad76419a,
     0x3b4d96db, 0xdb3bad4d, 0x56fa9e64, 0x6456c8fa, 0x4ed2a674, 0x744ee8d2, 0x1e223614, 0x141e2822,
     0xdb76e492, 0x92db3f76, 0x0a1e120c, 0x0c0a181e, 0x6cb4fc48, 0x486c90b4, 0xe4378fb8, 0xb8e46b37,
     0x5de7789f, 0x9f5d25e7, 0x6eb20fbd, 0xbd6e61b2, 0xef2a6943, 0x43ef862a, 0xa6f135c4, 0xc4a693f1,
     0xa8e3da39, 0x39a872e3, 0xa4f7c631, 0x31a462f7, 0x37598ad3, 0xd337bd59, 0x8b8674f2, 0xf28bff86,
     0x325683d5, 0xd532b156, 0x43c54e8b, 0x8b430dc5, 0x59eb856e, 0x6e59dceb, 0xb7c218da, 0xdab7afc2,
     0x8c8f8e01, 0x018c028f, 0x64ac1db1, 0xb16479ac, 0xd26df19c, 0x9cd2236d, 0xe03b7249, 0x49e0923b,
     0xb4c71fd8, 0xd8b4abc7, 0xfa15b9ac, 0xacfa4315, 0x0709faf3, 0xf307fd09, 0x256fa0cf, 0xcf25856f,
     0xafea20ca, 0xcaaf8fea, 0x8e897df4, 0xf48ef389, 0xe9206747, 0x47e98e20, 0x18283810, 0x10182028,
     0xd5640b6f, 0x6fd5de64, 0x888373f0, 0xf088fb83, 0x6fb1fb4a, 0x4a6f94b1, 0x7296ca5c, 0x5c72b896,
     0x246c5438, 0x3824706c, 0xf1085f57, 0x57f1ae08, 0xc7522173, 0x73c7e652, 0x51f36497, 0x975135f3,
     0x2365aecb, 0xcb238d65, 0x7c8425a1, 0xa17c5984, 0x9cbf57e8, 0xe89ccbbf, 0x21635d3e, 0x3e217c63,
     0xdd7cea96, 0x96dd377c, 0xdc7f1e61, 0x61dcc27f, 0x86919c0d, 0x0d861a91, 0x85949b0f, 0x0f851e94,
     0x90ab4be0, 0xe090dbab, 0x42c6ba7c, 0x7c42f8c6, 0xc4572671, 0x71c4e257, 0xaae529cc, 0xccaa83e5,
     0xd873e390, 0x90d83b73, 0x050f0906, 0x06050c0f, 0x0103f4f7, 0xf701f503, 0x12362a1c, 0x1c123836,
     0xa3fe3cc2, 0xc2a39ffe, 0x5fe18b6a, 0x6a5fd4e1, 0xf910beae, 0xaef94710, 0xd06b0269, 0x69d0d26b,
     0x91a8bf17, 0x17912ea8, 0x58e87199, 0x995829e8, 0x2769533a, 0x3a277469, 0xb9d0f727, 0x27b94ed0,
     0x384891d9, 0xd938a948, 0x1335deeb, 0xeb13cd35, 0xb3cee52b, 0x2bb356ce, 0x33557722, 0x22334455,
     0xbbd604d2, 0xd2bbbfd6, 0x709039a9, 0xa9704990, 0x89808707, 0x07890e80, 0xa7f2c133, 0x33a766f2,
     0xb6c1ec2d, 0x2db65ac1, 0x22665a3c, 0x3c227866, 0x92adb815, 0x15922aad, 0x2060a9c9, 0xc9208960,
     0x49db5c87, 0x874915db, 0xff1ab0aa, 0xaaff4f1a, 0x7888d850, 0x5078a088, 0x7a8e2ba5, 0xa57a518e,
     0x8f8a8903, 0x038f068a, 0xf8134a59, 0x59f8b213, 0x809b9209, 0x0980129b, 0x1739231a, 0x1a173439,
     0xda751065, 0x65daca75, 0x315384d7, 0xd731b553, 0xc651d584, 0x84c61351, 0xb8d303d0, 0xd0b8bbd3,
     0xc35edc82, 0x82c31f5e, 0xb0cbe229, 0x29b052cb, 0x7799c35a, 0x5a77b499, 0x11332d1e, 0x1e113c33,
     0xcb463d7b, 0x7bcbf646, 0xfc1fb7a8, 0xa8fc4b1f, 0xd6610c6d, 0x6dd6da61, 0x3a4e622c, 0x2c3a584e]"

text \<open>\<open>ROTATE_COLUMN_DOWN\<close>: the two words of a column, rotated by \<open>n\<close> bytes.\<close>

definition rotate_column_down :: "nat \<Rightarrow> u32 \<times> u32 \<Rightarrow> u32 \<times> u32" where
  "rotate_column_down n = (\<lambda>(v1, v2).
     (push_bit (8 * n) v1 OR drop_bit (8 * (4 - n)) v2, push_bit (8 * n) v2 OR drop_bit (8 * (4 - n)) v1))"

text \<open>\<open>COLUMN\<close>: the upper and lower word of one output column, from the bytes \<open>x\<close>.\<close>

definition groestl_column ::
  "bytes \<Rightarrow> nat \<Rightarrow> nat \<Rightarrow> nat \<Rightarrow> nat \<Rightarrow> nat \<Rightarrow> nat \<Rightarrow> nat \<Rightarrow> nat \<Rightarrow> u32 \<times> u32" where
  "groestl_column x c0 c1 c2 c3 c4 c5 c6 c7 =
    (let T = (\<lambda>i. (groestl_T ! (2 * unat (x ! i)), groestl_T ! (2 * unat (x ! i) + 1)));
         (tu, tl) = T (4 * c0 + 0);
         (tv1, tv2) = rotate_column_down 1 (T (4 * c1 + 1));
         tu = tu XOR tv1; tl = tl XOR tv2;
         (tv1, tv2) = rotate_column_down 2 (T (4 * c2 + 2));
         tu = tu XOR tv1; tl = tl XOR tv2;
         (tv1, tv2) = rotate_column_down 3 (T (4 * c3 + 3));
         tu = tu XOR tv1; tl = tl XOR tv2;
         tl = tl XOR fst (T (4 * c4 + 0));
         tu = tu XOR snd (T (4 * c4 + 0));
         (tv1, tv2) = rotate_column_down 1 (T (4 * c5 + 1));
         tl = tl XOR tv1; tu = tu XOR tv2;
         (tv1, tv2) = rotate_column_down 2 (T (4 * c6 + 2));
         tl = tl XOR tv1; tu = tu XOR tv2;
         (tv1, tv2) = rotate_column_down 3 (T (4 * c7 + 3));
         tl = tl XOR tv1; tu = tu XOR tv2
     in (tu, tl))"

text \<open>
  \<open>RND512P\<close> and \<open>RND512Q\<close> give the array \<open>y\<close>, written whole, two words per
  column; the changed \<open>x\<close> is scratch that no caller reads again.
\<close>

definition RND512P :: "u32 list \<Rightarrow> u32 \<Rightarrow> u32 list" where
  "RND512P x r =
    (let x = x[
          0 := x ! 0 XOR (0x00000000 XOR r),
          2 := x ! 2 XOR (0x00000010 XOR r),
          4 := x ! 4 XOR (0x00000020 XOR r),
          6 := x ! 6 XOR (0x00000030 XOR r),
          8 := x ! 8 XOR (0x00000040 XOR r),
          10 := x ! 10 XOR (0x00000050 XOR r),
          12 := x ! 12 XOR (0x00000060 XOR r),
          14 := x ! 14 XOR (0x00000070 XOR r)];
         b = bytes_of 4 x
     in concat (map (\<lambda>(tu, tl). [tu, tl])
        [groestl_column b 0 2 4 6 9 11 13 15,
         groestl_column b 2 4 6 8 11 13 15 1,
         groestl_column b 4 6 8 10 13 15 1 3,
         groestl_column b 6 8 10 12 15 1 3 5,
         groestl_column b 8 10 12 14 1 3 5 7,
         groestl_column b 10 12 14 0 3 5 7 9,
         groestl_column b 12 14 0 2 5 7 9 11,
         groestl_column b 14 0 2 4 7 9 11 13]))"

definition RND512Q :: "u32 list \<Rightarrow> u32 \<Rightarrow> u32 list" where
  "RND512Q x r =
    (let x = x[
          0 := NOT (x ! 0),
          1 := x ! 1 XOR (0xffffffff XOR r),
          2 := NOT (x ! 2),
          3 := x ! 3 XOR (0xefffffff XOR r),
          4 := NOT (x ! 4),
          5 := x ! 5 XOR (0xdfffffff XOR r),
          6 := NOT (x ! 6),
          7 := x ! 7 XOR (0xcfffffff XOR r),
          8 := NOT (x ! 8),
          9 := x ! 9 XOR (0xbfffffff XOR r),
          10 := NOT (x ! 10),
          11 := x ! 11 XOR (0xafffffff XOR r),
          12 := NOT (x ! 12),
          13 := x ! 13 XOR (0x9fffffff XOR r),
          14 := NOT (x ! 14),
          15 := x ! 15 XOR (0x8fffffff XOR r)];
         b = bytes_of 4 x
     in concat (map (\<lambda>(tu, tl). [tu, tl])
        [groestl_column b 2 6 10 14 1 5 9 13,
         groestl_column b 4 8 12 0 3 7 11 15,
         groestl_column b 6 10 14 2 5 9 13 1,
         groestl_column b 8 12 0 4 7 11 15 3,
         groestl_column b 10 14 2 6 9 13 1 5,
         groestl_column b 12 0 4 8 11 15 3 7,
         groestl_column b 14 2 6 10 13 1 5 9,
         groestl_column b 0 4 8 12 15 3 7 11]))"

definition groestl_Q :: "u32 list \<Rightarrow> u32 list" where
  "groestl_Q z =
    (let y = RND512Q z 0x00000000; z = RND512Q y 0x01000000;
         y = RND512Q z 0x02000000; z = RND512Q y 0x03000000;
         y = RND512Q z 0x04000000; z = RND512Q y 0x05000000;
         y = RND512Q z 0x06000000; z = RND512Q y 0x07000000;
         y = RND512Q z 0x08000000
     in RND512Q y 0x09000000)"

definition groestl_P :: "u32 list \<Rightarrow> u32 list" where
  "groestl_P z =
    (let y = RND512P z 0x00000000; z = RND512P y 0x00000001;
         y = RND512P z 0x00000002; z = RND512P y 0x00000003;
         y = RND512P z 0x00000004; z = RND512P y 0x00000005;
         y = RND512P z 0x00000006; z = RND512P y 0x00000007;
         y = RND512P z 0x00000008
     in RND512P y 0x00000009)"

definition F512 :: "u32 list \<Rightarrow> u32 list \<Rightarrow> u32 list" where
  "F512 h m =
    (let z = map (\<lambda>i. m ! i) [0..<16];
         Ptmp = map (\<lambda>i. h ! i XOR m ! i) [0..<16];
         Qtmp = groestl_Q z;
         Ptmp = groestl_P Ptmp
     in map (\<lambda>i. h ! i XOR (Ptmp ! i XOR Qtmp ! i)) [0..<16])"

section \<open>The incremental interface\<close>

record groestl_state =
  gr_chaining :: "u32 list"
  gr_counter1 :: u32
  gr_counter2 :: u32
  gr_buffer :: bytes
  gr_buf_ptr :: nat
  gr_bits :: nat

definition groestl_count :: "groestl_state \<Rightarrow> groestl_state" where
  "groestl_count ctx =
    (let ctx = ctx\<lparr>gr_counter1 := gr_counter1 ctx + 1\<rparr>
     in if gr_counter1 ctx = 0 then ctx\<lparr>gr_counter2 := gr_counter2 ctx + 1\<rparr> else ctx)"

function groestl_transform :: "groestl_state \<Rightarrow> bytes \<Rightarrow> nat \<Rightarrow> groestl_state option" where
  "groestl_transform ctx input msglen =
    (if 64 \<le> msglen
     then (case load input 0 64 of
             None \<Rightarrow> None
           | Some blk \<Rightarrow>
               groestl_transform
                 (groestl_count (ctx\<lparr>gr_chaining := F512 (gr_chaining ctx) (words_of 4 blk)\<rparr>))
                 (drop 64 input) (msglen - 64))
     else Some ctx)"
  by pat_completeness auto
termination
  by (relation "measure (\<lambda>(ctx, input, msglen). msglen)") auto

declare groestl_transform.simps [simp del]

definition groestl_output_transformation :: "groestl_state \<Rightarrow> groestl_state" where
  "groestl_output_transformation ctx =
    (let temp = groestl_P (map (\<lambda>j. gr_chaining ctx ! j) [0..<16])
     in ctx\<lparr>gr_chaining := map (\<lambda>j. gr_chaining ctx ! j XOR temp ! j) [0..<16]\<rparr>)"

definition u32BIG :: "u32 \<Rightarrow> u32" where
  "u32BIG a = (rotl a 8 AND 0x00FF00FF) OR (rotl a 24 AND 0xFF00FF00)"

text \<open>The initialisation leaves the buffer as it is.\<close>

definition groestl_init :: "groestl_state \<Rightarrow> groestl_state" where
  "groestl_init ctx =
    ctx\<lparr>gr_chaining := (replicate 16 0)[15 := u32BIG 256], gr_buf_ptr := 0, gr_counter1 := 0,
        gr_counter2 := 0, gr_bits := 0\<rparr>"

text \<open>\<open>while (buf_ptr < SIZE512 && index < msglen) buffer[buf_ptr++] = input[index++]\<close>\<close>

function groestl_fill :: "bytes \<Rightarrow> nat \<Rightarrow> bytes \<Rightarrow> nat \<Rightarrow> nat \<Rightarrow> (bytes \<times> nat \<times> nat) option" where
  "groestl_fill buf ptr input index msglen =
    (if ptr < 64 \<and> index < msglen
     then do {
       v \<leftarrow> get_at input index;
       buf \<leftarrow> put_at buf ptr v;
       groestl_fill buf (ptr + 1) input (index + 1) msglen
     }
     else Some (buf, ptr, index))"
  by pat_completeness auto
termination
  by (relation "measure (\<lambda>(buf, ptr, input, index, msglen). msglen - index)") auto

declare groestl_fill.simps [simp del]

text \<open>\<open>while (index < msglen) buffer[buf_ptr++] = input[index++]\<close>\<close>

function groestl_store :: "bytes \<Rightarrow> nat \<Rightarrow> bytes \<Rightarrow> nat \<Rightarrow> nat \<Rightarrow> (bytes \<times> nat) option" where
  "groestl_store buf ptr input index msglen =
    (if index < msglen
     then do {
       v \<leftarrow> get_at input index;
       buf \<leftarrow> put_at buf ptr v;
       groestl_store buf (ptr + 1) input (index + 1) msglen
     }
     else Some (buf, ptr))"
  by pat_completeness auto
termination
  by (relation "measure (\<lambda>(buf, ptr, input, index, msglen). msglen - index)") auto

declare groestl_store.simps [simp del]

text \<open>The bits after the last whole byte, if any: \<open>index\<close> is an \<open>int\<close> in C.\<close>

definition groestl_last_bits :: "groestl_state \<Rightarrow> bytes \<Rightarrow> int \<Rightarrow> nat \<Rightarrow> groestl_state option" where
  "groestl_last_bits ctx input index rem =
    (if rem \<noteq> 0
     then do {
       v \<leftarrow> (if index < 0 then None else get_at input (nat index));
       buf \<leftarrow> put_at (gr_buffer ctx) (gr_buf_ptr ctx) v;
       Some (ctx\<lparr>gr_bits := rem, gr_buffer := buf, gr_buf_ptr := gr_buf_ptr ctx + 1\<rparr>)
     }
     else Some ctx)"

text \<open>
  The byte length is converted to \<open>int\<close>, so it is negative for some lengths above
  \<open>2 ^ 31\<close>; the division of C rounds towards zero.
\<close>

definition groestl_update :: "groestl_state \<Rightarrow> bytes \<Rightarrow> nat \<Rightarrow> groestl_state option" where
  "groestl_update ctx input databitlen =
    (let msglen = sint (of_nat (databitlen div 8) :: u32);
         rem = databitlen mod 8
     in do {
       (ctx, index, full) \<leftarrow>
         (if gr_buf_ptr ctx \<noteq> 0
          then do {
            (buf, ptr, index) \<leftarrow> groestl_fill (gr_buffer ctx) (gr_buf_ptr ctx) input 0 (nat msglen);
            let ctx = ctx\<lparr>gr_buffer := buf, gr_buf_ptr := ptr\<rparr>;
            if ptr < 64
            then do { ctx \<leftarrow> groestl_last_bits ctx input (int index) rem; Some (ctx, index, False) }
            else do { ctx \<leftarrow> groestl_transform (ctx\<lparr>gr_buf_ptr := 0\<rparr>) buf 64; Some (ctx, index, True) }
          }
          else Some (ctx, 0, True));
       if \<not> full then Some ctx
       else do {
         let rest = msglen - int index;
         ctx \<leftarrow> groestl_transform ctx (drop index input) (nat rest);
         let index = int index + (if rest < 0 then - ((- rest) div 64) else rest div 64) * 64;
         (buf, ptr) \<leftarrow> groestl_store (gr_buffer ctx) (gr_buf_ptr ctx) input (nat index) (nat msglen);
         groestl_last_bits (ctx\<lparr>gr_buffer := buf, gr_buf_ptr := ptr\<rparr>) input (max index msglen) rem
       }
     })"

function groestl_zeros :: "bytes \<Rightarrow> nat \<Rightarrow> nat \<Rightarrow> bytes option" where
  "groestl_zeros buf ptr limit =
    (if ptr < limit then do { buf \<leftarrow> put_at buf ptr 0; groestl_zeros buf (ptr + 1) limit } else Some buf)"
  by pat_completeness auto
termination
  by (relation "measure (\<lambda>(buf, ptr, limit). limit - ptr)") auto

declare groestl_zeros.simps [simp del]

text \<open>\<open>while (buf_ptr > limit) { buffer[--buf_ptr] = (uint8_t)counter; counter >>= 8; }\<close>\<close>

fun groestl_length :: "bytes \<Rightarrow> nat list \<Rightarrow> u32 \<Rightarrow> (bytes \<times> u32) option" where
  "groestl_length buf [] counter = Some (buf, counter)"
| "groestl_length buf (i # is) counter =
     do { buf \<leftarrow> put_at buf i (ucast counter); groestl_length buf is (drop_bit 8 counter) }"

definition groestl_final :: "groestl_state \<Rightarrow> (groestl_state \<times> bytes) option" where
  "groestl_final ctx =
    do {
      let ptr = gr_buf_ptr ctx;
      let bilb = gr_bits ctx;
      ctx \<leftarrow>
        (if bilb \<noteq> 0
         then do {
           v \<leftarrow> (if ptr = 0 then None else get_at (gr_buffer ctx) (ptr - 1));
           buf \<leftarrow> put_at (gr_buffer ctx) (ptr - 1)
             ((v AND push_bit (8 - bilb) (push_bit bilb 1 - 1)) XOR push_bit (7 - bilb) 1);
           Some (ctx\<lparr>gr_buffer := buf, gr_bits := 0\<rparr>)
         }
         else do {
           buf \<leftarrow> put_at (gr_buffer ctx) ptr 0x80;
           Some (ctx\<lparr>gr_buffer := buf, gr_buf_ptr := ptr + 1\<rparr>)
         });
      ctx \<leftarrow>
        (if 56 < gr_buf_ptr ctx
         then do {
           buf \<leftarrow> groestl_zeros (gr_buffer ctx) (gr_buf_ptr ctx) 64;
           ctx \<leftarrow> groestl_transform (ctx\<lparr>gr_buffer := buf\<rparr>) buf 64;
           Some (ctx\<lparr>gr_buf_ptr := 0\<rparr>)
         }
         else Some ctx);
      buf \<leftarrow> groestl_zeros (gr_buffer ctx) (gr_buf_ptr ctx) 56;
      let ctx = groestl_count ctx;
      (buf, c1) \<leftarrow> groestl_length buf [63, 62, 61, 60] (gr_counter1 ctx);
      (buf, c2) \<leftarrow> groestl_length buf [59, 58, 57, 56] (gr_counter2 ctx);
      ctx \<leftarrow> groestl_transform
        (ctx\<lparr>gr_buffer := buf, gr_buf_ptr := 56, gr_counter1 := c1, gr_counter2 := c2\<rparr>) buf 64;
      let ctx = groestl_output_transformation ctx;
      let out = take 32 (drop 32 (bytes_of 4 (gr_chaining ctx)));
      Some (ctx\<lparr>gr_chaining := replicate 8 0 @ drop 8 (gr_chaining ctx), gr_buffer := replicate 64 0\<rparr>, out)
    }"

definition groestl :: "groestl_state \<Rightarrow> bytes \<Rightarrow> nat \<Rightarrow> bytes option" where
  "groestl ctx data databitlen =
    do {
      ctx \<leftarrow> groestl_update (groestl_init ctx) data databitlen;
      (ctx, out) \<leftarrow> groestl_final ctx;
      Some out
    }"

section \<open>Reference permutations\<close>

text \<open>The state is 64 bytes, byte \<open>8 j + i\<close> in row \<open>i\<close> of column \<open>j\<close>.\<close>

definition groestl_circ :: "u8 list" where
  "groestl_circ = [2, 2, 3, 4, 5, 3, 5, 7]"

definition groestl_mix :: "bytes \<Rightarrow> bytes" where
  "groestl_mix a =
    map (\<lambda>i. foldr (\<lambda>k s. gf_mul (a ! k) (groestl_circ ! ((k + 8 - i) mod 8)) XOR s) [0..<8] 0) [0..<8]"

text \<open>A round: constants, substitution, byte shift by row, column mix.\<close>

definition groestl_round_ref :: "nat list \<Rightarrow> bytes \<Rightarrow> bytes \<Rightarrow> bytes" where
  "groestl_round_ref shift consts st =
    (let s = map aes_sub (map2 (XOR) st consts)
     in concat (map (\<lambda>j. groestl_mix (map (\<lambda>i. s ! (8 * ((j + shift ! i) mod 8) + i)) [0..<8])) [0..<8]))"

definition groestl_P_const :: "u8 \<Rightarrow> bytes" where
  "groestl_P_const r = concat (map (\<lambda>j. (push_bit 4 (of_nat j) XOR r) # replicate 7 0) [0..<8])"

definition groestl_Q_const :: "u8 \<Rightarrow> bytes" where
  "groestl_Q_const r =
    concat (map (\<lambda>j. replicate 7 0xff @ [(0xff XOR push_bit 4 (of_nat j)) XOR r]) [0..<8])"

definition groestl_P_ref :: "bytes \<Rightarrow> bytes" where
  "groestl_P_ref st =
    fold (\<lambda>r. groestl_round_ref [0,1,2,3,4,5,6,7] (groestl_P_const (of_nat r))) [0..<10] st"

definition groestl_Q_ref :: "bytes \<Rightarrow> bytes" where
  "groestl_Q_ref st =
    fold (\<lambda>r. groestl_round_ref [1,3,5,7,0,2,4,6] (groestl_Q_const (of_nat r))) [0..<10] st"

section \<open>The table\<close>

fun pair_up :: "'a list \<Rightarrow> ('a \<times> 'a) list" where
  "pair_up (a # b # xs) = (a, b) # pair_up xs"
| "pair_up xs = []"

lemma pair_up_nth: "2 * i + 1 < length xs \<Longrightarrow> pair_up xs ! i = (xs ! (2 * i), xs ! (2 * i + 1))"
  by (induction xs arbitrary: i rule: pair_up.induct) (auto simp: nth_Cons' split: nat_diff_split)

lemma length_pair_up: "length (pair_up xs) = length xs div 2"
  by (induction xs rule: pair_up.induct) simp_all

definition groestl_tcol :: "u8 \<Rightarrow> bytes" where
  "groestl_tcol s =
    (let s2 = xtime s; s3 = s2 XOR s; s4 = xtime s2; s5 = s4 XOR s; s7 = s4 XOR s3
     in [s2, s7, s5, s3, s5, s4, s3, s2])"

definition groestl_T_from :: "nat \<Rightarrow> nat \<Rightarrow> bool" where
  "groestl_T_from n k =
     list_all2 (\<lambda>s (u, l). le_bytes 4 u @ le_bytes 4 l = groestl_tcol s)
       (take k (drop n sb_data)) (take k (drop n (pair_up groestl_T)))"

lemma groestl_T_0: "groestl_T_from 0 64"
  by code_simp

lemma groestl_T_64: "groestl_T_from 64 64"
  by code_simp

lemma groestl_T_128: "groestl_T_from 128 64"
  by code_simp

lemma groestl_T_192: "groestl_T_from 192 64"
  by code_simp

lemma length_groestl_T: "length groestl_T = 512"
  by (simp add: groestl_T_def)

lemma groestl_T_from_nth:
  assumes "groestl_T_from n k" "n \<le> unat b" "unat b < n + k" "n + k \<le> 256"
  shows "le_bytes 4 (groestl_T ! (2 * unat b)) @ le_bytes 4 (groestl_T ! (2 * unat b + 1))
    = groestl_tcol (aes_sub b)"
proof -
  have "2 * unat b + 1 < length groestl_T" using assms by (simp add: length_groestl_T)
  note p = pair_up_nth [OF this]
  have "unat b - n < length (take k (drop n sb_data))" using assms by simp
  then show ?thesis
    using list_all2_nthD [OF assms(1) [unfolded groestl_T_from_def], of "unat b - n"] assms p
    by (simp add: length_pair_up length_groestl_T aes_sub_def)
qed

lemma groestl_T_bytes:
  "le_bytes 4 (groestl_T ! (2 * unat b)) @ le_bytes 4 (groestl_T ! (2 * unat b + 1))
    = groestl_tcol (aes_sub b)"
proof -
  consider "unat b < 64" | "64 \<le> unat b \<and> unat b < 128" | "128 \<le> unat b \<and> unat b < 192" | "192 \<le> unat b"
    by linarith
  then show ?thesis
  proof cases
    case 1 then show ?thesis by (intro groestl_T_from_nth [OF groestl_T_0]) simp_all
  next
    case 2 then show ?thesis by (intro groestl_T_from_nth [OF groestl_T_64]) simp_all
  next
    case 3 then show ?thesis by (intro groestl_T_from_nth [OF groestl_T_128]) simp_all
  next
    case 4 then show ?thesis
      by (intro groestl_T_from_nth [OF groestl_T_192]) (use u8_bound [of b] in simp_all)
  qed
qed

lemma gf_mul_small:
  "gf_mul b 2 = xtime b" "gf_mul b 3 = xtime b XOR b" "gf_mul b 4 = xtime (xtime b)"
  "gf_mul b 5 = xtime (xtime b) XOR b" "gf_mul b 7 = xtime (xtime b) XOR (xtime b XOR b)"
proof -
  have 0: "gf_mul_from n a 0 = 0" for n a by (induction n arbitrary: a) simp_all
  have d: "drop_bit 1 (2 :: u8) = 1" "drop_bit 1 (3 :: u8) = 1" "drop_bit 1 (1 :: u8) = 0"
    "drop_bit 1 (4 :: u8) = 2" "drop_bit 1 (5 :: u8) = 2" "drop_bit 1 (7 :: u8) = 3" by simp_all
  have 8: "(8 :: nat) = Suc (Suc (Suc 5))" by simp
  show "gf_mul b 2 = xtime b" "gf_mul b 3 = xtime b XOR b" by (fact gf_mul_2_3)+
  show "gf_mul b 4 = xtime (xtime b)" "gf_mul b 5 = xtime (xtime b) XOR b"
    "gf_mul b 7 = xtime (xtime b) XOR (xtime b XOR b)"
    unfolding gf_mul_def 8 gf_mul_from.simps d 0 by (simp_all add: ac_simps)
qed

section \<open>A column\<close>

lemma le_bytes_shift_in:
  fixes x y :: u32
  assumes "n \<le> 4"
  shows "le_bytes 4 (push_bit (8 * n) x OR drop_bit (8 * (4 - n)) y)
    = drop (4 - n) (le_bytes 4 y) @ take (4 - n) (le_bytes 4 x)"
proof (rule nth_equalityI)
  show "length (le_bytes 4 (push_bit (8 * n) x OR drop_bit (8 * (4 - n)) y))
      = length (drop (4 - n) (le_bytes 4 y) @ take (4 - n) (le_bytes 4 x))" using assms by simp
next
  fix i assume "i < length (le_bytes 4 (push_bit (8 * n) x OR drop_bit (8 * (4 - n)) y))"
  then have i: "i < 4" by simp
  show "le_bytes 4 (push_bit (8 * n) x OR drop_bit (8 * (4 - n)) y) ! i
      = (drop (4 - n) (le_bytes 4 y) @ take (4 - n) (le_bytes 4 x)) ! i"
  proof (rule bit_word_eqI)
    fix k assume "k < LENGTH(8)"
    then have k: "k < 8" by simp
    show "bit (le_bytes 4 (push_bit (8 * n) x OR drop_bit (8 * (4 - n)) y) ! i) k
        = bit ((drop (4 - n) (le_bytes 4 y) @ take (4 - n) (le_bytes 4 x)) ! i) k"
    proof (cases "i < n")
      case True
      have e: "8 * (4 - n) + (8 * i + k) = 8 * (4 - n + i) + k" by simp
      show ?thesis using True i k assms
        by (simp add: bit_le_bytes_iff bit_or_iff bit_push_bit_iff bit_drop_bit_eq nth_append e)
    next
      case False
      have e: "8 * i + k - 8 * n = 8 * (i - n) + k" using False by simp
      have "\<not> bit y (8 * (4 - n) + (8 * i + k))"
        using False by (auto dest!: bit_imp_le_length)
      then show ?thesis using False i k assms
        by (simp add: bit_le_bytes_iff bit_or_iff bit_push_bit_iff bit_drop_bit_eq nth_append e)
    qed
  qed
qed

lemma rotate_column_down_bytes:
  assumes "le_bytes 4 p @ le_bytes 4 q = [b0, b1, b2, b3, b4, b5, b6, b7]"
  shows "le_bytes 4 (fst (rotate_column_down 1 (p, q))) = [b7, b0, b1, b2]"
    "le_bytes 4 (snd (rotate_column_down 1 (p, q))) = [b3, b4, b5, b6]"
    "le_bytes 4 (fst (rotate_column_down 2 (p, q))) = [b6, b7, b0, b1]"
    "le_bytes 4 (snd (rotate_column_down 2 (p, q))) = [b2, b3, b4, b5]"
    "le_bytes 4 (fst (rotate_column_down 3 (p, q))) = [b5, b6, b7, b0]"
    "le_bytes 4 (snd (rotate_column_down 3 (p, q))) = [b1, b2, b3, b4]"
proof -
  have pq: "le_bytes 4 p = [b0, b1, b2, b3]" "le_bytes 4 q = [b4, b5, b6, b7]"
    using assms by (simp_all add: append_eq_conv_conj)
  show "le_bytes 4 (fst (rotate_column_down 1 (p, q))) = [b7, b0, b1, b2]"
    "le_bytes 4 (snd (rotate_column_down 1 (p, q))) = [b3, b4, b5, b6]"
    using le_bytes_shift_in [of 1] by (simp_all add: rotate_column_down_def pq)
  show "le_bytes 4 (fst (rotate_column_down 2 (p, q))) = [b6, b7, b0, b1]"
    "le_bytes 4 (snd (rotate_column_down 2 (p, q))) = [b2, b3, b4, b5]"
    using le_bytes_shift_in [of 2] by (simp_all add: rotate_column_down_def pq)
  show "le_bytes 4 (fst (rotate_column_down 3 (p, q))) = [b5, b6, b7, b0]"
    "le_bytes 4 (snd (rotate_column_down 3 (p, q))) = [b1, b2, b3, b4]"
    using le_bytes_shift_in [of 3] by (simp_all add: rotate_column_down_def pq)
qed

lemma upt_8_foldr: "foldr f [0..<8] (0 :: u8) = f 0 (f 1 (f 2 (f 3 (f 4 (f 5 (f 6 (f 7 0)))))))"
  by (simp add: upt_8)

lemma groestl_column_bytes:
  assumes "groestl_column x c0 c1 c2 c3 c4 c5 c6 c7 = (up, lo)"
  shows "le_bytes 4 up @ le_bytes 4 lo = groestl_mix (map aes_sub
    [x ! (4 * c0 + 0), x ! (4 * c1 + 1), x ! (4 * c2 + 2), x ! (4 * c3 + 3),
     x ! (4 * c4 + 0), x ! (4 * c5 + 1), x ! (4 * c6 + 2), x ! (4 * c7 + 3)])"
proof -
  define p where "p = (\<lambda>b :: u8. groestl_T ! (2 * unat b))"
  define q where "q = (\<lambda>b :: u8. groestl_T ! (2 * unat b + 1))"
  define s2 where "s2 = (\<lambda>b. gf_mul (aes_sub b) 2)"
  define s3 where "s3 = (\<lambda>b. gf_mul (aes_sub b) 3)"
  define s4 where "s4 = (\<lambda>b. gf_mul (aes_sub b) 4)"
  define s5 where "s5 = (\<lambda>b. gf_mul (aes_sub b) 5)"
  define s7 where "s7 = (\<lambda>b. gf_mul (aes_sub b) 7)"
  note s = s2_def s3_def s4_def s5_def s7_def
  have t: "le_bytes 4 (p b) @ le_bytes 4 (q b) = [s2 b, s7 b, s5 b, s3 b, s5 b, s4 b, s3 b, s2 b]" for b
    unfolding p_def q_def groestl_T_bytes by (simp add: groestl_tcol_def Let_def s gf_mul_small ac_simps)
  have pq: "le_bytes 4 (p b) = [s2 b, s7 b, s5 b, s3 b]" "le_bytes 4 (q b) = [s5 b, s4 b, s3 b, s2 b]" for b
    using t [of b] by (simp_all add: append_eq_conv_conj)
  note r = rotate_column_down_bytes [OF t]
  define b0 where "b0 = x ! (4 * c0 + 0)"  define b1 where "b1 = x ! (4 * c1 + 1)"
  define b2 where "b2 = x ! (4 * c2 + 2)"  define b3 where "b3 = x ! (4 * c3 + 3)"
  define b4 where "b4 = x ! (4 * c4 + 0)"  define b5 where "b5 = x ! (4 * c5 + 1)"
  define b6 where "b6 = x ! (4 * c6 + 2)"  define b7 where "b7 = x ! (4 * c7 + 3)"
  note b = b0_def b1_def b2_def b3_def b4_def b5_def b6_def b7_def
  have c: "up = p b0 XOR fst (rotate_column_down 1 (p b1, q b1)) XOR fst (rotate_column_down 2 (p b2, q b2))
      XOR fst (rotate_column_down 3 (p b3, q b3)) XOR q b4 XOR snd (rotate_column_down 1 (p b5, q b5))
      XOR snd (rotate_column_down 2 (p b6, q b6)) XOR snd (rotate_column_down 3 (p b7, q b7))"
    "lo = q b0 XOR snd (rotate_column_down 1 (p b1, q b1)) XOR snd (rotate_column_down 2 (p b2, q b2))
      XOR snd (rotate_column_down 3 (p b3, q b3)) XOR p b4 XOR fst (rotate_column_down 1 (p b5, q b5))
      XOR fst (rotate_column_down 2 (p b6, q b6)) XOR fst (rotate_column_down 3 (p b7, q b7))"
    using assms unfolding groestl_column_def Let_def b [symmetric] p_def [symmetric] q_def [symmetric]
    by (auto simp: case_prod_beta p_def q_def xor.assoc)
  have "le_bytes 4 up @ le_bytes 4 lo = groestl_mix (map aes_sub [b0, b1, b2, b3, b4, b5, b6, b7])"
    unfolding c le_bytes_xor r pq
    by (simp add: groestl_mix_def upt_8_foldr groestl_circ_def s upt_8 ac_simps)
  then show ?thesis unfolding b .
qed

section \<open>The rounds\<close>

lemma length_groestl_mix [simp]: "length (groestl_mix a) = 8"
  by (simp add: groestl_mix_def)

lemma groestl_pairs_bytes:
  "bytes_of 4 (concat (map (\<lambda>(tu, tl). [tu, tl]) cs))
    = concat (map (\<lambda>(tu, tl). le_bytes 4 tu @ le_bytes 4 tl) cs)"
  by (induction cs) (auto simp: bytes_of_def)

lemma groestl_column_bytes':
  "(case groestl_column x c0 c1 c2 c3 c4 c5 c6 c7 of (u, l) \<Rightarrow> le_bytes 4 u @ le_bytes 4 l)
    = groestl_mix (map aes_sub
    [x ! (4 * c0 + 0), x ! (4 * c1 + 1), x ! (4 * c2 + 2), x ! (4 * c3 + 3),
     x ! (4 * c4 + 0), x ! (4 * c5 + 1), x ! (4 * c6 + 2), x ! (4 * c7 + 3)])"
  by (cases "groestl_column x c0 c1 c2 c3 c4 c5 c6 c7") (simp only: prod.case groestl_column_bytes)

lemma map_nth_small: "i < length xs \<Longrightarrow> map f xs ! i = f (xs ! i)"
  by simp

text \<open>The round on bytes, with the constants already added, for the index lists of P and Q.\<close>

lemma groestl_shift_P:
  assumes "length b = 64"
  shows "concat (map (\<lambda>j. groestl_mix (map (\<lambda>i. map aes_sub b ! (8 * ((j + [0,1,2,3,4,5,6,7] ! i) mod 8) + i)) [0..<8])) [0..<8])
    = concat (map (\<lambda>(tu, tl). le_bytes 4 tu @ le_bytes 4 tl)
        [groestl_column b 0 2 4 6 9 11 13 15,
         groestl_column b 2 4 6 8 11 13 15 1,
         groestl_column b 4 6 8 10 13 15 1 3,
         groestl_column b 6 8 10 12 15 1 3 5,
         groestl_column b 8 10 12 14 1 3 5 7,
         groestl_column b 10 12 14 0 3 5 7 9,
         groestl_column b 12 14 0 2 5 7 9 11,
         groestl_column b 14 0 2 4 7 9 11 13])"
  using assms by (simp add: groestl_column_bytes' upt_8)

lemma groestl_shift_Q:
  assumes "length b = 64"
  shows "concat (map (\<lambda>j. groestl_mix (map (\<lambda>i. map aes_sub b ! (8 * ((j + [1,3,5,7,0,2,4,6] ! i) mod 8) + i)) [0..<8])) [0..<8])
    = concat (map (\<lambda>(tu, tl). le_bytes 4 tu @ le_bytes 4 tl)
        [groestl_column b 2 6 10 14 1 5 9 13,
         groestl_column b 4 8 12 0 3 7 11 15,
         groestl_column b 6 10 14 2 5 9 13 1,
         groestl_column b 8 12 0 4 7 11 15 3,
         groestl_column b 10 14 2 6 9 13 1 5,
         groestl_column b 12 0 4 8 11 15 3 7,
         groestl_column b 14 2 6 10 13 1 5 9,
         groestl_column b 0 4 8 12 15 3 7 11])"
  using assms by (simp add: groestl_column_bytes' upt_8)

lemma bytes_of_xor:
  "length x = length c \<Longrightarrow> bytes_of n (map2 (XOR) x c) = map2 (XOR) (bytes_of n x) (bytes_of n c)"
  by (induction x c rule: list_induct2) (simp_all add: bytes_of_def le_bytes_xor)

lemma le_bytes_4_top: "le_bytes 4 (push_bit 24 (ucast (r :: u8)) :: u32) = [0, 0, 0, r]"
proof -
  have "(push_bit 24 (ucast r) :: u32) = le_word [0, 0, 0, r]"
    by (simp add: push_bit_push_bit)
  then show ?thesis by (simp add: le_bytes_le_word del: le_word.simps)
qed

lemma replicate_7: "replicate 7 x = [x, x, x, x, x, x, x]"
  by (simp add: numeral_eq_Suc)

lemma le_bytes_4_const:
  "le_bytes 4 (0 :: u32) = [0, 0, 0, 0]"
  "le_bytes 4 (0x10 :: u32) = [0x10, 0, 0, 0]" "le_bytes 4 (0x20 :: u32) = [0x20, 0, 0, 0]"
  "le_bytes 4 (0x30 :: u32) = [0x30, 0, 0, 0]" "le_bytes 4 (0x40 :: u32) = [0x40, 0, 0, 0]"
  "le_bytes 4 (0x50 :: u32) = [0x50, 0, 0, 0]" "le_bytes 4 (0x60 :: u32) = [0x60, 0, 0, 0]"
  "le_bytes 4 (0x70 :: u32) = [0x70, 0, 0, 0]"
  "le_bytes 4 (0xffffffff :: u32) = [0xff, 0xff, 0xff, 0xff]" "le_bytes 4 (0xefffffff :: u32) = [0xff, 0xff, 0xff, 0xef]"
  "le_bytes 4 (0xdfffffff :: u32) = [0xff, 0xff, 0xff, 0xdf]" "le_bytes 4 (0xcfffffff :: u32) = [0xff, 0xff, 0xff, 0xcf]"
  "le_bytes 4 (0xbfffffff :: u32) = [0xff, 0xff, 0xff, 0xbf]" "le_bytes 4 (0xafffffff :: u32) = [0xff, 0xff, 0xff, 0xaf]"
  "le_bytes 4 (0x9fffffff :: u32) = [0xff, 0xff, 0xff, 0x9f]" "le_bytes 4 (0x8fffffff :: u32) = [0xff, 0xff, 0xff, 0x8f]"
  by (simp_all add: le_bytes_def upt_rec)

lemma RND512P_bytes:
  assumes "length x = 16"
  shows "bytes_of 4 (RND512P x (ucast r)) = groestl_round_ref [0,1,2,3,4,5,6,7] (groestl_P_const r) (bytes_of 4 x)"
proof -
  define c :: "u32 list" where "c = [0x00 XOR ucast r, 0, 0x10 XOR ucast r, 0, 0x20 XOR ucast r, 0,
    0x30 XOR ucast r, 0, 0x40 XOR ucast r, 0, 0x50 XOR ucast r, 0, 0x60 XOR ucast r, 0, 0x70 XOR ucast r, 0]"
  have x: "x[0 := x ! 0 XOR (0x00000000 XOR ucast r), 2 := x ! 2 XOR (0x00000010 XOR ucast r),
      4 := x ! 4 XOR (0x00000020 XOR ucast r), 6 := x ! 6 XOR (0x00000030 XOR ucast r),
      8 := x ! 8 XOR (0x00000040 XOR ucast r), 10 := x ! 10 XOR (0x00000050 XOR ucast r),
      12 := x ! 12 XOR (0x00000060 XOR ucast r), 14 := x ! 14 XOR (0x00000070 XOR ucast r)] = map2 (XOR) x c"
    using assms by (elim list_of_16) (simp add: c_def)
  have "bytes_of 4 c = groestl_P_const r"
    by (simp add: c_def bytes_of_def groestl_P_const_def le_bytes_xor le_bytes_4_const le_bytes_4_rcon upt_8
        replicate_7)
  then have b: "bytes_of 4 (map2 (XOR) x c) = map2 (XOR) (bytes_of 4 x) (groestl_P_const r)"
    using assms by (simp add: bytes_of_xor c_def)
  show ?thesis
    unfolding RND512P_def Let_def x groestl_pairs_bytes groestl_round_ref_def
    by (subst groestl_shift_P) (simp_all add: b groestl_P_const_def upt_8 assms)
qed

lemma RND512Q_bytes:
  assumes "length x = 16"
  shows "bytes_of 4 (RND512Q x (push_bit 24 (ucast r)))
    = groestl_round_ref [1,3,5,7,0,2,4,6] (groestl_Q_const r) (bytes_of 4 x)"
proof -
  define s :: u32 where "s = push_bit 24 (ucast r)"
  define k :: u32 where "k = 0xffffffff"
  define c :: "u32 list" where "c = [k, 0xffffffff XOR s, k, 0xefffffff XOR s, k, 0xdfffffff XOR s,
    k, 0xcfffffff XOR s, k, 0xbfffffff XOR s, k, 0xafffffff XOR s, k, 0x9fffffff XOR s, k, 0x8fffffff XOR s]"
  have n: "NOT w = w XOR k" for w :: u32
  proof -
    have "k = - 1" by (simp add: k_def)
    then show ?thesis by simp
  qed
  have x: "x[0 := NOT (x ! 0), 1 := x ! 1 XOR (0xffffffff XOR s),
      2 := NOT (x ! 2), 3 := x ! 3 XOR (0xefffffff XOR s),
      4 := NOT (x ! 4), 5 := x ! 5 XOR (0xdfffffff XOR s),
      6 := NOT (x ! 6), 7 := x ! 7 XOR (0xcfffffff XOR s),
      8 := NOT (x ! 8), 9 := x ! 9 XOR (0xbfffffff XOR s),
      10 := NOT (x ! 10), 11 := x ! 11 XOR (0xafffffff XOR s),
      12 := NOT (x ! 12), 13 := x ! 13 XOR (0x9fffffff XOR s),
      14 := NOT (x ! 14), 15 := x ! 15 XOR (0x8fffffff XOR s)] = map2 (XOR) x c"
    using assms unfolding n by (elim list_of_16) (simp add: c_def)
  have "bytes_of 4 c = groestl_Q_const r"
    by (simp add: c_def k_def s_def bytes_of_def groestl_Q_const_def le_bytes_xor le_bytes_4_const le_bytes_4_top upt_8
        replicate_7)
  then have b: "bytes_of 4 (map2 (XOR) x c) = map2 (XOR) (bytes_of 4 x) (groestl_Q_const r)"
    using assms by (simp add: bytes_of_xor c_def)
  show ?thesis
    unfolding RND512Q_def Let_def s_def [symmetric] x groestl_pairs_bytes groestl_round_ref_def
    by (subst groestl_shift_Q) (simp_all add: b groestl_Q_const_def upt_8 assms)
qed

lemma length_RND512 [simp]: "length (RND512P x r) = 16" "length (RND512Q x r) = 16"
  by (simp_all add: RND512P_def RND512Q_def Let_def case_prod_beta)

lemma length_groestl_PQ [simp]: "length (groestl_P z) = 16" "length (groestl_Q z) = 16"
  by (simp_all add: groestl_P_def groestl_Q_def Let_def)

lemma upt_10: "[0..<10] = [0,1,2,3,4,5,6,7,8,9::nat]"
  by (simp add: upt_rec)

lemma groestl_P_bytes:
  assumes "length z = 16"
  shows "bytes_of 4 (groestl_P z) = groestl_P_ref (bytes_of 4 z)"
proof -
  note R = RND512P_bytes [where r = 0, simplified] RND512P_bytes [where r = 1, simplified]
    RND512P_bytes [where r = 2, simplified] RND512P_bytes [where r = 3, simplified]
    RND512P_bytes [where r = 4, simplified] RND512P_bytes [where r = 5, simplified]
    RND512P_bytes [where r = 6, simplified] RND512P_bytes [where r = 7, simplified]
    RND512P_bytes [where r = 8, simplified] RND512P_bytes [where r = 9, simplified]
  show ?thesis using assms by (simp add: groestl_P_def groestl_P_ref_def Let_def R upt_10)
qed

lemma groestl_Q_bytes:
  assumes "length z = 16"
  shows "bytes_of 4 (groestl_Q z) = groestl_Q_ref (bytes_of 4 z)"
proof -
  note R = RND512Q_bytes [where r = 0, simplified] RND512Q_bytes [where r = 1, simplified]
    RND512Q_bytes [where r = 2, simplified] RND512Q_bytes [where r = 3, simplified]
    RND512Q_bytes [where r = 4, simplified] RND512Q_bytes [where r = 5, simplified]
    RND512Q_bytes [where r = 6, simplified] RND512Q_bytes [where r = 7, simplified]
    RND512Q_bytes [where r = 8, simplified] RND512Q_bytes [where r = 9, simplified]
  show ?thesis using assms by (simp add: groestl_Q_def groestl_Q_ref_def Let_def R upt_10)
qed

text \<open>The compression function and the output transformation on bytes.\<close>

definition groestl_compress_ref :: "bytes \<Rightarrow> bytes \<Rightarrow> bytes" where
  "groestl_compress_ref h m =
     map2 (XOR) (map2 (XOR) (groestl_P_ref (map2 (XOR) h m)) (groestl_Q_ref m)) h"

definition groestl_output_ref :: "bytes \<Rightarrow> bytes" where
  "groestl_output_ref h = map2 (XOR) (groestl_P_ref h) h"

lemma map_nth_16: "length x = 16 \<Longrightarrow> map (\<lambda>i. x ! i) [0..<16] = x"
  using map_nth [of x] by simp

lemma map2_conv_nth:
  "length x = n \<Longrightarrow> length y = n \<Longrightarrow> map (\<lambda>i. f (x ! i) (y ! i)) [0..<n] = map2 f x y"
  by (rule nth_equalityI) simp_all

lemma length_F512 [simp]: "length (F512 h m) = 16"
  by (simp add: F512_def Let_def)

lemma F512_bytes:
  assumes "length h = 16" "length m = 16"
  shows "bytes_of 4 (F512 h m) = groestl_compress_ref (bytes_of 4 h) (bytes_of 4 m)"
proof -
  have "F512 h m = map2 (XOR) (map2 (XOR) (groestl_P (map2 (XOR) h m)) (groestl_Q m)) h"
    unfolding F512_def Let_def map_nth_16 [OF assms(2)] map2_conv_nth [OF assms]
    by (rule nth_equalityI) (simp_all add: assms ac_simps)
  then show ?thesis
    using assms by (simp add: groestl_compress_ref_def bytes_of_xor groestl_P_bytes groestl_Q_bytes)
qed

lemma groestl_output_bytes:
  assumes "length (gr_chaining ctx) = 16"
  shows "bytes_of 4 (gr_chaining (groestl_output_transformation ctx)) = groestl_output_ref (bytes_of 4 (gr_chaining ctx))"
    "length (gr_chaining (groestl_output_transformation ctx)) = 16"
proof -
  have "gr_chaining (groestl_output_transformation ctx) = map2 (XOR) (groestl_P (gr_chaining ctx)) (gr_chaining ctx)"
    unfolding groestl_output_transformation_def Let_def map_nth_16 [OF assms]
    by (simp, rule nth_equalityI) (simp_all add: assms ac_simps)
  then show "bytes_of 4 (gr_chaining (groestl_output_transformation ctx)) = groestl_output_ref (bytes_of 4 (gr_chaining ctx))"
    using assms by (simp add: groestl_output_ref_def bytes_of_xor groestl_P_bytes)
  show "length (gr_chaining (groestl_output_transformation ctx)) = 16"
    by (simp add: groestl_output_transformation_def Let_def)
qed

section \<open>Reference hash\<close>

definition groestl_iv :: bytes where
  "groestl_iv = replicate 62 0 @ [1, 0]"

text \<open>A one bit, zero bits up to the last eight bytes of a block, and the number of blocks.\<close>

definition groestl_tail :: "nat \<Rightarrow> bytes" where
  "groestl_tail n =
    (let k = (119 - n mod 64) mod 64 in [0x80] @ replicate k 0 @ be_bytes 8 ((n + k + 9) div 64))"

definition groestl_chain :: "bytes list \<Rightarrow> bytes" where
  "groestl_chain bs = fold (\<lambda>b h. groestl_compress_ref h b) bs groestl_iv"

definition groestl_hash_ref :: "bytes \<Rightarrow> bytes" where
  "groestl_hash_ref m =
     drop 32 (groestl_output_ref (groestl_chain (full_blocks 64 (m @ groestl_tail (length m)))))"

section \<open>What a state stands for\<close>

definition groestl_core :: "groestl_state \<Rightarrow> bytes list \<Rightarrow> bool" where
  "groestl_core S bs \<longleftrightarrow>
     bytes_of 4 (gr_chaining S) = groestl_chain bs \<and> length (gr_chaining S) = 16 \<and>
     gr_counter1 S = of_nat (length bs) \<and> gr_counter2 S = of_nat (length bs div 2 ^ 32) \<and> gr_bits S = 0"

definition groestl_repr :: "groestl_state \<Rightarrow> bytes \<Rightarrow> bool" where
  "groestl_repr S m \<longleftrightarrow>
     groestl_core S (full_blocks 64 m) \<and> gr_buf_ptr S = length m mod 64 \<and>
     length (gr_buffer S) = 64 \<and> take (length m mod 64) (gr_buffer S) = partial_block 64 m"

lemma groestl_core_cong:
  "gr_chaining S' = gr_chaining S \<Longrightarrow> gr_counter1 S' = gr_counter1 S \<Longrightarrow> gr_counter2 S' = gr_counter2 S \<Longrightarrow>
   gr_bits S' = gr_bits S \<Longrightarrow> groestl_core S' bs = groestl_core S bs"
  by (simp add: groestl_core_def)

lemma groestl_init_repr: "length (gr_buffer S) = 64 \<Longrightarrow> groestl_repr (groestl_init S) []"
proof -
  have "u32BIG 256 = 0x00010000" by (simp add: u32BIG_def rotl_def)
  moreover have "replicate 16 0 = [0, 0, 0, 0, 0, 0, 0, 0, 0, 0, 0, 0, 0, 0, 0, 0 :: u32]"
    by (simp add: numeral_eq_Suc)
  ultimately have c: "gr_chaining (groestl_init S) = [0, 0, 0, 0, 0, 0, 0, 0, 0, 0, 0, 0, 0, 0, 0, 0x00010000]"
    by (simp add: groestl_init_def)
  have iv: "groestl_iv = [
      0, 0, 0, 0, 0, 0, 0, 0, 0, 0, 0, 0, 0, 0, 0, 0,
      0, 0, 0, 0, 0, 0, 0, 0, 0, 0, 0, 0, 0, 0, 0, 0,
      0, 0, 0, 0, 0, 0, 0, 0, 0, 0, 0, 0, 0, 0, 0, 0,
      0, 0, 0, 0, 0, 0, 0, 0, 0, 0, 0, 0, 0, 0, 1, 0]"
    by (simp add: groestl_iv_def numeral_eq_Suc)
  have "bytes_of 4 (gr_chaining (groestl_init S)) = groestl_iv"
    unfolding c iv by (simp add: bytes_of_def le_bytes_def upt_rec)
  then show "length (gr_buffer S) = 64 \<Longrightarrow> ?thesis"
    using c by (simp add: groestl_repr_def groestl_core_def groestl_chain_def full_blocks_short
        partial_block_def) (simp add: groestl_init_def)
qed

lemma groestl_carry: "Suc n div 2 ^ 32 = n div 2 ^ 32 + (if 2 ^ 32 dvd Suc n then 1 else (0 :: nat))"
  by (simp add: div_Suc dvd_eq_mod_eq_0)

lemma groestl_count_core:
  assumes "gr_counter1 S = of_nat n" "gr_counter2 S = of_nat (n div 2 ^ 32)"
  shows "gr_counter1 (groestl_count S) = of_nat (Suc n)"
    "gr_counter2 (groestl_count S) = of_nat (Suc n div 2 ^ 32)"
proof -
  have c: "gr_counter1 S + 1 = of_nat (Suc n)" using assms by simp
  have "gr_counter1 S + 1 = 0 \<longleftrightarrow> 2 ^ 32 dvd Suc n"
    unfolding c using word_of_nat_eq_0_iff [where 'a = 32, of "Suc n"] by simp
  then show "gr_counter1 (groestl_count S) = of_nat (Suc n)"
    "gr_counter2 (groestl_count S) = of_nat (Suc n div 2 ^ 32)"
    using assms groestl_carry [of n] c by (simp_all add: groestl_count_def Let_def)
qed

lemma groestl_count_other [simp]:
  "gr_chaining (groestl_count S) = gr_chaining S" "gr_bits (groestl_count S) = gr_bits S"
  "gr_buffer (groestl_count S) = gr_buffer S" "gr_buf_ptr (groestl_count S) = gr_buf_ptr S"
  by (simp_all add: groestl_count_def Let_def)

lemma groestl_core_step:
  assumes "groestl_core S bs" "length blk = 64"
  shows "groestl_core (groestl_count (S\<lparr>gr_chaining := F512 (gr_chaining S) (words_of 4 blk)\<rparr>)) (bs @ [blk])"
proof -
  let ?S = "S\<lparr>gr_chaining := F512 (gr_chaining S) (words_of 4 blk)\<rparr>"
  have "bytes_of 4 (words_of 4 blk :: u32 list) = blk" using assms by (simp add: bytes_of_words_of)
  then have "bytes_of 4 (F512 (gr_chaining S) (words_of 4 blk)) = groestl_chain (bs @ [blk])"
    using assms F512_bytes [of "gr_chaining S" "words_of 4 blk"] by (simp add: groestl_core_def groestl_chain_def)
  moreover have "gr_counter1 ?S = of_nat (length bs)" "gr_counter2 ?S = of_nat (length bs div 2 ^ 32)"
    using assms unfolding groestl_core_def by auto
  note groestl_count_core [OF this]
  ultimately show ?thesis using assms(1) by (simp add: groestl_core_def)
qed

lemma groestl_transform_eq:
  assumes "groestl_core S bs" "n \<le> length input"
  shows "\<exists>S'. groestl_transform S input n = Some S' \<and>
    groestl_core S' (bs @ full_blocks 64 (take n input)) \<and>
    gr_buffer S' = gr_buffer S \<and> gr_buf_ptr S' = gr_buf_ptr S"
  using assms
proof (induction n arbitrary: S bs input rule: less_induct)
  case (less n)
  show ?case
  proof (cases "64 \<le> n")
    case False
    then show ?thesis using less.prems
      by (subst groestl_transform.simps) (simp add: full_blocks_short)
  next
    case True
    define blk where "blk = take 64 input"
    define S1 where "S1 = groestl_count (S\<lparr>gr_chaining := F512 (gr_chaining S) (words_of 4 blk)\<rparr>)"
    have lb: "length blk = 64" using True less.prems by (simp add: blk_def)
    have c: "groestl_core S1 (bs @ [blk])"
      unfolding S1_def by (rule groestl_core_step [OF less.prems(1) lb])
    have "take n input = blk @ take (n - 64) (drop 64 input)"
      using True by (simp add: blk_def flip: take_add)
    then have fb: "full_blocks 64 (take n input) = blk # full_blocks 64 (take (n - 64) (drop 64 input))"
      using full_blocks_step [of 64 blk] lb by simp
    have "groestl_transform S input n = groestl_transform S1 (drop 64 input) (n - 64)"
      using True less.prems by (subst groestl_transform.simps) (simp add: load_def S1_def blk_def)
    moreover have "\<exists>S'. groestl_transform S1 (drop 64 input) (n - 64) = Some S' \<and>
        groestl_core S' ((bs @ [blk]) @ full_blocks 64 (take (n - 64) (drop 64 input))) \<and>
        gr_buffer S' = gr_buffer S1 \<and> gr_buf_ptr S' = gr_buf_ptr S1"
      by (rule less.IH [OF _ c]) (use True less.prems in auto)
    ultimately show ?thesis by (simp add: fb S1_def)
  qed
qed

section \<open>Taking in data\<close>

lemma groestl_fill_eq:
  assumes "ptr \<le> 64" "length buf = 64" "index \<le> n" "n \<le> length input"
  defines "k \<equiv> min (64 - ptr) (n - index)"
  shows "groestl_fill buf ptr input index n
    = Some (take ptr buf @ take k (drop index input) @ drop (ptr + k) buf, ptr + k, index + k)"
  using assms
proof (induction "n - index" arbitrary: buf ptr index k)
  case 0
  then show ?case by (subst groestl_fill.simps) simp
next
  case (Suc j)
  show ?case
  proof (cases "ptr < 64")
    case False
    then show ?thesis using Suc by (subst groestl_fill.simps) simp
  next
    case True
    let ?k = "min (64 - (ptr + 1)) (n - (index + 1))"
    have i: "index < n" "index < length input" using Suc by auto
    have "groestl_fill (buf[ptr := input ! index]) (ptr + 1) input (index + 1) n
      = Some (take (ptr + 1) (buf[ptr := input ! index]) @ take ?k (drop (index + 1) input)
          @ drop (ptr + 1 + ?k) (buf[ptr := input ! index]), ptr + 1 + ?k, index + 1 + ?k)"
      by (rule Suc(1)) (use Suc True in auto)
    moreover have "min (64 - ptr) (n - index) = Suc ?k" using True i by simp
    moreover have "take (ptr + 1) (buf[ptr := input ! index]) = take ptr buf @ [input ! index]"
      using True Suc by (simp add: take_Suc_conv_app_nth)
    moreover have "drop index input = input ! index # drop (index + 1) input"
      using i by (simp add: Cons_nth_drop_Suc)
    ultimately show ?thesis using True i Suc(4)
      by (subst groestl_fill.simps) (simp add: get_at_def put_at_def)
  qed
qed

lemma groestl_store_eq:
  assumes "ptr + (n - index) \<le> 64" "length buf = 64" "index \<le> n" "n \<le> length input"
  shows "groestl_store buf ptr input index n
    = Some (take ptr buf @ take (n - index) (drop index input) @ drop (ptr + (n - index)) buf, ptr + (n - index))"
  using assms
proof (induction "n - index" arbitrary: buf ptr index)
  case 0
  then show ?case by (subst groestl_store.simps) simp
next
  case (Suc j)
  have i: "index < n" "index < length input" "ptr < 64" using Suc by auto
  have "groestl_store (buf[ptr := input ! index]) (ptr + 1) input (index + 1) n
    = Some (take (ptr + 1) (buf[ptr := input ! index]) @ take (n - (index + 1)) (drop (index + 1) input)
        @ drop (ptr + 1 + (n - (index + 1))) (buf[ptr := input ! index]), ptr + 1 + (n - (index + 1)))"
    by (rule Suc(1)) (use Suc i in auto)
  moreover have "n - index = Suc (n - (index + 1))" using i by simp
  moreover have "take (ptr + 1) (buf[ptr := input ! index]) = take ptr buf @ [input ! index]"
    using i Suc by (simp add: take_Suc_conv_app_nth)
  moreover have "drop index input = input ! index # drop (index + 1) input"
    using i by (simp add: Cons_nth_drop_Suc)
  ultimately show ?case using i Suc(4)
    by (subst groestl_store.simps) (simp add: get_at_def put_at_def)
qed

lemma sint_small: "n < 2 ^ 31 \<Longrightarrow> sint (of_nat n :: u32) = int n"
  by (simp add: signed_of_nat signed_take_bit_int_eq_self)

lemma groestl_update_eq:
  assumes "groestl_repr S m" "n \<le> length d" "n < 2 ^ 31"
  shows "\<exists>S'. groestl_update S d (8 * n) = Some S' \<and> groestl_repr S' (m @ take n d)"
proof -
  define left where "left = length m mod 64"
  have S: "groestl_core S (full_blocks 64 m)" "gr_buf_ptr S = left" "length (gr_buffer S) = 64"
      "take left (gr_buffer S) = partial_block 64 m"
    using assms by (simp_all add: groestl_repr_def left_def)
  have left: "left < 64" by (simp add: left_def)
  have lp: "length (partial_block 64 m) = left" by (simp add: left_def length_partial_block)
  have sn: "sint (of_nat (8 * n div 8) :: u32) = int n" "8 * n mod 8 = 0"
    using assms by (simp_all add: sint_small)
  have fr: "full_blocks 64 (m @ take n d) = full_blocks 64 m @ full_blocks 64 (partial_block 64 m @ take n d)"
    by (rule full_blocks_front) simp
  have pr: "partial_block 64 (m @ take n d) = partial_block 64 (partial_block 64 m @ take n d)"
    using partial_block_append [of 64 "concat (full_blocks 64 m)" "partial_block 64 m @ take n d"]
      dvd_length_full_blocks [of 64 m] concat_full_blocks [of 64 m] by (simp flip: append_assoc)
  have lb: "groestl_last_bits S' i j 0 = Some S'" for S' i j by (simp add: groestl_last_bits_def)
  show ?thesis
  proof (cases "left \<noteq> 0 \<and> left + n < 64")
    case True
    let ?buf = "take left (gr_buffer S) @ take n d @ drop (left + n) (gr_buffer S)"
    have "groestl_fill (gr_buffer S) left d 0 n = Some (?buf, left + n, n)"
    proof -
      have "min (64 - left) n = n" using True by auto
      then show ?thesis using groestl_fill_eq [of left "gr_buffer S" 0 n d] S left assms by simp
    qed
    then have "groestl_update S d (8 * n) = Some (S\<lparr>gr_buffer := ?buf, gr_buf_ptr := left + n\<rparr>)"
      using True S unfolding groestl_update_def Let_def sn nat_int by (simp add: lb)
    moreover have "full_blocks 64 (partial_block 64 m @ take n d) = []"
      "partial_block 64 (partial_block 64 m @ take n d) = partial_block 64 m @ take n d"
      using True lp assms by (simp_all add: full_blocks_short partial_block_id)
    moreover have "(length m + n) mod 64 = left + n"
      using True by (simp add: left_def mod_add_left_eq [of "length m" 64, symmetric])
    moreover have "groestl_core (S\<lparr>gr_buffer := b, gr_buf_ptr := j\<rparr>) bs = groestl_core S bs" for b j bs
      by (rule groestl_core_cong) simp_all
    ultimately show ?thesis using S lp assms fr pr by (simp add: groestl_repr_def)
  next
    case False
    define k where "k = (if left = 0 then 0 else 64 - left)"
    have k: "k \<le> n" "left \<noteq> 0 \<Longrightarrow> left + k = 64" using False left by (auto simp: k_def)
    define pre where "pre = (if left = 0 then [] else [partial_block 64 m @ take k d])"
    obtain S1 where S1: "(if left \<noteq> 0
          then do {
            (buf, ptr, index) \<leftarrow> groestl_fill (gr_buffer S) left d 0 n;
            let ctx = S\<lparr>gr_buffer := buf, gr_buf_ptr := ptr\<rparr>;
            if ptr < 64
            then do { ctx \<leftarrow> groestl_last_bits ctx d (int index) 0; Some (ctx, index, False) }
            else do { ctx \<leftarrow> groestl_transform (ctx\<lparr>gr_buf_ptr := 0\<rparr>) buf 64; Some (ctx, index, True) }
          }
          else Some (S, 0, True)) = Some (S1, k, True)"
        "groestl_core S1 (full_blocks 64 m @ pre)" "length (gr_buffer S1) = 64" "gr_buf_ptr S1 = 0"
    proof (cases "left = 0")
      case True
      then show ?thesis using S that by (simp add: k_def pre_def)
    next
      case lz: False
      let ?b = "partial_block 64 m @ take k d"
      have b: "length ?b = 64" using lp lz k assms by simp
      have "groestl_fill (gr_buffer S) left d 0 n = Some (?b, 64, k)"
        using groestl_fill_eq [of left "gr_buffer S" 0 n d] S lz k assms left False
        by (simp add: min_def k_def)
      moreover obtain S2 where "groestl_transform (S\<lparr>gr_buffer := ?b, gr_buf_ptr := 0\<rparr>) ?b 64 = Some S2"
          "groestl_core S2 (full_blocks 64 m @ [?b])" "gr_buffer S2 = ?b" "gr_buf_ptr S2 = 0"
      proof -
        have "groestl_core (S\<lparr>gr_buffer := ?b, gr_buf_ptr := 0\<rparr>) (full_blocks 64 m)"
          using S(1) by (simp cong: groestl_core_cong)
        moreover have t: "take 64 ?b = ?b" by (rule take_all) (simp only: b)
        moreover have "full_blocks 64 ?b = [?b]" using b by (intro full_blocks_single) simp_all
        ultimately show ?thesis
          using groestl_transform_eq [of "S\<lparr>gr_buffer := ?b, gr_buf_ptr := 0\<rparr>" _ 64 ?b] b that by auto
      qed
      ultimately show ?thesis using lz that b by (simp add: pre_def Let_def)
    qed
    define r where "r = (n - k) mod 64"
    define w where "w = n - k - r"
    have w: "k + w \<le> n" "n - (k + w) = r" "w = (n - k) div 64 * 64" "w \<le> n - k"
      using k by (simp_all add: w_def r_def minus_mod_eq_div_mult) (simp_all add: minus_mod_eq_div_mult [symmetric])
    obtain S3 where S3: "groestl_transform S1 (drop k d) (n - k) = Some S3"
        "groestl_core S3 ((full_blocks 64 m @ pre) @ full_blocks 64 (take (n - k) (drop k d)))"
        "gr_buffer S3 = gr_buffer S1" "gr_buf_ptr S3 = gr_buf_ptr S1"
      using groestl_transform_eq [OF S1(2), of "n - k" "drop k d"] diff_le_mono [OF assms(2), of k] by auto
    let ?buf = "take r (drop (k + w) d) @ drop r (gr_buffer S1)"
    have r: "r < 64" by (simp add: r_def)
    have st: "groestl_store (gr_buffer S3) 0 d (k + w) n = Some (?buf, r)"
    proof -
      have "0 + (n - (k + w)) \<le> 64" "length (gr_buffer S3) = 64" using w(2) r S1(3) S3(3) by simp_all
      from groestl_store_eq [OF this w(1) assms(2)] show ?thesis unfolding w(2) by (simp add: S3(3))
    qed
    have upd: "groestl_update S d (8 * n) = Some (S3\<lparr>gr_buffer := ?buf, gr_buf_ptr := r\<rparr>)"
    proof -
      have i: "int n - int k = int (n - k)" using k by simp
      have j: "int k + int (n - k) div 64 * 64 = int (k + w)" using w(3) by simp
      show ?thesis
        unfolding groestl_update_def Let_def sn S(2) nat_int using S1(1) [unfolded Let_def]
        by (simp add: S1 S3 i j st [unfolded S3(3)] lb del: of_nat_add of_nat_diff)
    qed
    have e: "partial_block 64 m @ take n d = concat pre @ take (n - k) (drop k d)"
    proof (cases "left = 0")
      case True
      then show ?thesis using lp by (simp add: pre_def k_def)
    next
      case False
      then show ?thesis using k by (simp add: pre_def flip: take_add)
    qed
    have pre: "full_blocks 64 (concat pre @ x) = pre @ full_blocks 64 x"
        "partial_block 64 (concat pre @ x) = partial_block 64 x" for x
      using full_blocks_step [of 64 "partial_block 64 m @ take k d"] partial_block_append [of 64 "concat pre"] lp k assms
      by (auto simp: pre_def)
    have pl: "partial_block 64 (take (n - k) (drop k d)) = take r (drop (k + w) d)"
    proof -
      have "length (take (n - k) (drop k d)) = n - k" using assms k by simp
      then have "partial_block 64 (take (n - k) (drop k d)) = drop w (take (n - k) (drop k d))"
        unfolding partial_block_def w_def r_def by (simp only:)
      moreover have "n - k - w = r" using w(2) by simp
      ultimately show ?thesis by (simp add: drop_take add.commute)
    qed
    have lm: "(length m + n) mod 64 = r"
    proof -
      have "r \<le> length d - (k + w)" using w(1,2) assms(2) by linarith
      then have "length (partial_block 64 (m @ take n d)) = r"
        using length_partial_block [of 64] unfolding pr e pre pl by simp
      then show ?thesis using assms by (simp add: length_partial_block)
    qed
    have core: "groestl_core (S3\<lparr>gr_buffer := ?buf, gr_buf_ptr := r\<rparr>) (full_blocks 64 (m @ take n d))"
    proof -
      have fm: "full_blocks 64 (m @ take n d)
          = (full_blocks 64 m @ pre) @ full_blocks 64 (take (n - k) (drop k d))"
        unfolding fr e pre(1) by simp
      show ?thesis unfolding fm using S3(2) by (simp cong: groestl_core_cong)
    qed
    have l: "r \<le> length d - (k + w)" using w(1,2) assms(2) by linarith
    have "partial_block 64 (m @ take n d) = take r (drop (k + w) d)" unfolding pr e pre pl ..
    then have "groestl_repr (S3\<lparr>gr_buffer := ?buf, gr_buf_ptr := r\<rparr>) (m @ take n d)"
      using core lm l S1(3) r assms(2) by (simp add: groestl_repr_def)
    then show ?thesis using upd by blast
  qed
qed

section \<open>Finishing\<close>

lemma groestl_zeros_eq:
  assumes "ptr \<le> limit" "limit \<le> length buf"
  shows "groestl_zeros buf ptr limit = Some (take ptr buf @ replicate (limit - ptr) 0 @ drop limit buf)"
  using assms
proof (induction "limit - ptr" arbitrary: buf ptr)
  case 0
  then show ?case by (subst groestl_zeros.simps) simp
next
  case (Suc j)
  have p: "ptr < limit" "ptr < length buf" using Suc by simp_all
  have "groestl_zeros (buf[ptr := 0]) (ptr + 1) limit
      = Some (take (ptr + 1) (buf[ptr := 0]) @ replicate (limit - (ptr + 1)) 0 @ drop limit (buf[ptr := 0]))"
    by (rule Suc(1)) (use Suc in auto)
  moreover have "limit - ptr = Suc (limit - (ptr + 1))" using p by simp
  ultimately show ?case using p
    by (subst groestl_zeros.simps) (simp add: put_at_def take_Suc_conv_app_nth)
qed

lemma groestl_length_eq:
  assumes "length p = 56" "length q = 8"
  shows "\<exists>e c d. groestl_length (p @ q) [63, 62, 61, 60] (of_nat n) = Some (e, c) \<and>
    groestl_length e [59, 58, 57, 56] (of_nat (n div 2 ^ 32)) = Some (p @ be_bytes 8 n, d)"
proof -
  have q: "q = take 4 q @ take 4 (drop 4 q)" "length (take 4 q) = 4" "length (take 4 (drop 4 q)) = 4"
    using assms append_take_drop_id [of 4 q] by simp_all
  obtain q0 q1 q2 q3 where 0: "take 4 q = [q0, q1, q2, q3]" using q(2) by (rule list_of_4)
  obtain q4 q5 q6 q7 where 1: "take 4 (drop 4 q) = [q4, q5, q6, q7]" using q(3) by (rule list_of_4)
  have q8: "q = [q0, q1, q2, q3, q4, q5, q6, q7]" using q(1) unfolding 0 1 by simp
  have put: "put_at (p @ xs) 63 v = Some (p @ xs[7 := v])" "put_at (p @ xs) 62 v = Some (p @ xs[6 := v])"
    "put_at (p @ xs) 61 v = Some (p @ xs[5 := v])" "put_at (p @ xs) 60 v = Some (p @ xs[4 := v])"
    "put_at (p @ xs) 59 v = Some (p @ xs[3 := v])" "put_at (p @ xs) 58 v = Some (p @ xs[2 := v])"
    "put_at (p @ xs) 57 v = Some (p @ xs[1 := v])" "put_at (p @ xs) 56 v = Some (p @ xs[0 := v])"
    if "length xs = 8" for xs v
    using that assms(1) by (simp_all add: put_at_def list_update_append)
  define lo hi :: u32 where "lo = of_nat n" and "hi = of_nat (n div 2 ^ 32)"
  have four: "be_bytes 4 k = [ucast (drop_bit 24 w), ucast (drop_bit 16 w), ucast (drop_bit 8 w), ucast w]"
    if "w = of_nat k" for w :: u32 and k
    using map_nth [of "be_bytes 4 k"] be_bytes_nth [of 0 4 k, where 'a = 32] be_bytes_nth [of 1 4 k, where 'a = 32]
      be_bytes_nth [of 2 4 k, where 'a = 32] be_bytes_nth [of 3 4 k, where 'a = 32]
    by (simp add: that upt_rec numeral_2_eq_2 numeral_3_eq_3)
  have be: "be_bytes 8 n = [ucast (drop_bit 24 hi), ucast (drop_bit 16 hi), ucast (drop_bit 8 hi), ucast hi,
      ucast (drop_bit 24 lo), ucast (drop_bit 16 lo), ucast (drop_bit 8 lo), ucast lo]"
    using be_bytes_append [of 4 4 n] four [OF lo_def] four [OF hi_def] by simp
  have 1: "groestl_length (p @ q) [63, 62, 61, 60] lo = Some (p @ [q0, q1, q2, q3, ucast (drop_bit 24 lo),
      ucast (drop_bit 16 lo), ucast (drop_bit 8 lo), ucast lo], drop_bit 32 lo)"
    unfolding q8 groestl_length.simps by (simp add: put drop_bit_drop_bit)
  have 2: "groestl_length (p @ [q0, q1, q2, q3, ucast (drop_bit 24 lo),
      ucast (drop_bit 16 lo), ucast (drop_bit 8 lo), ucast lo]) [59, 58, 57, 56] hi
      = Some (p @ be_bytes 8 n, drop_bit 32 hi)"
    unfolding be by (simp add: put drop_bit_drop_bit)
  show ?thesis by (intro exI conjI, rule 1 [unfolded lo_def], rule 2 [unfolded lo_def hi_def])
qed

lemma groestl_transform_block:
  assumes "groestl_core S bs" "length blk = 64"
  obtains S' where "groestl_transform S blk 64 = Some S'" "groestl_core S' (bs @ [blk])"
    "gr_buffer S' = gr_buffer S" "gr_buf_ptr S' = gr_buf_ptr S"
  using groestl_transform_eq [OF assms(1), of 64 blk] assms(2) by (auto simp: full_blocks_single)

lemma groestl_final_eq:
  assumes "groestl_repr S m"
  shows "\<exists>S'. groestl_final S = Some (S', groestl_hash_ref m)"
proof -
  define r where "r = length m mod 64"
  define bs where "bs = full_blocks 64 m"
  define p where "p = partial_block 64 m"
  have S: "groestl_core S bs" "gr_buf_ptr S = r" "length (gr_buffer S) = 64" "take r (gr_buffer S) = p" "gr_bits S = 0"
    using assms by (simp_all add: groestl_repr_def r_def bs_def p_def groestl_core_def)
  have lp: "length p = r" and r: "r < 64" by (simp_all add: p_def r_def length_partial_block)
  have lb: "length bs = length m div 64" by (simp add: bs_def length_full_blocks)
  define k where "k = (119 - r) mod 64"
  define N where "N = (length m + k + 9) div 64"
  define ctx1 where "ctx1 = S\<lparr>gr_buffer := p @ 0x80 # drop (r + 1) (gr_buffer S), gr_buf_ptr := r + 1\<rparr>"
  have put: "put_at (gr_buffer S) r 0x80 = Some (p @ 0x80 # drop (r + 1) (gr_buffer S))"
    using S r by (simp add: put_at_def upd_conv_take_nth_drop)
  have c1: "groestl_core ctx1 bs" "length (gr_buffer ctx1) = 64"
    using S r lp by (simp_all add: ctx1_def cong: groestl_core_cong)
  have len: "length m = 64 * length bs + r" by (simp add: lb r_def)
  obtain ctx2 bs2 q where two: "(if 56 < gr_buf_ptr ctx1
         then do {
           buf \<leftarrow> groestl_zeros (gr_buffer ctx1) (gr_buf_ptr ctx1) 64;
           ctx \<leftarrow> groestl_transform (ctx1\<lparr>gr_buffer := buf\<rparr>) buf 64;
           Some (ctx\<lparr>gr_buf_ptr := 0\<rparr>)
         }
         else Some ctx1) = Some ctx2"
      "groestl_core ctx2 bs2" "length (gr_buffer ctx2) = 64" "gr_buf_ptr ctx2 = length q" "length q \<le> 56"
      "take (length q) (gr_buffer ctx2) = q" "Suc (length bs2) = N"
      "bs @ full_blocks 64 (p @ [0x80] @ replicate k 0 @ be_bytes 8 N) = bs2 @ [q @ replicate (56 - length q) 0 @ be_bytes 8 N]"
  proof (cases "r < 56")
    case True
    have "119 - r = 64 + (55 - r)" using True by simp
    then have k: "k = 55 - r" by (simp only: k_def mod_add_self1) simp
    have "length m + k + 9 = 64 * (length bs + 1)" using True by (simp add: len k)
    then have N: "N = length bs + 1" by (simp only: N_def) simp
    have "full_blocks 64 (p @ [0x80] @ replicate k 0 @ be_bytes 8 N)
        = [p @ [0x80] @ replicate k 0 @ be_bytes 8 N]"
      by (rule full_blocks_single) (use True lp k in simp_all)
    moreover have "56 - length (p @ [0x80 :: u8]) = k" using lp k by simp
    ultimately show thesis
      using that [of ctx1 bs "p @ [0x80]"] c1 True lp N by (simp add: ctx1_def)
  next
    case False
    have "k = 119 - r" using False r by (simp add: k_def)
    then have k: "k = (63 - r) + 56" using False r by simp
    have "length m + k + 9 = 64 * (length bs + 2)" using False r by (simp add: len k)
    then have N: "N = length bs + 2" by (simp only: N_def) simp
    let ?b = "p @ [0x80] @ replicate (63 - r) 0"
    have lb1: "length ?b = 64" using False r lp by simp
    have z: "groestl_zeros (gr_buffer ctx1) (gr_buf_ptr ctx1) 64 = Some ?b"
      using groestl_zeros_eq [of "r + 1" 64 "gr_buffer ctx1"] c1 r lp by (simp add: ctx1_def)
    have "groestl_core (ctx1\<lparr>gr_buffer := ?b\<rparr>) bs" using c1 by (simp cong: groestl_core_cong)
    then obtain S2 where S2: "groestl_transform (ctx1\<lparr>gr_buffer := ?b\<rparr>) ?b 64 = Some S2"
        "groestl_core S2 (bs @ [?b])" "gr_buffer S2 = ?b"
      by (rule groestl_transform_block [OF _ lb1]) simp
    have "full_blocks 64 (?b @ replicate 56 0 @ be_bytes 8 N) = [?b, replicate 56 0 @ be_bytes 8 N]"
      using full_blocks_step [of 64 ?b "replicate 56 0 @ be_bytes 8 N"] lb1
        full_blocks_single [of 64 "replicate 56 0 @ be_bytes 8 N"] by simp
    moreover have "p @ [0x80] @ replicate k 0 @ be_bytes 8 N = ?b @ replicate 56 0 @ be_bytes 8 N"
      unfolding k replicate_add by simp
    ultimately have fb: "full_blocks 64 (p @ [0x80] @ replicate k 0 @ be_bytes 8 N) = [?b, replicate 56 0 @ be_bytes 8 N]"
      by simp
    have "groestl_core (S2\<lparr>gr_buf_ptr := 0\<rparr>) (bs @ [?b])" using S2 by (simp cong: groestl_core_cong)
    moreover have "56 < gr_buf_ptr ctx1" using False by (simp add: ctx1_def)
    ultimately show thesis
      using that [of "S2\<lparr>gr_buf_ptr := 0\<rparr>" "bs @ [?b]" "[]"] z S2 lb1 N fb by simp
  qed
  define ctx3 where "ctx3 = groestl_count ctx2"
  have core2: "bytes_of 4 (gr_chaining ctx2) = groestl_chain bs2" "length (gr_chaining ctx2) = 16"
      "gr_counter1 ctx2 = of_nat (length bs2)" "gr_counter2 ctx2 = of_nat (length bs2 div 2 ^ 32)" "gr_bits ctx2 = 0"
    using two(2) unfolding groestl_core_def by auto
  have cnt: "gr_counter1 ctx3 = of_nat N" "gr_counter2 ctx3 = of_nat (N div 2 ^ 32)"
    using groestl_count_core [OF core2(3,4)] unfolding ctx3_def two(7) by auto
  let ?q = "q @ replicate (56 - length q) 0" and ?rest = "drop 56 (gr_buffer ctx2)"
  have z2: "groestl_zeros (gr_buffer ctx2) (gr_buf_ptr ctx2) 56 = Some (?q @ ?rest)"
    using groestl_zeros_eq [of "length q" 56 "gr_buffer ctx2"] two by simp
  obtain e c d where l: "groestl_length (?q @ ?rest) [63, 62, 61, 60] (gr_counter1 ctx3) = Some (e, c)"
      "groestl_length e [59, 58, 57, 56] (gr_counter2 ctx3) = Some (?q @ be_bytes 8 N, d)"
    using groestl_length_eq [of ?q ?rest N] two unfolding cnt by auto
  let ?last = "?q @ be_bytes 8 N"
  define ctx4 where "ctx4 = ctx3\<lparr>gr_buffer := ?last, gr_buf_ptr := 56, gr_counter1 := c, gr_counter2 := d\<rparr>"
  have ll: "length ?last = 64" using two by simp
  obtain S5 where S5: "groestl_transform ctx4 ?last 64 = Some S5"
      "bytes_of 4 (gr_chaining S5) = groestl_chain (bs2 @ [?last])" "length (gr_chaining S5) = 16"
  proof -
    have w: "bytes_of 4 (words_of 4 ?last :: u32 list) = ?last" using ll by (simp_all add: bytes_of_words_of)
    have "groestl_transform ctx4 ?last 64
        = Some (groestl_count (ctx4\<lparr>gr_chaining := F512 (gr_chaining ctx4) (words_of 4 ?last)\<rparr>))"
      using ll by (subst groestl_transform.simps, subst groestl_transform.simps) (simp add: load_def)
    moreover have "gr_chaining ctx4 = gr_chaining ctx2" by (simp add: ctx4_def ctx3_def)
    ultimately show thesis
      using that core2 ll w F512_bytes [of "gr_chaining ctx2" "words_of 4 ?last"] by (simp add: groestl_chain_def)
  qed
  have fb: "full_blocks 64 (m @ groestl_tail (length m)) = bs2 @ [?last]"
    using two(8) full_blocks_front [of 64 m "groestl_tail (length m)"]
    by (simp add: bs_def p_def groestl_tail_def k_def N_def r_def Let_def)
  let ?S6 = "groestl_output_transformation S5"
  have "length (drop 32 (bytes_of 4 (gr_chaining ?S6))) = 32" using groestl_output_bytes(2) [OF S5(3)] by simp
  then have "take 32 (drop 32 (bytes_of 4 (gr_chaining ?S6))) = drop 32 (bytes_of 4 (gr_chaining ?S6))" by simp
  then have out: "take 32 (drop 32 (bytes_of 4 (gr_chaining ?S6))) = groestl_hash_ref m"
    using groestl_output_bytes(1) [OF S5(3)] unfolding groestl_hash_ref_def fb S5(2) by (simp only:)
  have "groestl_final S = Some (?S6\<lparr>gr_chaining := replicate 8 0 @ drop 8 (gr_chaining ?S6), gr_buffer := replicate 64 0\<rparr>,
      groestl_hash_ref m)"
    unfolding groestl_final_def Let_def S(2) S(5) put
    by (simp only: simp_thms if_False bind.bind_lunit ctx1_def [symmetric] two(1) z2 ctx3_def [symmetric]
        l prod.case ctx4_def [symmetric] S5(1) out)
  then show ?thesis by blast
qed

section \<open>The interface\<close>

definition groestl_ready :: "groestl_state \<Rightarrow> bool" where
  "groestl_ready S \<longleftrightarrow> length (gr_buffer S) = 64"

interpretation grs: stream_hash groestl_init groestl_update groestl_final groestl_ready
  groestl_repr 64 "\<lambda>n. n < 2 ^ 31" groestl_hash_ref
proof (unfold_locales, goal_cases)
  case (1 S)
  then show ?case by (simp add: groestl_ready_def groestl_init_repr)
next
  case (2 S m n d)
  then show ?case using groestl_update_eq [of S m n d] by simp
next
  case (3 S m)
  then show ?case by (rule groestl_final_eq)
qed

lemma groestl_eq:
  assumes "groestl_ready S" "n \<le> length d" "n < 2 ^ 31"
  shows "groestl S d (8 * n) = Some (groestl_hash_ref (take n d))"
  by (rule grs.one_shot [OF assms]) (simp only: groestl_def bind.bind_lunit prod.case)

lemma length_groestl_hash_ref: "length (groestl_hash_ref m) = 32"
proof -
  have len: "length (groestl_compress_ref h b) = 64" if "length h = 64" "length b = 64" for h b
  proof -
    have "groestl_compress_ref h b = bytes_of 4 (F512 (words_of 4 h) (words_of 4 b))"
      using that F512_bytes [of "words_of 4 h" "words_of 4 b"] by (simp add: bytes_of_words_of)
    then show ?thesis by simp
  qed
  have "length (fold (\<lambda>b h. groestl_compress_ref h b) bs h) = 64"
    if "length h = 64" "\<And>b. b \<in> set bs \<Longrightarrow> length b = 64" for bs h
    using that by (induction bs arbitrary: h) (auto simp: len)
  then have "length (groestl_chain (full_blocks 64 x)) = 64" for x
    by (simp add: groestl_chain_def groestl_iv_def full_blocks_all_length)
  moreover have "length (groestl_output_ref h) = 64" if "length h = 64" for h
  proof -
    have "groestl_P_ref h = bytes_of 4 (groestl_P (words_of 4 h))"
      using that groestl_P_bytes [of "words_of 4 h"] by (simp add: bytes_of_words_of)
    then show ?thesis using that by (simp add: groestl_output_ref_def)
  qed
  ultimately show ?thesis by (simp add: groestl_hash_ref_def)
qed

section \<open>Properties\<close>

text \<open>
  C19. \<open>groestl\<close> returns Groestl-256 of every byte message shorter than \<open>2 ^ 31\<close> bytes, whatever the
  uninitialised context held: the padded message with its block count, chained from the initial
  value, and the output transformation.
\<close>

theorem groestl_is_groestl:
  assumes "length (gr_buffer S) = 64" "n \<le> length d" "n < 2 ^ 31"
  shows "groestl S d (8 * n) = Some (groestl_hash_ref (take n d))"
  using assms groestl_eq [of S n d] by (simp add: groestl_ready_def)

definition blank_groestl :: groestl_state where
  "blank_groestl = \<lparr>gr_chaining = replicate 16 5, gr_counter1 = 5, gr_counter2 = 5,
     gr_buffer = replicate 64 5, gr_buf_ptr = 5, gr_bits = 5\<rparr>"

theorem groestl_is_groestl_witness:
  "groestl blank_groestl (replicate 200 7) (8 * 200) = Some (groestl_hash_ref (replicate 200 7))"
  using groestl_is_groestl [of blank_groestl 200 "replicate 200 7"] by (simp add: blank_groestl_def)

text \<open>
  The compression function over the table and the column macros is, on bytes, the function of
  the specification: P and Q with their round constants, the AES S-box, the byte shifts and the
  column mix over the field of 256 elements.
\<close>

theorem F512_is_compress:
  assumes "length h = 16" "length m = 16"
  shows "bytes_of 4 (F512 h m) = groestl_compress_ref (bytes_of 4 h) (bytes_of 4 m)"
  using assms by (rule F512_bytes)

theorem F512_is_compress_witness:
  "bytes_of 4 (F512 (replicate 16 1) (replicate 16 2))
    = groestl_compress_ref (bytes_of 4 (replicate 16 1 :: u32 list)) (bytes_of 4 (replicate 16 2 :: u32 list))"
  by (rule F512_is_compress) simp_all

text \<open>
  Data can be given in pieces of any size below \<open>2 ^ 31\<close> bytes: a context that stands for \<open>m\<close>
  stands for \<open>m\<close> and the piece afterwards.
\<close>

theorem groestl_update_append:
  assumes "groestl_repr S m" "n \<le> length d" "n < 2 ^ 31"
  shows "\<exists>S'. groestl_update S d (8 * n) = Some S' \<and> groestl_repr S' (m @ take n d)"
  using assms by (rule groestl_update_eq)

theorem groestl_update_append_witness:
  "\<exists>S'. groestl_update (groestl_init blank_groestl) [1, 2, 3] (8 * 2) = Some S' \<and> groestl_repr S' [1, 2]"
  using groestl_update_append [of "groestl_init blank_groestl" "[]" 2 "[1, 2, 3]"] groestl_init_repr [of blank_groestl]
  by (simp add: blank_groestl_def)

end
