(* ===== verification/Jh.thy ===== *)
theory Jh
  imports Prelude Hash_Interface
begin

text \<open>
  \<open>src/src/crypto/c_jh.c\<close>: the JH hash functions with digests of 224, 256, 384 and 512
  bits. The permutation E8 is computed on 64-bit words in bit slices; the reference states it on
  128 pairs of four-bit elements, with S-boxes as tables, the linear map over the field of 16
  elements and the exchange of elements at distance \<open>2 ^ (r mod 7)\<close>. Lengths are in
  bits, as in C, and need not be whole bytes.
\<close>

unbundle bit_operations_syntax

section \<open>State and tables\<close>

datatype HashReturn = SUCCESS | FAIL | BAD_HASHLEN

text \<open>\<open>jh_x\<close> is the array \<open>x[8][2]\<close>, row after row.\<close>

record jh_state =
  jh_hashbitlen :: int
  jh_databitlen :: u64
  jh_datasize_in_buffer :: u64
  jh_x :: "u64 list"
  jh_buffer :: bytes

definition JH224_H0 :: bytes where
  "JH224_H0 = [
     0x2d, 0xfe, 0xdd, 0x62, 0xf9, 0x9a, 0x98, 0xac, 0xae, 0x7c, 0xac, 0xd6, 0x19, 0xd6, 0x34, 0xe7,
     0xa4, 0x83, 0x10, 0x5, 0xbc, 0x30, 0x12, 0x16, 0xb8, 0x60, 0x38, 0xc6, 0xc9, 0x66, 0x14, 0x94,
     0x66, 0xd9, 0x89, 0x9f, 0x25, 0x80, 0x70, 0x6f, 0xce, 0x9e, 0xa3, 0x1b, 0x1d, 0x9b, 0x1a, 0xdc,
     0x11, 0xe8, 0x32, 0x5f, 0x7b, 0x36, 0x6e, 0x10, 0xf9, 0x94, 0x85, 0x7f, 0x2, 0xfa, 0x6, 0xc1,
     0x1b, 0x4f, 0x1b, 0x5c, 0xd8, 0xc8, 0x40, 0xb3, 0x97, 0xf6, 0xa1, 0x7f, 0x6e, 0x73, 0x80, 0x99,
     0xdc, 0xdf, 0x93, 0xa5, 0xad, 0xea, 0xa3, 0xd3, 0xa4, 0x31, 0xe8, 0xde, 0xc9, 0x53, 0x9a, 0x68,
     0x22, 0xb4, 0xa9, 0x8a, 0xec, 0x86, 0xa1, 0xe4, 0xd5, 0x74, 0xac, 0x95, 0x9c, 0xe5, 0x6c, 0xf0,
     0x15, 0x96, 0xd, 0xea, 0xb5, 0xab, 0x2b, 0xbf, 0x96, 0x11, 0xdc, 0xf0, 0xdd, 0x64, 0xea, 0x6e]"

definition JH256_H0 :: bytes where
  "JH256_H0 = [
     0xeb, 0x98, 0xa3, 0x41, 0x2c, 0x20, 0xd3, 0xeb, 0x92, 0xcd, 0xbe, 0x7b, 0x9c, 0xb2, 0x45, 0xc1,
     0x1c, 0x93, 0x51, 0x91, 0x60, 0xd4, 0xc7, 0xfa, 0x26, 0x0, 0x82, 0xd6, 0x7e, 0x50, 0x8a, 0x3,
     0xa4, 0x23, 0x9e, 0x26, 0x77, 0x26, 0xb9, 0x45, 0xe0, 0xfb, 0x1a, 0x48, 0xd4, 0x1a, 0x94, 0x77,
     0xcd, 0xb5, 0xab, 0x26, 0x2, 0x6b, 0x17, 0x7a, 0x56, 0xf0, 0x24, 0x42, 0xf, 0xff, 0x2f, 0xa8,
     0x71, 0xa3, 0x96, 0x89, 0x7f, 0x2e, 0x4d, 0x75, 0x1d, 0x14, 0x49, 0x8, 0xf7, 0x7d, 0xe2, 0x62,
     0x27, 0x76, 0x95, 0xf7, 0x76, 0x24, 0x8f, 0x94, 0x87, 0xd5, 0xb6, 0x57, 0x47, 0x80, 0x29, 0x6c,
     0x5c, 0x5e, 0x27, 0x2d, 0xac, 0x8e, 0xd, 0x6c, 0x51, 0x84, 0x50, 0xc6, 0x57, 0x5, 0x7a, 0xf,
     0x7b, 0xe4, 0xd3, 0x67, 0x70, 0x24, 0x12, 0xea, 0x89, 0xe3, 0xab, 0x13, 0xd3, 0x1c, 0xd7, 0x69]"

definition JH384_H0 :: bytes where
  "JH384_H0 = [
     0x48, 0x1e, 0x3b, 0xc6, 0xd8, 0x13, 0x39, 0x8a, 0x6d, 0x3b, 0x5e, 0x89, 0x4a, 0xde, 0x87, 0x9b,
     0x63, 0xfa, 0xea, 0x68, 0xd4, 0x80, 0xad, 0x2e, 0x33, 0x2c, 0xcb, 0x21, 0x48, 0xf, 0x82, 0x67,
     0x98, 0xae, 0xc8, 0x4d, 0x90, 0x82, 0xb9, 0x28, 0xd4, 0x55, 0xea, 0x30, 0x41, 0x11, 0x42, 0x49,
     0x36, 0xf5, 0x55, 0xb2, 0x92, 0x48, 0x47, 0xec, 0xc7, 0x25, 0xa, 0x93, 0xba, 0xf4, 0x3c, 0xe1,
     0x56, 0x9b, 0x7f, 0x8a, 0x27, 0xdb, 0x45, 0x4c, 0x9e, 0xfc, 0xbd, 0x49, 0x63, 0x97, 0xaf, 0xe,
     0x58, 0x9f, 0xc2, 0x7d, 0x26, 0xaa, 0x80, 0xcd, 0x80, 0xc0, 0x8b, 0x8c, 0x9d, 0xeb, 0x2e, 0xda,
     0x8a, 0x79, 0x81, 0xe8, 0xf8, 0xd5, 0x37, 0x3a, 0xf4, 0x39, 0x67, 0xad, 0xdd, 0xd1, 0x7a, 0x71,
     0xa9, 0xb4, 0xd3, 0xbd, 0xa4, 0x75, 0xd3, 0x94, 0x97, 0x6c, 0x3f, 0xba, 0x98, 0x42, 0x73, 0x7f]"

definition JH512_H0 :: bytes where
  "JH512_H0 = [
     0x6f, 0xd1, 0x4b, 0x96, 0x3e, 0x0, 0xaa, 0x17, 0x63, 0x6a, 0x2e, 0x5, 0x7a, 0x15, 0xd5, 0x43,
     0x8a, 0x22, 0x5e, 0x8d, 0xc, 0x97, 0xef, 0xb, 0xe9, 0x34, 0x12, 0x59, 0xf2, 0xb3, 0xc3, 0x61,
     0x89, 0x1d, 0xa0, 0xc1, 0x53, 0x6f, 0x80, 0x1e, 0x2a, 0xa9, 0x5, 0x6b, 0xea, 0x2b, 0x6d, 0x80,
     0x58, 0x8e, 0xcc, 0xdb, 0x20, 0x75, 0xba, 0xa6, 0xa9, 0xf, 0x3a, 0x76, 0xba, 0xf8, 0x3b, 0xf7,
     0x1, 0x69, 0xe6, 0x5, 0x41, 0xe3, 0x4a, 0x69, 0x46, 0xb5, 0x8a, 0x8e, 0x2e, 0x6f, 0xe6, 0x5a,
     0x10, 0x47, 0xa7, 0xd0, 0xc1, 0x84, 0x3c, 0x24, 0x3b, 0x6e, 0x71, 0xb1, 0x2d, 0x5a, 0xc1, 0x99,
     0xcf, 0x57, 0xf6, 0xec, 0x9d, 0xb1, 0xf8, 0x56, 0xa7, 0x6, 0x88, 0x7c, 0x57, 0x16, 0xb1, 0x56,
     0xe3, 0xc2, 0xfc, 0xdf, 0xe6, 0x85, 0x17, 0xfb, 0x54, 0x5a, 0x46, 0x78, 0xcc, 0x8c, 0xdd, 0x4b]"

definition E8_bitslice_roundconstant :: "bytes list" where
  "E8_bitslice_roundconstant = [
     [0x72, 0xd5, 0xde, 0xa2, 0xdf, 0x15, 0xf8, 0x67, 0x7b, 0x84, 0x15, 0xa, 0xb7, 0x23, 0x15, 0x57,
      0x81, 0xab, 0xd6, 0x90, 0x4d, 0x5a, 0x87, 0xf6, 0x4e, 0x9f, 0x4f, 0xc5, 0xc3, 0xd1, 0x2b, 0x40],
     [0xea, 0x98, 0x3a, 0xe0, 0x5c, 0x45, 0xfa, 0x9c, 0x3, 0xc5, 0xd2, 0x99, 0x66, 0xb2, 0x99, 0x9a,
      0x66, 0x2, 0x96, 0xb4, 0xf2, 0xbb, 0x53, 0x8a, 0xb5, 0x56, 0x14, 0x1a, 0x88, 0xdb, 0xa2, 0x31],
     [0x3, 0xa3, 0x5a, 0x5c, 0x9a, 0x19, 0xe, 0xdb, 0x40, 0x3f, 0xb2, 0xa, 0x87, 0xc1, 0x44, 0x10,
      0x1c, 0x5, 0x19, 0x80, 0x84, 0x9e, 0x95, 0x1d, 0x6f, 0x33, 0xeb, 0xad, 0x5e, 0xe7, 0xcd, 0xdc],
     [0x10, 0xba, 0x13, 0x92, 0x2, 0xbf, 0x6b, 0x41, 0xdc, 0x78, 0x65, 0x15, 0xf7, 0xbb, 0x27, 0xd0,
      0xa, 0x2c, 0x81, 0x39, 0x37, 0xaa, 0x78, 0x50, 0x3f, 0x1a, 0xbf, 0xd2, 0x41, 0x0, 0x91, 0xd3],
     [0x42, 0x2d, 0x5a, 0xd, 0xf6, 0xcc, 0x7e, 0x90, 0xdd, 0x62, 0x9f, 0x9c, 0x92, 0xc0, 0x97, 0xce,
      0x18, 0x5c, 0xa7, 0xb, 0xc7, 0x2b, 0x44, 0xac, 0xd1, 0xdf, 0x65, 0xd6, 0x63, 0xc6, 0xfc, 0x23],
     [0x97, 0x6e, 0x6c, 0x3, 0x9e, 0xe0, 0xb8, 0x1a, 0x21, 0x5, 0x45, 0x7e, 0x44, 0x6c, 0xec, 0xa8,
      0xee, 0xf1, 0x3, 0xbb, 0x5d, 0x8e, 0x61, 0xfa, 0xfd, 0x96, 0x97, 0xb2, 0x94, 0x83, 0x81, 0x97],
     [0x4a, 0x8e, 0x85, 0x37, 0xdb, 0x3, 0x30, 0x2f, 0x2a, 0x67, 0x8d, 0x2d, 0xfb, 0x9f, 0x6a, 0x95,
      0x8a, 0xfe, 0x73, 0x81, 0xf8, 0xb8, 0x69, 0x6c, 0x8a, 0xc7, 0x72, 0x46, 0xc0, 0x7f, 0x42, 0x14],
     [0xc5, 0xf4, 0x15, 0x8f, 0xbd, 0xc7, 0x5e, 0xc4, 0x75, 0x44, 0x6f, 0xa7, 0x8f, 0x11, 0xbb, 0x80,
      0x52, 0xde, 0x75, 0xb7, 0xae, 0xe4, 0x88, 0xbc, 0x82, 0xb8, 0x0, 0x1e, 0x98, 0xa6, 0xa3, 0xf4],
     [0x8e, 0xf4, 0x8f, 0x33, 0xa9, 0xa3, 0x63, 0x15, 0xaa, 0x5f, 0x56, 0x24, 0xd5, 0xb7, 0xf9, 0x89,
      0xb6, 0xf1, 0xed, 0x20, 0x7c, 0x5a, 0xe0, 0xfd, 0x36, 0xca, 0xe9, 0x5a, 0x6, 0x42, 0x2c, 0x36],
     [0xce, 0x29, 0x35, 0x43, 0x4e, 0xfe, 0x98, 0x3d, 0x53, 0x3a, 0xf9, 0x74, 0x73, 0x9a, 0x4b, 0xa7,
      0xd0, 0xf5, 0x1f, 0x59, 0x6f, 0x4e, 0x81, 0x86, 0xe, 0x9d, 0xad, 0x81, 0xaf, 0xd8, 0x5a, 0x9f],
     [0xa7, 0x5, 0x6, 0x67, 0xee, 0x34, 0x62, 0x6a, 0x8b, 0xb, 0x28, 0xbe, 0x6e, 0xb9, 0x17, 0x27,
      0x47, 0x74, 0x7, 0x26, 0xc6, 0x80, 0x10, 0x3f, 0xe0, 0xa0, 0x7e, 0x6f, 0xc6, 0x7e, 0x48, 0x7b],
     [0xd, 0x55, 0xa, 0xa5, 0x4a, 0xf8, 0xa4, 0xc0, 0x91, 0xe3, 0xe7, 0x9f, 0x97, 0x8e, 0xf1, 0x9e,
      0x86, 0x76, 0x72, 0x81, 0x50, 0x60, 0x8d, 0xd4, 0x7e, 0x9e, 0x5a, 0x41, 0xf3, 0xe5, 0xb0, 0x62],
     [0xfc, 0x9f, 0x1f, 0xec, 0x40, 0x54, 0x20, 0x7a, 0xe3, 0xe4, 0x1a, 0x0, 0xce, 0xf4, 0xc9, 0x84,
      0x4f, 0xd7, 0x94, 0xf5, 0x9d, 0xfa, 0x95, 0xd8, 0x55, 0x2e, 0x7e, 0x11, 0x24, 0xc3, 0x54, 0xa5],
     [0x5b, 0xdf, 0x72, 0x28, 0xbd, 0xfe, 0x6e, 0x28, 0x78, 0xf5, 0x7f, 0xe2, 0xf, 0xa5, 0xc4, 0xb2,
      0x5, 0x89, 0x7c, 0xef, 0xee, 0x49, 0xd3, 0x2e, 0x44, 0x7e, 0x93, 0x85, 0xeb, 0x28, 0x59, 0x7f],
     [0x70, 0x5f, 0x69, 0x37, 0xb3, 0x24, 0x31, 0x4a, 0x5e, 0x86, 0x28, 0xf1, 0x1d, 0xd6, 0xe4, 0x65,
      0xc7, 0x1b, 0x77, 0x4, 0x51, 0xb9, 0x20, 0xe7, 0x74, 0xfe, 0x43, 0xe8, 0x23, 0xd4, 0x87, 0x8a],
     [0x7d, 0x29, 0xe8, 0xa3, 0x92, 0x76, 0x94, 0xf2, 0xdd, 0xcb, 0x7a, 0x9, 0x9b, 0x30, 0xd9, 0xc1,
      0x1d, 0x1b, 0x30, 0xfb, 0x5b, 0xdc, 0x1b, 0xe0, 0xda, 0x24, 0x49, 0x4f, 0xf2, 0x9c, 0x82, 0xbf],
     [0xa4, 0xe7, 0xba, 0x31, 0xb4, 0x70, 0xbf, 0xff, 0xd, 0x32, 0x44, 0x5, 0xde, 0xf8, 0xbc, 0x48,
      0x3b, 0xae, 0xfc, 0x32, 0x53, 0xbb, 0xd3, 0x39, 0x45, 0x9f, 0xc3, 0xc1, 0xe0, 0x29, 0x8b, 0xa0],
     [0xe5, 0xc9, 0x5, 0xfd, 0xf7, 0xae, 0x9, 0xf, 0x94, 0x70, 0x34, 0x12, 0x42, 0x90, 0xf1, 0x34,
      0xa2, 0x71, 0xb7, 0x1, 0xe3, 0x44, 0xed, 0x95, 0xe9, 0x3b, 0x8e, 0x36, 0x4f, 0x2f, 0x98, 0x4a],
     [0x88, 0x40, 0x1d, 0x63, 0xa0, 0x6c, 0xf6, 0x15, 0x47, 0xc1, 0x44, 0x4b, 0x87, 0x52, 0xaf, 0xff,
      0x7e, 0xbb, 0x4a, 0xf1, 0xe2, 0xa, 0xc6, 0x30, 0x46, 0x70, 0xb6, 0xc5, 0xcc, 0x6e, 0x8c, 0xe6],
     [0xa4, 0xd5, 0xa4, 0x56, 0xbd, 0x4f, 0xca, 0x0, 0xda, 0x9d, 0x84, 0x4b, 0xc8, 0x3e, 0x18, 0xae,
      0x73, 0x57, 0xce, 0x45, 0x30, 0x64, 0xd1, 0xad, 0xe8, 0xa6, 0xce, 0x68, 0x14, 0x5c, 0x25, 0x67],
     [0xa3, 0xda, 0x8c, 0xf2, 0xcb, 0xe, 0xe1, 0x16, 0x33, 0xe9, 0x6, 0x58, 0x9a, 0x94, 0x99, 0x9a,
      0x1f, 0x60, 0xb2, 0x20, 0xc2, 0x6f, 0x84, 0x7b, 0xd1, 0xce, 0xac, 0x7f, 0xa0, 0xd1, 0x85, 0x18],
     [0x32, 0x59, 0x5b, 0xa1, 0x8d, 0xdd, 0x19, 0xd3, 0x50, 0x9a, 0x1c, 0xc0, 0xaa, 0xa5, 0xb4, 0x46,
      0x9f, 0x3d, 0x63, 0x67, 0xe4, 0x4, 0x6b, 0xba, 0xf6, 0xca, 0x19, 0xab, 0xb, 0x56, 0xee, 0x7e],
     [0x1f, 0xb1, 0x79, 0xea, 0xa9, 0x28, 0x21, 0x74, 0xe9, 0xbd, 0xf7, 0x35, 0x3b, 0x36, 0x51, 0xee,
      0x1d, 0x57, 0xac, 0x5a, 0x75, 0x50, 0xd3, 0x76, 0x3a, 0x46, 0xc2, 0xfe, 0xa3, 0x7d, 0x70, 0x1],
     [0xf7, 0x35, 0xc1, 0xaf, 0x98, 0xa4, 0xd8, 0x42, 0x78, 0xed, 0xec, 0x20, 0x9e, 0x6b, 0x67, 0x79,
      0x41, 0x83, 0x63, 0x15, 0xea, 0x3a, 0xdb, 0xa8, 0xfa, 0xc3, 0x3b, 0x4d, 0x32, 0x83, 0x2c, 0x83],
     [0xa7, 0x40, 0x3b, 0x1f, 0x1c, 0x27, 0x47, 0xf3, 0x59, 0x40, 0xf0, 0x34, 0xb7, 0x2d, 0x76, 0x9a,
      0xe7, 0x3e, 0x4e, 0x6c, 0xd2, 0x21, 0x4f, 0xfd, 0xb8, 0xfd, 0x8d, 0x39, 0xdc, 0x57, 0x59, 0xef],
     [0x8d, 0x9b, 0xc, 0x49, 0x2b, 0x49, 0xeb, 0xda, 0x5b, 0xa2, 0xd7, 0x49, 0x68, 0xf3, 0x70, 0xd,
      0x7d, 0x3b, 0xae, 0xd0, 0x7a, 0x8d, 0x55, 0x84, 0xf5, 0xa5, 0xe9, 0xf0, 0xe4, 0xf8, 0x8e, 0x65],
     [0xa0, 0xb8, 0xa2, 0xf4, 0x36, 0x10, 0x3b, 0x53, 0xc, 0xa8, 0x7, 0x9e, 0x75, 0x3e, 0xec, 0x5a,
      0x91, 0x68, 0x94, 0x92, 0x56, 0xe8, 0x88, 0x4f, 0x5b, 0xb0, 0x5c, 0x55, 0xf8, 0xba, 0xbc, 0x4c],
     [0xe3, 0xbb, 0x3b, 0x99, 0xf3, 0x87, 0x94, 0x7b, 0x75, 0xda, 0xf4, 0xd6, 0x72, 0x6b, 0x1c, 0x5d,
      0x64, 0xae, 0xac, 0x28, 0xdc, 0x34, 0xb3, 0x6d, 0x6c, 0x34, 0xa5, 0x50, 0xb8, 0x28, 0xdb, 0x71],
     [0xf8, 0x61, 0xe2, 0xf2, 0x10, 0x8d, 0x51, 0x2a, 0xe3, 0xdb, 0x64, 0x33, 0x59, 0xdd, 0x75, 0xfc,
      0x1c, 0xac, 0xbc, 0xf1, 0x43, 0xce, 0x3f, 0xa2, 0x67, 0xbb, 0xd1, 0x3c, 0x2, 0xe8, 0x43, 0xb0],
     [0x33, 0xa, 0x5b, 0xca, 0x88, 0x29, 0xa1, 0x75, 0x7f, 0x34, 0x19, 0x4d, 0xb4, 0x16, 0x53, 0x5c,
      0x92, 0x3b, 0x94, 0xc3, 0xe, 0x79, 0x4d, 0x1e, 0x79, 0x74, 0x75, 0xd7, 0xb6, 0xee, 0xaf, 0x3f],
     [0xea, 0xa8, 0xd4, 0xf7, 0xbe, 0x1a, 0x39, 0x21, 0x5c, 0xf4, 0x7e, 0x9, 0x4c, 0x23, 0x27, 0x51,
      0x26, 0xa3, 0x24, 0x53, 0xba, 0x32, 0x3c, 0xd2, 0x44, 0xa3, 0x17, 0x4a, 0x6d, 0xa6, 0xd5, 0xad],
     [0xb5, 0x1d, 0x3e, 0xa6, 0xaf, 0xf2, 0xc9, 0x8, 0x83, 0x59, 0x3d, 0x98, 0x91, 0x6b, 0x3c, 0x56,
      0x4c, 0xf8, 0x7c, 0xa1, 0x72, 0x86, 0x60, 0x4d, 0x46, 0xe2, 0x3e, 0xcc, 0x8, 0x6e, 0xc7, 0xf6],
     [0x2f, 0x98, 0x33, 0xb3, 0xb1, 0xbc, 0x76, 0x5e, 0x2b, 0xd6, 0x66, 0xa5, 0xef, 0xc4, 0xe6, 0x2a,
      0x6, 0xf4, 0xb6, 0xe8, 0xbe, 0xc1, 0xd4, 0x36, 0x74, 0xee, 0x82, 0x15, 0xbc, 0xef, 0x21, 0x63],
     [0xfd, 0xc1, 0x4e, 0xd, 0xf4, 0x53, 0xc9, 0x69, 0xa7, 0x7d, 0x5a, 0xc4, 0x6, 0x58, 0x58, 0x26,
      0x7e, 0xc1, 0x14, 0x16, 0x6, 0xe0, 0xfa, 0x16, 0x7e, 0x90, 0xaf, 0x3d, 0x28, 0x63, 0x9d, 0x3f],
     [0xd2, 0xc9, 0xf2, 0xe3, 0x0, 0x9b, 0xd2, 0xc, 0x5f, 0xaa, 0xce, 0x30, 0xb7, 0xd4, 0xc, 0x30,
      0x74, 0x2a, 0x51, 0x16, 0xf2, 0xe0, 0x32, 0x98, 0xd, 0xeb, 0x30, 0xd8, 0xe3, 0xce, 0xf8, 0x9a],
     [0x4b, 0xc5, 0x9e, 0x7b, 0xb5, 0xf1, 0x79, 0x92, 0xff, 0x51, 0xe6, 0x6e, 0x4, 0x86, 0x68, 0xd3,
      0x9b, 0x23, 0x4d, 0x57, 0xe6, 0x96, 0x67, 0x31, 0xcc, 0xe6, 0xa6, 0xf3, 0x17, 0xa, 0x75, 0x5],
     [0xb1, 0x76, 0x81, 0xd9, 0x13, 0x32, 0x6c, 0xce, 0x3c, 0x17, 0x52, 0x84, 0xf8, 0x5, 0xa2, 0x62,
      0xf4, 0x2b, 0xcb, 0xb3, 0x78, 0x47, 0x15, 0x47, 0xff, 0x46, 0x54, 0x82, 0x23, 0x93, 0x6a, 0x48],
     [0x38, 0xdf, 0x58, 0x7, 0x4e, 0x5e, 0x65, 0x65, 0xf2, 0xfc, 0x7c, 0x89, 0xfc, 0x86, 0x50, 0x8e,
      0x31, 0x70, 0x2e, 0x44, 0xd0, 0xb, 0xca, 0x86, 0xf0, 0x40, 0x9, 0xa2, 0x30, 0x78, 0x47, 0x4e],
     [0x65, 0xa0, 0xee, 0x39, 0xd1, 0xf7, 0x38, 0x83, 0xf7, 0x5e, 0xe9, 0x37, 0xe4, 0x2c, 0x3a, 0xbd,
      0x21, 0x97, 0xb2, 0x26, 0x1, 0x13, 0xf8, 0x6f, 0xa3, 0x44, 0xed, 0xd1, 0xef, 0x9f, 0xde, 0xe7],
     [0x8b, 0xa0, 0xdf, 0x15, 0x76, 0x25, 0x92, 0xd9, 0x3c, 0x85, 0xf7, 0xf6, 0x12, 0xdc, 0x42, 0xbe,
      0xd8, 0xa7, 0xec, 0x7c, 0xab, 0x27, 0xb0, 0x7e, 0x53, 0x8d, 0x7d, 0xda, 0xaa, 0x3e, 0xa8, 0xde],
     [0xaa, 0x25, 0xce, 0x93, 0xbd, 0x2, 0x69, 0xd8, 0x5a, 0xf6, 0x43, 0xfd, 0x1a, 0x73, 0x8, 0xf9,
      0xc0, 0x5f, 0xef, 0xda, 0x17, 0x4a, 0x19, 0xa5, 0x97, 0x4d, 0x66, 0x33, 0x4c, 0xfd, 0x21, 0x6a],
     [0x35, 0xb4, 0x98, 0x31, 0xdb, 0x41, 0x15, 0x70, 0xea, 0x1e, 0xf, 0xbb, 0xed, 0xcd, 0x54, 0x9b,
      0x9a, 0xd0, 0x63, 0xa1, 0x51, 0x97, 0x40, 0x72, 0xf6, 0x75, 0x9d, 0xbf, 0x91, 0x47, 0x6f, 0xe2]]"
section \<open>The permutation in bit slices\<close>

definition SWAP1 :: "u64 \<Rightarrow> u64" where
  "SWAP1 x = push_bit 1 (x AND 0x5555555555555555) OR drop_bit 1 (x AND 0xaaaaaaaaaaaaaaaa)"

definition SWAP2 :: "u64 \<Rightarrow> u64" where
  "SWAP2 x = push_bit 2 (x AND 0x3333333333333333) OR drop_bit 2 (x AND 0xcccccccccccccccc)"

definition SWAP4 :: "u64 \<Rightarrow> u64" where
  "SWAP4 x = push_bit 4 (x AND 0x0f0f0f0f0f0f0f0f) OR drop_bit 4 (x AND 0xf0f0f0f0f0f0f0f0)"

definition SWAP8 :: "u64 \<Rightarrow> u64" where
  "SWAP8 x = push_bit 8 (x AND 0x00ff00ff00ff00ff) OR drop_bit 8 (x AND 0xff00ff00ff00ff00)"

definition SWAP16 :: "u64 \<Rightarrow> u64" where
  "SWAP16 x = push_bit 16 (x AND 0x0000ffff0000ffff) OR drop_bit 16 (x AND 0xffff0000ffff0000)"

definition SWAP32 :: "u64 \<Rightarrow> u64" where
  "SWAP32 x = push_bit 32 x OR drop_bit 32 x"

type_synonym jh_column = "u64 \<times> u64 \<times> u64 \<times> u64 \<times> u64 \<times> u64 \<times> u64 \<times> u64"

definition jh_L :: "jh_column \<Rightarrow> jh_column" where
  "jh_L m =
    (let (m0, m1, m2, m3, m4, m5, m6, m7) = m;
         m4 = m4 XOR m1;
         m5 = m5 XOR m2;
         m6 = m6 XOR (m0 XOR m3);
         m7 = m7 XOR m0;
         m0 = m0 XOR m5;
         m1 = m1 XOR m6;
         m2 = m2 XOR (m4 XOR m7);
         m3 = m3 XOR m4
     in (m0, m1, m2, m3, m4, m5, m6, m7))"

definition jh_SS :: "jh_column \<Rightarrow> u64 \<Rightarrow> u64 \<Rightarrow> jh_column" where
  "jh_SS m cc0 cc1 =
    (let (m0, m1, m2, m3, m4, m5, m6, m7) = m;
         m3 = NOT m3;
         m7 = NOT m7;
         m0 = m0 XOR (NOT m2 AND cc0);
         m4 = m4 XOR (NOT m6 AND cc1);
         temp0 = cc0 XOR (m0 AND m1);
         temp1 = cc1 XOR (m4 AND m5);
         m0 = m0 XOR (m2 AND m3);
         m4 = m4 XOR (m6 AND m7);
         m3 = m3 XOR (NOT m1 AND m2);
         m7 = m7 XOR (NOT m5 AND m6);
         m1 = m1 XOR (m0 AND m2);
         m5 = m5 XOR (m4 AND m6);
         m2 = m2 XOR (m0 AND NOT m3);
         m6 = m6 XOR (m4 AND NOT m7);
         m0 = m0 XOR (m1 OR m3);
         m4 = m4 XOR (m5 OR m7);
         m3 = m3 XOR (m1 AND m2);
         m7 = m7 XOR (m5 AND m6);
         m1 = m1 XOR (temp0 AND m0);
         m5 = m5 XOR (temp1 AND m4);
         m2 = m2 XOR temp0;
         m6 = m6 XOR temp1
     in (m0, m1, m2, m3, m4, m5, m6, m7))"

text \<open>
  One pass of the body of an inner loop: the words of column \<open>i\<close>, even rows first, through
  S-boxes and linear map, the odd rows also through the exchange \<open>swap\<close>.
\<close>

definition jh_column_step :: "(u64 \<Rightarrow> u64) \<Rightarrow> nat \<Rightarrow> nat \<Rightarrow> u64 list \<Rightarrow> u64 list" where
  "jh_column_step swap r i x =
    (let cc = words_of 8 (E8_bitslice_roundconstant ! r);
         (m0, m1, m2, m3, m4, m5, m6, m7) =
           jh_L (jh_SS (x ! i, x ! (4 + i), x ! (8 + i), x ! (12 + i),
                        x ! (2 + i), x ! (6 + i), x ! (10 + i), x ! (14 + i)) (cc ! i) (cc ! (i + 2)))
     in x[i := m0, 4 + i := m1, 8 + i := m2, 12 + i := m3,
          2 + i := swap m4, 6 + i := swap m5, 10 + i := swap m6, 14 + i := swap m7])"

definition jh_round :: "(u64 \<Rightarrow> u64) \<Rightarrow> nat \<Rightarrow> u64 list \<Rightarrow> u64 list" where
  "jh_round swap r x = jh_column_step swap r 1 (jh_column_step swap r 0 x)"

definition jh_swap_words :: "u64 list \<Rightarrow> u64 list" where
  "jh_swap_words x = fold (\<lambda>i x. x[2 * i := x ! (2 * i + 1), 2 * i + 1 := x ! (2 * i)]) [1, 3, 5, 7] x"

definition jh_E8 :: "u64 list \<Rightarrow> u64 list" where
  "jh_E8 x =
    fold (\<lambda>r x. jh_swap_words (jh_round id (r + 6) (jh_round SWAP32 (r + 5) (jh_round SWAP16 (r + 4)
           (jh_round SWAP8 (r + 3) (jh_round SWAP4 (r + 2) (jh_round SWAP2 (r + 1) (jh_round SWAP1 r x))))))))
      [0, 7, 14, 21, 28, 35] x"

definition jh_F8 :: "jh_state \<Rightarrow> jh_state" where
  "jh_F8 S =
    (let m = words_of 8 (jh_buffer S);
         x = fold (\<lambda>i x. x[i := x ! i XOR m ! i]) [0..<8] (jh_x S);
         x = jh_E8 x;
         x = fold (\<lambda>i x. x[8 + i := x ! (8 + i) XOR m ! i]) [0..<8] x
     in S\<lparr>jh_x := x\<rparr>)"

section \<open>Initialisation, update and final\<close>

definition jh_init :: "jh_state \<Rightarrow> int \<Rightarrow> jh_state" where
  "jh_init S hashbitlen =
    (let S = S\<lparr>jh_databitlen := 0, jh_datasize_in_buffer := 0, jh_hashbitlen := hashbitlen\<rparr>
     in if hashbitlen = 224 then S\<lparr>jh_x := words_of 8 JH224_H0\<rparr>
        else if hashbitlen = 256 then S\<lparr>jh_x := words_of 8 JH256_H0\<rparr>
        else if hashbitlen = 384 then S\<lparr>jh_x := words_of 8 JH384_H0\<rparr>
        else if hashbitlen = 512 then S\<lparr>jh_x := words_of 8 JH512_H0\<rparr>
        else S)"

text \<open>The loop over the whole blocks; it returns the state, the index and the bits left.\<close>

function jh_update_blocks :: "jh_state \<Rightarrow> bytes \<Rightarrow> nat \<Rightarrow> u64 \<Rightarrow> (jh_state \<times> nat \<times> u64) option" where
  "jh_update_blocks S data index databitlen =
    (if databitlen \<ge> 512 then
       do {
         buf \<leftarrow> memcpy (jh_buffer S) 0 data index 64;
         jh_update_blocks (jh_F8 (S\<lparr>jh_buffer := buf\<rparr>)) data (index + 64) (databitlen - 512)
       }
     else Some (S, index, databitlen))"
  by pat_completeness auto
termination
proof (relation "measure (\<lambda>(S, d, i, n). unat n)", goal_cases)
  case 1
  then show ?case by simp
next
  case (2 S data index databitlen buf)
  then have "unat (databitlen - 512) = unat databitlen - 512" "512 \<le> unat databitlen"
    by (simp_all add: unat_sub word_le_nat_alt)
  then show ?case by simp
qed

declare jh_update_blocks.simps [simp del]

text \<open>Data for a partly filled buffer that does not complete a block, and data that completes it.\<close>

definition jh_update_short :: "jh_state \<Rightarrow> bytes \<Rightarrow> u64 \<Rightarrow> (jh_state \<times> u64) option" where
  "jh_update_short S data databitlen =
    (if jh_datasize_in_buffer S > 0 \<and> jh_datasize_in_buffer S + databitlen < 512 then
       let fill = unat (drop_bit 3 (jh_datasize_in_buffer S)) in
       do {
         buf \<leftarrow> (if databitlen AND 7 = 0 then memcpy (jh_buffer S) fill data 0 (64 - fill)
                else memcpy (jh_buffer S) fill data 0 (64 - fill + 1));
         Some (S\<lparr>jh_buffer := buf, jh_datasize_in_buffer := jh_datasize_in_buffer S + databitlen\<rparr>, 0)
       }
     else Some (S, databitlen))"

definition jh_update_fill :: "jh_state \<Rightarrow> bytes \<Rightarrow> u64 \<Rightarrow> (jh_state \<times> nat \<times> u64) option" where
  "jh_update_fill S data databitlen =
    (if jh_datasize_in_buffer S > 0 \<and> jh_datasize_in_buffer S + databitlen \<ge> 512 then
       let fill = unat (drop_bit 3 (jh_datasize_in_buffer S)) in
       do {
         buf \<leftarrow> memcpy (jh_buffer S) fill data 0 (64 - fill);
         Some ((jh_F8 (S\<lparr>jh_buffer := buf\<rparr>))\<lparr>jh_datasize_in_buffer := 0\<rparr>, 64 - fill,
               databitlen - (512 - jh_datasize_in_buffer S))
       }
     else Some (S, 0, databitlen))"

definition jh_update_store :: "jh_state \<Rightarrow> bytes \<Rightarrow> nat \<Rightarrow> u64 \<Rightarrow> jh_state option" where
  "jh_update_store S data index databitlen =
    (if databitlen > 0 then
       do {
         buf \<leftarrow> (if databitlen AND 7 = 0
                then memcpy (jh_buffer S) 0 data index (unat (drop_bit 3 (databitlen AND 0x1ff)))
                else memcpy (jh_buffer S) 0 data index (unat (drop_bit 3 (databitlen AND 0x1ff)) + 1));
         Some (S\<lparr>jh_buffer := buf, jh_datasize_in_buffer := databitlen\<rparr>)
       }
     else Some S)"

definition jh_update :: "jh_state \<Rightarrow> bytes \<Rightarrow> u64 \<Rightarrow> jh_state option" where
  "jh_update S data databitlen =
    do {
      (S, databitlen) \<leftarrow> jh_update_short (S\<lparr>jh_databitlen := jh_databitlen S + databitlen\<rparr>) data databitlen;
      (S, index, databitlen) \<leftarrow> jh_update_fill S data databitlen;
      (S, index, databitlen) \<leftarrow> jh_update_blocks S data index databitlen;
      jh_update_store S data index databitlen
    }"

text \<open>The length field: bytes 56 to 63 from the message length.\<close>

definition jh_put_length :: "u64 \<Rightarrow> bytes \<Rightarrow> bytes option" where
  "jh_put_length n buf =
    do {
      buf \<leftarrow> put_at buf 63 (ucast (n AND 0xff));
      buf \<leftarrow> put_at buf 62 (ucast (drop_bit 8 n AND 0xff));
      buf \<leftarrow> put_at buf 61 (ucast (drop_bit 16 n AND 0xff));
      buf \<leftarrow> put_at buf 60 (ucast (drop_bit 24 n AND 0xff));
      buf \<leftarrow> put_at buf 59 (ucast (drop_bit 32 n AND 0xff));
      buf \<leftarrow> put_at buf 58 (ucast (drop_bit 40 n AND 0xff));
      buf \<leftarrow> put_at buf 57 (ucast (drop_bit 48 n AND 0xff));
      put_at buf 56 (ucast (drop_bit 56 n AND 0xff))
    }"

definition jh_pad :: "jh_state \<Rightarrow> jh_state option" where
  "jh_pad S =
    (if jh_databitlen S AND 0x1ff = 0 then
       do {
         buf \<leftarrow> memset (jh_buffer S) 0 0 64;
         buf \<leftarrow> put_at buf 0 0x80;
         buf \<leftarrow> jh_put_length (jh_databitlen S) buf;
         Some (jh_F8 (S\<lparr>jh_buffer := buf\<rparr>))
       }
     else
       let at = unat (drop_bit 3 (jh_databitlen S AND 0x1ff));
           from = (if jh_datasize_in_buffer S AND 7 = 0 then at else at + 1) in
       do {
         buf \<leftarrow> memset (jh_buffer S) from 0 (64 - from);
         b \<leftarrow> get_at buf at;
         buf \<leftarrow> put_at buf at (b OR ucast (push_bit (7 - unat (jh_databitlen S AND 7)) (1 :: u32)));
         S \<leftarrow> Some (jh_F8 (S\<lparr>jh_buffer := buf\<rparr>));
         buf \<leftarrow> memset (jh_buffer S) 0 0 64;
         buf \<leftarrow> jh_put_length (jh_databitlen S) buf;
         Some (jh_F8 (S\<lparr>jh_buffer := buf\<rparr>))
       })"

text \<open>The digest is the end of the state; nothing is written for other digest lengths.\<close>

definition jh_output :: "jh_state \<Rightarrow> bytes" where
  "jh_output S =
    (let x = bytes_of 8 (jh_x S)
     in if jh_hashbitlen S = 224 then take 28 (drop (64 + 36) x)
        else if jh_hashbitlen S = 256 then take 32 (drop (64 + 32) x)
        else if jh_hashbitlen S = 384 then take 48 (drop (64 + 16) x)
        else if jh_hashbitlen S = 512 then take 64 (drop 64 x)
        else [])"

definition jh_final :: "jh_state \<Rightarrow> (jh_state \<times> bytes) option" where
  "jh_final S = do { S \<leftarrow> jh_pad S; Some (S, jh_output S) }"

text \<open>\<open>S\<close> is the uninitialised local state.\<close>

definition jh_hash :: "jh_state \<Rightarrow> int \<Rightarrow> bytes \<Rightarrow> u64 \<Rightarrow> (HashReturn \<times> bytes) option" where
  "jh_hash S hashbitlen data databitlen =
    (if hashbitlen = 224 \<or> hashbitlen = 256 \<or> hashbitlen = 384 \<or> hashbitlen = 512 then
       do {
         S \<leftarrow> jh_update (jh_init S hashbitlen) data databitlen;
         (S, hashval) \<leftarrow> jh_final S;
         Some (SUCCESS, hashval)
       }
     else Some (BAD_HASHLEN, []))"

section \<open>Reference\<close>

text \<open>
  The 1024-bit state as 128 pairs of four-bit elements; element pair \<open>j\<close> has bit \<open>j\<close> of the
  rows, the even rows in the first element and the odd rows in the second, the top row highest.
\<close>

type_synonym jh_pair = "nat \<times> nat"

definition jh_S0 :: "nat list" where
  "jh_S0 = [9, 0, 4, 11, 13, 12, 3, 15, 1, 10, 2, 6, 7, 5, 8, 14]"

definition jh_S1 :: "nat list" where
  "jh_S1 = [3, 12, 6, 13, 5, 7, 1, 9, 15, 2, 0, 4, 11, 10, 14, 8]"

text \<open>Doubling in the field of 16 elements, polynomial \<open>X ^ 4 + X + 1\<close>.\<close>

definition jh_mul2 :: "nat \<Rightarrow> nat" where
  "jh_mul2 a = (if a < 8 then 2 * a else (2 * a) XOR 19)"

definition jh_mds :: "jh_pair \<Rightarrow> jh_pair" where
  "jh_mds ab = (let d = snd ab XOR jh_mul2 (fst ab) in (fst ab XOR jh_mul2 d, d))"

definition jh_rc_bit :: "nat \<Rightarrow> nat \<Rightarrow> bool" where
  "jh_rc_bit r j = bit (E8_bitslice_roundconstant ! r ! (j div 8)) (j mod 8)"

definition jh_sub :: "nat \<Rightarrow> nat \<Rightarrow> jh_pair \<Rightarrow> jh_pair" where
  "jh_sub r j ab = ((if jh_rc_bit r j then jh_S1 else jh_S0) ! fst ab,
                    (if jh_rc_bit r (128 + j) then jh_S1 else jh_S0) ! snd ab)"

definition jh_round_ref :: "nat \<Rightarrow> jh_pair list \<Rightarrow> jh_pair list" where
  "jh_round_ref r A =
    (let B = map (\<lambda>j. jh_mds (jh_sub r j (A ! j))) [0..<128]
     in map (\<lambda>j. (fst (B ! j), snd (B ! (j XOR 2 ^ (r mod 7))))) [0..<128])"

definition jh_nibble :: "bool \<Rightarrow> bool \<Rightarrow> bool \<Rightarrow> bool \<Rightarrow> nat" where
  "jh_nibble a b c d = of_bool a * 8 + of_bool b * 4 + of_bool c * 2 + of_bool d"

definition jh_pair_of :: "u64 list \<Rightarrow> nat \<Rightarrow> jh_pair" where
  "jh_pair_of x j =
    (let i = j div 64; p = (\<lambda>k. bit (x ! (k + i)) (j mod 64))
     in (jh_nibble (p 0) (p 4) (p 8) (p 12), jh_nibble (p 2) (p 6) (p 10) (p 14)))"

definition jh_slice :: "u64 list \<Rightarrow> jh_pair list" where
  "jh_slice x = map (jh_pair_of x) [0..<128]"

definition jh_unslice :: "jh_pair list \<Rightarrow> u64 list" where
  "jh_unslice A =
    map (\<lambda>w. horner_sum of_bool 2
           (map (\<lambda>b. let (e, o') = A ! (64 * (w mod 2) + b) in
                     bit (if even (w div 2) then e else o') (3 - w div 4)) [0..<64])) [0..<16]"

definition jh_E8_ref :: "u64 list \<Rightarrow> u64 list" where
  "jh_E8_ref x = jh_unslice (fold jh_round_ref [0..<42] (jh_slice x))"

text \<open>Compression, padding and hash of the specification.\<close>

definition jh_F8_ref :: "u64 list \<Rightarrow> bytes \<Rightarrow> u64 list" where
  "jh_F8_ref h b =
    map2 (XOR) (jh_E8_ref (map2 (XOR) h (words_of 8 b @ replicate 8 0))) (replicate 8 0 @ words_of 8 b)"

text \<open>The first \<open>n\<close> bits of \<open>m\<close>, a one bit, zeros, and the length in 16 bytes (lengths are below \<open>2 ^ 64\<close>).\<close>

definition jh_padded :: "bytes \<Rightarrow> nat \<Rightarrow> bytes" where
  "jh_padded m n =
    take (n div 8) m @
    [(if n mod 8 = 0 then 0 else m ! (n div 8) AND NOT (mask (8 - n mod 8))) OR push_bit (7 - n mod 8) 1] @
    replicate (47 + ((512 - n mod 512) mod 512 + 7) div 8) 0 @ be_bytes 16 (n mod 2 ^ 64)"

definition jh_iv :: "int \<Rightarrow> bytes" where
  "jh_iv h = (if h = 224 then JH224_H0 else if h = 256 then JH256_H0 else if h = 384 then JH384_H0 else JH512_H0)"

definition jh_hash_ref :: "int \<Rightarrow> bytes \<Rightarrow> nat \<Rightarrow> bytes" where
  "jh_hash_ref h m n =
    (let x = fold (\<lambda>b h. jh_F8_ref h b) (full_blocks 64 (jh_padded m n)) (words_of 8 (jh_iv h))
     in drop (128 - nat h div 8) (bytes_of 8 x))"

section \<open>The bit slices are the elements\<close>

definition jh_half :: "u64 \<Rightarrow> u64 \<Rightarrow> u64 \<Rightarrow> u64 \<Rightarrow> u64 \<Rightarrow> u64 \<times> u64 \<times> u64 \<times> u64" where
  "jh_half m0 m1 m2 m3 cc =
    (let m3 = NOT m3;
         m0 = m0 XOR (NOT m2 AND cc);
         temp = cc XOR (m0 AND m1);
         m0 = m0 XOR (m2 AND m3);
         m3 = m3 XOR (NOT m1 AND m2);
         m1 = m1 XOR (m0 AND m2);
         m2 = m2 XOR (m0 AND NOT m3);
         m0 = m0 XOR (m1 OR m3);
         m3 = m3 XOR (m1 AND m2);
         m1 = m1 XOR (temp AND m0);
         m2 = m2 XOR temp
     in (m0, m1, m2, m3))"

lemma jh_SS_halves:
  "jh_SS (m0, m1, m2, m3, m4, m5, m6, m7) cc0 cc1 =
    (let (a, b, c, d) = jh_half m0 m1 m2 m3 cc0; (e, f, g, h) = jh_half m4 m5 m6 m7 cc1
     in (a, b, c, d, e, f, g, h))"
  by (simp only: jh_SS_def jh_half_def Let_def prod.case)

text \<open>Four words as a nibble at each bit.\<close>

definition jh_nib4 :: "u64 \<times> u64 \<times> u64 \<times> u64 \<Rightarrow> nat \<Rightarrow> nat" where
  "jh_nib4 m k = (case m of (a, b, c, d) \<Rightarrow> jh_nibble (bit a k) (bit b k) (bit c k) (bit d k))"

lemma jh_half_sbox:
  assumes "k < 64"
  shows "jh_nib4 (jh_half m0 m1 m2 m3 cc) k
    = (if bit cc k then jh_S1 else jh_S0) ! jh_nib4 (m0, m1, m2, m3) k"
  using assms
  by (cases "bit m0 k"; cases "bit m1 k"; cases "bit m2 k"; cases "bit m3 k"; cases "bit cc k")
    (simp_all add: jh_nib4_def jh_half_def Let_def jh_nibble_def jh_S0_def jh_S1_def
      bit_xor_iff bit_and_iff bit_or_iff bit_not_iff)

lemma jh_nibble_xor:
  "jh_nibble a b c d XOR jh_nibble e f g h = jh_nibble (a \<noteq> e) (b \<noteq> f) (c \<noteq> g) (d \<noteq> h)"
proof -
  have "\<forall>a b c d e f g h. jh_nibble a b c d XOR jh_nibble e f g h
      = jh_nibble (a \<noteq> e) (b \<noteq> f) (c \<noteq> g) (d \<noteq> h)"
    by code_simp
  then show ?thesis by blast
qed

lemma jh_nibble_mul2: "jh_mul2 (jh_nibble a b c d) = jh_nibble b c (d \<noteq> a) a"
  by (cases a; cases b; cases c; cases d) (simp_all add: jh_nibble_def jh_mul2_def)

lemma jh_L_mds:
  assumes "jh_L (m0, m1, m2, m3, m4, m5, m6, m7) = (n0, n1, n2, n3, n4, n5, n6, n7)"
  shows "(jh_nib4 (n0, n1, n2, n3) k, jh_nib4 (n4, n5, n6, n7) k)
    = jh_mds (jh_nib4 (m0, m1, m2, m3) k, jh_nib4 (m4, m5, m6, m7) k)"
proof -
  have n: "n4 = m4 XOR m1" "n5 = m5 XOR m2" "n6 = m6 XOR (m0 XOR m3)" "n7 = m7 XOR m0"
    "n0 = m0 XOR n5" "n1 = m1 XOR n6" "n2 = m2 XOR (n4 XOR n7)" "n3 = m3 XOR n4"
    using assms by (auto simp add: jh_L_def Let_def)
  show ?thesis
    unfolding jh_mds_def jh_nib4_def Let_def prod.case fst_conv snd_conv jh_nibble_xor jh_nibble_mul2
      n(5-8) unfolding n(1-4) bit_xor_iff
    by (rule arg_cong2 [where f = Pair]; rule arg_cong [where f = "\<lambda>(a, b, c, d). jh_nibble a b c d" and
        x = "(_, _, _, _)" and y = "(_, _, _, _)", unfolded prod.case]) auto
qed

lemma jh_mds_nibbles:
  assumes "jh_L (jh_SS (m0, m1, m2, m3, m4, m5, m6, m7) cc0 cc1) = (n0, n1, n2, n3, n4, n5, n6, n7)" "k < 64"
  shows "(jh_nib4 (n0, n1, n2, n3) k, jh_nib4 (n4, n5, n6, n7) k)
    = jh_mds ((if bit cc0 k then jh_S1 else jh_S0) ! jh_nib4 (m0, m1, m2, m3) k,
              (if bit cc1 k then jh_S1 else jh_S0) ! jh_nib4 (m4, m5, m6, m7) k)"
proof -
  obtain a b c d where l: "jh_half m0 m1 m2 m3 cc0 = (a, b, c, d)" by (rule prod_cases4)
  obtain e f g h where r: "jh_half m4 m5 m6 m7 cc1 = (e, f, g, h)" by (rule prod_cases4)
  have "jh_L (a, b, c, d, e, f, g, h) = (n0, n1, n2, n3, n4, n5, n6, n7)"
    using assms(1) by (simp add: jh_SS_halves l r)
  from jh_L_mds [OF this, of k] show ?thesis
    using jh_half_sbox [OF assms(2), of m0 m1 m2 m3 cc0] jh_half_sbox [OF assms(2), of m4 m5 m6 m7 cc1]
    by (simp only: l r)
qed

text \<open>The exchanges, on bits.\<close>

definition jh_exchanges :: "(u64 \<Rightarrow> u64) \<Rightarrow> nat \<Rightarrow> bool" where
  "jh_exchanges swap n \<longleftrightarrow> (\<forall>w. \<forall>k<64. bit (swap w) k = bit w (k XOR n))"

lemma list_all_64: "list_all P [0..<64] \<Longrightarrow> k < 64 \<Longrightarrow> P k" for k :: nat
  by (simp add: list_all_iff)

text \<open>Neighbours at distance \<open>2 ^ s\<close> among the 64 positions.\<close>

definition xor_pow :: "nat \<Rightarrow> nat \<Rightarrow> bool" where
  "xor_pow s k \<longleftrightarrow>
    (if bit k s then 2 ^ s \<le> k \<and> k XOR 2 ^ s = k - 2 ^ s \<and> \<not> bit (k - 2 ^ s) s \<and> \<not> bit (2 ^ s + k) s
     else k XOR 2 ^ s = 2 ^ s + k \<and> 2 ^ s + k < 64 \<and> bit (2 ^ s + k) s \<and>
       (2 ^ s \<le> k \<longrightarrow> bit (k - 2 ^ s) s))"

lemma xor_pow_64: "s < 6 \<Longrightarrow> k < 64 \<Longrightarrow> xor_pow s k"
proof -
  have "list_all (\<lambda>s. list_all (xor_pow s) [0..<64]) [0..<6]" by code_simp
  then show "s < 6 \<Longrightarrow> k < 64 \<Longrightarrow> xor_pow s k" by (simp add: list_all_iff)
qed

definition jh_masks :: "u64 \<Rightarrow> u64 \<Rightarrow> nat \<Rightarrow> bool" where
  "jh_masks lo hi s \<longleftrightarrow> s < 6 \<and> list_all (\<lambda>k. bit lo k = (\<not> bit k s) \<and> bit hi k = bit k s) [0..<64]"

lemma masked_exchange:
  fixes lo hi :: u64
  assumes "jh_masks lo hi s"
  shows "jh_exchanges (\<lambda>w. push_bit (2 ^ s) (w AND lo) OR drop_bit (2 ^ s) (w AND hi)) (2 ^ s)"
  unfolding jh_exchanges_def
proof (intro allI impI)
  fix w :: u64 and k :: nat assume k: "k < 64"
  have m: "j < 64 \<Longrightarrow> bit lo j = (\<not> bit j s)" "j < 64 \<Longrightarrow> bit hi j = bit j s" for j
    using assms by (simp_all add: jh_masks_def list_all_iff)
  have s: "s < 6" using assms by (simp add: jh_masks_def)
  have o: "bit hi j \<Longrightarrow> j < 64" for j using bit_imp_le_length [of hi j] by simp
  show "bit (push_bit (2 ^ s) (w AND lo) OR drop_bit (2 ^ s) (w AND hi)) k = bit w (k XOR 2 ^ s)"
    using xor_pow_64 [OF s k] k m [of "k - 2 ^ s"] m [of "2 ^ s + k"] o [of "2 ^ s + k"]
    by (auto simp: xor_pow_def bit_or_iff bit_push_bit_iff bit_drop_bit_eq bit_and_iff split: if_splits)
qed

lemma unmasked_exchange:
  fixes lo hi :: u64
  assumes "list_all (\<lambda>k. bit lo k = (k < 32) \<and> bit hi k = (32 \<le> k)) [0..<64]"
  shows "push_bit 32 (w AND lo) OR drop_bit 32 (w AND hi) = SWAP32 w"
proof (rule bit_word_eqI)
  fix k assume "k < LENGTH(64)"
  then have k: "k < 64" by simp
  have m: "j < 64 \<Longrightarrow> bit lo j = (j < 32)" "j < 64 \<Longrightarrow> bit hi j = (32 \<le> j)" for j
    using assms(1) by (simp_all add: list_all_iff)
  have o: "bit w j \<Longrightarrow> j < 64" for j using bit_imp_le_length [of w j] by simp
  show "bit (push_bit 32 (w AND lo) OR drop_bit 32 (w AND hi)) k = bit (SWAP32 w) k"
    using k m [of "k - 32"] m [of "32 + k"] o [of "32 + k"]
    by (auto simp: SWAP32_def bit_or_iff bit_push_bit_iff bit_drop_bit_eq bit_and_iff)
qed

lemma SWAP_exchanges:
  "jh_exchanges SWAP1 1" "jh_exchanges SWAP2 2" "jh_exchanges SWAP4 4"
  "jh_exchanges SWAP8 8" "jh_exchanges SWAP16 16" "jh_exchanges SWAP32 32"
proof -
  have "jh_masks 0x5555555555555555 0xaaaaaaaaaaaaaaaa 0" by code_simp
  then show "jh_exchanges SWAP1 1"
    unfolding SWAP1_def [abs_def] by (rule masked_exchange [where s = 0, unfolded power_0])
  have "jh_masks 0x3333333333333333 0xcccccccccccccccc 1" by code_simp
  then show "jh_exchanges SWAP2 2"
    unfolding SWAP2_def [abs_def] by (rule masked_exchange [where s = 1, unfolded power_one_right])
  have p: "2 ^ 2 = (4 :: nat)" "2 ^ 3 = (8 :: nat)" "2 ^ 4 = (16 :: nat)" "2 ^ 5 = (32 :: nat)" by simp_all
  have "jh_masks 0x0f0f0f0f0f0f0f0f 0xf0f0f0f0f0f0f0f0 2" by code_simp
  then show "jh_exchanges SWAP4 4"
    unfolding SWAP4_def [abs_def] by (rule masked_exchange [where s = 2, unfolded p])
  have "jh_masks 0x00ff00ff00ff00ff 0xff00ff00ff00ff00 3" by code_simp
  then show "jh_exchanges SWAP8 8"
    unfolding SWAP8_def [abs_def] by (rule masked_exchange [where s = 3, unfolded p])
  have "jh_masks 0x0000ffff0000ffff 0xffff0000ffff0000 4" by code_simp
  then show "jh_exchanges SWAP16 16"
    unfolding SWAP16_def [abs_def] by (rule masked_exchange [where s = 4, unfolded p])
  have m: "jh_masks 0x00000000ffffffff 0xffffffff00000000 5" by code_simp
  have "list_all (\<lambda>k. bit (0x00000000ffffffff :: u64) k = (k < 32) \<and>
      bit (0xffffffff00000000 :: u64) k = (32 \<le> k)) [0..<64]" by code_simp
  then have "SWAP32 = (\<lambda>w. push_bit 32 (w AND 0x00000000ffffffff) OR drop_bit 32 (w AND 0xffffffff00000000))"
    by (intro ext unmasked_exchange [symmetric])
  then show "jh_exchanges SWAP32 32"
    using masked_exchange [OF m, unfolded p] by (simp only:)
qed


lemma jh_exchanges_id: "jh_exchanges id 0"
  by (simp add: jh_exchanges_def)

text \<open>A column step: its own column through S-boxes and linear map, the other left alone.\<close>

lemma jh_pair_of_col:
  "k < 64 \<Longrightarrow> i < 2 \<Longrightarrow> jh_pair_of x (64 * i + k)
    = (jh_nib4 (x ! i, x ! (4 + i), x ! (8 + i), x ! (12 + i)) k,
       jh_nib4 (x ! (2 + i), x ! (6 + i), x ! (10 + i), x ! (14 + i)) k)"
  by (simp add: jh_pair_of_def jh_nib4_def Let_def)

lemma jh_rc_bit_word:
  assumes "r < 42" "j < 256"
  shows "jh_rc_bit r j = bit (words_of 8 (E8_bitslice_roundconstant ! r) ! (j div 64) :: u64) (j mod 64)"
proof -
  have "list_all (\<lambda>c. length c = 32) E8_bitslice_roundconstant \<and> length E8_bitslice_roundconstant = 42"
    by code_simp
  then have len: "length (E8_bitslice_roundconstant ! r) = 32"
    using assms(1) by (simp add: list_all_length)
  have "j mod 64 div 8 < 8" "j div 64 < 4" using assms(2) by simp_all
  moreover have "8 * (j div 64) + j mod 64 div 8 = j div 8" "j mod 64 mod 8 = j mod 8"
    using div_mult2_eq [of j 8 8] mod_mult2_eq [of j 8 8] by simp_all
  moreover have "j mod 64 div 8 < 32 - 8 * (j div 64)" using calculation by linarith
  ultimately show ?thesis
    using len by (simp add: jh_rc_bit_def words_of_def bit_le_word_iff)
qed

lemma length_jh_column_step [simp]: "length (jh_column_step f r i x) = length x"
  by (simp add: jh_column_step_def Let_def split: prod.split)

lemma jh_column_step_pairs:
  assumes "length x = 16" "i < 2" "i' < 2" "k < 64" "r < 42" "jh_exchanges f n" "k XOR n < 64"
  shows "jh_pair_of (jh_column_step f r i x) (64 * i' + k) =
    (if i = i' then
       (fst (jh_mds (jh_sub r (64 * i + k) (jh_pair_of x (64 * i + k)))),
        snd (jh_mds (jh_sub r (64 * i + (k XOR n)) (jh_pair_of x (64 * i + (k XOR n))))))
     else jh_pair_of x (64 * i' + k))"
proof -
  obtain n0 n1 n2 n3 n4 n5 p where n0:
    "jh_L (jh_SS (x ! i, x ! (4 + i), x ! (8 + i), x ! (12 + i), x ! (2 + i), x ! (6 + i), x ! (10 + i), x ! (14 + i))
      (words_of 8 (E8_bitslice_roundconstant ! r) ! i) (words_of 8 (E8_bitslice_roundconstant ! r) ! (i + 2)))
      = (n0, n1, n2, n3, n4, n5, p)"
    by (rule prod_cases7)
  obtain n6 n7 where p: "p = (n6, n7)" by (cases p)
  note n = n0 [unfolded p]
  have rc: "bit (words_of 8 (E8_bitslice_roundconstant ! r) ! i :: u64) j = jh_rc_bit r (64 * i + j)"
    "bit (words_of 8 (E8_bitslice_roundconstant ! r) ! (i + 2) :: u64) j = jh_rc_bit r (128 + (64 * i + j))"
    if "j < 64" for j
  proof -
    have "64 * (i + 2) + j = 128 + (64 * i + j)" by simp
    moreover have "(64 * i + j) div 64 = i" "(64 * i + j) mod 64 = j"
      "(64 * (i + 2) + j) div 64 = i + 2" "(64 * (i + 2) + j) mod 64 = j"
      using that by (simp_all del: mult_Suc_right add_2_eq_Suc' distrib_left_numeral)
    ultimately show "bit (words_of 8 (E8_bitslice_roundconstant ! r) ! i :: u64) j = jh_rc_bit r (64 * i + j)"
      "bit (words_of 8 (E8_bitslice_roundconstant ! r) ! (i + 2) :: u64) j = jh_rc_bit r (128 + (64 * i + j))"
      using that assms(2) jh_rc_bit_word [OF assms(5), of "64 * i + j"]
        jh_rc_bit_word [OF assms(5), of "64 * (i + 2) + j"] by (simp_all add: add.assoc)
  qed
  have mds: "(jh_nib4 (n0, n1, n2, n3) j, jh_nib4 (n4, n5, n6, n7) j)
      = jh_mds (jh_sub r (64 * i + j) (jh_pair_of x (64 * i + j)))" if "j < 64" for j
    using jh_mds_nibbles [OF n that] that assms(2) by (simp only: rc jh_sub_def jh_pair_of_col fst_conv snd_conv)
  have e: "jh_column_step f r i x = x[i := n0, 4 + i := n1, 8 + i := n2, 12 + i := n3,
      2 + i := f n4, 6 + i := f n5, 10 + i := f n6, 14 + i := f n7]"
    using n by (simp add: jh_column_step_def Let_def)
  have fb: "bit (f w) k = bit w (k XOR n)" for w using assms(4,6) by (simp add: jh_exchanges_def)
  show ?thesis
  proof (cases "i = i'")
    case True
    have "jh_pair_of (jh_column_step f r i x) (64 * i + k)
        = (jh_nib4 (n0, n1, n2, n3) k, jh_nib4 (f n4, f n5, f n6, f n7) k)"
      using assms(1,2) by (simp add: jh_pair_of_col assms(4) e)
    also have "jh_nib4 (f n4, f n5, f n6, f n7) k = jh_nib4 (n4, n5, n6, n7) (k XOR n)"
      by (simp add: jh_nib4_def fb)
    finally show ?thesis
      using True mds [OF assms(4)] mds [OF assms(7)] by (simp add: prod_eq_iff)
  next
    case False
    then have "(i = 0 \<and> i' = 1) \<or> (i = 1 \<and> i' = 0)" using assms(2,3) by linarith
    then show ?thesis
      using assms(1) e jh_pair_of_col [OF assms(4), of 0] jh_pair_of_col [OF assms(4), of 1]
      by (elim disjE) simp_all
  qed
qed

text \<open>Rounds, and the exchange of the words of the odd rows.\<close>

definition jh_round_pairs :: "nat \<Rightarrow> nat \<Rightarrow> (nat \<Rightarrow> jh_pair) \<Rightarrow> nat \<Rightarrow> jh_pair" where
  "jh_round_pairs r n A j =
    (fst (jh_mds (jh_sub r j (A j))), snd (jh_mds (jh_sub r (j XOR n) (A (j XOR n)))))"

lemma split_64:
  assumes "k < 64"
  shows "drop_bit 6 (64 * i + k) = (i :: nat)" "take_bit 6 (64 * i + k) = k"
  using assms by (simp_all add: drop_bit_eq_div take_bit_eq_mod)

lemma join_64: "drop_bit 6 n = i \<Longrightarrow> take_bit 6 n = k \<Longrightarrow> n = 64 * i + k" for n :: nat
  using bits_ident [of 6 n] by (simp add: push_bit_eq_mult)

lemma xor_below_64: "j < 64 \<Longrightarrow> n < 64 \<Longrightarrow> j XOR n < (64 :: nat)"
  using take_bit_xor [of 6 j n] split_64(2) [of j 0] split_64(2) [of n 0]
    take_bit_nat_less_exp [of 6 "j XOR n"] by simp

lemma xor_add_64:
  fixes i :: nat
  assumes "k < 64" "n < 64"
  shows "(64 * i + k) XOR n = 64 * i + (k XOR n)"
  by (rule join_64)
    (use assms split_64 [of n 0] in \<open>simp_all only: drop_bit_xor take_bit_xor split_64 mult_0_right add_0_left xor.right_neutral\<close>)

lemma xor_64:
  fixes i :: nat
  assumes "k < 64"
  shows "(64 * i + k) XOR 64 = 64 * (i XOR 1) + k"
  by (rule join_64)
    (use assms split_64 [of 0 1] in \<open>simp_all only: drop_bit_xor take_bit_xor split_64 mult_1_right add_0_right zero_less_numeral xor.right_neutral\<close>)

lemma jh_round_pair:
  assumes "length x = 16" "j < 128" "r < 42" "jh_exchanges f n" "n < 64"
  shows "jh_pair_of (jh_round f r x) j = jh_round_pairs r n (jh_pair_of x) j"
proof -
  define i k where "i = j div 64" and "k = j mod 64"
  have j: "j = 64 * i + k" "i < 2" "k < 64" using assms(2) by (auto simp: i_def k_def)
  then have x: "k XOR n < 64" "j XOR n = 64 * i + (k XOR n)"
    using assms(5) by (simp_all add: xor_below_64 xor_add_64)
  let ?R = "\<lambda>y. (fst (jh_mds (jh_sub r (64 * i + k) (jh_pair_of y (64 * i + k)))),
    snd (jh_mds (jh_sub r (64 * i + (k XOR n)) (jh_pair_of y (64 * i + (k XOR n))))))"
  have kn: "(k XOR n) XOR n < 64" using j(3) by (simp add: xor.assoc)
  have hit: "jh_pair_of (jh_column_step f r i' y) (64 * i + k) = ?R y" if "i' = i" "length y = 16" for i' y
    using jh_column_step_pairs [OF that(2) j(2) j(2) j(3) assms(3,4) x(1)] that(1) by simp
  have miss: "jh_pair_of (jh_column_step f r i' y) (64 * i + k) = jh_pair_of y (64 * i + k)"
    "jh_pair_of (jh_column_step f r i' y) (64 * i + (k XOR n)) = jh_pair_of y (64 * i + (k XOR n))"
    if "i' \<noteq> i" "i' < 2" "length y = 16" for i' y
    using jh_column_step_pairs [OF that(3,2) j(2) j(3) assms(3,4) x(1)]
      jh_column_step_pairs [OF that(3,2) j(2) x(1) assms(3,4) kn] that(1) by simp_all
  have b: "(0 :: nat) < 2" "(1 :: nat) < 2" by simp_all
  have len: "length (jh_column_step f r 0 x) = 16" using assms(1) by simp
  have "jh_pair_of (jh_column_step f r 1 (jh_column_step f r 0 x)) (64 * i + k) = ?R x"
  proof (cases "i = 0")
    case True
    then have i: "1 \<noteq> i" "0 = i" by simp_all
    show ?thesis unfolding miss(1) [OF i(1) b(2) len] by (rule hit [OF i(2) assms(1)])
  next
    case False
    then have i: "1 = i" "0 \<noteq> i" using j(2) by simp_all
    show ?thesis unfolding hit [OF i(1) len] miss [OF i(2) b(1) assms(1)] ..
  qed
  then show ?thesis
    unfolding jh_round_def jh_round_pairs_def x(2) unfolding j(1) .
qed

lemma length_jh_round [simp]: "length (jh_round f r x) = length x"
  by (simp add: jh_round_def)

lemma length_jh_swap_words [simp]: "length (jh_swap_words x) = length x"
  by (simp add: jh_swap_words_def)

lemma jh_swap_words_pair:
  assumes "length x = 16" "j < 128"
  shows "jh_pair_of (jh_swap_words x) j = (fst (jh_pair_of x j), snd (jh_pair_of x (j XOR 64)))"
proof -
  define i k where "i = j div 64" and "k = j mod 64"
  have j: "j = 64 * i + k" "i < 2" "k < 64" using assms(2) by (auto simp: i_def k_def)
  have "j XOR 64 = 64 * (i XOR 1) + k" unfolding j(1) using j(3) by (rule xor_64)
  moreover have "i = 0 \<or> i = 1" using j(2) by auto
  moreover obtain a0 a1 a2 a3 a4 a5 a6 a7 a8 a9 a10 a11 a12 a13 a14 a15
    where "x = [a0,a1,a2,a3,a4,a5,a6,a7,a8,a9,a10,a11,a12,a13,a14,a15]"
    by (rule list_of_16 [OF assms(1)])
  ultimately show ?thesis
    using jh_pair_of_col [of k 0] jh_pair_of_col [of k 1] j by (auto simp: jh_swap_words_def numeral_eq_Suc)
qed

lemma length_jh_slice [simp]: "length (jh_slice x) = 128"
  by (simp add: jh_slice_def)

lemma jh_slice_nth [simp]: "j < 128 \<Longrightarrow> jh_slice x ! j = jh_pair_of x j"
  by (simp add: jh_slice_def)

lemma xor_below_128: "j < 128 \<Longrightarrow> n < 128 \<Longrightarrow> j XOR n < (128 :: nat)"
  using take_bit_xor [of 7 j n] take_bit_nat_eq_self [of j 7] take_bit_nat_eq_self [of n 7]
    take_bit_nat_less_exp [of 7 "j XOR n"] by simp

lemma jh_slice_round:
  assumes "\<And>j. j < 128 \<Longrightarrow> jh_pair_of y j = jh_round_pairs r n (jh_pair_of x) j"
    and "n = 2 ^ (r mod 7)"
  shows "jh_slice y = jh_round_ref r (jh_slice x)"
proof (rule nth_equalityI)
  show "length (jh_slice y) = length (jh_round_ref r (jh_slice x))"
    by (simp add: jh_round_ref_def Let_def)
next
  fix j assume "j < length (jh_slice y)"
  then have j: "j < 128" by simp
  have "r mod 7 < 7" by simp
  then have "n < 2 ^ 7" unfolding assms(2) by (rule power_strict_increasing) simp
  then have "j XOR n < 128" using j xor_below_128 by simp
  then show "jh_slice y ! j = jh_round_ref r (jh_slice x) ! j"
    using j assms(1) [OF j] by (simp add: jh_round_ref_def jh_round_pairs_def Let_def assms(2))
qed

lemma jh_slice_seven:
  assumes "length x = 16" "r + 6 < 42" "7 dvd r"
  shows "jh_slice (jh_swap_words (jh_round id (r + 6) (jh_round SWAP32 (r + 5) (jh_round SWAP16 (r + 4)
           (jh_round SWAP8 (r + 3) (jh_round SWAP4 (r + 2) (jh_round SWAP2 (r + 1) (jh_round SWAP1 r x))))))))
    = fold jh_round_ref [r..<r + 7] (jh_slice x)"
proof -
  have round: "jh_slice (jh_round f (r + s) y) = jh_round_ref (r + s) (jh_slice y)"
    if "length y = 16" "jh_exchanges f (2 ^ s)" "s < 6" for f s y
  proof (rule jh_slice_round)
    have "(2 :: nat) ^ s < 2 ^ 6" using that(3) by (rule power_strict_increasing) simp
    then show "jh_pair_of (jh_round f (r + s) y) j = jh_round_pairs (r + s) (2 ^ s) (jh_pair_of y) j"
      if "j < 128" for j
      using jh_round_pair [OF \<open>length y = 16\<close> that _ \<open>jh_exchanges f (2 ^ s)\<close>] assms(2) \<open>s < 6\<close> by simp
    have "(r + s) mod 7 = s" using assms(3) that(3) by (auto elim!: dvdE)
    then show "2 ^ s = (2 :: nat) ^ ((r + s) mod 7)" by simp
  qed
  have last: "jh_slice (jh_swap_words (jh_round id (r + 6) y)) = jh_round_ref (r + 6) (jh_slice y)"
    if "length y = 16" for y
  proof (rule jh_slice_round)
    show "64 = (2 :: nat) ^ ((r + 6) mod 7)" using assms(3) by (auto elim!: dvdE)
    fix j :: nat assume j: "j < 128"
    then have "j XOR 64 < 128" by (simp add: xor_below_128)
    then show "jh_pair_of (jh_swap_words (jh_round id (r + 6) y)) j = jh_round_pairs (r + 6) 64 (jh_pair_of y) j"
      using j that assms(2) by (simp add: jh_swap_words_pair jh_round_pair [OF _ _ _ jh_exchanges_id] jh_round_pairs_def)
  qed
  have u: "[r..<r + 7] = [r + 0, r + 1, r + 2, r + 3, r + 4, r + 5, r + 6]"
    by (simp add: upt_rec)
  note ex = SWAP_exchanges [unfolded power_0 [of "2 :: nat", symmetric]]
  have e: "jh_exchanges SWAP1 (2 ^ 0)" "jh_exchanges SWAP2 (2 ^ 1)" "jh_exchanges SWAP4 (2 ^ 2)"
    "jh_exchanges SWAP8 (2 ^ 3)" "jh_exchanges SWAP16 (2 ^ 4)" "jh_exchanges SWAP32 (2 ^ 5)"
    using SWAP_exchanges by simp_all
  show ?thesis
    using round [OF _ e(1), of x] assms(1)
    by (simp add: u last round [OF _ e(2)] round [OF _ e(3)] round [OF _ e(4)] round [OF _ e(5)] round [OF _ e(6)]
        del: add_2_eq_Suc' One_nat_def)
qed

lemma length_jh_E8 [simp]: "length (jh_E8 x) = length x"
  by (simp add: jh_E8_def)

lemma jh_slice_E8:
  assumes "length x = 16"
  shows "jh_slice (jh_E8 x) = fold jh_round_ref [0..<42] (jh_slice x)"
proof -
  define B where "B = (\<lambda>r x. jh_swap_words (jh_round id (r + 6) (jh_round SWAP32 (r + 5) (jh_round SWAP16 (r + 4)
           (jh_round SWAP8 (r + 3) (jh_round SWAP4 (r + 2) (jh_round SWAP2 (r + 1) (jh_round SWAP1 r x))))))))"
  have len [simp]: "length (B r y) = length y" for r y by (simp add: B_def)
  have B: "jh_slice (B r y) = fold jh_round_ref [r..<s] (jh_slice y)"
    if "length y = 16" "r + 6 < 42" "r mod 7 = 0" "s = r + 7" for r s y
    using jh_slice_seven [of y r] that by (simp add: B_def dvd_eq_mod_eq_0)
  have "jh_E8 x = fold B [0, 7, 14, 21, 28, 35] x" by (simp only: jh_E8_def B_def)
  moreover have "[0..<42::nat] = [0..<7] @ [7..<14] @ [14..<21] @ [21..<28] @ [28..<35] @ [35..<42]"
    by code_simp
  moreover have "jh_slice (B 0 y) = fold jh_round_ref [0..<7] (jh_slice y)"
    "jh_slice (B 7 y) = fold jh_round_ref [7..<14] (jh_slice y)"
    "jh_slice (B 14 y) = fold jh_round_ref [14..<21] (jh_slice y)"
    "jh_slice (B 21 y) = fold jh_round_ref [21..<28] (jh_slice y)"
    "jh_slice (B 28 y) = fold jh_round_ref [28..<35] (jh_slice y)"
    "jh_slice (B 35 y) = fold jh_round_ref [35..<42] (jh_slice y)" if "length y = 16" for y
    by (rule B [OF that]; simp del: upt_rec_numeral)+
  ultimately show ?thesis
    by (simp only: fold_simps fold_append o_apply len assms)
qed

lemma nth_horner_64: "k < 64 \<Longrightarrow> length bs = 64 \<Longrightarrow> bit (horner_sum of_bool 2 bs :: u64) k = bs ! k"
  by (simp add: bit_horner_sum_bit_iff possible_bit_def)

lemma jh_nibble_bit:
  "bit (jh_nibble a b c d) 3 = a" "bit (jh_nibble a b c d) 2 = b"
  "bit (jh_nibble a b c d) (Suc 0) = c" "bit (jh_nibble a b c d) 0 = d"
proof -
  have "\<forall>a b c d. bit (jh_nibble a b c d) 3 = a \<and> bit (jh_nibble a b c d) 2 = b \<and>
      bit (jh_nibble a b c d) (Suc 0) = c \<and> bit (jh_nibble a b c d) 0 = d"
    by code_simp
  then show "bit (jh_nibble a b c d) 3 = a" "bit (jh_nibble a b c d) 2 = b"
    "bit (jh_nibble a b c d) (Suc 0) = c" "bit (jh_nibble a b c d) 0 = d" by blast+
qed

lemma jh_unslice_slice:
  assumes "length x = 16"
  shows "jh_unslice (jh_slice x) = x"
proof (rule nth_equalityI)
  show "length (jh_unslice (jh_slice x)) = length x" using assms by (simp add: jh_unslice_def)
next
  fix w assume "w < length (jh_unslice (jh_slice x))"
  then have w: "w < 16" by (simp add: jh_unslice_def)
  show "jh_unslice (jh_slice x) ! w = x ! w"
  proof (rule bit_word_eqI)
    fix k assume "k < LENGTH(64)"
    then have k: "k < 64" by simp
    then have "64 * (w mod 2) + k < 128" by (auto simp: mod_2_eq_odd)
    then have "bit (jh_unslice (jh_slice x) ! w) k
      = bit (if even (w div 2) then fst (jh_pair_of x (64 * (w mod 2) + k))
             else snd (jh_pair_of x (64 * (w mod 2) + k))) (3 - w div 4)"
      using w k by (simp add: jh_unslice_def nth_horner_64 Let_def split_beta)
    moreover have "w \<in> set [0,1,2,3,4,5,6,7,8,9,10,11,12,13,14,15]"
      using w unfolding upt_16 [symmetric] by simp
    ultimately show "bit (jh_unslice (jh_slice x) ! w) k = bit (x ! w) k"
      using jh_pair_of_col [OF k, of 0 x] jh_pair_of_col [OF k, of 1 x]
      by (auto simp: jh_nib4_def jh_nibble_bit)
  qed
qed

lemma jh_E8_is_ref: "length x = 16 \<Longrightarrow> jh_E8 x = jh_E8_ref x"
  using jh_unslice_slice [of "jh_E8 x"] by (simp add: jh_E8_ref_def jh_slice_E8)

section \<open>Compression and padding\<close>

lemma fold_xor_front:
  "length x = 16 \<Longrightarrow> length m = 8 \<Longrightarrow>
   fold (\<lambda>i x. x[i := x ! i XOR m ! i]) [0..<8] x = map2 (XOR) x (m @ replicate 8 (0 :: u64))"
  using fold_update_upt [of 8 x "\<lambda>i v. v XOR m ! i"]
  by (auto intro!: nth_equalityI simp: nth_append)

lemma fold_xor_back:
  assumes "length x = 16" "length m = 8"
  shows "fold (\<lambda>i x. x[8 + i := x ! (8 + i) XOR m ! i]) [0..<8] x = map2 (XOR) x (replicate 8 (0 :: u64) @ m)"
proof -
  obtain a0 a1 a2 a3 a4 a5 a6 a7 a8 a9 a10 a11 a12 a13 a14 a15
    where x: "x = [a0,a1,a2,a3,a4,a5,a6,a7,a8,a9,a10,a11,a12,a13,a14,a15]"
    by (rule list_of_16 [OF assms(1)])
  obtain m0 m1 m2 m3 m4 m5 m6 m7 where m: "m = [m0,m1,m2,m3,m4,m5,m6,m7]"
    by (rule list_of_8 [OF assms(2)])
  have r: "replicate 8 (0 :: u64) = [0,0,0,0,0,0,0,0]" by (simp add: numeral_eq_Suc)
  show ?thesis by (simp add: x m r upt_8)
qed

lemma jh_F8_eq:
  assumes "length (jh_x S) = 16" "length (jh_buffer S) = 64"
  shows "jh_F8 S = S\<lparr>jh_x := jh_F8_ref (jh_x S) (jh_buffer S)\<rparr>"
  using assms
  by (simp add: jh_F8_def jh_F8_ref_def Let_def fold_xor_front fold_xor_back flip: jh_E8_is_ref)

lemma length_jh_F8_ref [simp]: "length h = 16 \<Longrightarrow> length b = 64 \<Longrightarrow> length (jh_F8_ref h b) = 16"
  by (simp add: jh_F8_ref_def flip: jh_E8_is_ref)

definition jh_chain :: "int \<Rightarrow> bytes list \<Rightarrow> u64 list" where
  "jh_chain h bs = fold (\<lambda>b x. jh_F8_ref x b) bs (words_of 8 (jh_iv h))"

lemma length_jh_iv [simp]: "length (jh_iv h) = 128"
  by (simp add: jh_iv_def JH224_H0_def JH256_H0_def JH384_H0_def JH512_H0_def)

lemma length_jh_chain [simp]: "(\<And>b. b \<in> set bs \<Longrightarrow> length b = 64) \<Longrightarrow> length (jh_chain h bs) = 16"
proof (induction bs rule: rev_induct)
  case Nil
  then show ?case by (simp add: jh_chain_def)
next
  case (snoc b bs)
  then show ?case by (simp add: jh_chain_def)
qed

lemma ucast_and_255: "(ucast (x AND 0xff) :: u8) = ucast (x :: u64)"
proof (rule bit_word_eqI)
  fix k assume "k < LENGTH(8)"
  then have k: "k < 8" by simp
  have "bit (0xff :: u64) k"
  proof -
    have "list_all (bit (0xff :: u64)) [0..<8]" by code_simp
    then show ?thesis using k by (simp only: list_all_iff) auto
  qed
  then show "bit (ucast (x AND 0xff) :: u8) k = bit (ucast x :: u8) k"
    using k by (simp add: bit_ucast_iff bit_and_iff del: bit_numeral_iff)
qed

lemma jh_put_length_eq:
  assumes "length buf = 64"
  shows "jh_put_length (of_nat n) buf = Some (take 56 buf @ be_bytes 8 n)"
proof -
  obtain a0 a1 a2 a3 a4 a5 a6 a7 where d: "drop 56 buf = [a0,a1,a2,a3,a4,a5,a6,a7]"
    by (rule list_of_8 [of "drop 56 buf"]) (use assms in simp)
  then have b: "buf = take 56 buf @ [a0,a1,a2,a3,a4,a5,a6,a7]"
    using append_take_drop_id [of 56 buf] by simp
  have len: "length (take 56 buf) = 56" using assms by simp
  have be: "be_bytes 8 n = map (\<lambda>i. ucast (drop_bit (8 * (7 - i)) (of_nat n :: u64))) [0..<8]"
    by (intro nth_equalityI) (simp_all add: be_bytes_nth [where 'a = 64])
  show ?thesis
    using assms
    unfolding jh_put_length_def ucast_and_255
    apply (subst b)
    by (simp add: put_at_Some list_update_append be upt_8)
qed

section \<open>Messages\<close>

text \<open>
  \<open>S\<close> stands for the first \<open>n\<close> bits of \<open>m\<close>: the whole blocks are in the chaining value, the other
  bytes, the last one perhaps partly used, at the front of the buffer.
\<close>

definition jh_stands :: "int \<Rightarrow> jh_state \<Rightarrow> bytes \<Rightarrow> nat \<Rightarrow> bool" where
  "jh_stands h S m n \<longleftrightarrow>
    h \<in> {224, 256, 384, 512} \<and> jh_hashbitlen S = h \<and> jh_databitlen S = of_nat n \<and>
    jh_datasize_in_buffer S = of_nat (n mod 512) \<and>
    length m = (n + 7) div 8 \<and> length (jh_buffer S) = 64 \<and>
    jh_x S = jh_chain h (full_blocks 64 (take (n div 8) m)) \<and>
    take (length m - n div 512 * 64) (jh_buffer S) = drop (n div 512 * 64) m"

lemma unat_and_7: "unat (x AND 7) = unat (x :: u64) mod 8"
proof -
  have "x AND 7 = take_bit 3 x" by (simp add: take_bit_eq_mask mask_eq_exp_minus_1)
  then have "unat (x AND 7) = take_bit 3 (unat x)" by (simp only: unsigned_take_bit_eq)
  then show ?thesis by (simp only: take_bit_eq_mod) simp
qed

lemma unat_and_511: "unat (x AND 0x1ff) = unat (x :: u64) mod 512"
proof -
  have "x AND 0x1ff = take_bit 9 x" by (simp add: take_bit_eq_mask mask_eq_exp_minus_1)
  then have "unat (x AND 0x1ff) = take_bit 9 (unat x)" by (simp only: unsigned_take_bit_eq)
  then show ?thesis by (simp only: take_bit_eq_mod) simp
qed

lemma and_eq_0_iff:
  "x AND 7 = 0 \<longleftrightarrow> unat (x :: u64) mod 8 = 0" "x AND 0x1ff = 0 \<longleftrightarrow> unat x mod 512 = 0"
  by (simp_all flip: unat_and_7 unat_and_511 add: unat_eq_0)

lemma unat_byte_count: "unat (drop_bit 3 (x AND 0x1ff)) = unat (x :: u64) mod 512 div 8"
proof -
  have "unat (drop_bit 3 (x AND 0x1ff)) = drop_bit 3 (unat (x AND 0x1ff))" by (rule unat_drop_bit_eq)
  then show ?thesis by (simp only: unat_and_511 drop_bit_eq_div) simp
qed

lemma jh_update_blocks_eq:
  assumes "length (jh_x S) = 16" "length (jh_buffer S) = 64" "q = unat n div 512" "i + 64 * q \<le> length d"
  shows "\<exists>buf. length buf = 64 \<and> jh_update_blocks S d i n
    = Some (S\<lparr>jh_x := fold (\<lambda>b x. jh_F8_ref x b) (full_blocks 64 (take (64 * q) (drop i d))) (jh_x S),
              jh_buffer := buf\<rparr>, i + 64 * q, of_nat (unat n mod 512))"
  using assms
proof (induction q arbitrary: S i n)
  case 0
  then have "unat n < 512" by (simp add: div_eq_0_iff)
  then have "\<not> n \<ge> 512" "of_nat (unat n mod 512) = n" by (simp_all add: word_le_nat_alt)
  then show ?case using 0
    by (intro exI [of _ "jh_buffer S"], subst jh_update_blocks.simps) (simp add: full_blocks_short)
next
  case (Suc q)
  then have n: "512 \<le> unat n" by (auto simp: div_greater_zero_iff [symmetric])
  then have le: "n \<ge> 512" and sub: "unat (n - 512) = unat n - 512"
    by (simp_all add: word_le_nat_alt unat_sub)
  let ?b = "take 64 (drop i d)"
  let ?S = "S\<lparr>jh_buffer := ?b, jh_x := jh_F8_ref (jh_x S) ?b\<rparr>"
  have b: "length ?b = 64" using Suc.prems(4) by simp
  have cp: "memcpy (jh_buffer S) 0 d i 64 = Some ?b"
    using Suc.prems(2,4) by (simp add: memcpy_Some)
  have F: "jh_F8 (S\<lparr>jh_buffer := ?b\<rparr>) = ?S" using b Suc.prems(1) by (simp add: jh_F8_eq)
  have q: "q = unat (n - 512) div 512" using Suc.prems(3) n sub by (simp add: le_div_geq)
  have m: "unat (n - 512) mod 512 = unat n mod 512" using sub n by (simp add: le_mod_geq)
  obtain buf where buf: "length buf = 64" "jh_update_blocks ?S d (i + 64) (n - 512)
    = Some (?S\<lparr>jh_x := fold (\<lambda>b x. jh_F8_ref x b) (full_blocks 64 (take (64 * q) (drop (i + 64) d))) (jh_x ?S),
              jh_buffer := buf\<rparr>, i + 64 + 64 * q, of_nat (unat (n - 512) mod 512))"
    using Suc.IH [of ?S "n - 512" "i + 64"] q b Suc.prems(1,4) by auto
  have fb: "full_blocks 64 (take (64 * Suc q) (drop i d)) = ?b # full_blocks 64 (take (64 * q) (drop (i + 64) d))"
    using full_blocks_step [of 64 ?b "take (64 * q) (drop (i + 64) d)"] b
    by (simp add: take_add add.commute)
  have "jh_update_blocks S d i n = jh_update_blocks ?S d (i + 64) (n - 512)"
    using le cp F by (subst jh_update_blocks.simps) simp
  then show ?case using buf fb m by (auto simp: add_ac)
qed

lemma whole_bytes: "(n + 7) div 8 = n div 8 + (if n mod 8 = 0 then 0 else 1)" for n :: nat
proof -
  have "n + 7 = 8 * (n div 8) + (n mod 8 + 7)" by simp
  moreover have "(8 * (n div 8) + (n mod 8 + 7)) div 8 = n div 8 + (n mod 8 + 7) div 8" by (rule div_mult_self4) simp
  moreover have "n mod 8 < 8" by simp
  then have "(n mod 8 + 7) div 8 = (if n mod 8 = 0 then 0 else 1)" by auto
  ultimately show ?thesis by (simp only:)
qed

lemma jh_update_store_eq:
  assumes "length (jh_buffer S) = 64" "unat n < 512" "i + (unat n + 7) div 8 \<le> length d"
  shows "\<exists>buf. length buf = 64 \<and> take ((unat n + 7) div 8) buf = take ((unat n + 7) div 8) (drop i d) \<and>
    jh_update_store S d i n
      = Some (S\<lparr>jh_buffer := buf, jh_datasize_in_buffer := (if n = 0 then jh_datasize_in_buffer S else n)\<rparr>)"
proof (cases "n = 0")
  case True
  then show ?thesis using assms by (auto simp: jh_update_store_def intro!: exI [of _ "jh_buffer S"])
next
  case False
  let ?k = "(unat n + 7) div 8"
  let ?buf = "take ?k (drop i d) @ drop ?k (jh_buffer S)"
  have pos: "n > 0" using False by (simp add: word_greater_zero_iff)
  have k: "?k = unat n div 8 + (if unat n mod 8 = 0 then 0 else 1)" by (rule whole_bytes)
  have le: "?k \<le> 64" using assms(2) by simp
  have "memcpy (jh_buffer S) 0 d i ?k = Some ?buf"
    using assms le by (simp add: memcpy_Some)
  then have "jh_update_store S d i n = Some (S\<lparr>jh_buffer := ?buf, jh_datasize_in_buffer := n\<rparr>)"
    using pos assms(2) k unfolding jh_update_store_def and_eq_0_iff unat_byte_count
    by (auto split: if_splits)
  then show ?thesis
    using False assms le by (intro exI [of _ ?buf]) auto
qed

lemma jh_update_eq:
  assumes S: "jh_stands h S m n" and al: "n mod 512 = 0" and d: "(unat k + 7) div 8 \<le> length d"
  shows "\<exists>S'. jh_update S d k = Some S' \<and> jh_stands h S' (m @ take ((unat k + 7) div 8) d) (n + unat k)"
proof -
  define q where "q = unat k div 512"
  define r where "r = unat k mod 512"
  let ?S = "S\<lparr>jh_databitlen := jh_databitlen S + k\<rparr>"
  have len: "length (jh_x S) = 16" "length (jh_buffer S) = 64"
    using S by (simp_all add: jh_stands_def full_blocks_all_length)
  have ds: "jh_datasize_in_buffer S = 0" using S al by (simp add: jh_stands_def)
  have kq: "unat k = 512 * q + r" "r < 512" by (simp_all add: q_def r_def)
  then have u: "unat (of_nat r :: u64) = r" by (simp add: unat_of_nat)
  have c: "(unat k + 7) div 8 = 64 * q + (r + 7) div 8" "unat k div 8 = 64 * q + r div 8" using kq by simp_all
  obtain buf where buf: "length buf = 64" "jh_update_blocks ?S d 0 k
    = Some (?S\<lparr>jh_x := fold (\<lambda>b x. jh_F8_ref x b) (full_blocks 64 (take (64 * q) d)) (jh_x S),
              jh_buffer := buf\<rparr>, 64 * q, of_nat r)"
    using jh_update_blocks_eq [of ?S q k 0 d] len d c q_def r_def by auto
  let ?S1 = "?S\<lparr>jh_x := fold (\<lambda>b x. jh_F8_ref x b) (full_blocks 64 (take (64 * q) d)) (jh_x S), jh_buffer := buf\<rparr>"
  obtain buf' where buf': "length buf' = 64" "take ((r + 7) div 8) buf' = take ((r + 7) div 8) (drop (64 * q) d)"
    "jh_update_store ?S1 d (64 * q) (of_nat r) = Some (?S1\<lparr>jh_buffer := buf', jh_datasize_in_buffer := of_nat r\<rparr>)"
    using jh_update_store_eq [of ?S1 "of_nat r" "64 * q" d] buf(1) kq(2) c(1) d ds u by auto
  let ?S2 = "?S1\<lparr>jh_buffer := buf', jh_datasize_in_buffer := of_nat r\<rparr>"
  have "jh_update S d k = Some ?S2"
    using buf(2) buf'(3) ds by (simp add: jh_update_def jh_update_short_def jh_update_fill_def)
  moreover have "jh_stands h ?S2 (m @ take ((unat k + 7) div 8) d) (n + unat k)"
  proof -
    obtain a where a: "n = 512 * a" using al by auto
    have lm: "length m = 64 * a" using S a by (simp add: jh_stands_def)
    have div: "(n + unat k) div 8 = 64 * a + (64 * q + r div 8)" "(n + unat k) div 512 = a + q"
      "(n + unat k) mod 512 = r" "(n + unat k + 7) div 8 = 64 * a + (64 * q + (r + 7) div 8)"
      using a kq by simp_all
    have tk: "take ((n + unat k) div 8) (m @ take ((unat k + 7) div 8) d) = m @ take (64 * q + r div 8) d"
      unfolding div(1) c(1) using lm by (simp add: min_def)
    have m: "take (n div 8) m = m" using lm a by simp
    have "full_blocks 64 (take (64 * q + r div 8) d) = full_blocks 64 (take (64 * q) d)"
    proof -
      have l: "length (take (64 * q + r div 8) d) = 64 * q + r div 8" using d c(1) by simp
      have "r div 8 < 64" using kq(2) by simp
      then have "64 * q + r div 8 - (64 * q + r div 8) mod 64 = 64 * q" by simp
      then show ?thesis
        using full_blocks_take [of 64 "take (64 * q + r div 8) d"] unfolding l by (simp add: min_def)
    qed
    then have "full_blocks 64 (m @ take (64 * q + r div 8) d)
        = full_blocks 64 m @ full_blocks 64 (take (64 * q) d)"
      using lm by (simp add: full_blocks_append)
    then have "jh_x ?S2 = jh_chain h (full_blocks 64 (take ((n + unat k) div 8) (m @ take ((unat k + 7) div 8) d)))"
      using S m unfolding tk by (simp add: jh_stands_def jh_chain_def)
    moreover have len: "length (m @ take ((unat k + 7) div 8) d) = (n + unat k + 7) div 8"
      using lm d unfolding div(4) c(1) by simp
    moreover have "take ((n + unat k + 7) div 8 - (n + unat k) div 512 * 64) (jh_buffer ?S2)
        = drop ((n + unat k) div 512 * 64) (m @ take ((unat k + 7) div 8) d)"
    proof -
      have "(n + unat k + 7) div 8 - (n + unat k) div 512 * 64 = (r + 7) div 8" "(a + q) * 64 - length m = 64 * q"
        using lm unfolding div by simp_all
      then show ?thesis
        using lm by (simp add: buf'(2) div(2) c(1) drop_take mult.commute [of q])
    qed
    ultimately show ?thesis
      using S buf'(1) by (simp add: jh_stands_def div(3))
  qed
  ultimately show ?thesis by blast
qed

lemma jh_init_stands:
  "h \<in> {224, 256, 384, 512} \<Longrightarrow> length (jh_buffer S) = 64 \<Longrightarrow> jh_stands h (jh_init S h) [] 0"
  by (auto simp: jh_stands_def jh_init_def jh_chain_def jh_iv_def full_blocks_short Let_def)

section \<open>Padding and digest\<close>

lemma jh_length_field: "be_bytes 16 (n mod 2 ^ 64) = replicate 8 0 @ be_bytes 8 n"
proof -
  have "be_bytes 8 (n mod 2 ^ 64) ! i = be_bytes 8 n ! i" if "i < 8" for i
  proof -
    have "(of_nat (n mod 2 ^ 64) :: u64) = of_nat n" by (simp add: word_of_nat_eq_iff take_bit_eq_mod)
    then show ?thesis using that by (simp add: be_bytes_nth [where 'a = 64] del: of_nat_mod)
  qed
  then have "be_bytes 8 (n mod 2 ^ 64) = be_bytes 8 n" by (intro nth_equalityI) simp_all
  moreover have "n mod 2 ^ 64 div 256 ^ 8 = 0" by simp
  moreover have "be_bytes 8 0 = replicate 8 0" by (simp add: be_bytes_def map_replicate_const)
  ultimately show ?thesis using be_bytes_append [of 8 8 "n mod 2 ^ 64"] by simp
qed

lemma jh_bit_of_byte: "s \<le> 7 \<Longrightarrow> (ucast (push_bit s (1 :: u32)) :: u8) = push_bit s 1"
proof -
  have "list_all (\<lambda>s. (ucast (push_bit s (1 :: u32)) :: u8) = push_bit s 1) [0..<8]" by code_simp
  then show "s \<le> 7 \<Longrightarrow> (ucast (push_bit s (1 :: u32)) :: u8) = push_bit s 1"
    by (simp only: list_all_iff set_upt atLeastLessThan_iff) simp
qed

text \<open>One more block on a state whose buffer was replaced.\<close>

lemma jh_block_step:
  assumes "jh_x S = jh_chain h bs" "\<And>b. b \<in> set bs \<Longrightarrow> length b = 64" "length buf = 64"
  shows "jh_F8 (S\<lparr>jh_buffer := buf\<rparr>) = S\<lparr>jh_buffer := buf, jh_x := jh_chain h (bs @ [buf])\<rparr>"
proof -
  have "length (jh_x S) = 16" using assms by simp
  then show ?thesis using assms by (simp add: jh_F8_eq) (simp add: jh_chain_def)
qed

lemma jh_length_block:
  assumes "length buf = 64"
  shows "jh_put_length (of_nat n) (replicate 64 0) = Some (replicate 56 0 @ be_bytes 8 n)"
    "jh_put_length (of_nat n) (0x80 # replicate 63 0) = Some (0x80 # replicate 55 0 @ be_bytes 8 n)"
  by (simp_all add: jh_put_length_eq)

lemma jh_counts:
  assumes "jh_stands h S m n"
  shows "jh_databitlen S AND 0x1ff = 0 \<longleftrightarrow> n mod 512 = 0" "jh_datasize_in_buffer S AND 7 = 0 \<longleftrightarrow> n mod 8 = 0"
    "unat (drop_bit 3 (jh_databitlen S AND 0x1ff)) = n mod 512 div 8" "unat (jh_databitlen S AND 7) = n mod 8"
proof -
  have d: "512 dvd (2 :: nat) ^ 64" "8 dvd (2 :: nat) ^ 64" by simp_all
  have "unat (jh_databitlen S) = n mod 2 ^ 64" using assms by (simp add: jh_stands_def unat_of_nat)
  then have u: "unat (jh_databitlen S) mod 512 = n mod 512" "unat (jh_databitlen S) mod 8 = n mod 8"
    by (simp_all only: mod_mod_cancel [OF d(1)] mod_mod_cancel [OF d(2)])
  have "unat (jh_datasize_in_buffer S) = n mod 512" using assms by (simp add: jh_stands_def unat_of_nat)
  moreover have "n mod 512 mod 8 = n mod 8" by (rule mod_mod_cancel) simp
  ultimately show "jh_datasize_in_buffer S AND 7 = 0 \<longleftrightarrow> n mod 8 = 0" by (simp only: and_eq_0_iff)
  show "jh_databitlen S AND 0x1ff = 0 \<longleftrightarrow> n mod 512 = 0"
    "unat (drop_bit 3 (jh_databitlen S AND 0x1ff)) = n mod 512 div 8" "unat (jh_databitlen S AND 7) = n mod 8"
    by (simp_all only: and_eq_0_iff unat_byte_count unat_and_7 u)
qed

lemma jh_pad_aligned:
  assumes S: "jh_stands h S m n" and al: "n mod 512 = 0"
  shows "\<exists>S'. jh_pad S = Some S' \<and> jh_hashbitlen S' = h \<and> jh_x S' = jh_chain h (full_blocks 64 (jh_padded m n))"
proof -
  let ?b = "0x80 # replicate 55 0 @ be_bytes 8 n"
  obtain a where a: "n = 512 * a" using al by auto
  have m: "length m = 64 * a" "n div 8 = 64 * a" using S a by (simp_all add: jh_stands_def)
  have len: "length (jh_buffer S) = 64" using S by (simp add: jh_stands_def)
  have r: "replicate 64 0 = 0 # replicate 63 (0 :: u8)" by (simp add: numeral_eq_Suc)
  have buf: "memset (jh_buffer S) 0 0 64 = Some (replicate 64 0)" "put_at (replicate 64 0) 0 0x80 = Some (0x80 # replicate 63 (0 :: u8))"
    using len by (simp add: memset_Some) (simp add: put_at_def r)
  have dbl: "jh_databitlen S = of_nat n" using S by (simp add: jh_stands_def)
  have pad: "jh_pad S = Some (jh_F8 (S\<lparr>jh_buffer := ?b\<rparr>))"
    using jh_counts(1) [OF S] al buf jh_length_block(2) [OF len, of n] by (simp add: jh_pad_def dbl)
  have "jh_padded m n = m @ ?b"
  proof -
    have z: "replicate 55 (0 :: u8) = replicate 47 0 @ replicate 8 0" by (simp flip: replicate_add)
    have "n mod 8 = 0" using a by simp
    moreover have "take (n div 8) m = m" using m by simp
    ultimately show ?thesis
      unfolding jh_padded_def al jh_length_field z by simp
  qed
  then have "full_blocks 64 (jh_padded m n) = full_blocks 64 m @ [?b]"
    using m(1) full_blocks_single [of 64 ?b] by (simp add: full_blocks_append del: append_Cons)
  moreover have "jh_x S = jh_chain h (full_blocks 64 m)" using S m by (simp add: jh_stands_def)
  ultimately show ?thesis
    using S pad jh_block_step [of S h "full_blocks 64 m" ?b]
    by (simp add: full_blocks_all_length jh_stands_def)
qed

lemma jh_padded_partial:
  assumes "n mod 512 \<noteq> 0" "length m = (n + 7) div 8"
  defines "w \<equiv> take (n div 512 * 64) m" and "p \<equiv> take (n mod 512 div 8) (drop (n div 512 * 64) m)"
    and "b \<equiv> (if n mod 8 = 0 then 0 else m ! (n div 8) AND NOT (mask (8 - n mod 8))) OR push_bit (7 - n mod 8) 1"
  shows "full_blocks 64 (jh_padded m n)
    = full_blocks 64 (take (n div 8) m) @ [p @ b # replicate (63 - n mod 512 div 8) 0, replicate 56 0 @ be_bytes 8 n]"
proof -
  define t where "t = n mod 512 div 8"
  define s where "s = n mod 8"
  have "n mod 512 = 8 * t + s" "s < 8" "t < 64"
    using mod_mult2_eq [of n 8 64] by (simp_all add: t_def s_def)
  then have n: "n = 512 * (n div 512) + 8 * t + s" "s < 8" "t < 64" "n mod 512 = 8 * t + s"
    using mult_div_mod_eq [of 512 n] by simp_all
  have nd: "n div 8 = n div 512 * 64 + t"
    using n by (subst n(1)) simp
  have len: "length w = n div 512 * 64" "length p = t"
    using assms(2) n(2,3) nd by (simp_all add: w_def p_def t_def [symmetric])
  have tk: "take (n div 8) m = w @ p"
    unfolding nd by (simp add: w_def p_def t_def take_add)
  have z: "47 + ((512 - n mod 512) mod 512 + 7) div 8 + 8 = (63 - t) + 56"
  proof -
    have "(512 - n mod 512) mod 512 = 512 - n mod 512" using assms(1) by simp
    then have "((512 - n mod 512) mod 512 + 7) div 8 = (8 * (64 - t) + (7 - s)) div 8"
      using n by (simp add: diff_mult_distrib2)
    also have "\<dots> = 64 - t" by simp
    finally show ?thesis using n(3) by simp
  qed
  have r: "replicate (47 + ((512 - n mod 512) mod 512 + 7) div 8) (0 :: u8) @ replicate 8 0 @ y
      = replicate (63 - t) 0 @ replicate 56 0 @ y" for y
    using z by (simp only: append_assoc [symmetric] replicate_add [symmetric])
  have "jh_padded m n = w @ (p @ b # replicate (63 - t) 0) @ (replicate 56 0 @ be_bytes 8 n)"
    unfolding jh_padded_def jh_length_field tk b_def by (simp only: append_assoc append.simps r)
  moreover have "length (p @ b # replicate (63 - t) 0) = 64" using len n(3) by simp
  moreover have "full_blocks 64 (w @ p) = full_blocks 64 w"
    using len n(3) by (simp add: full_blocks_append full_blocks_short)
  ultimately show ?thesis
    using len full_blocks_step [of 64 "p @ b # replicate (63 - t) 0" "replicate 56 0 @ be_bytes 8 n"]
      full_blocks_single [of 64 "replicate 56 0 @ be_bytes 8 n"]
    unfolding tk t_def [symmetric] by (simp add: full_blocks_append)
qed

lemma and_not_mask: "take_bit k x = 0 \<Longrightarrow> x AND NOT (mask k) = x" for x :: u8
proof (rule bit_word_eqI)
  fix i assume "take_bit k x = 0" "i < LENGTH(8)"
  then have "bit (take_bit k x) i = False" by simp
  then show "bit (x AND NOT (mask k)) i = bit x i"
    using \<open>i < LENGTH(8)\<close> by (auto simp: bit_and_iff bit_not_iff bit_mask_iff bit_take_bit_iff)
qed

lemma jh_pad_partial:
  assumes S: "jh_stands h S m n" and al: "n mod 512 \<noteq> 0"
    and zero: "n mod 8 \<noteq> 0 \<Longrightarrow> take_bit (8 - n mod 8) (m ! (n div 8)) = 0"
  shows "\<exists>S'. jh_pad S = Some S' \<and> jh_hashbitlen S' = h \<and> jh_x S' = jh_chain h (full_blocks 64 (jh_padded m n))"
proof -
  define t where "t = n mod 512 div 8"
  define s where "s = n mod 8"
  define c where "c = n div 512 * 64"
  define p where "p = take t (drop c m)"
  define x where "x = (if s = 0 then 0 else m ! (n div 8))"
  define k where "k = (if s = 0 then t else t + 1)"
  define b where "b = x OR push_bit (7 - s) 1"
  have ts: "n mod 512 = 8 * t + s" "s < 8" "t < 64" "n = 512 * (n div 512) + 8 * t + s"
    using mod_mult2_eq [of n 8 64] mult_div_mod_eq [of 512 n] by (simp_all add: t_def s_def)
  have nd: "n div 8 = c + t" "(n + 7) div 8 = c + k"
  proof -
    have n8: "n = 8 * (c + t) + s" using ts(4) by (simp add: c_def)
    show "n div 8 = c + t" unfolding n8 using ts(2) by simp
    have "n + 7 = 8 * (c + t) + (s + 7)" using n8 by linarith
    moreover have "(8 * (c + t) + (s + 7)) div 8 = c + t + (s + 7) div 8" by (rule div_mult_self4) simp
    moreover have "(s + 7) div 8 = (if s = 0 then 0 else 1)" using ts(2) by auto
    ultimately have "(n + 7) div 8 = c + t + (if s = 0 then 0 else 1)" by (simp only:)
    then show "(n + 7) div 8 = c + k" by (simp add: k_def)
  qed
  have lm: "length m = c + k" and len: "length (jh_buffer S) = 64" and dbl: "jh_databitlen S = of_nat n"
    using S by (simp_all add: jh_stands_def nd)
  have tail: "take k (jh_buffer S) = drop c m" using S lm by (simp add: jh_stands_def c_def)
  have lp: "length p = t" using lm by (simp add: p_def k_def)
  have px: "(drop c m @ replicate (64 - k) 0) ! t = x" "(drop c m @ replicate (64 - k) 0)[t := v] = p @ v # replicate (63 - t) 0" for v
  proof -
    have z: "replicate (64 - t) (0 :: u8) = 0 # replicate (63 - t) 0" using ts(3)
      by (metis Suc_diff_Suc diff_Suc_Suc numeral_eq_Suc pred_numeral_simps(2) pred_numeral_simps(3) replicate_Suc semiring_norm(26) semiring_norm(27) semiring_norm(28))
    have "drop c m @ replicate (64 - k) 0 = p @ x # replicate (63 - t) 0"
    proof (cases "s = 0")
      case True
      then show ?thesis using lm z by (simp add: k_def p_def x_def)
    next
      case False
      have "drop c m = p @ drop t (drop c m)" unfolding p_def by (rule append_take_drop_id [symmetric])
      also have "drop t (drop c m) = [m ! (c + t)]"
        using lm False Cons_nth_drop_Suc [of "c + t" m] by (simp add: k_def add.commute)
      finally show ?thesis using False by (simp add: x_def nd k_def)
    qed
    then show "(drop c m @ replicate (64 - k) 0) ! t = x"
      "(drop c m @ replicate (64 - k) 0)[t := v] = p @ v # replicate (63 - t) 0"
      using lp by (simp_all add: nth_append list_update_append)
  qed
  let ?b1 = "p @ b # replicate (63 - t) 0"
  let ?b2 = "replicate 56 0 @ be_bytes 8 n"
  let ?fb = "full_blocks 64 (take (n div 8) m)"
  have l1: "length ?b1 = 64" using lp ts(3) by simp
  have "k \<le> 64" using ts(3) by (simp add: k_def)
  then have buf: "memset (jh_buffer S) k 0 (64 - k) = Some (drop c m @ replicate (64 - k) 0)"
    using len tail by (simp add: memset_Some)
  have "t < length (drop c m @ replicate (64 - k) 0)" using lm ts(3) by (simp add: k_def)
  then have gp: "get_at (drop c m @ replicate (64 - k) 0) t = Some x"
    "put_at (drop c m @ replicate (64 - k) 0) t b = Some ?b1"
    using px by (simp_all add: get_at_Some put_at_Some)
  have F1: "jh_F8 (S\<lparr>jh_buffer := ?b1\<rparr>) = S\<lparr>jh_buffer := ?b1, jh_x := jh_chain h (?fb @ [?b1])\<rparr>"
    using S l1 by (intro jh_block_step) (simp_all add: full_blocks_all_length jh_stands_def)
  let ?S1 = "S\<lparr>jh_buffer := ?b1, jh_x := jh_chain h (?fb @ [?b1])\<rparr>"
  have F2: "jh_F8 (?S1\<lparr>jh_buffer := ?b2\<rparr>) = ?S1\<lparr>jh_buffer := ?b2, jh_x := jh_chain h ((?fb @ [?b1]) @ [?b2])\<rparr>"
    using l1 by (intro jh_block_step) (auto simp: full_blocks_all_length)
  have bit: "x OR ucast (push_bit (7 - n mod 8) (1 :: u32)) = b"
    by (simp only: b_def s_def jh_bit_of_byte [OF diff_le_self])
  have ms: "memset ?b1 0 0 64 = Some (replicate 64 0)" using l1 by (simp add: memset_Some)
  have k: "(if n mod 8 = 0 then t else t + 1) = k" by (simp add: k_def s_def)
  have e: "jh_buffer ?S1 = ?b1" "jh_databitlen ?S1 = jh_databitlen S" by simp_all
  have lb: "jh_put_length (jh_databitlen S) (replicate 64 0) = Some ?b2"
    unfolding dbl by (rule jh_length_block(1) [OF len])
  have pad: "jh_pad S = Some (jh_F8 (?S1\<lparr>jh_buffer := ?b2\<rparr>))"
    using al
    by (simp only: jh_pad_def jh_counts [OF S] Let_def if_False t_def [symmetric] k buf gp bit bind.bind_lunit F1
        e ms lb)
  have "x = (if n mod 8 = 0 then 0 else m ! (n div 8) AND NOT (mask (8 - n mod 8)))"
    using zero and_not_mask by (simp add: x_def s_def)
  then have "full_blocks 64 (jh_padded m n) = (?fb @ [?b1]) @ [?b2]"
    using jh_padded_partial [OF al, of m] S by (simp add: jh_stands_def b_def s_def p_def t_def c_def)
  then show ?thesis using pad F2 S by (simp add: jh_stands_def)
qed

lemma jh_output_eq:
  assumes "jh_hashbitlen S = h" "h \<in> {224, 256, 384, 512}" "length (jh_x S) = 16"
  shows "jh_output S = drop (128 - nat h div 8) (bytes_of 8 (jh_x S))"
  using assms by (auto simp: jh_output_def Let_def)

lemma jh_final_eq:
  assumes S: "jh_stands h S m n"
    and zero: "n mod 8 \<noteq> 0 \<Longrightarrow> take_bit (8 - n mod 8) (m ! (n div 8)) = 0"
  shows "\<exists>S'. jh_final S = Some (S', jh_hash_ref h m n)"
proof -
  obtain S' where S': "jh_pad S = Some S'" "jh_hashbitlen S' = h"
    "jh_x S' = jh_chain h (full_blocks 64 (jh_padded m n))"
    using jh_pad_aligned [OF S] jh_pad_partial [OF S _ zero] by blast
  have "jh_output S' = drop (128 - nat h div 8) (bytes_of 8 (jh_x S'))"
    using S S' by (intro jh_output_eq) (auto simp: jh_stands_def full_blocks_all_length)
  then show ?thesis
    using S' by (simp add: jh_final_def jh_hash_ref_def Let_def jh_chain_def)
qed

section \<open>The interface\<close>

definition jh256_init :: "jh_state \<Rightarrow> jh_state" where
  "jh256_init S = jh_init S 256"

definition jh_ready :: "jh_state \<Rightarrow> bool" where
  "jh_ready S \<longleftrightarrow> length (jh_buffer S) = 64"

lemma unat_u64: "k < 2 ^ 64 \<Longrightarrow> unat (of_nat k :: u64) = k"
  by (simp add: unat_of_nat)

interpretation jh256: stream_hash jh256_init "\<lambda>S d n. jh_update S d (of_nat n)" jh_final jh_ready
  "\<lambda>S m. jh_stands 256 S m (8 * length m)" 64 "\<lambda>n. 8 * n < 2 ^ 64" "\<lambda>m. jh_hash_ref 256 m (8 * length m)"
proof (unfold_locales, goal_cases)
  case (1 S)
  then show ?case using jh_init_stands [of 256 S] by (simp add: jh256_init_def jh_ready_def)
next
  case (2 S m n d)
  then have "unat (of_nat (8 * n) :: u64) = 8 * n" by (intro unat_u64)
  moreover have "(8 * n + 7) div 8 = n" by simp
  moreover have "8 * length m mod 512 = 0" using 2(2) by auto
  ultimately show ?case
    using jh_update_eq [OF 2(1), of "of_nat (8 * n)" d] 2(3) by (simp add: algebra_simps)
next
  case (3 S m)
  then show ?case by (rule jh_final_eq) simp
qed

lemma jh_hash_eq:
  assumes "length (jh_buffer S) = 64" "h \<in> {224, 256, 384, 512}" "(unat n + 7) div 8 \<le> length d"
    and "unat n mod 8 \<noteq> 0 \<Longrightarrow> take_bit (8 - unat n mod 8) (d ! (unat n div 8)) = 0"
  shows "jh_hash S h d n = Some (SUCCESS, jh_hash_ref h (take ((unat n + 7) div 8) d) (unat n))"
proof -
  let ?m = "take ((unat n + 7) div 8) d"
  obtain S1 where S1: "jh_update (jh_init S h) d n = Some S1" "jh_stands h S1 ?m (unat n)"
    using jh_update_eq [OF jh_init_stands [OF assms(2,1)] _ assms(3)] by auto
  have "unat n div 8 < (unat n + 7) div 8" if "unat n mod 8 \<noteq> 0"
    using that mult_div_mod_eq [of 8 "unat n"] by linarith
  then have "?m ! (unat n div 8) = d ! (unat n div 8)" if "unat n mod 8 \<noteq> 0"
    using that by simp
  then obtain S2 where "jh_final S1 = Some (S2, jh_hash_ref h ?m (unat n))"
    using jh_final_eq [OF S1(2)] assms(4) by fastforce
  then show ?thesis using assms(2) S1(1) by (auto simp: jh_hash_def)
qed

lemma length_jh_hash_ref: "length (jh_hash_ref 256 m n) = 32"
proof -
  have "length (jh_chain 256 (full_blocks 64 (jh_padded m n))) = 16"
    by (simp add: full_blocks_all_length)
  then show ?thesis by (simp add: jh_hash_ref_def Let_def jh_chain_def)
qed

section \<open>Properties\<close>

text \<open>
  C20. \<open>jh_hash\<close> returns the JH digest of the first \<open>n\<close> bits of its data, for all four digest
  lengths and every number of bits whose last byte has zero bits behind the message: the padded
  message, chained with the reference compression from the initial value of that length.
\<close>

theorem jh_hash_is_jh:
  assumes "length (jh_buffer S) = 64" "h \<in> {224, 256, 384, 512}" "(unat n + 7) div 8 \<le> length d"
    and "unat n mod 8 \<noteq> 0 \<Longrightarrow> take_bit (8 - unat n mod 8) (d ! (unat n div 8)) = 0"
  shows "jh_hash S h d n = Some (SUCCESS, jh_hash_ref h (take ((unat n + 7) div 8) d) (unat n))"
  using assms by (rule jh_hash_eq)

definition blank_jh :: jh_state where
  "blank_jh = \<lparr>jh_hashbitlen = 1, jh_databitlen = 2, jh_datasize_in_buffer = 3, jh_x = replicate 16 4, jh_buffer = replicate 64 5\<rparr>"

theorem jh_hash_is_jh_witness:
  "jh_hash blank_jh 224 (replicate 70 0xA0) 523 = Some (SUCCESS, jh_hash_ref 224 (replicate 66 0xA0) 523)"
  using jh_hash_is_jh [of blank_jh 224 523 "replicate 70 0xA0"]
  by (simp add: blank_jh_def take_bit_eq_mod)

text \<open>
  The permutation E8 on bit-sliced words is the 42 rounds of the specification on the 128 element
  pairs: an S-box picked by a round constant bit for every element, the linear map over the field
  of 16 elements, and the exchange of the second elements of pairs at distance \<open>2 ^ (r mod 7)\<close>.
\<close>

theorem jh_E8_is_rounds:
  assumes "length x = 16"
  shows "jh_slice (jh_E8 x) = fold jh_round_ref [0..<42] (jh_slice x)"
  using assms by (rule jh_slice_E8)

theorem jh_E8_is_rounds_witness:
  "jh_slice (jh_E8 (replicate 16 7)) = fold jh_round_ref [0..<42] (jh_slice (replicate 16 7))"
  by (rule jh_E8_is_rounds) simp

text \<open>
  With bytes in its buffer, an update that does not complete the block copies as many bytes as
  the buffer has free, not as many as it was given: it reads past the end of the data unless more
  data happens to follow, and for a number of bits that is not a multiple of 8 it always writes one
  byte past the buffer.
\<close>

theorem jh_update_overruns:
  assumes "length (jh_buffer S) = 64" "0 < jh_datasize_in_buffer S" "jh_datasize_in_buffer S + n < 512"
    and "length d < 64 - unat (jh_datasize_in_buffer S) div 8 \<or> n AND 7 \<noteq> 0"
  shows "jh_update S d n = None"
proof -
  let ?f = "unat (drop_bit 3 (jh_datasize_in_buffer S))"
  have f: "?f = unat (jh_datasize_in_buffer S) div 8" unfolding unat_drop_bit_eq by (simp add: drop_bit_eq_div)
  have "memcpy (jh_buffer S) ?f d 0 (64 - ?f + 1) = None"
    using assms(1) by (intro memcpy_None_dst) simp
  moreover have "memcpy (jh_buffer S) ?f d 0 (64 - ?f) = None" if "n AND 7 = 0"
    using assms(4) that by (intro memcpy_None_src) (simp add: f)
  ultimately show ?thesis
    using assms(1-3) by (simp add: jh_update_def jh_update_short_def Let_def)
qed

theorem jh_update_overruns_witness:
  "jh_update (blank_jh\<lparr>jh_datasize_in_buffer := 16\<rparr>) [1, 2, 3] 24 = None"
  by (rule jh_update_overruns) (simp_all add: blank_jh_def unat_drop_bit_eq drop_bit_eq_div)

end
