(* ===== verification/Skein.thy ===== *)
theory Skein
  imports Prelude Hash_Interface
begin

text \<open>
  \<open>src/src/crypto/c_skein.c\<close> with its headers: Skein-512-512 straight hashing as the
  preprocessor leaves it (72 unrolled rounds, no run-time checks, a little-endian machine). The
  reference states Threefish-512 with its word permutation, the chaining mode UBI over a whole
  message, the configuration block, and the output transformation.
\<close>

unbundle bit_operations_syntax

section \<open>Constants and context\<close>

text \<open>\<open>SKEIN_T1_BIT\<close> counts from the second tweak word.\<close>

definition SKEIN_T1_FLAG_FIRST :: u64 where
  "SKEIN_T1_FLAG_FIRST = push_bit (126 - 64) 1"

definition SKEIN_T1_FLAG_FINAL :: u64 where
  "SKEIN_T1_FLAG_FINAL = push_bit (127 - 64) 1"

definition SKEIN_T1_FLAG_BIT_PAD :: u64 where
  "SKEIN_T1_FLAG_BIT_PAD = push_bit (119 - 64) 1"

definition SKEIN_T1_BLK_TYPE :: "u64 \<Rightarrow> u64" where
  "SKEIN_T1_BLK_TYPE t = push_bit (120 - 64) t"

definition SKEIN_T1_BLK_TYPE_MSG :: u64 where
  "SKEIN_T1_BLK_TYPE_MSG = SKEIN_T1_BLK_TYPE 48"

definition SKEIN_T1_BLK_TYPE_CFG_FINAL :: u64 where
  "SKEIN_T1_BLK_TYPE_CFG_FINAL = SKEIN_T1_BLK_TYPE 4 OR SKEIN_T1_FLAG_FINAL"

definition SKEIN_T1_BLK_TYPE_OUT_FINAL :: u64 where
  "SKEIN_T1_BLK_TYPE_OUT_FINAL = SKEIN_T1_BLK_TYPE 63 OR SKEIN_T1_FLAG_FINAL"

definition SKEIN_MK_64 :: "u32 \<Rightarrow> u32 \<Rightarrow> u64" where
  "SKEIN_MK_64 hi32 lo32 = ucast lo32 + push_bit 32 (ucast hi32)"

definition SKEIN_SCHEMA_VER :: u64 where
  "SKEIN_SCHEMA_VER = SKEIN_MK_64 1 0x33414853"

definition SKEIN_KS_PARITY :: u64 where
  "SKEIN_KS_PARITY = SKEIN_MK_64 0x1BD11BDA 0xA9FC1A22"

definition SKEIN_CFG_TREE_INFO :: "u64 \<Rightarrow> u64 \<Rightarrow> u64 \<Rightarrow> u64" where
  "SKEIN_CFG_TREE_INFO leaf node maxLvl = push_bit 0 leaf OR push_bit 8 node OR push_bit 16 maxLvl"

definition SKEIN_512_IV_256 :: "u64 list" where
  "SKEIN_512_IV_256 =
    [SKEIN_MK_64 0xCCD044A1 0x2FDB3E13, SKEIN_MK_64 0xE8359030 0x1A79A9EB,
     SKEIN_MK_64 0x55AEA061 0x4F816E6F, SKEIN_MK_64 0x2A2767A4 0xAE9B94DB,
     SKEIN_MK_64 0xEC06025E 0x74DD7683, SKEIN_MK_64 0xE7A436CD 0xC4746251,
     SKEIN_MK_64 0xC36FBAF9 0x393AD185, SKEIN_MK_64 0x3EEDBA18 0x33EDFC13]"

text \<open>The rotation constants \<open>R_512_r_j\<close>.\<close>

definition R_512 :: "nat list list" where
  "R_512 =
    [[46, 36, 19, 37], [33, 27, 14, 42], [17, 49, 36, 39], [44, 9, 54, 56],
     [39, 30, 34, 24], [13, 50, 10, 17], [25, 29, 39, 43], [8, 35, 56, 22]]"

datatype SkeinHashReturn = SKEIN_SUCCESS | SKEIN_FAIL | SKEIN_BAD_HASHLEN

record skein_ctx =
  sk_hashBitLen :: u64
  sk_bCnt :: nat
  sk_T0 :: u64
  sk_T1 :: u64
  sk_X :: "u64 list"
  sk_b :: bytes

definition Skein_Start_New_Type :: "skein_ctx \<Rightarrow> u64 \<Rightarrow> skein_ctx" where
  "Skein_Start_New_Type ctx blk_type = ctx\<lparr>sk_T0 := 0, sk_T1 := SKEIN_T1_FLAG_FIRST OR blk_type, sk_bCnt := 0\<rparr>"

definition Skein_Set_Bit_Pad_Flag :: "skein_ctx \<Rightarrow> skein_ctx" where
  "Skein_Set_Bit_Pad_Flag ctx = ctx\<lparr>sk_T1 := sk_T1 ctx OR SKEIN_T1_FLAG_BIT_PAD\<rparr>"

section \<open>The block function\<close>

text \<open>One mix step of \<open>Round512\<close>, and the four of a round.\<close>

definition skein_mix :: "nat \<Rightarrow> nat \<Rightarrow> nat \<Rightarrow> u64 list \<Rightarrow> u64 list" where
  "skein_mix p q rot X =
    (let X = X[p := X ! p + X ! q]; X = X[q := rotl (X ! q) rot] in X[q := X ! q XOR X ! p])"

definition Round512 :: "nat list \<Rightarrow> nat list \<Rightarrow> u64 list \<Rightarrow> u64 list" where
  "Round512 p ROT X =
    (let X = skein_mix (p ! 0) (p ! 1) (ROT ! 0) X;
         X = skein_mix (p ! 2) (p ! 3) (ROT ! 1) X;
         X = skein_mix (p ! 4) (p ! 5) (ROT ! 2) X
     in skein_mix (p ! 6) (p ! 7) (ROT ! 3) X)"

text \<open>Key injection: key words \<open>ks\<close> and tweak words \<open>ts\<close>.\<close>

definition I512 :: "u64 list \<Rightarrow> u64 list \<Rightarrow> nat \<Rightarrow> u64 list \<Rightarrow> u64 list" where
  "I512 ks ts R X =
    [X ! 0 + ks ! ((R + 1) mod 9),
     X ! 1 + ks ! ((R + 2) mod 9),
     X ! 2 + ks ! ((R + 3) mod 9),
     X ! 3 + ks ! ((R + 4) mod 9),
     X ! 4 + ks ! ((R + 5) mod 9),
     X ! 5 + (ks ! ((R + 6) mod 9) + ts ! ((R + 1) mod 3)),
     X ! 6 + (ks ! ((R + 7) mod 9) + ts ! ((R + 2) mod 3)),
     X ! 7 + (ks ! ((R + 8) mod 9) + of_nat R + 1)]"

definition R512_8_rounds :: "u64 list \<Rightarrow> u64 list \<Rightarrow> nat \<Rightarrow> u64 list \<Rightarrow> u64 list" where
  "R512_8_rounds ks ts R X =
    (let X = Round512 [0,1,2,3,4,5,6,7] (R_512 ! 0) X;
         X = Round512 [2,1,4,7,6,5,0,3] (R_512 ! 1) X;
         X = Round512 [4,1,6,3,0,5,2,7] (R_512 ! 2) X;
         X = Round512 [6,1,0,7,2,5,4,3] (R_512 ! 3) X;
         X = I512 ks ts (2 * R) X;
         X = Round512 [0,1,2,3,4,5,6,7] (R_512 ! 4) X;
         X = Round512 [2,1,4,7,6,5,0,3] (R_512 ! 5) X;
         X = Round512 [4,1,6,3,0,5,2,7] (R_512 ! 6) X;
         X = Round512 [6,1,0,7,2,5,4,3] (R_512 ! 7) X
     in I512 ks ts (2 * R + 1) X)"

text \<open>
  One pass of the loop of \<open>Skein_512_Process_Block\<close>: chaining words, tweak and block words to
  the new chaining words; \<open>SKEIN_512_ROUNDS_TOTAL / 8\<close> is nine.
\<close>

definition skein_block :: "u64 list \<Rightarrow> u64 \<Rightarrow> u64 \<Rightarrow> u64 list \<Rightarrow> u64 list" where
  "skein_block X t0 t1 w =
    (let ks = take 8 X @ [X ! 0 XOR X ! 1 XOR X ! 2 XOR X ! 3 XOR X ! 4 XOR X ! 5 XOR X ! 6 XOR X ! 7 XOR SKEIN_KS_PARITY];
         ts = [t0, t1, t0 XOR t1];
         V = [w ! 0 + ks ! 0, w ! 1 + ks ! 1, w ! 2 + ks ! 2, w ! 3 + ks ! 3, w ! 4 + ks ! 4,
              w ! 5 + ks ! 5 + ts ! 0, w ! 6 + ks ! 6 + ts ! 1, w ! 7 + ks ! 7];
         V = R512_8_rounds ks ts 0 V;
         V = R512_8_rounds ks ts 1 V;
         V = R512_8_rounds ks ts 2 V;
         V = R512_8_rounds ks ts 3 V;
         V = R512_8_rounds ks ts 4 V;
         V = R512_8_rounds ks ts 5 V;
         V = R512_8_rounds ks ts 6 V;
         V = R512_8_rounds ks ts 7 V;
         V = R512_8_rounds ks ts 8 V
     in [V ! 0 XOR w ! 0, V ! 1 XOR w ! 1, V ! 2 XOR w ! 2, V ! 3 XOR w ! 3,
         V ! 4 XOR w ! 4, V ! 5 XOR w ! 5, V ! 6 XOR w ! 6, V ! 7 XOR w ! 7])"

text \<open>
  The \<open>do\<close> loop over \<open>blkCnt\<close> blocks at \<open>off\<close>; with a count of zero the counter wraps
  and the loop leaves every buffer.
\<close>

fun Skein_512_Process_Block :: "skein_ctx \<Rightarrow> bytes \<Rightarrow> nat \<Rightarrow> nat \<Rightarrow> u64 \<Rightarrow> skein_ctx option" where
  "Skein_512_Process_Block ctx blk off 0 byteCntAdd = None"
| "Skein_512_Process_Block ctx blk off (Suc blkCnt) byteCntAdd =
    do {
      m \<leftarrow> load blk off 64;
      let t0 = sk_T0 ctx + byteCntAdd;
      let ctx = ctx\<lparr>sk_T0 := t0, sk_X := skein_block (sk_X ctx) t0 (sk_T1 ctx) (words_of 8 m),
                     sk_T1 := sk_T1 ctx AND NOT SKEIN_T1_FLAG_FIRST\<rparr>;
      if blkCnt = 0 then Some ctx else Skein_512_Process_Block ctx blk (off + 64) blkCnt byteCntAdd
    }"

declare Skein_512_Process_Block.simps [simp del]

section \<open>Init, update and final\<close>

text \<open>\<open>cfg\<close> is the configuration block, its first three words and zeros.\<close>

definition skein_cfg :: "u64 \<Rightarrow> bytes" where
  "skein_cfg hashBitLen =
    le_bytes 8 SKEIN_SCHEMA_VER @ le_bytes 8 hashBitLen @ le_bytes 8 (SKEIN_CFG_TREE_INFO 0 0 0) @ replicate (64 - 3 * 8) 0"

definition Skein_512_Init :: "skein_ctx \<Rightarrow> u64 \<Rightarrow> skein_ctx option" where
  "Skein_512_Init ctx hashBitLen =
    do {
      let ctx = ctx\<lparr>sk_hashBitLen := hashBitLen\<rparr>;
      ctx \<leftarrow> (if hashBitLen = 256 then Some (ctx\<lparr>sk_X := SKEIN_512_IV_256\<rparr>)
             else Skein_512_Process_Block
                    ((Skein_Start_New_Type ctx SKEIN_T1_BLK_TYPE_CFG_FINAL)\<lparr>sk_X := replicate 8 0\<rparr>)
                    (skein_cfg hashBitLen) 0 1 (4 * 8));
      Some (Skein_Start_New_Type ctx SKEIN_T1_BLK_TYPE_MSG)
    }"

text \<open>
  Buffered data and whole blocks of a call with more data than the buffer takes, from \<open>off\<close> in
  \<open>msg\<close>; it returns the context, the new position and the bytes left.
\<close>

definition skein_update_buffer :: "skein_ctx \<Rightarrow> bytes \<Rightarrow> nat \<Rightarrow> (skein_ctx \<times> nat \<times> nat) option" where
  "skein_update_buffer ctx msg msgByteCnt =
    (if sk_bCnt ctx \<noteq> 0 then
       do {
         let n = 64 - sk_bCnt ctx;
         (ctx, off, msgByteCnt) \<leftarrow>
           (if n \<noteq> 0 then
              do {
                b \<leftarrow> memcpy (sk_b ctx) (sk_bCnt ctx) msg 0 n;
                Some (ctx\<lparr>sk_b := b, sk_bCnt := sk_bCnt ctx + n\<rparr>, n, msgByteCnt - n)
              }
            else Some (ctx, 0, msgByteCnt));
         ctx \<leftarrow> Skein_512_Process_Block ctx (sk_b ctx) 0 1 64;
         Some (ctx\<lparr>sk_bCnt := 0\<rparr>, off, msgByteCnt)
       }
     else Some (ctx, 0, msgByteCnt))"

definition skein_update_blocks :: "skein_ctx \<Rightarrow> bytes \<Rightarrow> nat \<Rightarrow> nat \<Rightarrow> (skein_ctx \<times> nat \<times> nat) option" where
  "skein_update_blocks ctx msg off msgByteCnt =
    (if msgByteCnt > 64 then
       do {
         let n = (msgByteCnt - 1) div 64;
         ctx \<leftarrow> Skein_512_Process_Block ctx msg off n 64;
         Some (ctx, off + n * 64, msgByteCnt - n * 64)
       }
     else Some (ctx, off, msgByteCnt))"

definition Skein_512_Update :: "skein_ctx \<Rightarrow> bytes \<Rightarrow> nat \<Rightarrow> skein_ctx option" where
  "Skein_512_Update ctx msg msgByteCnt =
    do {
      (ctx, off, msgByteCnt) \<leftarrow>
        (if msgByteCnt + sk_bCnt ctx > 64 then
           do {
             (ctx, off, msgByteCnt) \<leftarrow> skein_update_buffer ctx msg msgByteCnt;
             skein_update_blocks ctx msg off msgByteCnt
           }
         else Some (ctx, 0, msgByteCnt));
      if msgByteCnt \<noteq> 0 then
        do {
          b \<leftarrow> memcpy (sk_b ctx) (sk_bCnt ctx) msg off msgByteCnt;
          Some (ctx\<lparr>sk_b := b, sk_bCnt := sk_bCnt ctx + msgByteCnt\<rparr>)
        }
      else Some ctx
    }"

text \<open>
  The output loop from block \<open>i\<close>: counter block, one call in counter mode with the key \<open>X\<close>,
  and the bytes put at \<open>64 i\<close>.
\<close>

function skein_output :: "skein_ctx \<Rightarrow> u64 list \<Rightarrow> nat \<Rightarrow> nat \<Rightarrow> (skein_ctx \<times> bytes) option" where
  "skein_output ctx X byteCnt i =
    (if i * 64 < byteCnt then
       do {
         b \<leftarrow> store (sk_b ctx) 0 (le_bytes 8 (of_nat i :: u64));
         let ctx = Skein_Start_New_Type (ctx\<lparr>sk_b := b\<rparr>) SKEIN_T1_BLK_TYPE_OUT_FINAL;
         ctx \<leftarrow> Skein_512_Process_Block ctx (sk_b ctx) 0 1 8;
         let n = byteCnt - i * 64;
         let n = (if n \<ge> 64 then 64 else n);
         out \<leftarrow> load (bytes_of 8 (sk_X ctx)) 0 n;
         (ctx, outs) \<leftarrow> skein_output (ctx\<lparr>sk_X := X\<rparr>) X byteCnt (Suc i);
         Some (ctx, out @ outs)
       }
     else Some (ctx, []))"
  by pat_completeness auto
termination
  by (relation "measure (\<lambda>(c, X, n, i). n - i * 64)") auto

declare skein_output.simps [simp del]

definition Skein_512_Final :: "skein_ctx \<Rightarrow> (skein_ctx \<times> bytes) option" where
  "Skein_512_Final ctx =
    do {
      let ctx = ctx\<lparr>sk_T1 := sk_T1 ctx OR SKEIN_T1_FLAG_FINAL\<rparr>;
      b \<leftarrow> (if sk_bCnt ctx < 64 then memset (sk_b ctx) (sk_bCnt ctx) 0 (64 - sk_bCnt ctx) else Some (sk_b ctx));
      ctx \<leftarrow> Skein_512_Process_Block (ctx\<lparr>sk_b := b\<rparr>) b 0 1 (of_nat (sk_bCnt ctx));
      let byteCnt = unat (drop_bit 3 (sk_hashBitLen ctx + 7));
      b \<leftarrow> memset (sk_b ctx) 0 0 64;
      skein_output (ctx\<lparr>sk_b := b\<rparr>) (sk_X ctx) byteCnt 0
    }"

section \<open>The interface in bits\<close>

text \<open>\<open>statebits\<close> is always 512 and left out of the state.\<close>

definition skein_init :: "skein_ctx \<Rightarrow> int \<Rightarrow> skein_ctx option" where
  "skein_init state hashbitlen = Skein_512_Init state (word_of_int hashbitlen)"

definition skein_update :: "skein_ctx \<Rightarrow> bytes \<Rightarrow> nat \<Rightarrow> skein_ctx option" where
  "skein_update state data databitlen =
    (if databitlen mod 8 = 0 then Skein_512_Update state data (databitlen div 8)
     else
       do {
         let bCnt = databitlen div 8 + 1;
         let mask = push_bit (7 - databitlen mod 8) (1 :: u8);
         last \<leftarrow> get_at data (bCnt - 1);
         let b = (last AND (0 - mask)) OR mask;
         state \<leftarrow> Skein_512_Update state data (bCnt - 1);
         state \<leftarrow> Skein_512_Update state [b] 1;
         Some (Skein_Set_Bit_Pad_Flag state)
       })"

definition skein_final :: "skein_ctx \<Rightarrow> (skein_ctx \<times> bytes) option" where
  "skein_final state = Skein_512_Final state"

text \<open>\<open>S\<close> is the uninitialised local state.\<close>

definition skein_hash :: "skein_ctx \<Rightarrow> int \<Rightarrow> bytes \<Rightarrow> nat \<Rightarrow> (SkeinHashReturn \<times> bytes) option" where
  "skein_hash S hashbitlen data databitlen =
    do {
      S \<leftarrow> skein_init S hashbitlen;
      S \<leftarrow> skein_update S data databitlen;
      (S, hashval) \<leftarrow> skein_final S;
      Some (SKEIN_SUCCESS, hashval)
    }"

definition xmr_skein :: "skein_ctx \<Rightarrow> bytes \<Rightarrow> bytes option" where
  "xmr_skein S data =
    do {
      let ctx = Skein_Start_New_Type (S\<lparr>sk_hashBitLen := 256, sk_X := SKEIN_512_IV_256\<rparr>) SKEIN_T1_BLK_TYPE_MSG;
      ctx \<leftarrow> Skein_512_Update ctx data (1600 div 8);
      (ctx, hashval) \<leftarrow> Skein_512_Final ctx;
      Some hashval
    }"

section \<open>Portable byte order functions\<close>

text \<open>
  The versions of \<open>skein_port.h\<close> for machines that must align accesses; on the others the macros
  are plain copies, as in the model above.
\<close>

definition Skein_Put64_LSB_First :: "u64 list \<Rightarrow> nat \<Rightarrow> bytes option" where
  "Skein_Put64_LSB_First src bCnt =
    those (map (\<lambda>n. map_option (\<lambda>w. ucast (drop_bit (8 * (n mod 8)) w)) (get_at src (n div 8))) [0..<bCnt])"

definition Skein_Get64_LSB_First :: "bytes \<Rightarrow> nat \<Rightarrow> u64 list option" where
  "Skein_Get64_LSB_First src wCnt =
    those (map (\<lambda>i. do {
        b \<leftarrow> load src (8 * i) 8;
        Some (ucast (b ! 0) + push_bit 8 (ucast (b ! 1)) + push_bit 16 (ucast (b ! 2)) + push_bit 24 (ucast (b ! 3))
          + push_bit 32 (ucast (b ! 4)) + push_bit 40 (ucast (b ! 5)) + push_bit 48 (ucast (b ! 6)) + push_bit 56 (ucast (b ! 7)))
      }) [0..<wCnt])"

section \<open>Reference\<close>

text \<open>
  Threefish-512: the subkeys from key and tweak, four mixes and the word permutation per round, a
  subkey before every fourth round and after the last.
\<close>

definition tf_perm :: "nat list" where
  "tf_perm = [2, 1, 4, 7, 6, 5, 0, 3]"

definition tf_subkey :: "u64 list \<Rightarrow> u64 \<Rightarrow> u64 \<Rightarrow> nat \<Rightarrow> u64 list" where
  "tf_subkey K t0 t1 s =
    (let k = K @ [fold (XOR) K 0x1BD11BDAA9FC1A22]; t = [t0, t1, t0 XOR t1]
     in map (\<lambda>i. k ! ((s + i) mod 9) +
          (if i = 5 then t ! (s mod 3) else if i = 6 then t ! ((s + 1) mod 3)
           else if i = 7 then of_nat s else 0)) [0..<8])"

definition tf_mix :: "nat \<Rightarrow> u64 list \<Rightarrow> u64 list" where
  "tf_mix d x =
    concat (map (\<lambda>j. let y = x ! (2 * j) + x ! (2 * j + 1) in [y, rotl (x ! (2 * j + 1)) (R_512 ! (d mod 8) ! j) XOR y]) [0..<4])"

definition tf_round :: "u64 list \<Rightarrow> u64 \<Rightarrow> u64 \<Rightarrow> nat \<Rightarrow> u64 list \<Rightarrow> u64 list" where
  "tf_round K t0 t1 d x =
    (let e = (if d mod 4 = 0 then map2 (+) x (tf_subkey K t0 t1 (d div 4)) else x); f = tf_mix d e
     in map (\<lambda>i. f ! (tf_perm ! i)) [0..<8])"

definition threefish :: "u64 list \<Rightarrow> u64 \<Rightarrow> u64 \<Rightarrow> u64 list \<Rightarrow> u64 list" where
  "threefish K t0 t1 x = map2 (+) (fold (tf_round K t0 t1) [0..<72] x) (tf_subkey K t0 t1 18)"

text \<open>
  UBI: block \<open>i\<close> of a message of \<open>len\<close> bytes of some type, at least one block, the last one
  filled with zeros. The tweak has the bytes so far, the type, and flags for the first and the
  last block and for a message that does not end with a whole byte.
\<close>

definition ubi_tweak :: "nat \<Rightarrow> bool \<Rightarrow> bool \<Rightarrow> bool \<Rightarrow> u64" where
  "ubi_tweak type first final pad =
    push_bit 56 (of_nat type) OR (if first then push_bit 62 1 else 0) OR
    (if final then push_bit 63 1 else 0) OR (if pad then push_bit 55 1 else 0)"

definition ubi_step :: "u64 list \<Rightarrow> u64 \<Rightarrow> u64 \<Rightarrow> bytes \<Rightarrow> u64 list" where
  "ubi_step G t0 t1 b = map2 (XOR) (threefish G t0 t1 (words_of 8 b)) (words_of 8 b)"

definition ubi_front :: "u64 list \<Rightarrow> nat \<Rightarrow> bytes \<Rightarrow> nat \<Rightarrow> u64 list" where
  "ubi_front G type m c =
    fold (\<lambda>i G. ubi_step G (of_nat (64 * (i + 1))) (ubi_tweak type (i = 0) False False) (take 64 (drop (64 * i) m)))
      [0..<c] G"

definition ubi :: "u64 list \<Rightarrow> nat \<Rightarrow> bool \<Rightarrow> bytes \<Rightarrow> u64 list" where
  "ubi G type pad m =
    (let c = (length m - 1) div 64; b = drop (64 * c) m
     in ubi_step (ubi_front G type m c) (of_nat (length m)) (ubi_tweak type (c = 0) True pad)
          (b @ replicate (64 - length b) 0))"

text \<open>
  The configuration string, the chaining value before the message, and the digest of \<open>h\<close> bits.
  A message of \<open>n\<close> bits that does not end with a whole byte gets a one bit and zeros.
\<close>

definition skein_config :: "nat \<Rightarrow> bytes" where
  "skein_config h = [0x53, 0x48, 0x41, 0x33, 1, 0, 0, 0] @ le_bytes 8 (of_nat h :: u64) @ replicate 16 0"

definition skein_iv :: "nat \<Rightarrow> u64 list" where
  "skein_iv h = ubi (replicate 8 0) 4 False (skein_config h)"

definition skein_message :: "bytes \<Rightarrow> nat \<Rightarrow> bytes" where
  "skein_message d n =
    (if n mod 8 = 0 then take (n div 8) d
     else take (n div 8) d @ [d ! (n div 8) AND NOT (mask (8 - n mod 8)) OR push_bit (7 - n mod 8) 1])"

definition skein_hash_ref :: "nat \<Rightarrow> bytes \<Rightarrow> nat \<Rightarrow> bytes" where
  "skein_hash_ref h d n =
    (let G = ubi (skein_iv h) 48 (n mod 8 \<noteq> 0) (skein_message d n)
     in take ((h + 7) div 8)
          (concat (map (\<lambda>i. bytes_of 8 (ubi G 63 False (le_bytes 8 (of_nat i :: u64)))) [0..<((h + 7) div 8 + 63) div 64])))"

section \<open>The block function is Threefish\<close>

text \<open>The words in the order a round names them.\<close>

definition sk_view :: "nat list \<Rightarrow> u64 list \<Rightarrow> u64 list" where
  "sk_view p X = map (\<lambda>i. X ! (p ! i)) [0..<8]"

definition tf_plain :: "nat \<Rightarrow> u64 list \<Rightarrow> u64 list" where
  "tf_plain d x = map (\<lambda>i. tf_mix d x ! (tf_perm ! i)) [0..<8]"

lemma upt_4: "[0..<4] = [0,1,2,3::nat]"
  by (simp add: upt_rec)

lemma length_skein_mix [simp]: "length (skein_mix p q r X) = length X"
  by (simp add: skein_mix_def Let_def)

lemma length_Round512 [simp]: "length (Round512 p rot X) = length X"
  by (simp add: Round512_def Let_def)

lemma length_tf_plain [simp]: "length (tf_plain d x) = 8"
  by (simp add: tf_plain_def)

lemma Round512_view:
  assumes "length X = 8" "rot = R_512 ! (d mod 8)"
  shows "sk_view [2,1,4,7,6,5,0,3] (Round512 [0,1,2,3,4,5,6,7] rot X) = tf_plain d (sk_view [0,1,2,3,4,5,6,7] X)"
    "sk_view [4,1,6,3,0,5,2,7] (Round512 [2,1,4,7,6,5,0,3] rot X) = tf_plain d (sk_view [2,1,4,7,6,5,0,3] X)"
    "sk_view [6,1,0,7,2,5,4,3] (Round512 [4,1,6,3,0,5,2,7] rot X) = tf_plain d (sk_view [4,1,6,3,0,5,2,7] X)"
    "sk_view [0,1,2,3,4,5,6,7] (Round512 [6,1,0,7,2,5,4,3] rot X) = tf_plain d (sk_view [6,1,0,7,2,5,4,3] X)"
proof -
  obtain a0 a1 a2 a3 a4 a5 a6 a7 where X: "X = [a0,a1,a2,a3,a4,a5,a6,a7]"
    by (rule list_of_8 [OF assms(1)])
  note defs = X sk_view_def tf_plain_def tf_mix_def tf_perm_def Round512_def skein_mix_def Let_def upt_8 upt_4 assms(2) [symmetric]
  show "sk_view [2,1,4,7,6,5,0,3] (Round512 [0,1,2,3,4,5,6,7] rot X) = tf_plain d (sk_view [0,1,2,3,4,5,6,7] X)"
    by (simp add: defs)
  show "sk_view [4,1,6,3,0,5,2,7] (Round512 [2,1,4,7,6,5,0,3] rot X) = tf_plain d (sk_view [2,1,4,7,6,5,0,3] X)"
    by (simp add: defs)
  show "sk_view [6,1,0,7,2,5,4,3] (Round512 [4,1,6,3,0,5,2,7] rot X) = tf_plain d (sk_view [4,1,6,3,0,5,2,7] X)"
    by (simp add: defs)
  show "sk_view [0,1,2,3,4,5,6,7] (Round512 [6,1,0,7,2,5,4,3] rot X) = tf_plain d (sk_view [6,1,0,7,2,5,4,3] X)"
    by (simp add: defs)
qed

lemma sk_view_id: "length X = 8 \<Longrightarrow> sk_view [0,1,2,3,4,5,6,7] X = X"
  by (erule list_of_8) (simp add: sk_view_def upt_8)

lemma four_rounds:
  assumes "length X = 8" "d mod 4 = 0" "r = d mod 8"
  shows "Round512 [6,1,0,7,2,5,4,3] (R_512 ! (r + 3)) (Round512 [4,1,6,3,0,5,2,7] (R_512 ! (r + 2))
      (Round512 [2,1,4,7,6,5,0,3] (R_512 ! (r + 1)) (Round512 [0,1,2,3,4,5,6,7] (R_512 ! r) X)))
    = tf_plain (d + 3) (tf_plain (d + 2) (tf_plain (d + 1) (tf_plain d X)))"
proof -
  have "r mod 4 = 0" using assms(2,3) by (simp add: mod_mod_cancel)
  moreover have "r < 8" using assms(3) by simp
  ultimately have r: "r = 0 \<or> r = 4" by presburger
  have m: "R_512 ! (r + k) = R_512 ! ((d + k) mod 8)" if "k < 4" for k
  proof -
    have "(d + k) mod 8 = (r + k) mod 8" using assms(3) by (simp add: mod_add_left_eq)
    then show ?thesis using r that by auto
  qed
  let ?A = "Round512 [0,1,2,3,4,5,6,7] (R_512 ! r) X"
  let ?B = "Round512 [2,1,4,7,6,5,0,3] (R_512 ! (r + 1)) ?A"
  let ?C = "Round512 [4,1,6,3,0,5,2,7] (R_512 ! (r + 2)) ?B"
  let ?D = "Round512 [6,1,0,7,2,5,4,3] (R_512 ! (r + 3)) ?C"
  have "sk_view [2,1,4,7,6,5,0,3] ?A = tf_plain d (sk_view [0,1,2,3,4,5,6,7] X)"
    using assms(1) m [of 0] by (intro Round512_view(1)) simp_all
  moreover have "sk_view [4,1,6,3,0,5,2,7] ?B = tf_plain (d + 1) (sk_view [2,1,4,7,6,5,0,3] ?A)"
    using assms(1) m [of 1] by (intro Round512_view(2)) simp_all
  moreover have "sk_view [6,1,0,7,2,5,4,3] ?C = tf_plain (d + 2) (sk_view [4,1,6,3,0,5,2,7] ?B)"
    using assms(1) m [of 2] by (intro Round512_view(3)) simp_all
  moreover have "sk_view [0,1,2,3,4,5,6,7] ?D = tf_plain (d + 3) (sk_view [6,1,0,7,2,5,4,3] ?C)"
    using assms(1) m [of 3] by (intro Round512_view(4)) simp_all
  ultimately show ?thesis using assms(1) by (simp only: sk_view_id length_Round512)
qed

lemma SKEIN_KS_PARITY_value: "SKEIN_KS_PARITY = 0x1BD11BDAA9FC1A22"
  by code_simp

lemma length_tf_subkey [simp]: "length (tf_subkey K t0 t1 s) = 8"
  by (simp add: tf_subkey_def Let_def)

definition sk_keys :: "u64 list \<Rightarrow> u64 list" where
  "sk_keys K = K @ [fold (XOR) K 0x1BD11BDAA9FC1A22]"

lemma I512_subkey:
  assumes "length X = 8"
  shows "I512 (sk_keys K) [t0, t1, t0 XOR t1] R X = map2 (+) X (tf_subkey K t0 t1 (R + 1))"
proof -
  obtain a0 a1 a2 a3 a4 a5 a6 a7 where X: "X = [a0,a1,a2,a3,a4,a5,a6,a7]"
    by (rule list_of_8 [OF assms])
  have i: "R + 1 + 0 = R + 1" "R + 1 + 1 = R + 2" "R + 1 + 2 = R + 3" "R + 1 + 3 = R + 4"
    "R + 1 + 4 = R + 5" "R + 1 + 5 = R + 6" "R + 1 + 6 = R + 7" "R + 1 + 7 = R + 8" by simp_all
  have n: "(of_nat (R + 1) :: u64) = of_nat R + 1" by simp
  have s: "tf_subkey K t0 t1 (R + 1) = (let k = sk_keys K; t = [t0, t1, t0 XOR t1] in
      [k ! ((R + 1) mod 9) + 0, k ! ((R + 2) mod 9) + 0, k ! ((R + 3) mod 9) + 0, k ! ((R + 4) mod 9) + 0,
       k ! ((R + 5) mod 9) + 0, k ! ((R + 6) mod 9) + t ! ((R + 1) mod 3), k ! ((R + 7) mod 9) + t ! ((R + 2) mod 3),
       k ! ((R + 8) mod 9) + (of_nat R + 1)])"
    unfolding tf_subkey_def sk_keys_def [symmetric] Let_def upt_8 list.map i n
    by (simp only: zero_neq_numeral one_eq_numeral_iff numeral_eq_one_iff numeral_eq_iff num.distinct num.inject if_False if_True simp_thms)
  show ?thesis unfolding s X I512_def Let_def by (simp add: add.assoc)
qed

text \<open>Before eight rounds the next subkey is already added.\<close>

definition tf_before :: "u64 list \<Rightarrow> u64 \<Rightarrow> u64 \<Rightarrow> u64 list \<Rightarrow> nat \<Rightarrow> u64 list" where
  "tf_before K t0 t1 x R = map2 (+) (fold (tf_round K t0 t1) [0..<8 * R] x) (tf_subkey K t0 t1 (2 * R))"

lemma length_tf_round [simp]: "length (tf_round K t0 t1 d x) = 8"
  by (simp add: tf_round_def Let_def)

lemma length_tf_rounds [simp]: "length x = 8 \<Longrightarrow> length (fold (tf_round K t0 t1) ds x) = 8"
  by (induction ds arbitrary: x) simp_all

lemma tf_round_plain:
  "tf_round K t0 t1 d x = tf_plain d (if d mod 4 = 0 then map2 (+) x (tf_subkey K t0 t1 (d div 4)) else x)"
  by (simp add: tf_round_def tf_plain_def Let_def)

lemma four_tf_rounds:
  assumes "d mod 4 = 0"
  shows "fold (tf_round K t0 t1) [d..<d + 4] x
    = tf_plain (d + 3) (tf_plain (d + 2) (tf_plain (d + 1) (tf_plain d (map2 (+) x (tf_subkey K t0 t1 (d div 4))))))"
proof -
  have "(d + k) mod 4 = k" if "k < 4" for k using assms that mod_add_left_eq [of d 4 k] by simp
  from this [of 1] this [of 2] this [of 3] have "(d + 1) mod 4 = 1" "(d + 2) mod 4 = 2" "(d + 3) mod 4 = 3"
    by simp_all
  moreover have "[d..<d + 4] = [d, d + 1, d + 2, d + 3]" by (simp add: upt_rec)
  ultimately show ?thesis using assms by (simp add: tf_round_plain)
qed

lemma R512_8_rounds_eq:
  assumes "length x = 8"
  shows "R512_8_rounds (sk_keys K) [t0, t1, t0 XOR t1] R (tf_before K t0 t1 x R) = tf_before K t0 t1 x (R + 1)"
proof -
  define y where "y = fold (tf_round K t0 t1) [0..<8 * R] x"
  have y: "length y = 8" using assms by (simp add: y_def)
  define z where "z = fold (tf_round K t0 t1) [8 * R..<8 * R + 4] y"
  have z: "length z = 8" using y by (simp add: z_def)
  have d: "(8 * R) div 4 = 2 * R" "(8 * R + 4) div 4 = 2 * R + 1" by simp_all
  have "[0..<8 * (R + 1)] = [0..<8 * R] @ [8 * R..<8 * R + 4] @ [8 * R + 4..<8 * R + 4 + 4]"
    using upt_add_eq_append [of 0 "8 * R" 4] upt_add_eq_append [of 0 "8 * R + 4" 4] by (simp add: add.commute)
  then have "tf_before K t0 t1 x (R + 1)
      = map2 (+) (fold (tf_round K t0 t1) [8 * R + 4..<8 * R + 4 + 4] z) (tf_subkey K t0 t1 (2 * R + 1 + 1))"
    by (simp add: tf_before_def y_def z_def)
  also have "fold (tf_round K t0 t1) [8 * R + 4..<8 * R + 4 + 4] z
      = Round512 [6,1,0,7,2,5,4,3] (R_512 ! (4 + 3)) (Round512 [4,1,6,3,0,5,2,7] (R_512 ! (4 + 2))
          (Round512 [2,1,4,7,6,5,0,3] (R_512 ! (4 + 1)) (Round512 [0,1,2,3,4,5,6,7] (R_512 ! 4)
            (map2 (+) z (tf_subkey K t0 t1 (2 * R + 1))))))"
  proof -
    have "(8 * R + 4) mod 4 = 0" "(4 :: nat) = (8 * R + 4) mod 8" by presburger+
    then show ?thesis using four_tf_rounds [of "8 * R + 4"] four_rounds [of _ "8 * R + 4" 4] z d by simp
  qed
  also have "z = Round512 [6,1,0,7,2,5,4,3] (R_512 ! (0 + 3)) (Round512 [4,1,6,3,0,5,2,7] (R_512 ! (0 + 2))
          (Round512 [2,1,4,7,6,5,0,3] (R_512 ! (0 + 1)) (Round512 [0,1,2,3,4,5,6,7] (R_512 ! 0)
            (map2 (+) y (tf_subkey K t0 t1 (2 * R))))))"
  proof -
    have "(8 * R) mod 4 = 0" "(0 :: nat) = (8 * R) mod 8" by presburger+
    then show ?thesis using four_tf_rounds [of "8 * R"] four_rounds [of _ "8 * R" 0] y d by (simp add: z_def)
  qed
  finally show ?thesis
    using y by (simp add: R512_8_rounds_def Let_def I512_subkey tf_before_def y_def del: add_2_eq_Suc')
qed

lemma skein_block_eq:
  assumes "length X = 8" "length w = 8"
  shows "skein_block X t0 t1 w = map2 (XOR) (threefish X t0 t1 w) w"
proof -
  have ks: "take 8 X @ [X ! 0 XOR X ! 1 XOR X ! 2 XOR X ! 3 XOR X ! 4 XOR X ! 5 XOR X ! 6 XOR X ! 7 XOR SKEIN_KS_PARITY]
      = sk_keys X"
    by (rule list_of_8 [OF assms(1)]) (simp add: sk_keys_def SKEIN_KS_PARITY_value ac_simps)
  have start: "[w ! 0 + sk_keys X ! 0, w ! 1 + sk_keys X ! 1, w ! 2 + sk_keys X ! 2, w ! 3 + sk_keys X ! 3, w ! 4 + sk_keys X ! 4,
      w ! 5 + sk_keys X ! 5 + [t0, t1, t0 XOR t1] ! 0, w ! 6 + sk_keys X ! 6 + [t0, t1, t0 XOR t1] ! 1, w ! 7 + sk_keys X ! 7]
      = tf_before X t0 t1 w 0"
    by (rule list_of_8 [OF assms(1)]; rule list_of_8 [OF assms(2)])
      (simp add: sk_keys_def tf_before_def tf_subkey_def Let_def upt_8)
  have xor: "[V ! 0 XOR w ! 0, V ! 1 XOR w ! 1, V ! 2 XOR w ! 2, V ! 3 XOR w ! 3,
         V ! 4 XOR w ! 4, V ! 5 XOR w ! 5, V ! 6 XOR w ! 6, V ! 7 XOR w ! 7] = map2 (XOR) V w" if "length V = 8" for V
    by (rule list_of_8 [OF that]; rule list_of_8 [OF assms(2)]) simp
  have "tf_before X t0 t1 w 9 = threefish X t0 t1 w" by (simp add: tf_before_def threefish_def)
  moreover have "length (threefish X t0 t1 w) = 8" using assms by (simp add: threefish_def)
  moreover have st: "R512_8_rounds (sk_keys X) [t0, t1, t0 XOR t1] R (tf_before X t0 t1 w R) = tf_before X t0 t1 w S"
    if "S = R + 1" for R S
    using R512_8_rounds_eq [OF assms(2), of X t0 t1 R] that by simp
  let ?step = "\<lambda>R S. R512_8_rounds (sk_keys X) [t0, t1, t0 XOR t1] R (tf_before X t0 t1 w R) = tf_before X t0 t1 w S"
  have "?step 0 1" "?step 1 2" "?step 2 3" "?step 3 4" "?step 4 5" "?step 5 6" "?step 6 7" "?step 7 8" "?step 8 9"
    by (rule st, simp)+
  ultimately show ?thesis
    unfolding skein_block_def Let_def ks start by (simp only: xor)
qed

section \<open>The precomputed initial value\<close>

text \<open>Threefish on natural numbers below \<open>2 ^ 64\<close>, for the evaluation of one call.\<close>

definition nwrap :: "nat \<Rightarrow> nat" where
  "nwrap y = (if y < 18446744073709551616 then y else y - 18446744073709551616)"

definition nrot :: "nat \<Rightarrow> nat \<Rightarrow> nat" where
  "nrot r b = (let h = drop_bit (64 - r) b in push_bit r (b - push_bit (64 - r) h) + h)"

fun nmixes :: "nat list \<Rightarrow> nat list \<Rightarrow> nat list" where
  "nmixes (r # rs) (a # b # xs) = (let y = nwrap (a + b) in y # (nrot r b XOR y) # nmixes rs xs)"
| "nmixes _ _ = []"

fun nperm :: "nat list \<Rightarrow> nat list" where
  "nperm [b0, b1, b2, b3, b4, b5, b6, b7] = [b2, b1, b4, b7, b6, b5, b0, b3]"
| "nperm xs = xs"

definition nadd :: "nat list \<Rightarrow> nat list \<Rightarrow> nat list" where
  "nadd xs ys = map2 (\<lambda>x y. nwrap (x + y)) xs ys"

definition ninject :: "nat list \<Rightarrow> nat list \<Rightarrow> nat \<Rightarrow> nat list \<Rightarrow> nat list" where
  "ninject ks ts s x =
    nadd (nadd x (map (\<lambda>i. ks ! ((s + i) mod 9)) [0,1,2,3,4,5,6,7]))
      [0, 0, 0, 0, 0, ts ! (s mod 3), ts ! ((s + 1) mod 3), s]"

definition nround :: "nat \<Rightarrow> nat list \<Rightarrow> nat list" where
  "nround d x = nperm (nmixes (R_512 ! (d mod 8)) x)"

definition nfour :: "nat list \<Rightarrow> nat list \<Rightarrow> nat \<Rightarrow> nat list \<Rightarrow> nat list" where
  "nfour ks ts q x = nround (4 * q + 3) (nround (4 * q + 2) (nround (4 * q + 1) (nround (4 * q) (ninject ks ts q x))))"

definition nwords :: "nat list \<Rightarrow> u64 list \<Rightarrow> bool" where
  "nwords xs ws \<longleftrightarrow> ws = map of_nat xs \<and> list_all (\<lambda>x. x < 2 ^ 64) xs"

lemma nwrap_less: "y < 2 * 2 ^ 64 \<Longrightarrow> nwrap y < 2 ^ 64"
  by (auto simp: nwrap_def)

lemma of_nat_nwrap: "(of_nat (nwrap y) :: u64) = of_nat y"
proof -
  have "(of_nat (y - 2 ^ 64) :: u64) = of_nat y" if "2 ^ 64 \<le> y"
  proof -
    have "(of_nat (y - 2 ^ 64 + 2 ^ 64) :: u64) = of_nat (y - 2 ^ 64) + of_nat (2 ^ 64)"
      by (rule of_nat_add)
    moreover have "(of_nat (2 ^ 64) :: u64) = 0" by (simp add: word_of_nat_eq_0_iff)
    ultimately show ?thesis using that by simp
  qed
  then show ?thesis by (simp add: nwrap_def)
qed

lemma nrot_rotl:
  assumes "b < 2 ^ 64" "0 < r" "r < 64"
  shows "(of_nat (nrot r b) :: u64) = rotl (of_nat b) r" "nrot r b < 2 ^ 64"
proof -
  have split: "b - push_bit (64 - r) (drop_bit (64 - r) b) = take_bit (64 - r) b"
    using bits_ident [of "64 - r" b] by simp
  have h: "drop_bit (64 - r) b < 2 ^ r"
    using assms by (simp add: drop_bit_eq_div less_mult_imp_div_less flip: power_add)
  have t: "take_bit (64 - r) b < 2 ^ (64 - r)" by (rule take_bit_nat_less_exp)
  have or: "push_bit r (take_bit (64 - r) b) + drop_bit (64 - r) b
      = push_bit r (take_bit (64 - r) b) OR drop_bit (64 - r) b"
  proof (rule disjunctive_add_eq_or)
    have "take_bit r (drop_bit (64 - r) b) = drop_bit (64 - r) b" using h by (rule take_bit_nat_eq_self)
    then have "\<not> bit (drop_bit (64 - r) b) k" if "r \<le> k" for k
      using that by (metis bit_take_bit_iff not_less)
    then show "push_bit r (take_bit (64 - r) b) AND drop_bit (64 - r) b = 0"
      by (intro bit_eqI) (auto simp: bit_and_iff bit_push_bit_iff)
  qed
  have n: "nrot r b = push_bit r (take_bit (64 - r) b) OR drop_bit (64 - r) b"
    by (simp add: nrot_def Let_def split or)
  have b: "\<not> bit b k" if "64 \<le> k" for k
  proof -
    have "take_bit 64 b = b" using assms(1) by (rule take_bit_nat_eq_self)
    then show ?thesis using that by (metis bit_take_bit_iff not_less)
  qed
  show "(of_nat (nrot r b) :: u64) = rotl (of_nat b) r"
  proof (rule bit_word_eqI)
    fix k assume "k < LENGTH(64)"
    then have k: "k < 64" by simp
    have b': "\<not> bit b (64 - r + k)" if "r \<le> k" by (rule b) (use that assms(3) in linarith)
    have "bit (of_nat (nrot r b) :: u64) k = (if r \<le> k then bit b (k - r) else bit b (k + (64 - r)))"
      using k assms(3) b' by (auto simp: n bit_word_of_nat bit_or_iff bit_push_bit_iff bit_take_bit_iff bit_drop_bit_eq add.commute)
    moreover have "k + (64 - r) < 64" if "\<not> r \<le> k" using that assms(3) by linarith
    moreover have "k - r < 64" using k by linarith
    ultimately show "bit (of_nat (nrot r b) :: u64) k = bit (rotl (of_nat b) r :: u64) k"
      using k assms(3) by (auto simp: bit_rotl_iff bit_word_of_nat)
  qed
  have "nrot r b = take_bit 64 (nrot r b)"
    using assms b by (intro bit_eqI) (auto simp: n bit_or_iff bit_push_bit_iff bit_take_bit_iff bit_drop_bit_eq)
  then show "nrot r b < 2 ^ 64" by (metis take_bit_nat_less_exp)
qed

lemma xor_less_pow: "x < 2 ^ n \<Longrightarrow> y < 2 ^ n \<Longrightarrow> x XOR y < (2 ^ n :: nat)"
  using take_bit_xor [of n x y] take_bit_nat_less_exp [of n "x XOR y"] by (simp add: take_bit_nat_eq_self)

lemma nadd_words: "nwords xs ws \<Longrightarrow> nwords ys vs \<Longrightarrow> length xs = length ys \<Longrightarrow> nwords (nadd xs ys) (map2 (+) ws vs)"
proof (induction xs ys arbitrary: ws vs rule: list_induct2')
  case (4 x xs y ys)
  then show ?case by (auto simp: nwords_def nadd_def of_nat_nwrap intro!: nwrap_less [simplified])
qed (simp_all add: nwords_def nadd_def)

lemma nround_words:
  assumes "nwords xs ws" "length xs = 8"
  shows "nwords (nround d xs) (tf_plain d ws)" "length (nround d xs) = 8"
proof -
  obtain a0 a1 a2 a3 a4 a5 a6 a7 where x: "xs = [a0,a1,a2,a3,a4,a5,a6,a7]" by (rule list_of_8 [OF assms(2)])
  have a: "a0 < 2 ^ 64" "a1 < 2 ^ 64" "a2 < 2 ^ 64" "a3 < 2 ^ 64" "a4 < 2 ^ 64" "a5 < 2 ^ 64" "a6 < 2 ^ 64" "a7 < 2 ^ 64"
    using assms(1) by (simp_all add: nwords_def x)
  have "list_all (\<lambda>rs. length rs = 4 \<and> list_all (\<lambda>r. 0 < r \<and> r < 64) rs) R_512" "length R_512 = 8"
    by code_simp+
  then have "length (R_512 ! (d mod 8)) = 4" "list_all (\<lambda>r. 0 < r \<and> r < 64) (R_512 ! (d mod 8))"
    by (simp_all add: list_all_length)
  moreover from this(1) obtain r0 r1 r2 r3 where r: "R_512 ! (d mod 8) = [r0, r1, r2, r3]" by (rule list_of_4)
  ultimately have rb: "0 < r0" "r0 < 64" "0 < r1" "r1 < 64" "0 < r2" "r2 < 64" "0 < r3" "r3 < 64" by simp_all
  have n: "nround d xs = nperm
     [nwrap (a0 + a1), nrot r0 a1 XOR nwrap (a0 + a1), nwrap (a2 + a3), nrot r1 a3 XOR nwrap (a2 + a3),
      nwrap (a4 + a5), nrot r2 a5 XOR nwrap (a4 + a5), nwrap (a6 + a7), nrot r3 a7 XOR nwrap (a6 + a7)]"
    by (simp add: nround_def x r Let_def)
  show "length (nround d xs) = 8" by (simp add: n)
  have w: "nwrap (a + b) < 2 ^ 64" if "a < 2 ^ 64" "b < 2 ^ 64" for a b using that by (intro nwrap_less) simp
  have m: "nrot r b XOR nwrap (a + b) < 2 ^ 64" if "a < 2 ^ 64" "b < 2 ^ 64" "0 < r" "r < 64" for a b r
    using that by (intro xor_less_pow nrot_rotl(2) w)
  have v: "(of_nat (nrot r b XOR nwrap (a + b)) :: u64) = rotl (of_nat b) r XOR (of_nat a + of_nat b)"
    if "b < 2 ^ 64" "0 < r" "r < 64" for a b r
    using nrot_rotl(1) [OF that] by (simp add: of_nat_xor_eq of_nat_nwrap)
  have ws: "ws = map of_nat xs" using assms(1) by (simp add: nwords_def)
  show "nwords (nround d xs) (tf_plain d ws)"
    unfolding nwords_def
  proof
    show "tf_plain d ws = map of_nat (nround d xs)"
      using a rb by (simp add: ws x n [unfolded x] tf_plain_def tf_mix_def tf_perm_def upt_8 upt_4 Let_def r v of_nat_nwrap)
    show "list_all (\<lambda>x. x < 2 ^ 64) (nround d xs)"
      unfolding n nperm.simps list.pred_inject by (intro conjI w m a rb list.pred_inject(1))
  qed
qed

lemma nwords_subkey:
  assumes "nwords ks (sk_keys K)" "length K = 8" "nwords ts [t0, t1, t0 XOR t1]" "s < 2 ^ 64" "nwords xs x" "length xs = 8"
  shows "nwords (ninject ks ts s xs) (map2 (+) x (tf_subkey K t0 t1 s))" "length (ninject ks ts s xs) = 8"
proof -
  have len: "length ks = 9" "length ts = 3"
    using assms(1-3) by (auto simp: nwords_def sk_keys_def dest!: arg_cong [where f = length])
  have ks: "(of_nat (ks ! i) :: u64) = sk_keys K ! i" "ks ! i < 2 ^ 64" if "i < 9" for i
    using assms(1) len that by (simp_all add: nwords_def list_all_length)
  have ts: "(of_nat (ts ! i) :: u64) = [t0, t1, t0 XOR t1] ! i" "ts ! i < 2 ^ 64" if "i < 3" for i
    using assms(3) len that by (simp_all add: nwords_def list_all_length)
  let ?a = "map (\<lambda>i. ks ! ((s + i) mod 9)) [0,1,2,3,4,5,6,7]"
  let ?b = "[0, 0, 0, 0, 0, ts ! (s mod 3), ts ! ((s + 1) mod 3), s]"
  let ?A = "map (\<lambda>i. sk_keys K ! ((s + i) mod 9)) [0,1,2,3,4,5,6,7]"
  let ?B = "[0, 0, 0, 0, 0, [t0, t1, t0 XOR t1] ! (s mod 3), [t0, t1, t0 XOR t1] ! ((s + 1) mod 3), of_nat s]"
  have m: "k mod 9 < 9" "k mod 3 < 3" for k :: nat by simp_all
  have "nwords ?a ?A"
    unfolding nwords_def list.map list.pred_inject by (simp only: ks [OF m(1)] simp_thms) simp
  moreover have "nwords ?b ?B"
    unfolding nwords_def list.map list.pred_inject using assms(4)
    by (simp only: ts [OF m(2)] simp_thms of_nat_0) simp
  ultimately have "nwords (ninject ks ts s xs) (map2 (+) (map2 (+) x ?A) ?B)"
    unfolding ninject_def using assms(5,6) by (intro nadd_words) (simp_all add: nadd_def)
  moreover have "map2 (+) (map2 (+) x ?A) ?B = map2 (+) x (tf_subkey K t0 t1 s)"
  proof -
    have "length x = 8" using assms(5,6) by (simp add: nwords_def)
    then obtain a0 a1 a2 a3 a4 a5 a6 a7 where x: "x = [a0,a1,a2,a3,a4,a5,a6,a7]" by (rule list_of_8)
    show ?thesis by (simp add: x tf_subkey_def Let_def upt_8 sk_keys_def add.assoc)
  qed
  ultimately show "nwords (ninject ks ts s xs) (map2 (+) x (tf_subkey K t0 t1 s))" by simp
  show "length (ninject ks ts s xs) = 8" using assms(6) by (simp add: ninject_def nadd_def)
qed

lemma nfour_words:
  assumes "nwords ks (sk_keys K)" "length K = 8" "nwords ts [t0, t1, t0 XOR t1]" "q < 2 ^ 64" "nwords xs x" "length xs = 8"
  shows "nwords (nfour ks ts q xs) (fold (tf_round K t0 t1) [4 * q..<4 * q + 4] x)" "length (nfour ks ts q xs) = 8"
proof -
  have "(4 * q) mod 4 = 0" "(4 * q) div 4 = q" by simp_all
  then have f: "fold (tf_round K t0 t1) [4 * q..<4 * q + 4] x
    = tf_plain (4 * q + 3) (tf_plain (4 * q + 2) (tf_plain (4 * q + 1) (tf_plain (4 * q) (map2 (+) x (tf_subkey K t0 t1 q)))))"
    using four_tf_rounds [of "4 * q" K t0 t1 x] by simp
  note i = nwords_subkey [OF assms]
  note r0 = nround_words [OF i, of "4 * q"]
  note r1 = nround_words [OF r0, of "4 * q + 1"]
  note r2 = nround_words [OF r1, of "4 * q + 2"]
  note r3 = nround_words [OF r2, of "4 * q + 3"]
  show "nwords (nfour ks ts q xs) (fold (tf_round K t0 t1) [4 * q..<4 * q + 4] x)" "length (nfour ks ts q xs) = 8"
    unfolding f nfour_def by (rule r3)+
qed

lemma nfours_words:
  assumes "nwords ks (sk_keys K)" "length K = 8" "nwords ts [t0, t1, t0 XOR t1]" "nwords xs x" "length xs = 8" "n \<le> 2 ^ 64"
  shows "nwords (fold (nfour ks ts) [0..<n] xs) (fold (tf_round K t0 t1) [0..<4 * n] x) \<and>
    length (fold (nfour ks ts) [0..<n] xs) = 8"
  using assms(6)
proof (induction n)
  case 0
  then show ?case using assms(4,5) by simp
next
  case (Suc n)
  have "[0..<4 * Suc n] = [0..<4 * n] @ [4 * n..<4 * n + 4]"
    using upt_add_eq_append [of 0 "4 * n" 4] by (simp add: add.commute)
  moreover have "n < 2 ^ 64" using Suc.prems by simp
  moreover have "nwords (fold (nfour ks ts) [0..<n] xs) (fold (tf_round K t0 t1) [0..<4 * n] x)"
    "length (fold (nfour ks ts) [0..<n] xs) = 8" using Suc by simp_all
  ultimately show ?case using nfour_words [OF assms(1-3)] by (simp del: mult_Suc_right)
qed

lemma threefish_nwords:
  assumes "nwords ks (sk_keys K)" "length K = 8" "nwords ts [t0, t1, t0 XOR t1]" "nwords xs x" "length xs = 8"
  shows "threefish K t0 t1 x = map of_nat (ninject ks ts 18 (fold (nfour ks ts) [0..<18] xs))"
proof -
  have "nwords (fold (nfour ks ts) [0..<18] xs) (fold (tf_round K t0 t1) [0..<72] x)"
    "length (fold (nfour ks ts) [0..<18] xs) = 8"
    using nfours_words [OF assms, of 18] by simp_all
  from nwords_subkey(1) [OF assms(1-3) _ this, of 18] show ?thesis by (simp add: threefish_def nwords_def)
qed

lemma upt_18: "[0..<18] = [0,1,2,3,4,5,6,7,8,9,10,11,12,13,14,15,16,17::nat]"
  by (simp add: upt_rec)

lemma skein_iv_nat:
  "ninject [0, 0, 0, 0, 0, 0, 0, 0, 2004413935125273122] [32, 14123288431433875456, 14123288431433875488] 18 (fold (nfour [0, 0, 0, 0, 0, 0, 0, 0, 2004413935125273122]
      [32, 14123288431433875456, 14123288431433875488]) [0..<18] [5154883667, 256, 0, 0, 0, 0, 0, 0])
    = [14758371433358456384, 16732438526841956587, 6174048478977683055, 3037510430686418139,
       17007283647522109059, 16691526376334058065, 14082680139380609413, 4534485012945173523]"
  unfolding upt_18
  by (simp add: nfour_def nround_def ninject_def nadd_def nwrap_def nrot_def Let_def R_512_def)

lemma skein_iv_256: "skein_iv 256 = SKEIN_512_IV_256"
proof -
  let ?w = "map of_nat [5154883667, 256, 0, 0, 0, 0, 0, 0] :: u64 list"
  have w: "words_of 8 (skein_config 256 @ replicate 32 0) = ?w"
  proof -
    have z: "le_bytes 8 (0 :: u64) = replicate 8 0" by (simp add: le_bytes_def map_replicate_const)
    have "le_bytes 8 (5154883667 :: u64) = [0x53, 0x48, 0x41, 0x33, 1, 0, 0, 0]"
      by (simp add: le_bytes_def upt_8)
    then have "skein_config 256 @ replicate 32 0 = bytes_of 8 ?w"
      by (simp add: skein_config_def bytes_of_def z flip: replicate_add)
    then show ?thesis by (simp add: words_of_bytes_of)
  qed
  have t: "ubi_tweak 4 True True False = 14123288431433875456"
    by (simp add: ubi_tweak_def)
  have "threefish (replicate 8 0) 32 14123288431433875456 ?w
    = map of_nat (ninject [0, 0, 0, 0, 0, 0, 0, 0, 2004413935125273122] [32, 14123288431433875456, 14123288431433875488] 18 (fold (nfour [0, 0, 0, 0, 0, 0, 0, 0, 2004413935125273122]
      [32, 14123288431433875456, 14123288431433875488]) [0..<18] [5154883667, 256, 0, 0, 0, 0, 0, 0]))"
  proof (rule threefish_nwords)
    have r: "replicate 8 (0 :: u64) = [0,0,0,0,0,0,0,0]" by (simp add: numeral_eq_Suc)
    show "nwords [0, 0, 0, 0, 0, 0, 0, 0, 2004413935125273122] (sk_keys (replicate 8 0))"
      unfolding r by (simp add: nwords_def sk_keys_def)
  qed (simp_all add: nwords_def)
  then have "threefish (replicate 8 0) 32 14123288431433875456 ?w = map of_nat [14758371433358456384, 16732438526841956587, 6174048478977683055, 3037510430686418139,
       17007283647522109059, 16691526376334058065, 14082680139380609413, 4534485012945173523]"
    unfolding skein_iv_nat .
  moreover have "length (skein_config 256) = 32" by (simp add: skein_config_def)
  ultimately show ?thesis
    by (simp add: skein_iv_def ubi_def Let_def ubi_step_def ubi_front_def w t SKEIN_512_IV_256_def SKEIN_MK_64_def)
qed

section \<open>Blocks of a message\<close>

lemma skein_tweaks:
  "SKEIN_T1_FLAG_FIRST OR SKEIN_T1_BLK_TYPE_MSG = ubi_tweak 48 True False False"
  "SKEIN_T1_FLAG_FIRST OR SKEIN_T1_BLK_TYPE_OUT_FINAL = ubi_tweak 63 True True False"
  "SKEIN_T1_FLAG_FIRST OR SKEIN_T1_BLK_TYPE_CFG_FINAL = ubi_tweak 4 True True False"
  "ubi_tweak 48 f False p AND NOT SKEIN_T1_FLAG_FIRST = ubi_tweak 48 False False p"
  "ubi_tweak 48 f False p OR SKEIN_T1_FLAG_FINAL = ubi_tweak 48 f True p"
  "ubi_tweak 48 f False False OR SKEIN_T1_FLAG_BIT_PAD = ubi_tweak 48 f False True"
  by (cases f; cases p; simp add: ubi_tweak_def SKEIN_T1_FLAG_FIRST_def SKEIN_T1_BLK_TYPE_MSG_def SKEIN_T1_BLK_TYPE_def
      SKEIN_T1_BLK_TYPE_OUT_FINAL_def SKEIN_T1_BLK_TYPE_CFG_FINAL_def SKEIN_T1_FLAG_FINAL_def SKEIN_T1_FLAG_BIT_PAD_def)+

lemma skein_block_step:
  "length G = 8 \<Longrightarrow> length b = 64 \<Longrightarrow> skein_block G t0 t1 (words_of 8 b) = ubi_step G t0 t1 b"
  by (simp add: skein_block_eq ubi_step_def)

lemma length_threefish [simp]: "length x = 8 \<Longrightarrow> length (threefish K t0 t1 x) = 8"
  by (simp add: threefish_def)

lemma length_ubi_step [simp]: "length b = 64 \<Longrightarrow> length (ubi_step G t0 t1 b) = 8"
  by (simp add: ubi_step_def)

lemma length_ubi_front: "64 * c \<le> length m \<Longrightarrow> length G = 8 \<Longrightarrow> length (ubi_front G type m c) = 8"
proof (induction c)
  case 0
  then show ?case by (simp add: ubi_front_def)
next
  case (Suc c)
  then have "length (take 64 (drop (64 * c) m)) = 64" by simp
  then show ?case by (simp add: ubi_front_def)
qed

lemma ubi_front_Suc:
  "ubi_front G type m (Suc c) = ubi_step (ubi_front G type m c) (of_nat (64 * (c + 1))) (ubi_tweak type (c = 0) False False)
     (take 64 (drop (64 * c) m))"
  by (simp add: ubi_front_def)

lemma ubi_front_cong:
  "64 * c \<le> length m \<Longrightarrow> 64 * c \<le> length m' \<Longrightarrow> take (64 * c) m = take (64 * c) m' \<Longrightarrow>
   ubi_front G type m c = ubi_front G type m' c"
proof (induction c)
  case 0
  then show ?case by (simp add: ubi_front_def)
next
  case (Suc c)
  have "take 64 (drop (64 * c) m) = drop (64 * c) (take (64 * Suc c) m)"
    "take 64 (drop (64 * c) m') = drop (64 * c) (take (64 * Suc c) m')"
    by (simp_all add: drop_take)
  moreover have "take (64 * c) m = take (64 * c) m'"
    using arg_cong [OF Suc.prems(3), of "take (64 * c)"] by simp
  ultimately show ?case using Suc by (simp add: ubi_front_Suc)
qed

lemma length_skein_iv [simp]: "length (skein_iv h) = 8"
proof -
  have "length (skein_config h) = 32" by (simp add: skein_config_def)
  then show ?thesis by (simp add: skein_iv_def ubi_def Let_def)
qed

text \<open>
  After \<open>c\<close> blocks of the message \<open>m\<close>, for the digest length \<open>h\<close>.
\<close>

definition skein_core :: "nat \<Rightarrow> skein_ctx \<Rightarrow> bytes \<Rightarrow> nat \<Rightarrow> bool" where
  "skein_core h ctx m c \<longleftrightarrow>
    sk_hashBitLen ctx = of_nat h \<and> 64 * c \<le> length m \<and> length (sk_b ctx) = 64 \<and>
    sk_X ctx = ubi_front (skein_iv h) 48 m c \<and> sk_T0 ctx = of_nat (64 * c) \<and>
    sk_T1 ctx = ubi_tweak 48 (c = 0) False False"

lemma skein_core_append: "skein_core h ctx m c \<Longrightarrow> skein_core h ctx (m @ d) c"
  using ubi_front_cong [of c m "m @ d" "skein_iv h" 48] by (auto simp: skein_core_def)

lemma skein_core_update [simp]:
  "skein_core h (ctx\<lparr>sk_bCnt := n\<rparr>) m c = skein_core h ctx m c"
  "length b = 64 \<Longrightarrow> length (sk_b ctx) = 64 \<Longrightarrow> skein_core h (ctx\<lparr>sk_b := b\<rparr>) m c = skein_core h ctx m c"
  by (simp_all add: skein_core_def)

lemma skein_process_blocks:
  assumes "skein_core h ctx m c" "64 * (c + Suc n) \<le> length m" "off + 64 * Suc n \<le> length blk"
    and "take (64 * Suc n) (drop off blk) = take (64 * Suc n) (drop (64 * c) m)"
  shows "\<exists>ctx'. Skein_512_Process_Block ctx blk off (Suc n) 64 = Some ctx' \<and> skein_core h ctx' m (c + Suc n) \<and>
    sk_b ctx' = sk_b ctx \<and> sk_bCnt ctx' = sk_bCnt ctx"
  using assms
proof (induction n arbitrary: ctx c off)
  case (0 ctx c off)
  let ?b = "take 64 (drop off blk)"
  have l: "length ?b = 64" using 0(3) by simp
  have b: "?b = take 64 (drop (64 * c) m)" using 0(4) by simp
  have "length (sk_X ctx) = 8" using 0(1) by (simp add: skein_core_def length_ubi_front)
  then show ?case
    using 0 b l by (auto simp: Skein_512_Process_Block.simps load_Some Let_def skein_block_step skein_core_def skein_tweaks ubi_front_Suc algebra_simps)
next
  case (Suc n)
  let ?b = "take 64 (drop off blk)"
  have tk: "take (64 * Suc (Suc n)) (drop off blk) = take (64 * Suc (Suc n)) (drop (64 * c) m)" by (rule Suc.prems(4))
  have l: "length ?b = 64" using Suc.prems(3) by simp
  have b: "?b = take 64 (drop (64 * c) m)"
    using arg_cong [OF tk, of "take 64"] by simp
  have r: "take (64 * Suc n) (drop (off + 64) blk) = take (64 * Suc n) (drop (64 * Suc c) m)"
    using arg_cong [OF tk, of "drop 64"] by (simp add: drop_take add.commute)
  let ?t0 = "sk_T0 ctx + 64"
  let ?ctx = "ctx\<lparr>sk_T0 := ?t0, sk_X := skein_block (sk_X ctx) ?t0 (sk_T1 ctx) (words_of 8 ?b),
    sk_T1 := sk_T1 ctx AND NOT SKEIN_T1_FLAG_FIRST\<rparr>"
  have "length (sk_X ctx) = 8" using Suc.prems(1) by (simp add: skein_core_def length_ubi_front)
  then have core: "skein_core h ?ctx m (Suc c)"
    using Suc.prems(1,2) b l by (simp add: skein_core_def skein_block_step skein_tweaks ubi_front_Suc algebra_simps)
  have "Skein_512_Process_Block ctx blk off (Suc (Suc n)) 64 = Skein_512_Process_Block ?ctx blk (off + 64) (Suc n) 64"
    using Suc.prems(3) by (subst Skein_512_Process_Block.simps) (simp add: load_Some Let_def)
  moreover have "\<exists>ctx'. Skein_512_Process_Block ?ctx blk (off + 64) (Suc n) 64 = Some ctx' \<and>
      skein_core h ctx' m (Suc c + Suc n) \<and> sk_b ctx' = sk_b ?ctx \<and> sk_bCnt ctx' = sk_bCnt ?ctx"
    using Suc.prems(2,3) r by (intro Suc.IH core) simp_all
  ultimately show ?case by simp
qed

text \<open>
  \<open>ctx\<close> stands for \<open>m\<close>: all blocks but the last are in the chaining value, the last one, of
  1 to 64 bytes unless the message is empty, in the buffer.
\<close>

definition skein_stands :: "nat \<Rightarrow> skein_ctx \<Rightarrow> bytes \<Rightarrow> bool" where
  "skein_stands h ctx m \<longleftrightarrow>
    (let c = (length m - 1) div 64 in skein_core h ctx m c \<and> sk_bCnt ctx = length m - 64 * c \<and>
      take (sk_bCnt ctx) (sk_b ctx) = drop (64 * c) m)"

lemma skein_update_blocks_eq:
  assumes "skein_core h ctx m c" "length m = 64 * c + k" "0 < k" "off + k \<le> length d"
    and "take k (drop off d) = drop (64 * c) m"
  shows "\<exists>ctx' off' k' c'. skein_update_blocks ctx d off k = Some (ctx', off', k') \<and> skein_core h ctx' m c' \<and>
    length m = 64 * c' + k' \<and> 0 < k' \<and> k' \<le> 64 \<and> off' + k' \<le> length d \<and> take k' (drop off' d) = drop (64 * c') m \<and>
    sk_bCnt ctx' = sk_bCnt ctx \<and> sk_b ctx' = sk_b ctx"
proof (cases "k > 64")
  case False
  then show ?thesis using assms by (auto simp: skein_update_blocks_def)
next
  case True
  define n where "n = (k - 1) div 64"
  have n: "0 < n" "64 * n < k" "k \<le> 64 * n + 64"
    using True div_mult_mod_eq [of "k - 1" 64] mod_less_divisor [of 64 "k - 1"] by (auto simp: n_def div_greater_zero_iff)
  then obtain n' where n': "n = Suc n'" by (cases n) auto
  have "take (64 * n) (drop off d) = take (64 * n) (drop (64 * c) m)"
    using arg_cong [OF assms(5), of "take (64 * n)"] n(2) by (simp add: min_def)
  then obtain ctx' where ctx': "Skein_512_Process_Block ctx d off n 64 = Some ctx'" "skein_core h ctx' m (c + n)"
    "sk_b ctx' = sk_b ctx" "sk_bCnt ctx' = sk_bCnt ctx"
    using skein_process_blocks [OF assms(1), of n' off d] assms(2,4) n n' by auto
  have "take (k - n * 64) (drop (off + n * 64) d) = drop (64 * (c + n)) m"
    using arg_cong [OF assms(5), of "drop (64 * n)"] by (simp add: drop_take algebra_simps)
  moreover have "skein_update_blocks ctx d off k = Some (ctx', off + n * 64, k - n * 64)"
    using True ctx'(1) unfolding skein_update_blocks_def Let_def n_def [symmetric] by simp
  ultimately show ?thesis
    using ctx' n assms(2,4)
    by (rule_tac x = ctx' in exI, rule_tac x = "off + n * 64" in exI, rule_tac x = "k - n * 64" in exI, rule_tac x = "c + n" in exI) simp
qed

lemma skein_update_buffer_eq:
  assumes S: "skein_stands h ctx m" and "k \<le> length d" "k + sk_bCnt ctx > 64"
  shows "\<exists>ctx' off k' c. skein_update_buffer ctx d k = Some (ctx', off, k') \<and> skein_core h ctx' (m @ take k d) c \<and>
    length (m @ take k d) = 64 * c + k' \<and> 0 < k' \<and> off + k' \<le> length d \<and>
    take k' (drop off d) = drop (64 * c) (m @ take k d) \<and> sk_bCnt ctx' = 0"
proof -
  define c where "c = (length m - 1) div 64"
  let ?m = "m @ take k d"
  have core: "skein_core h ctx m c" and cnt: "sk_bCnt ctx = length m - 64 * c"
    and buf: "take (sk_bCnt ctx) (sk_b ctx) = drop (64 * c) m"
    using S unfolding skein_stands_def Let_def c_def [symmetric] by blast+
  have lb: "length (sk_b ctx) = 64" "64 * c \<le> length m" using core by (simp_all add: skein_core_def)
  have core': "skein_core h ctx ?m c" using core by (rule skein_core_append)
  have le: "length m \<le> 64 * c + 64"
    using div_mult_mod_eq [of "length m - 1" 64] mod_less_divisor [of 64 "length m - 1"] by (simp add: c_def)
  show ?thesis
  proof (cases "sk_bCnt ctx = 0")
    case True
    then have "length m = 64 * c" using cnt lb by simp
    moreover have "m = []"
    proof (rule ccontr)
      assume "m \<noteq> []"
      then have "0 < length m" by simp
      moreover have "(length m - 1) div 64 * 64 \<le> length m - 1" by (rule div_times_less_eq_dividend)
      ultimately show False using \<open>length m = 64 * c\<close> unfolding c_def by linarith
    qed
    ultimately show ?thesis
      using True core' assms(2,3) by (auto simp: skein_update_buffer_def)
  next
    case False
    let ?n = "64 - sk_bCnt ctx"
    let ?b = "take (sk_bCnt ctx) (sk_b ctx) @ take ?n d"
    have n: "?n < k" "length m + ?n = 64 * c + 64" using assms(3) cnt le lb False by linarith+
    have b: "length ?b = 64" using lb n assms(2) cnt by simp
    have b2: "?b = take 64 (drop (64 * c) ?m)" unfolding buf using lb n assms(2) cnt by simp
    let ?ctx = "ctx\<lparr>sk_b := ?b, sk_bCnt := 64\<rparr>"
    have full: "(if ?n \<noteq> 0 then
              do {
                b \<leftarrow> memcpy (sk_b ctx) (sk_bCnt ctx) d 0 ?n;
                Some (ctx\<lparr>sk_b := b, sk_bCnt := sk_bCnt ctx + ?n\<rparr>, ?n, k - ?n)
              }
            else Some (ctx, 0, k)) = Some (?ctx, ?n, k - ?n)"
    proof (cases "?n = 0")
      case True
      then have "sk_bCnt ctx = 64" using cnt le lb by linarith
      then show ?thesis using lb by (cases ctx) simp
    next
      case False
      then have "memcpy (sk_b ctx) (sk_bCnt ctx) d 0 ?n = Some ?b"
        using lb n assms(2) by (simp add: memcpy_Some)
      then show ?thesis using False by simp
    qed
    have "skein_core h ?ctx ?m c" using core' b by (simp add: skein_core_def)
    moreover have "64 * (c + Suc 0) \<le> length ?m" using n assms(2) by simp
    moreover have "take (64 * Suc 0) (drop 0 ?b) = take (64 * Suc 0) (drop (64 * c) ?m)"
      using b b2 by (simp del: take_append)
    moreover have "0 + 64 * Suc 0 \<le> length ?b" using b by simp
    ultimately obtain ctx' where ctx': "Skein_512_Process_Block ?ctx ?b 0 (Suc 0) 64 = Some ctx'"
      "skein_core h ctx' ?m (c + Suc 0)"
      using skein_process_blocks [of h ?ctx ?m c 0 0 ?b] by blast
    have sb: "sk_b ?ctx = ?b" by simp
    have "skein_update_buffer ctx d k = Some (ctx'\<lparr>sk_bCnt := 0\<rparr>, ?n, k - ?n)"
      using False full ctx'(1) by (simp only: skein_update_buffer_def Let_def simp_thms if_True bind.bind_lunit prod.case
          sb One_nat_def)
    moreover have "take (k - ?n) (drop ?n d) = drop (64 * (c + 1)) ?m"
    proof -
      have "drop (64 * (c + 1)) ?m = drop (64 * c + 64 - length m) (take k d)" using n by (simp add: add.commute)
      also have "64 * c + 64 - length m = ?n" using n by linarith
      finally show ?thesis by (simp add: drop_take)
    qed
    ultimately show ?thesis
      using ctx'(2) n assms(2)
      by (rule_tac x = "ctx'\<lparr>sk_bCnt := 0\<rparr>" in exI, rule_tac x = ?n in exI, rule_tac x = "k - ?n" in exI, rule_tac x = "c + 1" in exI) auto
  qed
qed

lemma skein_last_index:
  assumes "length m = 64 * c + k" "0 < k" "k \<le> 64"
  shows "(length m - 1) div 64 = c"
proof -
  have "length m - 1 = 64 * c + (k - 1)" "k - 1 < 64" using assms by simp_all
  then show ?thesis by simp
qed

lemma skein_update_eq:
  assumes S: "skein_stands h ctx m" and k: "k \<le> length d"
  shows "\<exists>ctx'. Skein_512_Update ctx d k = Some ctx' \<and> skein_stands h ctx' (m @ take k d)"
proof (cases "k + sk_bCnt ctx > 64")
  case True
  let ?m = "m @ take k d"
  obtain c1 o1 k1 i1 where 1: "skein_update_buffer ctx d k = Some (c1, o1, k1)" "skein_core h c1 ?m i1"
    "length ?m = 64 * i1 + k1" "0 < k1" "o1 + k1 \<le> length d" "take k1 (drop o1 d) = drop (64 * i1) ?m" "sk_bCnt c1 = 0"
    using skein_update_buffer_eq [OF S k True] by blast
  obtain c2 o2 k2 i2 where 2: "skein_update_blocks c1 d o1 k1 = Some (c2, o2, k2)" "skein_core h c2 ?m i2"
    "length ?m = 64 * i2 + k2" "0 < k2" "k2 \<le> 64" "o2 + k2 \<le> length d" "take k2 (drop o2 d) = drop (64 * i2) ?m" "sk_bCnt c2 = 0"
    using skein_update_blocks_eq [OF 1(2-6)] 1(7) by metis
  let ?b = "take k2 (drop o2 d) @ drop k2 (sk_b c2)"
  have lb: "length (sk_b c2) = 64" using 2(2) by (simp add: skein_core_def)
  have cp: "memcpy (sk_b c2) (sk_bCnt c2) d o2 k2 = Some ?b"
    using 2 lb by (simp add: memcpy_Some)
  have "take k2 ?b = take k2 (drop o2 d)" using 2(6) by simp
  then have "take k2 ?b = drop (64 * i2) ?m" unfolding 2(7) .
  moreover have "skein_core h (c2\<lparr>sk_b := ?b, sk_bCnt := k2\<rparr>) ?m i2"
  proof -
    have l: "length ?b = 64" using 2(5,6) lb by simp
    show ?thesis
      unfolding skein_core_update(1) by (rule skein_core_update(2) [OF l lb, THEN iffD2]) (rule 2(2))
  qed
  moreover have "sk_bCnt (c2\<lparr>sk_b := ?b, sk_bCnt := k2\<rparr>) = k2" "sk_b (c2\<lparr>sk_b := ?b, sk_bCnt := k2\<rparr>) = ?b"
    "length ?m - 64 * i2 = k2" using 2(3) by simp_all
  ultimately have "skein_stands h (c2\<lparr>sk_b := ?b, sk_bCnt := k2\<rparr>) ?m"
    unfolding skein_stands_def skein_last_index [OF 2(3-5)] Let_def by (simp only: simp_thms)
  then show ?thesis using True 1(1) 2 cp by (simp add: Skein_512_Update_def)
next
  case False
  define c where "c = (length m - 1) div 64"
  have core: "skein_core h ctx m c" and cnt: "sk_bCnt ctx = length m - 64 * c"
    and buf: "take (sk_bCnt ctx) (sk_b ctx) = drop (64 * c) m"
    using S unfolding skein_stands_def Let_def c_def [symmetric] by blast+
  have lb: "length (sk_b ctx) = 64" "64 * c \<le> length m" using core by (simp_all add: skein_core_def)
  show ?thesis
  proof (cases "k = 0")
    case True
    then show ?thesis using S False by (simp add: Skein_512_Update_def)
  next
    case k0: False
    let ?b = "take (sk_bCnt ctx) (sk_b ctx) @ take k d @ drop (sk_bCnt ctx + k) (sk_b ctx)"
    have cp: "memcpy (sk_b ctx) (sk_bCnt ctx) d 0 k = Some ?b"
      using lb k False by (simp add: memcpy_Some)
    let ?ctx = "ctx\<lparr>sk_b := ?b, sk_bCnt := sk_bCnt ctx + k\<rparr>"
    have lb': "length ?b = 64" using lb k False by simp
    have idx: "(length (m @ take k d) - 1) div 64 = c"
      by (rule skein_last_index [of _ _ "sk_bCnt ctx + k"]) (use cnt lb k k0 False in auto)
    have cnt': "length (m @ take k d) - 64 * c = sk_bCnt ctx + k" using cnt lb k by simp
    have tk: "take (sk_bCnt ctx + k) ?b = drop (64 * c) (m @ take k d)"
    proof -
      have "take (sk_bCnt ctx + k) ?b = take (sk_bCnt ctx) (sk_b ctx) @ take k d" using lb k False by simp
      then show ?thesis unfolding buf using lb by simp
    qed
    have "skein_core h ?ctx (m @ take k d) c"
      using skein_core_append [OF core, of "take k d"] lb' by (simp add: skein_core_def)
    moreover have "sk_bCnt ?ctx = sk_bCnt ctx + k" "sk_b ?ctx = ?b" by simp_all
    ultimately have "skein_stands h ?ctx (m @ take k d)"
      unfolding skein_stands_def Let_def idx cnt' by (simp only: tk simp_thms)
    then show ?thesis using False k0 cp by (simp add: Skein_512_Update_def)
  qed
qed

section \<open>Initial value, output and digest\<close>

lemma skein_one_block:
  assumes "length b = 64" "length (sk_X ctx) = 8"
  shows "Skein_512_Process_Block ctx b 0 1 n = Some (ctx\<lparr>sk_T0 := sk_T0 ctx + n,
    sk_X := ubi_step (sk_X ctx) (sk_T0 ctx + n) (sk_T1 ctx) b, sk_T1 := sk_T1 ctx AND NOT SKEIN_T1_FLAG_FIRST\<rparr>)"
  using assms unfolding One_nat_def
  by (simp add: Skein_512_Process_Block.simps load_Some Let_def skein_block_step)

lemma ubi_short:
  assumes "length m \<le> 64" "m \<noteq> []"
  shows "ubi G type pad m = ubi_step G (of_nat (length m)) (ubi_tweak type True True pad) (m @ replicate (64 - length m) 0)"
proof -
  have "(length m - 1) div 64 = 0" using assms by (auto simp: div_eq_0_iff)
  then show ?thesis by (simp add: ubi_def Let_def ubi_front_def)
qed

lemma skein_init_eq:
  assumes "length (sk_b S) = 64" "h < 2 ^ 64"
  shows "\<exists>ctx. Skein_512_Init S (of_nat h) = Some ctx \<and> skein_stands h ctx []"
proof -
  let ?S = "S\<lparr>sk_hashBitLen := of_nat h\<rparr>"
  have fin: "skein_stands h (Skein_Start_New_Type (ctx\<lparr>sk_X := skein_iv h\<rparr>) SKEIN_T1_BLK_TYPE_MSG) []"
    if "sk_hashBitLen ctx = of_nat h" "length (sk_b ctx) = 64" for ctx
    using that by (simp add: skein_stands_def skein_core_def Skein_Start_New_Type_def skein_tweaks ubi_front_def)
  show ?thesis
  proof (cases "h = 256")
    case True
    then show ?thesis
      using fin [of ?S] assms(1) by (simp add: Skein_512_Init_def skein_iv_256)
  next
    case False
    let ?C = "(Skein_Start_New_Type ?S SKEIN_T1_BLK_TYPE_CFG_FINAL)\<lparr>sk_X := replicate 8 0\<rparr>"
    have ne: "(of_nat h :: u64) \<noteq> 256"
    proof
      assume "(of_nat h :: u64) = 256"
      then have "unat (of_nat h :: u64) = 256" by simp
      then show False using assms(2) False by (simp add: unat_of_nat)
    qed
    have z: "le_bytes 8 (SKEIN_CFG_TREE_INFO 0 0 0) = replicate 8 0"
      by (simp add: SKEIN_CFG_TREE_INFO_def le_bytes_def map_replicate_const)
    have v: "le_bytes 8 SKEIN_SCHEMA_VER = [0x53, 0x48, 0x41, 0x33, 1, 0, 0, 0]"
      by (simp add: SKEIN_SCHEMA_VER_def SKEIN_MK_64_def le_bytes_def upt_8)
    have cfg: "skein_cfg (of_nat h) = skein_config h @ replicate 32 0" "length (skein_config h) = 32"
      by (simp_all add: skein_cfg_def skein_config_def z v flip: replicate_add)
    have "skein_iv h = ubi_step (replicate 8 0) 32 (ubi_tweak 4 True True False) (skein_config h @ replicate 32 0)"
      using ubi_short [of "skein_config h" "replicate 8 0" 4 False] cfg(2)
      by (simp add: skein_iv_def flip: length_greater_0_conv)
    then have "Skein_512_Process_Block ?C (skein_cfg (of_nat h)) 0 1 32
      = Some (?C\<lparr>sk_T0 := 32, sk_X := skein_iv h, sk_T1 := sk_T1 ?C AND NOT SKEIN_T1_FLAG_FIRST\<rparr>)"
      using skein_one_block [of "skein_cfg (of_nat h)" ?C 32] cfg
      by (simp add: Skein_Start_New_Type_def skein_tweaks)
    moreover have "Skein_Start_New_Type (?C\<lparr>sk_T0 := 32, sk_X := skein_iv h, sk_T1 := sk_T1 ?C AND NOT SKEIN_T1_FLAG_FIRST\<rparr>) SKEIN_T1_BLK_TYPE_MSG
      = Skein_Start_New_Type (?S\<lparr>sk_X := skein_iv h\<rparr>) SKEIN_T1_BLK_TYPE_MSG"
      by (simp add: Skein_Start_New_Type_def)
    ultimately show ?thesis
      using fin [of ?S] assms(1) ne by (simp add: Skein_512_Init_def Let_def)
  qed
qed

definition skein_out_block :: "u64 list \<Rightarrow> nat \<Rightarrow> bytes" where
  "skein_out_block G i = bytes_of 8 (ubi G 63 False (le_bytes 8 (of_nat i :: u64)))"

lemma length_ubi: "length G = 8 \<Longrightarrow> length m \<le> 64 \<Longrightarrow> m \<noteq> [] \<Longrightarrow> length (ubi G type pad m) = 8"
  by (simp add: ubi_short)

lemma length_skein_out_block [simp]: "length G = 8 \<Longrightarrow> length (skein_out_block G i) = 64"
proof -
  have "le_bytes 8 (of_nat i :: u64) \<noteq> []" using length_le_bytes [of 8 "of_nat i :: u64"] by fastforce
  then show "length G = 8 \<Longrightarrow> length (skein_out_block G i) = 64" by (simp add: skein_out_block_def length_ubi)
qed

lemma skein_output_eq:
  assumes "sk_X ctx = G" "length G = 8" "length (sk_b ctx) = 64" "drop 8 (sk_b ctx) = replicate 56 0"
    and "N = (k + 63) div 64" "j = N - i"
  shows "\<exists>ctx'. skein_output ctx G k i = Some (ctx', take (k - 64 * i) (concat (map (skein_out_block G) [i..<N])))"
  using assms
proof (induction j arbitrary: ctx i)
  case 0
  then have "\<not> i * 64 < k" by simp
  then show ?case by (subst skein_output.simps) simp
next
  case (Suc j)
  then have lt: "i * 64 < k" by linarith
  let ?le = "le_bytes 8 (of_nat i :: u64)"
  let ?b = "?le @ replicate 56 0"
  let ?c = "Skein_Start_New_Type (ctx\<lparr>sk_b := ?b\<rparr>) SKEIN_T1_BLK_TYPE_OUT_FINAL"
  let ?X = "ubi G 63 False ?le"
  have st: "store (sk_b ctx) 0 ?le = Some ?b" using Suc.prems(3,4) by (simp add: store_Some)
  have ne: "?le \<noteq> []" using length_le_bytes [of 8 "of_nat i :: u64"] by fastforce
  have "sk_b ?c = ?b" "sk_X ?c = G" "sk_T0 ?c = 0" "sk_T1 ?c = ubi_tweak 63 True True False"
    using Suc.prems(1) by (simp_all add: Skein_Start_New_Type_def skein_tweaks)
  then have pb: "Skein_512_Process_Block ?c (sk_b ?c) 0 1 8
    = Some (?c\<lparr>sk_T0 := 8, sk_X := ?X, sk_T1 := sk_T1 ?c AND NOT SKEIN_T1_FLAG_FIRST\<rparr>)"
    using skein_one_block [of ?b ?c 8] ubi_short [of ?le G 63 False] ne Suc.prems(2) by simp
  let ?c' = "?c\<lparr>sk_T0 := 8, sk_X := ?X, sk_T1 := sk_T1 ?c AND NOT SKEIN_T1_FLAG_FIRST\<rparr>"
  let ?n = "if k - i * 64 \<ge> 64 then 64 else k - i * 64"
  have "length ?X = 8" using Suc.prems(2) ne by (simp add: length_ubi)
  then have ld: "load (bytes_of 8 (sk_X ?c')) 0 ?n = Some (take ?n (skein_out_block G i))"
    by (simp add: load_Some skein_out_block_def)
  obtain c'' where rec: "skein_output (?c'\<lparr>sk_X := G\<rparr>) G k (Suc i)
    = Some (c'', take (k - 64 * Suc i) (concat (map (skein_out_block G) [Suc i..<N])))"
  proof -
    have "j = N - Suc i" using Suc.prems(6) by linarith
    moreover have "drop 8 (sk_b (?c'\<lparr>sk_X := G\<rparr>)) = replicate 56 0" "length (sk_b (?c'\<lparr>sk_X := G\<rparr>)) = 64"
      by (simp_all add: Skein_Start_New_Type_def)
    ultimately show thesis
      using Suc.IH [OF _ Suc.prems(2) _ _ Suc.prems(5), of "?c'\<lparr>sk_X := G\<rparr>" "Suc i"] that by auto
  qed
  have "i < N" using Suc.prems(6) by simp
  then have "take (k - 64 * i) (concat (map (skein_out_block G) [i..<N]))
    = take ?n (skein_out_block G i) @ take (k - 64 * Suc i) (concat (map (skein_out_block G) [Suc i..<N]))"
    using Suc.prems(2) lt by (simp add: upt_conv_Cons mult.commute [of i] add.commute [of 64] del: upt_Suc)
  moreover have "skein_output ctx G k i = Some (c'', take ?n (skein_out_block G i) @
      take (k - 64 * Suc i) (concat (map (skein_out_block G) [Suc i..<N])))"
    using lt st pb ld rec by (subst skein_output.simps) (simp only: if_True bind.bind_lunit Let_def prod.case)
  ultimately show ?case by auto
qed

lemma skein_final_eq:
  assumes S: "skein_stands h ctx m" and h: "h + 7 < 2 ^ 64"
    and pad: "ctx' = (if pad then Skein_Set_Bit_Pad_Flag ctx else ctx)"
  shows "\<exists>c. Skein_512_Final ctx' = Some (c, take ((h + 7) div 8)
    (concat (map (skein_out_block (ubi (skein_iv h) 48 pad m)) [0..<((h + 7) div 8 + 63) div 64])))"
proof -
  define c where "c = (length m - 1) div 64"
  have core: "skein_core h ctx m c" and cnt: "sk_bCnt ctx = length m - 64 * c"
    and buf: "take (sk_bCnt ctx) (sk_b ctx) = drop (64 * c) m"
    using S unfolding skein_stands_def Let_def c_def [symmetric] by blast+
  have le: "length m \<le> 64 * c + 64"
    using div_mult_mod_eq [of "length m - 1" 64] mod_less_divisor [of 64 "length m - 1"] by (simp add: c_def)
  have f: "sk_bCnt ctx' = sk_bCnt ctx" "sk_b ctx' = sk_b ctx" "length (sk_b ctx) = 64" "sk_hashBitLen ctx' = of_nat h"
    "sk_X ctx' = ubi_front (skein_iv h) 48 m c" "sk_T0 ctx' = of_nat (64 * c)" "64 * c \<le> length m"
    "sk_T1 ctx' OR SKEIN_T1_FLAG_FINAL = ubi_tweak 48 (c = 0) True pad"
    using core by (auto simp: pad skein_core_def Skein_Set_Bit_Pad_Flag_def skein_tweaks)
  let ?n = "sk_bCnt ctx"
  let ?b = "take ?n (sk_b ctx) @ replicate (64 - ?n) 0"
  let ?c1 = "ctx'\<lparr>sk_T1 := sk_T1 ctx' OR SKEIN_T1_FLAG_FINAL, sk_b := ?b\<rparr>"
  let ?G = "ubi (skein_iv h) 48 pad m"
  have b: "(if ?n < 64 then memset (sk_b ctx) ?n 0 (64 - ?n) else Some (sk_b ctx)) = Some ?b"
    using f(3) cnt le f(7) by (auto simp: memset_Some)
  have G: "?G = ubi_step (ubi_front (skein_iv h) 48 m c) (of_nat (length m)) (ubi_tweak 48 (c = 0) True pad) ?b"
    unfolding ubi_def Let_def c_def [symmetric] buf using cnt by simp
  have t0: "(of_nat (64 * c) + of_nat ?n :: u64) = of_nat (length m)"
    using cnt f(7) by (simp flip: of_nat_add)
  have "length (ubi_front (skein_iv h) 48 m c) = 8" using f(7) by (simp add: length_ubi_front)
  then have pb: "Skein_512_Process_Block ?c1 ?b 0 1 (of_nat ?n)
    = Some (?c1\<lparr>sk_T0 := of_nat (length m), sk_X := ?G, sk_T1 := sk_T1 ?c1 AND NOT SKEIN_T1_FLAG_FIRST\<rparr>)"
    using skein_one_block [of ?b ?c1 "of_nat ?n"] f G t0 cnt le by simp
  let ?c2 = "?c1\<lparr>sk_T0 := of_nat (length m), sk_X := ?G, sk_T1 := sk_T1 ?c1 AND NOT SKEIN_T1_FLAG_FIRST\<rparr>"
  have bc: "unat (drop_bit 3 (of_nat h + 7 :: u64)) = (h + 7) div 8"
  proof -
    have "unat (of_nat h + 7 :: u64) = h + 7" using h unat_of_nat [where 'a = 64, of "h + 7"] by simp
    then show ?thesis unfolding unat_drop_bit_eq by (simp add: drop_bit_eq_div)
  qed
  have "length ?b = 64" using f(3) cnt le f(7) by simp
  then have ms: "memset (sk_b ?c2) 0 0 64 = Some (replicate 64 0)" by (simp add: memset_Some)
  obtain c' where "skein_output (?c2\<lparr>sk_b := replicate 64 0\<rparr>) ?G ((h + 7) div 8) 0
    = Some (c', take ((h + 7) div 8 - 64 * 0) (concat (map (skein_out_block ?G) [0..<((h + 7) div 8 + 63) div 64])))"
  proof -
    have "length ?G = 8" unfolding G using \<open>length ?b = 64\<close> by simp
    then show thesis
      using skein_output_eq [of "?c2\<lparr>sk_b := replicate 64 0\<rparr>" ?G _ "(h + 7) div 8" _ 0] that by auto
  qed
  moreover have g: "sk_hashBitLen ?c2 = of_nat h" "sk_X ?c2 = ?G"
    "sk_bCnt (ctx'\<lparr>sk_T1 := sk_T1 ctx' OR SKEIN_T1_FLAG_FINAL\<rparr>) = ?n" "sk_b (ctx'\<lparr>sk_T1 := sk_T1 ctx' OR SKEIN_T1_FLAG_FINAL\<rparr>) = sk_b ctx"
    "sk_bCnt ctx' = ?n" using f by simp_all
  ultimately have "Skein_512_Final ctx' = Some (c', take ((h + 7) div 8 - 64 * 0)
      (concat (map (skein_out_block ?G) [0..<((h + 7) div 8 + 63) div 64])))"
    unfolding Skein_512_Final_def Let_def g by (simp only: b bind.bind_lunit pb g ms bc)
  then show ?thesis by simp
qed

section \<open>The interface\<close>

definition skein256_init :: "skein_ctx \<Rightarrow> skein_ctx" where
  "skein256_init S = Skein_Start_New_Type (S\<lparr>sk_hashBitLen := 256, sk_X := SKEIN_512_IV_256\<rparr>) SKEIN_T1_BLK_TYPE_MSG"

definition skein_ready :: "skein_ctx \<Rightarrow> bool" where
  "skein_ready S \<longleftrightarrow> length (sk_b S) = 64"

lemma skein_hash_ref_split:
  "skein_hash_ref h d n = take ((h + 7) div 8)
    (concat (map (skein_out_block (ubi (skein_iv h) 48 (n mod 8 \<noteq> 0) (skein_message d n))) [0..<((h + 7) div 8 + 63) div 64]))"
  by (simp add: skein_hash_ref_def skein_out_block_def [abs_def] Let_def)

interpretation skein256: stream_hash skein256_init skein_update skein_final skein_ready
  "skein_stands 256" 64 "\<lambda>n. True" "\<lambda>m. skein_hash_ref 256 m (8 * length m)"
proof (unfold_locales, goal_cases)
  case (1 S)
  then show ?case
    using skein_init_eq [of S 256] by (auto simp: skein_ready_def skein256_init_def Skein_512_Init_def)
next
  case (2 S m n d)
  then show ?case using skein_update_eq [OF 2(1,3)] by (simp add: skein_update_def)
next
  case (3 S m)
  then show ?case
    using skein_final_eq [of 256 S m S False] by (simp add: skein_final_def skein_hash_ref_split skein_message_def)
qed

lemma skein_last_byte:
  assumes "0 < s" "s < 8"
  shows "(x AND (0 - push_bit (7 - s) 1)) OR push_bit (7 - s) 1 = x AND NOT (mask (8 - s)) OR push_bit (7 - s) (1 :: u8)"
proof -
  have "list_all (\<lambda>s. (0 :: u8) - push_bit (7 - s) 1 = NOT (mask (8 - s)) OR push_bit (7 - s) 1) [1..<8]"
    by code_simp
  then have "(0 :: u8) - push_bit (7 - s) 1 = NOT (mask (8 - s)) OR push_bit (7 - s) 1"
    using assms by (simp only: list_all_iff set_upt atLeastLessThan_iff) simp
  then show ?thesis by (auto simp: bit_eq_iff bit_or_iff bit_and_iff)
qed

lemma skein_update_bits:
  assumes S: "skein_stands h ctx []" and d: "(n + 7) div 8 \<le> length d"
  shows "\<exists>ctx'. skein_stands h ctx' (skein_message d n) \<and>
    skein_update ctx d n = Some (if n mod 8 \<noteq> 0 then Skein_Set_Bit_Pad_Flag ctx' else ctx')"
proof (cases "n mod 8 = 0")
  case True
  then have "n div 8 \<le> length d" using d by linarith
  from skein_update_eq [OF S this] show ?thesis using True by (auto simp: skein_update_def skein_message_def)
next
  case False
  then have lt: "n div 8 < length d" using d mult_div_mod_eq [of 8 n] by linarith
  let ?b = "d ! (n div 8) AND NOT (mask (8 - n mod 8)) OR push_bit (7 - n mod 8) 1"
  obtain c1 where c1: "Skein_512_Update ctx d (n div 8) = Some c1" "skein_stands h c1 (take (n div 8) d)"
    using skein_update_eq [OF S less_imp_le [OF lt]] by auto
  have one: "(1 :: nat) \<le> length [?b]" by simp
  obtain c2 where c2: "Skein_512_Update c1 [?b] 1 = Some c2" "skein_stands h c2 (take (n div 8) d @ [?b])"
    using skein_update_eq [OF c1(2) one] by auto
  have lb: "(d ! (n div 8) AND (0 - push_bit (7 - n mod 8) 1)) OR push_bit (7 - n mod 8) 1 = ?b"
    using False by (intro skein_last_byte) simp_all
  have "n div 8 + 1 - 1 = n div 8" by simp
  then have "skein_update ctx d n = Some (Skein_Set_Bit_Pad_Flag c2)"
    unfolding skein_update_def Let_def using False c1(1) c2(1) lt
    by (simp only: lb get_at_Some if_False bind.bind_lunit)
  then show ?thesis using False c2(2) by (auto simp: skein_message_def)
qed

lemma skein_hash_eq:
  assumes "length (sk_b S) = 64" "0 \<le> h" "h < 2 ^ 31" "(n + 7) div 8 \<le> length d"
  shows "skein_hash S h d n = Some (SKEIN_SUCCESS, skein_hash_ref (nat h) d n)"
proof -
  have h: "(word_of_int h :: u64) = of_nat (nat h)" using assms(2) by simp
  have hb: "nat h < 2 ^ 64" "nat h + 7 < 2 ^ 64" proof -
    have "nat h < 2 ^ 31" using assms(2,3) by (simp add: nat_less_iff)
    then show "nat h < 2 ^ 64" "nat h + 7 < 2 ^ 64" by simp_all
  qed
  obtain c1 where c1: "skein_init S h = Some c1" "skein_stands (nat h) c1 []"
    using skein_init_eq [OF assms(1) hb(1)] unfolding skein_init_def h by blast
  obtain c2 where c2: "skein_stands (nat h) c2 (skein_message d n)"
    "skein_update c1 d n = Some (if n mod 8 \<noteq> 0 then Skein_Set_Bit_Pad_Flag c2 else c2)"
    using skein_update_bits [OF c1(2) assms(4)] by blast
  obtain c3 where "skein_final (if n mod 8 \<noteq> 0 then Skein_Set_Bit_Pad_Flag c2 else c2) = Some (c3, skein_hash_ref (nat h) d n)"
    using skein_final_eq [OF c2(1) hb(2) refl, of "n mod 8 \<noteq> 0"] by (auto simp: skein_final_def skein_hash_ref_split)
  then show ?thesis by (simp only: skein_hash_def c1(1) c2(2) bind.bind_lunit prod.case)
qed

lemma xmr_skein_eq:
  assumes "length (sk_b S) = 64" "200 \<le> length d"
  shows "xmr_skein S d = Some (skein_hash_ref 256 (take 200 d) 1600)"
proof -
  have r: "skein_ready S" using assms(1) by (simp add: skein_ready_def)
  obtain S1 S2 where "skein_update (skein256_init S) d (8 * 200) = Some S1"
    "skein_final S1 = Some (S2, skein_hash_ref 256 (take 200 d) (8 * length (take 200 d)))"
    by (rule skein256.one_shot [OF r assms(2)]) simp_all
  then show ?thesis
    using assms(2) by (simp add: xmr_skein_def Let_def skein256_init_def skein_update_def skein_final_def min_def)
qed

section \<open>The portable byte order functions\<close>

lemma skein_put_bytes:
  assumes "n \<le> 8 * length ws"
  shows "Skein_Put64_LSB_First ws n = Some (take n (bytes_of 8 ws))"
proof -
  have "Skein_Put64_LSB_First ws n = Some (map (\<lambda>i. ucast (drop_bit (8 * (i mod 8)) (ws ! (i div 8)))) [0..<n])"
    unfolding Skein_Put64_LSB_First_def by (rule those_map_Some) (use assms in \<open>simp add: get_at_Some\<close>)
  also have "map (\<lambda>i. ucast (drop_bit (8 * (i mod 8)) (ws ! (i div 8)))) [0..<n] = take n (bytes_of 8 ws)"
  proof (rule nth_equalityI)
    show "length (map (\<lambda>i. ucast (drop_bit (8 * (i mod 8)) (ws ! (i div 8)))) [0..<n] :: bytes) = length (take n (bytes_of 8 ws))"
      using assms by simp
  next
    fix i assume "i < length (map (\<lambda>i. ucast (drop_bit (8 * (i mod 8)) (ws ! (i div 8)))) [0..<n] :: bytes)"
    then have i: "i < n" by simp
    have nth: "bytes_of 8 vs ! i = ucast (drop_bit (8 * (i mod 8)) (vs ! (i div 8)))" if "i < 8 * length vs" for vs :: "u64 list" and i
      using that
    proof (induction vs arbitrary: i)
      case (Cons v vs)
      show ?case
      proof (cases "i < 8")
        case True
        then show ?thesis by (simp add: bytes_of_def nth_append le_bytes_def)
      next
        case False
        then have "i div 8 = Suc ((i - 8) div 8)" "i mod 8 = (i - 8) mod 8"
          by (simp_all add: le_div_geq le_mod_geq)
        then show ?thesis using False Cons.IH [of "i - 8"] Cons.prems by (simp add: bytes_of_def nth_append)
      qed
    qed simp
    show "map (\<lambda>i. ucast (drop_bit (8 * (i mod 8)) (ws ! (i div 8)))) [0..<n] ! i = take n (bytes_of 8 ws) ! i"
      using i assms nth [of i ws] by simp
  qed
  finally show ?thesis .
qed

lemma le_word_sum:
  assumes "length b = 8"
  shows "(le_word b :: u64) = ucast (b ! 0) + push_bit 8 (ucast (b ! 1)) + push_bit 16 (ucast (b ! 2)) + push_bit 24 (ucast (b ! 3))
          + push_bit 32 (ucast (b ! 4)) + push_bit 40 (ucast (b ! 5)) + push_bit 48 (ucast (b ! 6)) + push_bit 56 (ucast (b ! 7))"
proof -
  have step: "(ucast c OR push_bit 8 w :: u64) = ucast c + push_bit 8 w" for c :: u8 and w :: u64
  proof (rule disjunctive_add_eq_or [symmetric], rule bit_word_eqI)
    fix k assume "k < LENGTH(64)"
    show "bit (ucast c AND push_bit 8 w :: u64) k = bit (0 :: u64) k"
      using bit_imp_le_length [of c k] by (auto simp: bit_and_iff bit_ucast_iff bit_push_bit_iff)
  qed
  have cons: "le_word (c # bs) = ucast c + push_bit 8 (le_word bs :: u64)" for c bs
    by (simp add: step)
  obtain b0 b1 b2 b3 b4 b5 b6 b7 where b: "b = [b0,b1,b2,b3,b4,b5,b6,b7]" by (rule list_of_8 [OF assms])
  show ?thesis
    unfolding b by (simp add: cons push_bit_add add.assoc del: le_word.simps(2))
qed

lemma skein_get_words:
  assumes "length src = 8 * n"
  shows "Skein_Get64_LSB_First src n = Some (words_of 8 src)"
proof -
  have "Skein_Get64_LSB_First src n = Some (map (\<lambda>i. le_word (take 8 (drop (8 * i) src))) [0..<n])"
    unfolding Skein_Get64_LSB_First_def
    by (rule those_map_Some) (use assms in \<open>simp add: load_Some le_word_sum del: le_word.simps\<close>)
  then show ?thesis using assms by (simp add: words_of_def)
qed

section \<open>Properties\<close>

text \<open>
  C21. \<open>skein_hash\<close> returns the Skein-512 digest of the first \<open>n\<close> bits of its data, for every digest
  length: the configuration block, the message in UBI mode with a padded last bit, and the output
  blocks in counter mode, cut to the digest length.
\<close>

theorem skein_hash_is_skein:
  assumes "length (sk_b S) = 64" "0 \<le> h" "h < 2 ^ 31" "(n + 7) div 8 \<le> length d"
  shows "skein_hash S h d n = Some (SKEIN_SUCCESS, skein_hash_ref (nat h) d n)"
  using assms by (rule skein_hash_eq)

definition blank_skein :: skein_ctx where
  "blank_skein = \<lparr>sk_hashBitLen = 1, sk_bCnt = 2, sk_T0 = 3, sk_T1 = 4, sk_X = replicate 8 5, sk_b = replicate 64 6\<rparr>"

theorem skein_hash_is_skein_witness:
  "skein_hash blank_skein 512 (replicate 200 0xA5) 1203 = Some (SKEIN_SUCCESS, skein_hash_ref 512 (replicate 200 0xA5) 1203)"
  using skein_hash_is_skein [of blank_skein 512 1203 "replicate 200 0xA5"] by (simp add: blank_skein_def)

text \<open>
  \<open>xmr_skein\<close>, the copy specialised to the 200-byte CryptoNight state, returns the Skein-512
  digest of 256 bits of these 200 bytes.
\<close>

theorem xmr_skein_is_skein:
  assumes "length (sk_b S) = 64" "200 \<le> length d"
  shows "xmr_skein S d = Some (skein_hash_ref 256 (take 200 d) 1600)"
  using assms by (rule xmr_skein_eq)

theorem xmr_skein_is_skein_witness:
  "xmr_skein blank_skein (replicate 256 9) = Some (skein_hash_ref 256 (replicate 200 9) 1600)"
  using xmr_skein_is_skein [of blank_skein "replicate 256 9"] by (simp add: blank_skein_def)

text \<open>
  The unrolled block function, whose rounds name the words in rotating order, encrypts with
  Threefish-512 under the chaining value and tweak and adds the block to the result.
\<close>

theorem skein_block_is_threefish:
  assumes "length X = 8" "length w = 8"
  shows "skein_block X t0 t1 w = map2 (XOR) (threefish X t0 t1 w) w"
  using assms by (rule skein_block_eq)

theorem skein_block_is_threefish_witness:
  "skein_block (replicate 8 1) 2 3 (replicate 8 4) = map2 (XOR) (threefish (replicate 8 1) 2 3 (replicate 8 4)) (replicate 8 4)"
  by (rule skein_block_is_threefish) simp_all

text \<open>
  The precomputed initial value for digests of 256 bits is the one the configuration block gives.
\<close>

theorem skein_iv_precomputed: "SKEIN_512_IV_256 = skein_iv 256"
  by (rule skein_iv_256 [symmetric])

text \<open>
  Data can be given to \<open>Skein_512_Update\<close> in pieces of any size: a context that stands for \<open>m\<close>
  stands for \<open>m\<close> and the piece afterwards, the last full block always being kept back.
\<close>

theorem skein_update_append:
  assumes "skein_stands h ctx m" "k \<le> length d"
  shows "\<exists>ctx'. Skein_512_Update ctx d k = Some ctx' \<and> skein_stands h ctx' (m @ take k d)"
  using assms by (rule skein_update_eq)

theorem skein_update_append_witness:
  "\<exists>ctx'. Skein_512_Update (skein256_init blank_skein) (replicate 130 1) 129 = Some ctx' \<and>
    skein_stands 256 ctx' (replicate 129 1)"
  using skein_update_append [OF skein256.init_stands, of blank_skein 129 "replicate 130 1"]
  by (simp add: skein_ready_def blank_skein_def)

text \<open>
  The portable byte order functions agree with the plain copies used on little-endian machines.
\<close>

theorem skein_portable_copies:
  assumes "n \<le> 8 * length ws" "length src = 8 * k"
  shows "Skein_Put64_LSB_First ws n = Some (take n (bytes_of 8 ws)) \<and> Skein_Get64_LSB_First src k = Some (words_of 8 src)"
  using skein_put_bytes [OF assms(1)] skein_get_words [OF assms(2)] by simp_all

theorem skein_portable_copies_witness:
  "Skein_Put64_LSB_First [1, 2] 11 = Some (take 11 (bytes_of 8 [1, 2 :: u64])) \<and>
   Skein_Get64_LSB_First (replicate 16 7) 2 = Some (words_of 8 (replicate 16 7))"
  using skein_portable_copies [of 11 "[1, 2]" "replicate 16 7" 2] by simp

end
