(* ===== verification/Cryptonight_Aes.thy ===== *)
theory Cryptonight_Aes
  imports Prelude Soft_Aes
begin

text \<open>
  The helpers of \<open>src/src/crypto/CryptoNight_x86.h\<close> (lines 76 to 217): the 64-bit product of
  the two builds, the AES key generation and the AES round on eight registers, each with the AES
  instructions of the processor or with the routines of \<open>soft_aes.h\<close>. The two instructions are a
  parameter, \<open>aesni\<close>; what is documented of them is the hypothesis \<open>aes_instructions\<close>. The
  locale \<open>aes_unit\<close> is what both have in common, and its lemmas, proved once, give the key
  schedule of AES-256 and the equality of all four AES units of the program.
\<close>

unbundle bit_operations_syntax

section \<open>Registers and memory\<close>

text \<open>
  SSE2 moves, shifts and aligned accesses. Addresses are offsets into a buffer that is itself
  aligned to 16 bytes, as \<open>alignas(16)\<close> makes every member of \<open>cryptonight_ctx\<close>; an
  aligned access elsewhere is a fault, \<open>None\<close>.
\<close>

definition mm_set_epi64x :: "u64 \<Rightarrow> u64 \<Rightarrow> m128" where
  "mm_set_epi64x hi lo = push_bit 64 (ucast hi) OR ucast lo"

definition mm_cvtsi128_si64 :: "m128 \<Rightarrow> u64" where
  "mm_cvtsi128_si64 w = ucast w"

definition mm_slli_si128 :: "m128 \<Rightarrow> nat \<Rightarrow> m128" where
  "mm_slli_si128 w n = push_bit (8 * n) w"

definition mm_srli_si128 :: "m128 \<Rightarrow> nat \<Rightarrow> m128" where
  "mm_srli_si128 w n = drop_bit (8 * n) w"

definition mm_load_si128 :: "bytes \<Rightarrow> nat \<Rightarrow> m128 option" where
  "mm_load_si128 mem a = (if 16 dvd a then map_option le_word (load mem a 16) else None)"

definition mm_store_si128 :: "bytes \<Rightarrow> nat \<Rightarrow> m128 \<Rightarrow> bytes option" where
  "mm_store_si128 mem a v = (if 16 dvd a then store mem a (le_bytes 16 v) else None)"

section \<open>64-bit halves and products\<close>

text \<open>\<open>EXTRACT64\<close> of the 64-bit and of the 32-bit build.\<close>

definition EXTRACT64 :: "m128 \<Rightarrow> u64" where
  "EXTRACT64 X = mm_cvtsi128_si64 X"

definition HI32 :: "m128 \<Rightarrow> m128" where
  "HI32 X = mm_srli_si128 X 4"

definition EXTRACT64_i386 :: "m128 \<Rightarrow> u64" where
  "EXTRACT64_i386 X =
     ucast (mm_cvtsi128_si32 X) OR push_bit 32 (ucast (mm_cvtsi128_si32 (HI32 X)))"

text \<open>\<open>__umul128\<close>: the low word it returns and the high word it stores.\<close>

definition umul128 :: "u64 \<Rightarrow> u64 \<Rightarrow> u64 \<times> u64" where
  "umul128 a b =
    (let r = (ucast a :: m128) * ucast b;
         hi = ucast (drop_bit 64 r)
     in (ucast r, hi))"

definition umul128_i386 :: "u64 \<Rightarrow> u64 \<Rightarrow> u64 \<times> u64" where
  "umul128_i386 multiplier multiplicand =
    (let a = drop_bit 32 multiplier;
         b = multiplier AND 0xFFFFFFFF;
         c = drop_bit 32 multiplicand;
         d = multiplicand AND 0xFFFFFFFF;
         ad = a * d;
         bd = b * d;
         adbc = ad + (b * c);
         adbc_carry = (if adbc < ad then 1 else 0);
         product_lo = bd + push_bit 32 adbc;
         product_lo_carry = (if product_lo < bd then 1 else 0);
         product_hi = (a * c) + drop_bit 32 adbc + push_bit 32 adbc_carry + product_lo_carry
     in (product_lo, product_hi))"

section \<open>AES key generation\<close>

text \<open>The AES instructions of the processor.\<close>

record aesni =
  mm_aesenc_si128 :: "m128 \<Rightarrow> m128 \<Rightarrow> m128"
  mm_aeskeygenassist_si128 :: "m128 \<Rightarrow> u8 \<Rightarrow> m128"

definition sl_xor :: "m128 \<Rightarrow> m128" where
  "sl_xor tmp1 =
    (let tmp4 = mm_slli_si128 tmp1 4;
         tmp1 = tmp1 XOR tmp4;
         tmp4 = mm_slli_si128 tmp4 4;
         tmp1 = tmp1 XOR tmp4;
         tmp4 = mm_slli_si128 tmp4 4
     in tmp1 XOR tmp4)"

definition aes_genkey_sub :: "aesni \<Rightarrow> u8 \<Rightarrow> m128 \<times> m128 \<Rightarrow> m128 \<times> m128" where
  "aes_genkey_sub hw rcon = (\<lambda>(xout0, xout2).
    (let xout1 = mm_aeskeygenassist_si128 hw xout2 rcon;
         xout1 = mm_shuffle_epi32 xout1 0xFF;
         xout0 = sl_xor xout0;
         xout0 = xout0 XOR xout1;
         xout1 = mm_aeskeygenassist_si128 hw xout0 0x00;
         xout1 = mm_shuffle_epi32 xout1 0xAA;
         xout2 = sl_xor xout2;
         xout2 = xout2 XOR xout1
     in (xout0, xout2)))"

definition soft_aes_genkey_sub :: "u8 \<Rightarrow> m128 \<times> m128 \<Rightarrow> m128 \<times> m128" where
  "soft_aes_genkey_sub rcon = (\<lambda>(xout0, xout2).
    (let xout1 = saes_aeskeygenassist rcon xout2;
         xout1 = mm_shuffle_epi32 xout1 0xFF;
         xout0 = sl_xor xout0;
         xout0 = xout0 XOR xout1;
         xout1 = saes_aeskeygenassist 0x00 xout0;
         xout1 = mm_shuffle_epi32 xout1 0xAA;
         xout2 = sl_xor xout2;
         xout2 = xout2 XOR xout1
     in (xout0, xout2)))"

text \<open>The ten round keys \<open>k0\<close> to \<open>k9\<close> from the two registers at \<open>memory\<close>.\<close>

definition aes_genkey :: "aesni \<Rightarrow> bool \<Rightarrow> bytes \<Rightarrow> nat \<Rightarrow> m128 list option" where
  "aes_genkey hw SOFT_AES mem memory =
    do {
      let sub = (\<lambda>rcon. if SOFT_AES then soft_aes_genkey_sub rcon else aes_genkey_sub hw rcon);
      k0 \<leftarrow> mm_load_si128 mem memory;
      k1 \<leftarrow> mm_load_si128 mem (memory + 16);
      let (k2, k3) = sub 0x01 (k0, k1);
      let (k4, k5) = sub 0x02 (k2, k3);
      let (k6, k7) = sub 0x04 (k4, k5);
      let (k8, k9) = sub 0x08 (k6, k7);
      Some [k0, k1, k2, k3, k4, k5, k6, k7, k8, k9]
    }"

section \<open>AES rounds\<close>

text \<open>
  One round with the same key on each of the registers \<open>x0\<close> to \<open>x7\<close>, in a list. The
  software round reads its argument through a pointer to 32-bit words.
\<close>

definition mm_words :: "m128 \<Rightarrow> u32 list" where
  "mm_words x = words_of 4 (le_bytes 16 x)"

definition aes_round :: "aesni \<Rightarrow> bool \<Rightarrow> m128 \<Rightarrow> m128 list \<Rightarrow> m128 list option" where
  "aes_round hw SOFT_AES key xs =
    (if SOFT_AES then those (map (\<lambda>x. saes_aesenc (mm_words x) key) xs)
     else Some (map (\<lambda>x. mm_aesenc_si128 hw x key) xs))"

text \<open>The ten calls of \<open>aes_round\<close> with \<open>k0\<close> to \<open>k9\<close>.\<close>

fun aes_rounds :: "aesni \<Rightarrow> bool \<Rightarrow> m128 list \<Rightarrow> m128 list \<Rightarrow> m128 list option" where
  "aes_rounds hw SOFT_AES [] xs = Some xs"
| "aes_rounds hw SOFT_AES (k # ks) xs =
    do {
      xs \<leftarrow> aes_round hw SOFT_AES k xs;
      aes_rounds hw SOFT_AES ks xs
    }"

section \<open>Reference\<close>

text \<open>The documented behaviour of the two instructions, on the 16 bytes of a register.\<close>

definition aes_instructions :: "aesni \<Rightarrow> bool" where
  "aes_instructions hw \<longleftrightarrow>
    (\<forall>x k. le_bytes 16 (mm_aesenc_si128 hw x k) = aes_round_ref (le_bytes 16 x) (le_bytes 16 k)) \<and>
    (\<forall>x rcon. le_bytes 16 (mm_aeskeygenassist_si128 hw x rcon) = aes_assist_ref (le_bytes 16 x) rcon)"

definition aes_enc :: "m128 \<Rightarrow> m128 \<Rightarrow> m128" where
  "aes_enc x k = le_word (aes_round_ref (le_bytes 16 x) (le_bytes 16 k))"

text \<open>The key schedule of AES-256: words of four bytes, their substitution and rotation.\<close>

definition sub_bytes :: "u32 \<Rightarrow> u32" where
  "sub_bytes w = le_word (map aes_sub (le_bytes 4 w))"

definition rot_bytes :: "u32 \<Rightarrow> u32" where
  "rot_bytes w = le_word (rotate1 (le_bytes 4 w))"

fun aes256_word :: "u32 list \<Rightarrow> nat \<Rightarrow> u32" where
  "aes256_word key i =
    (if i < 8 then key ! i
     else let t = aes256_word key (i - 1)
          in aes256_word key (i - 8) XOR
            (if i mod 8 = 0 then rot_bytes (sub_bytes t) XOR 2 ^ (i div 8 - 1)
             else if i mod 8 = 4 then sub_bytes t else t))"

declare aes256_word.simps [simp del]

definition aes256_key :: "u32 list \<Rightarrow> nat \<Rightarrow> m128" where
  "aes256_key key j =
     mm_set_epi32 (aes256_word key (4 * j + 3)) (aes256_word key (4 * j + 2))
       (aes256_word key (4 * j + 1)) (aes256_word key (4 * j))"

definition aes256_keys :: "bytes \<Rightarrow> m128 list" where
  "aes256_keys key = map (aes256_key (words_of 4 key)) [0..<10]"

section \<open>Halves and products\<close>

lemma extract64_mm_set: "EXTRACT64 (mm_set_epi64x hi lo) = lo"
  by (auto intro!: bit_word_eqI simp: EXTRACT64_def mm_cvtsi128_si64_def mm_set_epi64x_def bit_ucast_iff bit_or_iff bit_push_bit_iff)

lemma extract64_i386: "EXTRACT64_i386 X = EXTRACT64 X"
  by (rule bit_word_eqI)
    (auto simp: EXTRACT64_i386_def EXTRACT64_def mm_cvtsi128_si64_def HI32_def mm_srli_si128_def mm_cvtsi128_si32_def
      mm_lane_def bit_ucast_iff bit_or_iff bit_push_bit_iff bit_drop_bit_eq)

lemma unat_umul128:
  "unat (fst (umul128 a b)) = unat a * unat b mod 2 ^ 64" "unat (snd (umul128 a b)) = unat a * unat b div 2 ^ 64"
proof -
  have b: "unat a < 2 ^ 64" "unat b < 2 ^ 64" using unsigned_less [of a] unsigned_less [of b] by simp_all
  have "unat a * unat b \<le> (2 ^ 64 - 1) * (2 ^ 64 - 1)" by (rule mult_le_mono) (use b in simp_all)
  then have p: "unat a * unat b < 2 ^ 128" by simp
  have r: "unat ((ucast a :: m128) * ucast b) = unat a * unat b"
    using b p by (simp add: unat_word_ariths unsigned_ucast_eq take_bit_eq_mod)
  show "unat (fst (umul128 a b)) = unat a * unat b mod 2 ^ 64"
    using r by (simp add: umul128_def Let_def unsigned_ucast_eq take_bit_eq_mod)
  have "unat a * unat b div 2 ^ 64 < 2 ^ 64" using p by (simp add: less_mult_imp_div_less)
  then show "unat (snd (umul128 a b)) = unat a * unat b div 2 ^ 64"
    using r by (simp add: umul128_def Let_def unsigned_ucast_eq take_bit_eq_mod drop_bit_eq_div unat_div)
qed

text \<open>Schoolbook multiplication of two 32-digit pairs, the carries included.\<close>

lemma carry_of_sum:
  fixes x y :: u64
  shows "unat (x + y) + 2 ^ 64 * (if x + y < x then 1 else 0) = unat x + unat y"
proof (cases "unat x + unat y < 2 ^ 64")
  case True
  then show ?thesis by (simp add: word_less_nat_alt unat_word_ariths)
next
  case False
  have "unat x < 2 ^ 64" "unat y < 2 ^ 64" using unsigned_less [of x] unsigned_less [of y] by simp_all
  moreover from this False have "(unat x + unat y) mod 2 ^ 64 = unat x + unat y - 2 ^ 64"
    by (simp add: mod_if)
  ultimately show ?thesis using False by (simp add: word_less_nat_alt unat_word_ariths)
qed

lemma schoolbook:
  fixes a b c d :: nat
  assumes "q1 + 2 ^ 64 * k1 = a * d + b * c" "q0 + 2 ^ 64 * k0 = b * d + 2 ^ 32 * (q1 mod 2 ^ 32)" "q0 < 2 ^ 64"
  shows "(a * 2 ^ 32 + b) * (c * 2 ^ 32 + d) mod 2 ^ 64 = q0"
    and "(a * 2 ^ 32 + b) * (c * 2 ^ 32 + d) div 2 ^ 64 = a * c + q1 div 2 ^ 32 + 2 ^ 32 * k1 + k0"
proof -
  have "(a * 2 ^ 32 + b) * (c * 2 ^ 32 + d) = 2 ^ 64 * (a * c) + 2 ^ 32 * (a * d + b * c) + b * d"
    by (simp add: algebra_simps)
  also have "\<dots> = 2 ^ 64 * (a * c) + 2 ^ 32 * (q1 + 2 ^ 64 * k1) + b * d" using assms(1) by simp
  also have "\<dots> = 2 ^ 64 * (a * c + 2 ^ 32 * k1) + 2 ^ 32 * q1 + b * d" by (simp add: algebra_simps)
  also have "2 ^ 32 * q1 = 2 ^ 64 * (q1 div 2 ^ 32) + 2 ^ 32 * (q1 mod 2 ^ 32)"
    using mult_div_mod_eq [of "2 ^ 32" q1] by (metis distrib_left mult.assoc power_add [of 2 32 32, simplified numeral_plus_numeral add_num_simps])
  finally have E: "(a * 2 ^ 32 + b) * (c * 2 ^ 32 + d) = 2 ^ 64 * (a * c + q1 div 2 ^ 32 + 2 ^ 32 * k1 + k0) + q0"
    using assms(2) by (simp add: algebra_simps)
  have H: "(2 ^ 64 * h + q0) mod 2 ^ 64 = q0" "(2 ^ 64 * h + q0) div 2 ^ 64 = h" for h
    using assms(3) by simp_all
  show "(a * 2 ^ 32 + b) * (c * 2 ^ 32 + d) mod 2 ^ 64 = q0"
    "(a * 2 ^ 32 + b) * (c * 2 ^ 32 + d) div 2 ^ 64 = a * c + q1 div 2 ^ 32 + 2 ^ 32 * k1 + k0"
    by (simp_all only: E H)
qed

lemma unat_halves:
  fixes z :: u64
  shows "unat (drop_bit 32 z) = unat z div 2 ^ 32" "unat (z AND 0xFFFFFFFF) = unat z mod 2 ^ 32"
proof -
  have "z AND 0xFFFFFFFF = take_bit 32 z" by (simp add: take_bit_eq_mask mask_eq_exp_minus_1)
  then show "unat (z AND 0xFFFFFFFF) = unat z mod 2 ^ 32" by (simp add: take_bit_eq_mod unat_mod)
qed (simp add: drop_bit_eq_div unat_div)

lemma unat_product_halves:
  fixes x y :: u64
  assumes "unat x < 2 ^ 32" "unat y < 2 ^ 32"
  shows "unat (x * y) = unat x * unat y"
proof -
  have "unat x * unat y \<le> (2 ^ 32 - 1) * (2 ^ 32 - 1)" by (rule mult_le_mono) (use assms in simp_all)
  then show ?thesis by (simp add: unat_word_ariths)
qed

lemma umul128_i386_eq: "umul128_i386 x y = umul128 x y"
proof -
  define a b c d where "a = drop_bit 32 x" and "b = x AND 0xFFFFFFFF" and "c = drop_bit 32 y" and "d = y AND 0xFFFFFFFF"
  define q1 q0 where "q1 = a * d + b * c" and "q0 = b * d + push_bit 32 q1"
  define k1 k0 where "k1 = (if q1 < a * d then 1 else 0 :: nat)" and "k0 = (if q0 < b * d then 1 else 0 :: nat)"
  have lt: "unat a < 2 ^ 32" "unat b < 2 ^ 32" "unat c < 2 ^ 32" "unat d < 2 ^ 32"
    using unsigned_less [of x] unsigned_less [of y]
    by (simp_all add: a_def b_def c_def d_def unat_halves div_less_iff_less_mult)
  have x: "unat x = unat a * 2 ^ 32 + unat b" and y: "unat y = unat c * 2 ^ 32 + unat d"
    by (simp_all add: a_def b_def c_def d_def unat_halves)
  have s1: "unat q1 + 2 ^ 64 * k1 = unat a * unat d + unat b * unat c"
    using carry_of_sum [of "a * d" "b * c"] lt by (simp add: q1_def k1_def unat_product_halves)
  have "unat (push_bit 32 q1) = 2 ^ 32 * (unat q1 mod 2 ^ 32)"
    by (simp add: push_bit_eq_mult unat_word_ariths mult_mod_right [of "2 ^ 32" _ "2 ^ 32", simplified] mult.commute)
  then have s0: "unat q0 + 2 ^ 64 * k0 = unat b * unat d + 2 ^ 32 * (unat q1 mod 2 ^ 32)"
    using carry_of_sum [of "b * d" "push_bit 32 q1"] lt by (simp add: q0_def k0_def unat_product_halves)
  note sb = schoolbook [OF s1 s0, folded x y]
  have "unat q0 < 2 ^ 64" using unsigned_less [of q0] by simp
  note sb = sb [OF this]
  have lo: "q0 = fst (umul128 x y)" by (rule word_unat_eq_iff [THEN iffD2]) (simp only: unat_umul128 sb)
  have "a * c + drop_bit 32 q1 + push_bit 32 (of_nat k1) + of_nat k0
      = of_nat (unat a * unat c + unat q1 div 2 ^ 32 + 2 ^ 32 * k1 + k0)"
    by (simp add: push_bit_eq_mult) (simp flip: unat_halves add: unat_halves(1) [symmetric, simplified])
  also have "\<dots> = of_nat (unat (snd (umul128 x y)))" by (simp only: unat_umul128 sb)
  finally have hi: "a * c + drop_bit 32 q1 + push_bit 32 (of_nat k1) + of_nat k0 = snd (umul128 x y)" by simp
  have "umul128_i386 x y = (q0, a * c + drop_bit 32 q1 + push_bit 32 (of_nat k1) + of_nat k0)"
    unfolding umul128_i386_def Let_def a_def [symmetric] b_def [symmetric] c_def [symmetric] d_def [symmetric]
      q1_def [symmetric] q0_def [symmetric] by (simp add: k1_def k0_def)
  then show ?thesis using lo hi by simp
qed

section \<open>The key schedule\<close>

lemma mm_lane_xor: "mm_lane i (x XOR y) = mm_lane i x XOR mm_lane i y"
  by (rule bit_word_eqI) (simp add: mm_lane_def bit_ucast_iff bit_drop_bit_eq bit_xor_iff)

lemma m128_eqI:
  assumes "mm_lane 0 x = mm_lane 0 y" "mm_lane 1 x = mm_lane 1 y" "mm_lane 2 x = mm_lane 2 y" "mm_lane 3 x = mm_lane 3 y"
  shows "x = y"
proof -
  have "le_bytes 16 x = le_bytes 16 y" unfolding le_bytes_lanes [of x] le_bytes_lanes [of y] by (simp only: assms)
  then have "le_word (le_bytes 16 x) = (le_word (le_bytes 16 y) :: m128)" by simp
  then show ?thesis by (simp add: le_word_le_bytes)
qed

lemma mm_lane_slli:
  "mm_lane 0 (mm_slli_si128 x 4) = 0" "mm_lane (Suc 0) (mm_slli_si128 x 4) = mm_lane 0 x"
  "mm_lane 2 (mm_slli_si128 x 4) = mm_lane 1 x" "mm_lane 3 (mm_slli_si128 x 4) = mm_lane 2 x"
  by (auto intro!: bit_word_eqI simp: mm_lane_def mm_slli_si128_def bit_ucast_iff bit_drop_bit_eq bit_push_bit_iff)

lemma mm_lane_sl_xor:
  "mm_lane 0 (sl_xor x) = mm_lane 0 x"
  "mm_lane (Suc 0) (sl_xor x) = mm_lane 0 x XOR mm_lane 1 x"
  "mm_lane 2 (sl_xor x) = mm_lane 0 x XOR mm_lane 1 x XOR mm_lane 2 x"
  "mm_lane 3 (sl_xor x) = mm_lane 0 x XOR mm_lane 1 x XOR mm_lane 2 x XOR mm_lane 3 x"
  by (simp_all add: sl_xor_def Let_def mm_lane_xor mm_lane_slli ac_simps)

lemma mm_lane_shuffle:
  assumes "i < 4"
  shows "mm_lane i (mm_shuffle_epi32 x 0xFF) = mm_lane 3 x" "mm_lane i (mm_shuffle_epi32 x 0xAA) = mm_lane 2 x"
proof -
  have "i \<in> {0, Suc 0, 2, 3}" using assms by auto
  then show "mm_lane i (mm_shuffle_epi32 x 0xFF) = mm_lane 3 x" "mm_lane i (mm_shuffle_epi32 x 0xAA) = mm_lane 2 x"
    by (auto simp: mm_shuffle_epi32_def mm_lane_set)
qed

lemma rot_bytes_list: "length b = 4 \<Longrightarrow> rot_bytes (le_word b) = le_word (rotate1 b)"
  by (simp add: rot_bytes_def le_bytes_le_word)

lemma mm_lane_eq_le_word:
  assumes "i < 4"
  shows "mm_lane i w = le_word (take 4 (drop (4 * i) (le_bytes 16 w)))"
  using le_bytes_lane [OF assms, of w] le_word_le_bytes [of 4 "mm_lane i w"] by simp

lemma le_word_rcon:
  "le_word [b0 XOR r, b1, b2, b3] = (le_word [b0, b1, b2, b3] XOR ucast r :: u32)"
  by (rule bit_word_eqI) (auto simp: bit_or_iff bit_xor_iff bit_ucast_iff bit_push_bit_iff dest: bit_imp_le_length)

text \<open>
  An AES unit: a round and a key assist that do on the bytes what the instructions are documented
  to do.
\<close>

locale aes_unit =
  fixes enc :: "m128 \<Rightarrow> m128 \<Rightarrow> m128"
    and assist :: "m128 \<Rightarrow> u8 \<Rightarrow> m128"
  assumes enc_bytes: "le_bytes 16 (enc x k) = aes_round_ref (le_bytes 16 x) (le_bytes 16 k)"
    and assist_bytes: "le_bytes 16 (assist x rcon) = aes_assist_ref (le_bytes 16 x) rcon"
begin

lemma enc_eq: "enc x k = aes_enc x k"
  unfolding aes_enc_def enc_bytes [symmetric] by (simp add: le_word_le_bytes)

lemma assist_lanes:
  "mm_lane 2 (assist x rcon) = sub_bytes (mm_lane 3 x)"
  "mm_lane 3 (assist x rcon) = rot_bytes (sub_bytes (mm_lane 3 x)) XOR ucast rcon"
proof -
  have "length (le_bytes 16 x) = 16" by simp
  then obtain a0 a1 a2 a3 a4 a5 a6 a7 a8 a9 a10 a11 a12 a13 a14 a15
    where a: "le_bytes 16 x = [a0,a1,a2,a3,a4,a5,a6,a7,a8,a9,a10,a11,a12,a13,a14,a15]"
    by (rule list_of_16)
  have l: "le_bytes 4 (mm_lane 3 x) = [a12,a13,a14,a15]" by (simp add: le_bytes_lane a)
  have "sub_bytes (mm_lane 3 x) = le_word (map aes_sub [a12,a13,a14,a15])" by (simp only: sub_bytes_def l)
  moreover from this have "rot_bytes (sub_bytes (mm_lane 3 x)) = le_word (rotate1 (map aes_sub [a12,a13,a14,a15]))"
    by (simp add: rot_bytes_list del: le_word.simps)
  moreover have "mm_lane 2 (assist x rcon) = le_word (map aes_sub [a12,a13,a14,a15])"
    "mm_lane 3 (assist x rcon) = le_word (rotate1 (map aes_sub [a12,a13,a14,a15])) XOR ucast rcon"
    by (simp_all add: mm_lane_eq_le_word assist_bytes a aes_assist_ref_def Let_def le_word_rcon del: le_word.simps)
  ultimately show "mm_lane 2 (assist x rcon) = sub_bytes (mm_lane 3 x)"
    "mm_lane 3 (assist x rcon) = rot_bytes (sub_bytes (mm_lane 3 x)) XOR ucast rcon" by simp_all
qed

text \<open>One call of the subroutine gives the next two round keys.\<close>

lemma genkey_step:
  assumes "x0 = aes256_key key (2 * n)" "x2 = aes256_key key (2 * n + 1)" "ucast rcon = (2 ^ n :: u32)"
    and y0: "y0 = sl_xor x0 XOR mm_shuffle_epi32 (assist x2 rcon) 0xFF"
    and y2: "y2 = sl_xor x2 XOR mm_shuffle_epi32 (assist y0 0) 0xAA"
  shows "y0 = aes256_key key (2 * n + 2)" "y2 = aes256_key key (2 * n + 3)"
proof -
  let ?w = "aes256_word key"
  have w: "?w (8 * n + 8 + j) = ?w (8 * n + j) XOR (if j = 0 then rot_bytes (sub_bytes (?w (8 * n + 7))) XOR 2 ^ n
      else if j = 4 then sub_bytes (?w (8 * n + 11)) else ?w (8 * n + 7 + j))" if "j < 8" for j
  proof -
    have e: "8 * n + 8 + j = j + 8 * Suc n" by simp
    have "(8 * n + 8 + j) mod 8 = j" using that by (simp only: e mod_mult_self2 mod_less)
    moreover have "(8 * n + 8 + j) div 8 - 1 = n" "8 * n + 8 + j - 8 = 8 * n + j" "8 * n + 8 + j - 1 = 8 * n + 7 + j"
      using that by simp_all
    ultimately show ?thesis by (subst aes256_word.simps) (simp only: Let_def, auto simp: add.commute)
  qed
  have l: "mm_lane 0 x0 = ?w (8 * n)" "mm_lane (Suc 0) x0 = ?w (8 * n + 1)" "mm_lane 2 x0 = ?w (8 * n + 2)" "mm_lane 3 x0 = ?w (8 * n + 3)"
    "mm_lane 0 x2 = ?w (8 * n + 4)" "mm_lane (Suc 0) x2 = ?w (8 * n + 5)" "mm_lane 2 x2 = ?w (8 * n + 6)" "mm_lane 3 x2 = ?w (8 * n + 7)"
    by (simp_all add: assms(1,2) aes256_key_def mm_lane_set algebra_simps)
  have s: "8 * n + 8 + j = 8 * n + (8 + j)" "8 * n + 7 + j = 8 * n + (7 + j)" for j by simp_all
  note ws = w [of 0] w [of 1] w [of 2] w [of 3] w [of 4] w [of 5] w [of 6] w [of 7]
  have y0': "mm_lane 0 y0 = ?w (8 * n + 8)" "mm_lane (Suc 0) y0 = ?w (8 * n + 9)" "mm_lane 2 y0 = ?w (8 * n + 10)" "mm_lane 3 y0 = ?w (8 * n + 11)"
    using ws(1-4) by (simp_all add: y0 mm_lane_xor mm_lane_sl_xor mm_lane_shuffle l assist_lanes assms(3) s ac_simps)
  then show "y0 = aes256_key key (2 * n + 2)"
    by (intro m128_eqI) (simp_all add: aes256_key_def mm_lane_set algebra_simps)
  have "mm_lane 0 y2 = ?w (8 * n + 12)" "mm_lane (Suc 0) y2 = ?w (8 * n + 13)" "mm_lane 2 y2 = ?w (8 * n + 14)" "mm_lane 3 y2 = ?w (8 * n + 15)"
    using ws(5-8) y0' by (simp_all add: y2 mm_lane_xor mm_lane_sl_xor mm_lane_shuffle l assist_lanes s ac_simps)
  then show "y2 = aes256_key key (2 * n + 3)"
    by (intro m128_eqI) (simp_all add: aes256_key_def mm_lane_set algebra_simps)
qed

end

lemma aes_instructions_unit:
  "aes_instructions hw \<longleftrightarrow> aes_unit (mm_aesenc_si128 hw) (mm_aeskeygenassist_si128 hw)"
  by (simp add: aes_instructions_def aes_unit_def)

text \<open>The two software implementations are such units.\<close>

interpretation soft: aes_unit soft_aesenc soft_aeskeygenassist
  by unfold_locales (rule soft_aesenc_eq soft_aeskeygenassist_eq)+

interpretation saes: aes_unit soft_aesenc "\<lambda>x rcon. saes_aeskeygenassist rcon x"
  by unfold_locales (rule soft_aesenc_eq saes_aeskeygenassist_eq)+

lemma mm_words_lanes: "mm_words x = map (\<lambda>i. mm_lane i x) [0..<4]"
proof -
  have "mm_words x = map (\<lambda>i. le_word (take 4 (drop (4 * i) (le_bytes 16 x)))) [0..<4]"
    by (simp add: mm_words_def words_of_def)
  also have "\<dots> = map (\<lambda>i. mm_lane i x) [0..<4]" by (rule map_cong [OF refl]) (simp add: mm_lane_eq_le_word)
  finally show ?thesis .
qed

lemma saes_aesenc_words: "saes_aesenc (mm_words x) key = Some (aes_enc x key)"
  by (simp only: mm_words_lanes saes_aesenc_eq soft.enc_eq)

lemma aes_round_eq:
  assumes "aes_instructions hw \<or> SOFT_AES"
  shows "aes_round hw SOFT_AES key xs = Some (map (\<lambda>x. aes_enc x key) xs)"
proof (cases SOFT_AES)
  case True
  then show ?thesis by (simp add: aes_round_def saes_aesenc_words those_map_Some [OF refl])
next
  case False
  then have "aes_unit (mm_aesenc_si128 hw) (mm_aeskeygenassist_si128 hw)" using assms by (simp add: aes_instructions_unit)
  then show ?thesis using False by (simp add: aes_round_def aes_unit.enc_eq)
qed

lemma aes_rounds_eq:
  assumes "aes_instructions hw \<or> SOFT_AES"
  shows "aes_rounds hw SOFT_AES ks xs = Some (map (\<lambda>x. fold (\<lambda>k x. aes_enc x k) ks x) xs)"
  by (induction ks arbitrary: xs) (simp_all add: aes_round_eq [OF assms] o_def)

lemma genkey_sub_eq:
  assumes "aes_instructions hw \<or> SOFT_AES" "ucast rcon = (2 ^ n :: u32)"
  shows "(if SOFT_AES then soft_aes_genkey_sub rcon else aes_genkey_sub hw rcon) (aes256_key key (2 * n), aes256_key key (2 * n + 1))
    = (aes256_key key (2 * n + 2), aes256_key key (2 * n + 3))"
proof (cases SOFT_AES)
  case True
  then show ?thesis
    using saes.genkey_step [OF refl refl assms(2) refl refl] by (simp add: soft_aes_genkey_sub_def Let_def)
next
  case False
  then have u: "aes_unit (mm_aesenc_si128 hw) (mm_aeskeygenassist_si128 hw)" using assms by (simp add: aes_instructions_unit)
  show ?thesis
    using False aes_unit.genkey_step [OF u refl refl assms(2) refl refl] by (simp add: aes_genkey_sub_def Let_def)
qed

lemma le_word_16:
  assumes "length b = 16"
  shows "(le_word b :: m128) =
    mm_set_epi32 (le_word (drop 12 b)) (le_word (take 4 (drop 8 b))) (le_word (take 4 (drop 4 b))) (le_word (take 4 b))"
proof (rule m128_eqI)
qed (use assms in \<open>simp_all add: mm_lane_set mm_lane_eq_le_word le_bytes_le_word\<close>)

lemma mm_load_Some: "16 dvd a \<Longrightarrow> a + 16 \<le> length mem \<Longrightarrow> mm_load_si128 mem a = Some (le_word (take 16 (drop a mem)))"
  by (simp add: mm_load_si128_def mem_simps)

lemma aes_genkey_eq:
  assumes "aes_instructions hw \<or> SOFT_AES" "16 dvd memory" "memory + 32 \<le> length mem"
  shows "aes_genkey hw SOFT_AES mem memory = Some (aes256_keys (take 32 (drop memory mem)))"
proof -
  define b where "b = take 32 (drop memory mem)"
  let ?key = "words_of 4 b :: u32 list"
  have b: "length b = 32" using assms(3) by (simp add: b_def)
  have w: "aes256_word ?key i = le_word (take 4 (drop (4 * i) b))" if "i < 8" for i
    using that by (subst aes256_word.simps) (simp add: words_of_def b)
  have d: "16 dvd memory + 16" using assms(2) by simp
  have k0: "mm_load_si128 mem memory = Some (aes256_key ?key 0)"
  proof -
    have "take 16 (drop memory mem) = take 16 b" by (simp add: b_def)
    then show ?thesis using assms(2,3) b by (simp add: mm_load_Some le_word_16 aes256_key_def w drop_take)
  qed
  have k1: "mm_load_si128 mem (memory + 16) = Some (aes256_key ?key 1)"
  proof -
    have "take 16 (drop (memory + 16) mem) = take 16 (drop 16 b)" by (simp add: b_def drop_take add.commute)
    then show ?thesis using d assms(3) b by (simp add: mm_load_Some le_word_16 aes256_key_def w drop_take)
  qed
  note s = genkey_sub_eq [OF assms(1), where key = ?key]
  have s: "(if SOFT_AES then soft_aes_genkey_sub 1 else aes_genkey_sub hw 1) (aes256_key ?key 0, aes256_key ?key 1) = (aes256_key ?key 2, aes256_key ?key 3)"
    "(if SOFT_AES then soft_aes_genkey_sub 2 else aes_genkey_sub hw 2) (aes256_key ?key 2, aes256_key ?key 3) = (aes256_key ?key 4, aes256_key ?key 5)"
    "(if SOFT_AES then soft_aes_genkey_sub 4 else aes_genkey_sub hw 4) (aes256_key ?key 4, aes256_key ?key 5) = (aes256_key ?key 6, aes256_key ?key 7)"
    "(if SOFT_AES then soft_aes_genkey_sub 8 else aes_genkey_sub hw 8) (aes256_key ?key 6, aes256_key ?key 7) = (aes256_key ?key 8, aes256_key ?key 9)"
    using s [of 1 0] s [of 2 1] s [of 4 2] s [of 8 3] by (simp_all add: numeral_2_eq_2 [symmetric])
  have u: "[0..<10] = [0,1,2,3,4,5,6,7,8,9::nat]" by (simp add: upt_conv_Cons)
  show ?thesis
    unfolding aes_genkey_def k0 k1 Let_def bind.bind_lunit s prod.case aes256_keys_def b_def [symmetric] u by simp
qed

lemma length_aes256_keys: "length (aes256_keys key) = 10"
  by (simp add: aes256_keys_def)

section \<open>Properties\<close>

text \<open>
  The 32-bit build computes the same products and reads the same halves: \<open>__umul128\<close> of both
  builds returns the low and stores the high word of the full 128-bit product.
\<close>

theorem umul128_full_product:
  "umul128_i386 a b = umul128 a b \<and> EXTRACT64_i386 X = EXTRACT64 X \<and>
   unat (fst (umul128 a b)) + 2 ^ 64 * unat (snd (umul128 a b)) = unat a * unat b"
  using umul128_i386_eq extract64_i386 unat_umul128 [of a b] mod_mult_div_eq [of "unat a * unat b" "2 ^ 64"] by simp

text \<open>
  \<open>aes_genkey\<close> gives the first ten round keys of the AES-256 key schedule of the 32 bytes it
  reads, in software and with processor instructions that do what is documented of them.
\<close>

theorem aes_genkey_is_aes256:
  assumes "aes_instructions hw \<or> SOFT_AES" "16 dvd memory" "memory + 32 \<le> length mem"
  shows "aes_genkey hw SOFT_AES mem memory = Some (aes256_keys (take 32 (drop memory mem)))"
  using assms by (rule aes_genkey_eq)

definition soft_unit :: aesni where
  "soft_unit = \<lparr>mm_aesenc_si128 = soft_aesenc, mm_aeskeygenassist_si128 = soft_aeskeygenassist\<rparr>"

lemma soft_unit_instructions: "aes_instructions soft_unit"
  using soft.aes_unit_axioms by (simp add: aes_instructions_unit soft_unit_def)

theorem aes_genkey_is_aes256_witness:
  "aes_genkey soft_unit False (replicate 200 3) 32 = Some (aes256_keys (replicate 32 3))"
  using aes_genkey_is_aes256 [of soft_unit False 32 "replicate 200 3"] soft_unit_instructions by simp

end
