(* ===== verification/Cryptonight.thy ===== *)
theory Cryptonight
  imports Prelude Keccak Blake256 Groestl Jh Skein Cryptonight_Aes
begin

text \<open>
  The CryptoNight proof-of-work hash: the template \<open>cryptonight_single_hash\<close> of
  \<open>src/src/crypto/CryptoNight_x86.h\<close>, the constants and the context of \<open>CryptoNight.h\<close>
  and the variant 1 macros of \<open>CryptoNight_monero.h\<close>. The template parameters are arguments, and
  the scratchpad is the byte buffer of the context, accessed by aligned registers, 64-bit words
  and single bytes as in the code; an access outside a buffer or off its alignment is \<open>None\<close>.
  The reference works on a list of 128-bit cells: AES-256 round keys, pseudo-rounds that fill the
  cells, the memory-hard loop, the fold back and one of four hash functions.
\<close>

unbundle bit_operations_syntax

section \<open>Constants and context\<close>

definition AEON_MEMORY :: nat where
  "AEON_MEMORY = 1048576"

definition AEON_MASK :: u64 where
  "AEON_MASK = 0xFFFF0"

definition AEON_ITER :: nat where
  "AEON_ITER = 0x40000"

definition MONERO_MEMORY :: nat where
  "MONERO_MEMORY = 2097152"

definition MONERO_MASK :: u64 where
  "MONERO_MASK = 0x1FFFF0"

definition MONERO_ITER :: nat where
  "MONERO_ITER = 0x80000"

record cryptonight_ctx =
  state0 :: bytes
  state1 :: bytes
  memory :: bytes

text \<open>
  What the locals of the called functions hold before they are written: the buffer of
  \<open>keccak\<close> and the states of the four hash functions.
\<close>

record cn_stack =
  cs_temp :: bytes
  cs_blake :: blake_state
  cs_groestl :: groestl_state
  cs_jh :: jh_state
  cs_skein :: skein_ctx

section \<open>The last hash\<close>

definition do_blake_hash :: "cn_stack \<Rightarrow> bytes \<Rightarrow> nat \<Rightarrow> bytes option" where
  "do_blake_hash S inp len = blake256_hash (cs_blake S) inp len"

definition do_groestl_hash :: "cn_stack \<Rightarrow> bytes \<Rightarrow> nat \<Rightarrow> bytes option" where
  "do_groestl_hash S inp len = groestl (cs_groestl S) inp (len * 8)"

definition do_jh_hash :: "cn_stack \<Rightarrow> bytes \<Rightarrow> nat \<Rightarrow> bytes option" where
  "do_jh_hash S inp len = map_option snd (jh_hash (cs_jh S) (32 * 8) inp (of_nat (8 * len)))"

definition do_skein_hash :: "cn_stack \<Rightarrow> bytes \<Rightarrow> nat \<Rightarrow> bytes option" where
  "do_skein_hash S inp len = xmr_skein (cs_skein S) inp"

definition extra_hashes :: "(cn_stack \<Rightarrow> bytes \<Rightarrow> nat \<Rightarrow> bytes option) list" where
  "extra_hashes = [do_blake_hash, do_groestl_hash, do_jh_hash, do_skein_hash]"

section \<open>Filling and folding the scratchpad\<close>

text \<open>The eight loads and stores of consecutive registers.\<close>

fun mm_loads :: "bytes \<Rightarrow> nat \<Rightarrow> nat \<Rightarrow> m128 list option" where
  "mm_loads mem a 0 = Some []"
| "mm_loads mem a (Suc n) =
    do {
      x \<leftarrow> mm_load_si128 mem a;
      xs \<leftarrow> mm_loads mem (a + 16) n;
      Some (x # xs)
    }"

fun mm_stores :: "bytes \<Rightarrow> nat \<Rightarrow> m128 list \<Rightarrow> bytes option" where
  "mm_stores mem a [] = Some mem"
| "mm_stores mem a (x # xs) =
    do {
      mem \<leftarrow> mm_store_si128 mem a x;
      mm_stores mem (a + 16) xs
    }"

function cn_explode_loop ::
  "aesni \<Rightarrow> bool \<Rightarrow> nat \<Rightarrow> m128 list \<Rightarrow> nat \<Rightarrow> m128 list \<Rightarrow> bytes \<Rightarrow> bytes option" where
  "cn_explode_loop hw SOFT_AES MEM ks i xin out =
    (if i < MEM div 16
     then do {
       xin \<leftarrow> aes_rounds hw SOFT_AES ks xin;
       out \<leftarrow> mm_stores out (16 * i) xin;
       cn_explode_loop hw SOFT_AES MEM ks (i + 8) xin out
     }
     else Some out)"
  by pat_completeness auto
termination
  by (relation "measure (\<lambda>(hw, s, MEM, ks, i, xin, out). MEM div 16 - i)") auto

declare cn_explode_loop.simps [simp del]

definition cn_explode_scratchpad :: "aesni \<Rightarrow> nat \<Rightarrow> bool \<Rightarrow> bytes \<Rightarrow> bytes \<Rightarrow> bytes option" where
  "cn_explode_scratchpad hw MEM SOFT_AES inp out =
    do {
      ks \<leftarrow> aes_genkey hw SOFT_AES inp 0;
      xin \<leftarrow> mm_loads inp (16 * 4) 8;
      cn_explode_loop hw SOFT_AES MEM ks 0 xin out
    }"

function cn_implode_loop ::
  "aesni \<Rightarrow> bool \<Rightarrow> nat \<Rightarrow> m128 list \<Rightarrow> nat \<Rightarrow> bytes \<Rightarrow> m128 list \<Rightarrow> m128 list option" where
  "cn_implode_loop hw SOFT_AES MEM ks i inp xout =
    (if i < MEM div 16
     then do {
       xin \<leftarrow> mm_loads inp (16 * i) 8;
       xout \<leftarrow> aes_rounds hw SOFT_AES ks (map2 (XOR) xin xout);
       cn_implode_loop hw SOFT_AES MEM ks (i + 8) inp xout
     }
     else Some xout)"
  by pat_completeness auto
termination
  by (relation "measure (\<lambda>(hw, s, MEM, ks, i, inp, xout). MEM div 16 - i)") auto

declare cn_implode_loop.simps [simp del]

definition cn_implode_scratchpad :: "aesni \<Rightarrow> nat \<Rightarrow> bool \<Rightarrow> bytes \<Rightarrow> bytes \<Rightarrow> bytes option" where
  "cn_implode_scratchpad hw MEM SOFT_AES inp out =
    do {
      ks \<leftarrow> aes_genkey hw SOFT_AES out (16 * 2);
      xout \<leftarrow> mm_loads out (16 * 4) 8;
      xout \<leftarrow> cn_implode_loop hw SOFT_AES MEM ks 0 inp xout;
      mm_stores out (16 * 4) xout
    }"

section \<open>Variant 1\<close>

definition VARIANT1_INIT :: "int \<Rightarrow> bytes \<Rightarrow> bytes \<Rightarrow> u64 option" where
  "VARIANT1_INIT VARIANT inp state =
    (if VARIANT > 0
     then do {
       a \<leftarrow> load inp 35 8;
       b \<leftarrow> load state (8 * 24) 8;
       Some (le_word a XOR le_word b)
     }
     else Some 0)"

text \<open>The shifts are done in \<open>int\<close> and on the 32-bit table.\<close>

definition variant1_tmp :: "u8 \<Rightarrow> u8" where
  "variant1_tmp tmp =
    (let table = 0x75310 :: u32;
         index = push_bit 1 ((drop_bit 3 tmp AND 6) OR (tmp AND 1))
     in tmp XOR ucast (drop_bit (unat index) table AND 0x30))"

definition VARIANT1_1 :: "int \<Rightarrow> bytes \<Rightarrow> nat \<Rightarrow> bytes option" where
  "VARIANT1_1 VARIANT mem p =
    (if VARIANT > 0
     then do {
       tmp \<leftarrow> get_at mem (p + 11);
       put_at mem (p + 11) (variant1_tmp tmp)
     }
     else Some mem)"

definition VARIANT1_2 :: "int \<Rightarrow> u64 \<Rightarrow> u64 \<Rightarrow> u64" where
  "VARIANT1_2 VARIANT tweak1_2 p = (if VARIANT > 0 then p XOR tweak1_2 else p)"

section \<open>The memory-hard loop\<close>

text \<open>The locals of the loop; \<open>l0\<close> is the scratchpad.\<close>

record cn_vars =
  al0 :: u64
  ah0 :: u64
  bx0 :: m128
  idx0 :: u64
  l0 :: bytes

text \<open>The AES round of the loop: in software it reads four 32-bit words through the pointer.\<close>

definition cn_aes :: "aesni \<Rightarrow> bool \<Rightarrow> bytes \<Rightarrow> nat \<Rightarrow> m128 \<Rightarrow> m128 option" where
  "cn_aes hw SOFT_AES mem a key =
    (if SOFT_AES
     then do {
       b \<leftarrow> load mem a 16;
       saes_aesenc (words_of 4 b) key
     }
     else do {
       cx \<leftarrow> mm_load_si128 mem a;
       Some (mm_aesenc_si128 hw cx key)
     })"

definition cn_iteration :: "aesni \<Rightarrow> u64 \<Rightarrow> bool \<Rightarrow> int \<Rightarrow> u64 \<Rightarrow> cn_vars \<Rightarrow> cn_vars option" where
  "cn_iteration hw MASK SOFT_AES VARIANT tweak v =
    do {
      let p = unat (idx0 v AND MASK);
      cx \<leftarrow> cn_aes hw SOFT_AES (l0 v) p (mm_set_epi64x (ah0 v) (al0 v));
      mem \<leftarrow> mm_store_si128 (l0 v) p (bx0 v XOR cx);
      mem \<leftarrow> VARIANT1_1 VARIANT mem p;
      let idx = EXTRACT64 cx;
      let q = unat (idx AND MASK);
      cl \<leftarrow> load mem q 8;
      let cl = le_word cl;
      ch \<leftarrow> load mem (q + 8) 8;
      let ch = le_word ch;
      let (lo, hi) = umul128 idx cl;
      let al = al0 v + hi;
      let ah = ah0 v + lo;
      let ah = VARIANT1_2 VARIANT tweak ah;
      mem \<leftarrow> store mem q (le_bytes 8 al);
      mem \<leftarrow> store mem (q + 8) (le_bytes 8 ah);
      let ah = VARIANT1_2 VARIANT tweak ah;
      let ah = ah XOR ch;
      let al = al XOR cl;
      Some \<lparr>al0 = al, ah0 = ah, bx0 = cx, idx0 = al, l0 = mem\<rparr>
    }"

fun cn_loop :: "aesni \<Rightarrow> u64 \<Rightarrow> bool \<Rightarrow> int \<Rightarrow> u64 \<Rightarrow> nat \<Rightarrow> cn_vars \<Rightarrow> cn_vars option" where
  "cn_loop hw MASK SOFT_AES VARIANT tweak 0 v = Some v"
| "cn_loop hw MASK SOFT_AES VARIANT tweak (Suc n) v =
    do {
      v \<leftarrow> cn_iteration hw MASK SOFT_AES VARIANT tweak v;
      cn_loop hw MASK SOFT_AES VARIANT tweak n v
    }"

section \<open>The hash\<close>

text \<open>The values of the locals before the loop, from the eight 64-bit words \<open>h0\<close> at the state.\<close>

definition cn_enter :: "bytes \<Rightarrow> bytes \<Rightarrow> cn_vars" where
  "cn_enter state mem =
    (let h0 = words_of 8 state
     in \<lparr>al0 = h0 ! 0 XOR h0 ! 4, ah0 = h0 ! 1 XOR h0 ! 5,
         bx0 = mm_set_epi64x (h0 ! 3 XOR h0 ! 7) (h0 ! 2 XOR h0 ! 6),
         idx0 = h0 ! 0 XOR h0 ! 4, l0 = mem\<rparr>)"

text \<open>
  The result are the bytes written to \<open>output\<close> and the context. \<open>(int) size\<close> (here \<open>len\<close>) wraps at 32
  bits; \<open>keccak\<close> copies a negative number of bytes when it comes out negative, \<open>None\<close>.
\<close>

definition cryptonight_single_hash ::
  "aesni \<Rightarrow> cn_stack \<Rightarrow> nat \<Rightarrow> nat \<Rightarrow> u64 \<Rightarrow> bool \<Rightarrow> int \<Rightarrow> bytes \<Rightarrow> nat \<Rightarrow> cryptonight_ctx \<Rightarrow>
    (bytes \<times> cryptonight_ctx) option" where
  "cryptonight_single_hash hw S ITERATIONS MEM MASK SOFT_AES VARIANT inp len ctx =
    do {
      let inlen = sint (of_nat len :: 32 word);
      md \<leftarrow> (if inlen < 0 then None else keccak (cs_temp S) inp (nat inlen) 200);
      st \<leftarrow> store (state0 ctx) 0 md;
      tweak1_2_0 \<leftarrow> VARIANT1_INIT VARIANT inp st;
      mem \<leftarrow> cn_explode_scratchpad hw MEM SOFT_AES st (memory ctx);
      v \<leftarrow> cn_loop hw MASK SOFT_AES VARIANT tweak1_2_0 ITERATIONS (cn_enter st mem);
      st \<leftarrow> cn_implode_scratchpad hw MEM SOFT_AES (l0 v) st;
      let st = bytes_of 8 (keccakf (words_of 8 st) 24);
      b \<leftarrow> get_at st 0;
      out \<leftarrow> (extra_hashes ! unat (b AND 3)) S st 200;
      Some (out, ctx\<lparr>state0 := st, memory := l0 v\<rparr>)
    }"

section \<open>Reference\<close>

text \<open>The two halves of a cell, and the product and the sum of the loop.\<close>

definition lo64 :: "m128 \<Rightarrow> u64" where
  "lo64 w = ucast w"

definition hi64 :: "m128 \<Rightarrow> u64" where
  "hi64 w = ucast (drop_bit 64 w)"

definition cn_mul :: "u64 \<Rightarrow> u64 \<Rightarrow> m128" where
  "cn_mul x y =
    (let p = unat x * unat y in mm_set_epi64x (of_nat (p mod 2 ^ 64)) (of_nat (p div 2 ^ 64)))"

definition cn_add :: "m128 \<Rightarrow> m128 \<Rightarrow> m128" where
  "cn_add x y = mm_set_epi64x (hi64 x + hi64 y) (lo64 x + lo64 y)"

text \<open>Ten rounds, without the first key addition and with a full last round.\<close>

definition cn_pseudo_round :: "m128 list \<Rightarrow> m128 \<Rightarrow> m128" where
  "cn_pseudo_round ks x = fold (\<lambda>k x. aes_enc x k) ks x"

text \<open>\<open>n\<close> groups of eight cells, each encrypting the one before; and their combination.\<close>

fun cn_fill :: "m128 list \<Rightarrow> nat \<Rightarrow> m128 list \<Rightarrow> m128 list" where
  "cn_fill ks 0 xs = []"
| "cn_fill ks (Suc n) xs = (let ys = map (cn_pseudo_round ks) xs in ys @ cn_fill ks n ys)"

definition cn_combine :: "m128 list \<Rightarrow> m128 list \<Rightarrow> m128 list \<Rightarrow> m128 list" where
  "cn_combine ks pad xs =
     fold (\<lambda>c xs. map (cn_pseudo_round ks) (map2 (XOR) c xs)) (full_blocks 8 pad) xs"

text \<open>The cell that a word addresses among \<open>n\<close> cells.\<close>

definition cn_cell :: "nat \<Rightarrow> m128 \<Rightarrow> nat" where
  "cn_cell n a = unat (lo64 a) div 16 mod n"

text \<open>Variant 1 changes byte 11 of a cell after the first write, and the upper half in the second.\<close>

definition cn_tweak_byte :: "int \<Rightarrow> m128 \<Rightarrow> m128" where
  "cn_tweak_byte VARIANT w =
    (if VARIANT > 0 then le_word ((le_bytes 16 w)[11 := variant1_tmp (le_bytes 16 w ! 11)]) else w)"

definition cn_tweak_half :: "int \<Rightarrow> u64 \<Rightarrow> m128 \<Rightarrow> m128" where
  "cn_tweak_half VARIANT tweak w = (if VARIANT > 0 then w XOR mm_set_epi64x tweak 0 else w)"

text \<open>One iteration on the registers \<open>a\<close> and \<open>b\<close> and the cells.\<close>

definition cn_step :: "int \<Rightarrow> u64 \<Rightarrow> m128 \<times> m128 \<times> m128 list \<Rightarrow> m128 \<times> m128 \<times> m128 list" where
  "cn_step VARIANT tweak = (\<lambda>(a, b, pad).
    (let i = cn_cell (length pad) a;
         c = aes_enc (pad ! i) a;
         pad = pad[i := cn_tweak_byte VARIANT (b XOR c)];
         j = cn_cell (length pad) c;
         d = pad ! j;
         s = cn_add a (cn_mul (lo64 c) (lo64 d))
     in (s XOR d, c, pad[j := cn_tweak_half VARIANT tweak s])))"

definition cn_finals :: "(bytes \<Rightarrow> bytes) list" where
  "cn_finals = [blake_hash_ref blake256_iv 0x81 0x01, groestl_hash_ref,
     \<lambda>m. jh_hash_ref 256 m (8 * length m), \<lambda>m. skein_hash_ref 256 m (8 * length m)]"

text \<open>The hash of a message with \<open>n\<close> cells; the tweak is read at byte 35 of the message.\<close>

definition cryptonight_ref :: "nat \<Rightarrow> nat \<Rightarrow> int \<Rightarrow> bytes \<Rightarrow> bytes" where
  "cryptonight_ref iterations n VARIANT m =
    (let st = bytes_of 8 (keccak_sponge 136 m);
         blk = words_of 16 st;
         tweak = le_word (take 8 (drop 35 m)) XOR le_word (drop 192 st);
         pad = cn_fill (aes256_keys (take 32 st)) (n div 8) (take 8 (drop 4 blk));
         (a, b, pad) = (cn_step VARIANT tweak ^^ iterations) (blk ! 0 XOR blk ! 2, blk ! 1 XOR blk ! 3, pad);
         xs = cn_combine (aes256_keys (take 32 (drop 32 st))) pad (take 8 (drop 4 blk));
         st = bytes_of 8 (keccak_p (words_of 8 (take 64 st @ bytes_of 16 xs @ drop 192 st)))
     in (cn_finals ! (unat (st ! 0) mod 4)) st)"

section \<open>The scratchpad as cells\<close>

lemma bytes_of_append: "bytes_of n (xs @ ys) = bytes_of n xs @ bytes_of n ys"
  by (simp add: bytes_of_def)

lemma bytes_of_Cons: "bytes_of n (x # xs) = le_bytes n x @ bytes_of n xs"
  by (simp add: bytes_of_def)

lemma bytes_of_cell:
  assumes "i < length pad"
  obtains A B where "length A = n * i" "bytes_of n pad @ rest = A @ le_bytes n (pad ! i) @ B"
    "\<And>v. bytes_of n (pad[i := v]) @ rest = A @ le_bytes n v @ B"
proof (rule that [of "bytes_of n (take i pad)" "bytes_of n (drop (Suc i) pad) @ rest"])
  show "length (bytes_of n (take i pad)) = n * i" using assms by simp
  show "bytes_of n pad @ rest = bytes_of n (take i pad) @ le_bytes n (pad ! i) @ bytes_of n (drop (Suc i) pad) @ rest"
    using arg_cong [OF id_take_nth_drop [OF assms], of "bytes_of n"] by (simp add: bytes_of_append bytes_of_Cons)
  show "bytes_of n (pad[i := v]) @ rest = bytes_of n (take i pad) @ le_bytes n v @ bytes_of n (drop (Suc i) pad) @ rest" for v
    using arg_cong [OF upd_conv_take_nth_drop [OF assms, of v], of "bytes_of n"] by (simp add: bytes_of_append bytes_of_Cons)
qed

lemma load_inside: "length A = a \<Longrightarrow> i + n \<le> length X \<Longrightarrow> load (A @ X @ B) (a + i) n = Some (take n (drop i X))"
  by (simp add: load_def)

lemma store_inside:
  "length A = a \<Longrightarrow> i + length b \<le> length X \<Longrightarrow>
    store (A @ X @ B) (a + i) b = Some (A @ (take i X @ b @ drop (i + length b) X) @ B)"
  by (simp add: store_def)

lemma get_inside: "length A = a \<Longrightarrow> i < length X \<Longrightarrow> get_at (A @ X @ B) (a + i) = Some (X ! i)"
  by (simp add: get_at_def nth_append)

lemma put_inside: "length A = a \<Longrightarrow> i < length X \<Longrightarrow> put_at (A @ X @ B) (a + i) v = Some (A @ X[i := v] @ B)"
  by (simp add: put_at_def list_update_append)

lemmas insides = load_inside [where i = 0, simplified] store_inside [where i = 0, simplified]

lemma mm_loads_eq:
  assumes "16 dvd a" "a + 16 * n \<le> length mem"
  shows "mm_loads mem a n = Some (words_of 16 (take (16 * n) (drop a mem)))"
  using assms
proof (induction n arbitrary: a)
  case 0
  then show ?case by (simp add: words_of_def)
next
  case (Suc n)
  have "take (16 * Suc n) (drop a mem) = take 16 (drop a mem) @ take (16 * n) (drop (a + 16) mem)"
    by (simp add: take_add add.commute)
  then show ?case using Suc by (simp add: mm_load_Some words_of_append)
qed

lemma mm_stores_eq:
  assumes "16 dvd a" "a + 16 * length xs \<le> length mem"
  shows "mm_stores mem a xs = Some (take a mem @ bytes_of 16 xs @ drop (a + 16 * length xs) mem)"
  using assms
proof (induction xs arbitrary: a mem)
  case Nil
  then show ?case by (simp add: bytes_of_def)
next
  case (Cons x xs)
  let ?m = "take a mem @ le_bytes 16 x @ drop (a + 16) mem"
  have "mm_store_si128 mem a x = Some ?m" using Cons.prems by (simp add: mm_store_si128_def mem_simps)
  moreover have "mm_stores ?m (a + 16) xs = Some (take (a + 16) ?m @ bytes_of 16 xs @ drop (a + 16 + 16 * length xs) ?m)"
    by (rule Cons.IH) (use Cons.prems in simp_all)
  moreover have "take (a + 16) ?m = take a mem @ le_bytes 16 x" "drop (a + 16 + 16 * length xs) ?m = drop (a + 16 * length (x # xs)) mem"
    using Cons.prems by (simp_all add: algebra_simps)
  ultimately show ?case by (simp add: bytes_of_Cons)
qed

section \<open>Filling and folding\<close>

lemma length_cn_fill [simp]: "length (cn_fill ks n xs) = n * length xs"
  by (induction n arbitrary: xs) (simp_all add: Let_def)

lemma aes_rounds_pseudo:
  "aes_instructions hw \<or> SOFT_AES \<Longrightarrow> aes_rounds hw SOFT_AES ks xs = Some (map (cn_pseudo_round ks) xs)"
  by (simp add: aes_rounds_eq cn_pseudo_round_def [abs_def])

lemma cn_explode_loop_eq:
  assumes aes: "aes_instructions hw \<or> SOFT_AES" and "length xs = 8" "16 * (i + 8 * n) \<le> length out"
  shows "cn_explode_loop hw SOFT_AES (16 * (i + 8 * n)) ks i xs out =
    Some (take (16 * i) out @ bytes_of 16 (cn_fill ks n xs) @ drop (16 * (i + 8 * n)) out)"
  using assms(2,3)
proof (induction n arbitrary: i xs out)
  case 0
  then show ?case by (subst cn_explode_loop.simps) (simp add: bytes_of_def)
next
  case (Suc n)
  let ?ys = "map (cn_pseudo_round ks) xs"
  let ?m = "take (16 * i) out @ bytes_of 16 ?ys @ drop (16 * i + 128) out"
  define M where "M = ?m"
  have st: "mm_stores out (16 * i) ?ys = Some M"
    unfolding M_def using Suc.prems by (subst mm_stores_eq) simp_all
  have le: "i < 16 * (i + 8 + 8 * n) div 16" and e: "i + 8 * Suc n = i + 8 + 8 * n" by simp_all
  have t: "take (16 * (i + 8)) M = take (16 * i) out @ bytes_of 16 ?ys"
    "drop (16 * (i + 8 + 8 * n)) M = drop (16 * (i + 8 + 8 * n)) out"
    using Suc.prems by (simp_all add: M_def add.commute add.left_commute)
  have "length M = length out" using Suc.prems by (simp add: M_def)
  then have "cn_explode_loop hw SOFT_AES (16 * (i + 8 + 8 * n)) ks (i + 8) ?ys M =
    Some (take (16 * (i + 8)) M @ bytes_of 16 (cn_fill ks n ?ys) @ drop (16 * (i + 8 + 8 * n)) M)"
    by (intro Suc.IH) (use Suc.prems in simp_all)
  then show ?case
    by (subst cn_explode_loop.simps)
      (simp only: le e if_True aes_rounds_pseudo [OF aes] bind.bind_lunit st t bytes_of_append cn_fill.simps Let_def append.assoc)
qed

lemma cn_implode_loop_eq:
  assumes aes: "aes_instructions hw \<or> SOFT_AES" and "length xs = 8" "length pad = i + 8 * n"
  shows "cn_implode_loop hw SOFT_AES (16 * (i + 8 * n)) ks i (bytes_of 16 pad @ rest) xs =
    Some (cn_combine ks (drop i pad) xs)"
  using assms(2,3)
proof (induction n arbitrary: i xs)
  case 0
  then show ?case by (subst cn_implode_loop.simps) (simp add: cn_combine_def full_blocks_short)
next
  case (Suc n)
  let ?c = "take 8 (drop i pad)"
  have "pad = take i pad @ ?c @ drop (i + 8) pad" 
    using append_take_drop_id [of 8 "drop i pad"] by (simp only: drop_drop append_take_drop_id add.commute [of 8 i])
  then have "bytes_of 16 pad = bytes_of 16 (take i pad) @ bytes_of 16 ?c @ bytes_of 16 (drop (i + 8) pad)"
    by (metis bytes_of_append)
  then have "take (16 * 8) (drop (16 * i) (bytes_of 16 pad @ rest)) = bytes_of 16 ?c"
    using Suc.prems by simp
  then have l: "mm_loads (bytes_of 16 pad @ rest) (16 * i) 8 = Some ?c"
    using Suc.prems by (simp add: mm_loads_eq words_of_bytes_of)
  have le: "i < 16 * (i + 8 + 8 * n) div 16" and e: "i + 8 * Suc n = i + 8 + 8 * n" by simp_all
  have "cn_implode_loop hw SOFT_AES (16 * (i + 8 + 8 * n)) ks (i + 8) (bytes_of 16 pad @ rest) (map (cn_pseudo_round ks) (map2 (XOR) ?c xs))
    = Some (cn_combine ks (drop (i + 8) pad) (map (cn_pseudo_round ks) (map2 (XOR) ?c xs)))"
    by (rule Suc.IH) (use Suc.prems in simp_all)
  moreover have "full_blocks 8 (drop i pad) = ?c # full_blocks 8 (drop (i + 8) pad)"
    using full_blocks_step [of 8 ?c "drop (i + 8) pad"] append_take_drop_id [of 8 "drop i pad"] Suc.prems
    by (simp add: add.commute)
  ultimately show ?case
    by (subst cn_implode_loop.simps)
      (simp only: le e if_True aes_rounds_pseudo [OF aes] bind.bind_lunit l cn_combine_def fold_Cons o_apply)
qed

section \<open>One iteration\<close>

lemma u64_beyond [simp]: "\<not> bit (e :: u64) (64 + n)"
  by (auto dest: bit_imp_le_length)

lemma halves [simp]:
  "mm_set_epi64x (hi64 w) (lo64 w) = w" "lo64 (mm_set_epi64x h l) = l" "hi64 (mm_set_epi64x h l) = h"
  by (auto intro!: bit_word_eqI simp: mm_set_epi64x_def hi64_def lo64_def bit_ucast_iff bit_or_iff bit_push_bit_iff
      bit_drop_bit_eq dest: bit_imp_le_length)

lemma m128_halves_eqI: "lo64 x = lo64 y \<Longrightarrow> hi64 x = hi64 y \<Longrightarrow> x = y"
  by (metis halves(1))

lemma halves_xor [simp]: "lo64 (x XOR y) = lo64 x XOR lo64 y" "hi64 (x XOR y) = hi64 x XOR hi64 y"
  by (auto intro!: bit_word_eqI simp: hi64_def lo64_def bit_ucast_iff bit_xor_iff bit_drop_bit_eq)

lemma EXTRACT64_lo64: "EXTRACT64 x = lo64 x"
  by (simp add: EXTRACT64_def mm_cvtsi128_si64_def lo64_def)

lemma le_bytes_halves: "le_bytes 16 w = le_bytes 8 (lo64 w) @ le_bytes 8 (hi64 w)"
proof (rule nth_equalityI)
  fix i assume i: "i < length (le_bytes 16 w)"
  show "le_bytes 16 w ! i = (le_bytes 8 (lo64 w) @ le_bytes 8 (hi64 w)) ! i"
  proof (cases "i < 8")
    case True
    then show ?thesis
      by (auto intro!: bit_word_eqI simp: nth_append bit_le_bytes_iff lo64_def bit_ucast_iff)
  next
    case False
    then obtain n where n: "i = 8 + n" by (metis le_Suc_ex not_less)
    then show ?thesis
      using i by (auto intro!: bit_word_eqI simp: nth_append bit_le_bytes_iff hi64_def bit_ucast_iff bit_drop_bit_eq algebra_simps)
  qed
qed simp

lemma unat_cn_address:
  assumes "k \<le> 60"
  shows "unat (x AND of_nat (16 * (2 ^ k - 1)) :: u64) = 16 * (unat x div 16 mod 2 ^ k)"
proof -
  have "(of_nat (16 * (2 ^ k - 1)) :: u64) = push_bit 4 (mask k)"
    by (simp add: push_bit_eq_mult mask_eq_exp_minus_1 of_nat_diff)
  then have "x AND of_nat (16 * (2 ^ k - 1)) = push_bit 4 (take_bit k (drop_bit 4 x))"
    by (auto intro!: bit_word_eqI simp: bit_and_iff bit_push_bit_iff bit_take_bit_iff bit_drop_bit_eq bit_mask_iff)
  moreover have "unat (take_bit k (drop_bit 4 x)) = unat x div 16 mod 2 ^ k"
    by (simp only: unsigned_take_bit_eq unat_drop_bit_eq) (simp add: take_bit_eq_mod drop_bit_eq_div)
  moreover have "unat x div 16 mod 2 ^ k < 2 ^ 60"
    using assms by (rule less_le_trans [OF mod_less_divisor power_increasing, rotated]) simp_all
  ultimately show ?thesis by (simp add: push_bit_eq_mult unat_word_ariths)
qed

text \<open>The locals that a state of the reference stands for, before the bytes \<open>rest\<close> of the buffer.\<close>

definition cn_repr :: "bytes \<Rightarrow> m128 \<times> m128 \<times> m128 list \<Rightarrow> cn_vars" where
  "cn_repr rest = (\<lambda>(a, b, pad). \<lparr>al0 = lo64 a, ah0 = hi64 a, bx0 = b, idx0 = lo64 a, l0 = bytes_of 16 pad @ rest\<rparr>)"

lemma cn_aes_eq:
  assumes "aes_instructions hw \<or> SOFT_AES" "length A = 16 * i"
  shows "cn_aes hw SOFT_AES (A @ le_bytes 16 x @ B) (16 * i) key = Some (aes_enc x key)"
proof (cases SOFT_AES)
  case True
  then show ?thesis
    using saes_aesenc_words [of x key] by (simp add: cn_aes_def insides [OF assms(2)] mm_words_def)
next
  case False
  then have "aes_unit (mm_aesenc_si128 hw) (mm_aeskeygenassist_si128 hw)" using assms by (simp add: aes_instructions_unit)
  then show ?thesis
    using False by (simp add: cn_aes_def mm_load_si128_def insides [OF assms(2)] le_word_le_bytes aes_unit.enc_eq)
qed

lemma VARIANT1_1_eq:
  assumes "length A = p"
  shows "VARIANT1_1 VARIANT (A @ le_bytes 16 x @ B) p = Some (A @ le_bytes 16 (cn_tweak_byte VARIANT x) @ B)"
  by (simp add: VARIANT1_1_def get_inside [OF assms] put_inside [OF assms] cn_tweak_byte_def le_bytes_le_word)

lemma umul128_cn_mul: "umul128 x y = (hi64 (cn_mul x y), lo64 (cn_mul x y))"
  unfolding cn_mul_def Let_def halves unat_umul128 [symmetric] by simp

lemma cn_tweak_half_eq:
  "lo64 (cn_tweak_half VARIANT tweak s) = lo64 s" "hi64 (cn_tweak_half VARIANT tweak s) = VARIANT1_2 VARIANT tweak (hi64 s)"
  by (simp_all add: cn_tweak_half_def VARIANT1_2_def)

lemma VARIANT1_2_twice: "VARIANT1_2 VARIANT tweak (VARIANT1_2 VARIANT tweak x) = x"
  by (simp add: VARIANT1_2_def xor.assoc)

lemma length_cn_step: "length (snd (snd (cn_step VARIANT tweak s))) = length (snd (snd s))"
  by (simp add: cn_step_def Let_def split: prod.splits)

lemma cn_iteration_eq:
  assumes aes: "aes_instructions hw \<or> SOFT_AES" and k: "k \<le> 60" "length pad = 2 ^ k"
  shows "cn_iteration hw (of_nat (16 * (2 ^ k - 1))) SOFT_AES VARIANT tweak (cn_repr rest (a, b, pad)) =
    Some (cn_repr rest (cn_step VARIANT tweak (a, b, pad)))"
proof -
  define MASK :: u64 where "MASK = of_nat (16 * (2 ^ k - 1))"
  define i where "i = cn_cell (length pad) a"
  define c where "c = aes_enc (pad ! i) a"
  define x where "x = cn_tweak_byte VARIANT (b XOR c)"
  define pad1 where "pad1 = pad[i := x]"
  define j where "j = cn_cell (length pad) c"
  define d where "d = pad1 ! j"
  define s where "s = cn_add a (cn_mul (lo64 c) (lo64 d))"
  have i: "i < length pad" and j: "j < length pad1" using k by (simp_all add: i_def j_def pad1_def cn_cell_def)
  have p: "unat (lo64 a AND MASK) = 16 * i" and q: "unat (lo64 c AND MASK) = 16 * j"
    using k by (simp_all only: MASK_def unat_cn_address i_def j_def cn_cell_def)
  obtain A B where A: "length A = 16 * i" and m: "bytes_of 16 pad @ rest = A @ le_bytes 16 (pad ! i) @ B"
    and m1: "bytes_of 16 pad1 @ rest = A @ le_bytes 16 x @ B"
    unfolding pad1_def by (rule bytes_of_cell [OF i]) blast
  obtain C D where C: "length C = 16 * j" and n1: "bytes_of 16 pad1 @ rest = C @ le_bytes 16 d @ D"
    and n2: "\<And>v. bytes_of 16 (pad1[j := v]) @ rest = C @ le_bytes 16 v @ D"
    unfolding d_def by (rule bytes_of_cell [OF j]) blast
  have cx: "cn_aes hw SOFT_AES (bytes_of 16 pad @ rest) (16 * i) a = Some c"
    unfolding m c_def by (rule cn_aes_eq [OF aes A])
  have st: "mm_store_si128 (bytes_of 16 pad @ rest) (16 * i) (b XOR c) = Some (A @ le_bytes 16 (b XOR c) @ B)"
    unfolding m mm_store_si128_def using insides(2) [OF A, of "le_bytes 16 (b XOR c)" "le_bytes 16 (pad ! i)" B] by simp
  have v1: "VARIANT1_1 VARIANT (A @ le_bytes 16 (b XOR c) @ B) (16 * i) = Some (bytes_of 16 pad1 @ rest)"
    unfolding VARIANT1_1_eq [OF A] m1 x_def ..
  have cl: "load (bytes_of 16 pad1 @ rest) (16 * j) 8 = Some (le_bytes 8 (lo64 d))"
    and ch: "load (bytes_of 16 pad1 @ rest) (16 * j + 8) 8 = Some (le_bytes 8 (hi64 d))"
    unfolding n1 using insides(1) [OF C, of 8 "le_bytes 16 d" D] load_inside [OF C, of 8 8 "le_bytes 16 d" D]
    by (simp_all add: le_bytes_halves)
  have s1: "store (bytes_of 16 pad1 @ rest) (16 * j) (le_bytes 8 y) = Some (C @ (le_bytes 8 y @ le_bytes 8 (hi64 d)) @ D)"
    and s2: "store (C @ (le_bytes 8 y @ le_bytes 8 (hi64 d)) @ D) (16 * j + 8) (le_bytes 8 z) = Some (C @ (le_bytes 8 y @ le_bytes 8 z) @ D)" for y z :: u64
    unfolding n1 using insides(2) [OF C, of "le_bytes 8 y" "le_bytes 16 d" D]
      store_inside [OF C, of 8 "le_bytes 8 z" "le_bytes 8 y @ le_bytes 8 (hi64 d)" D]
    by (simp_all add: le_bytes_halves)
  have n3: "C @ (le_bytes 8 (lo64 s) @ le_bytes 8 (VARIANT1_2 VARIANT tweak (hi64 s))) @ D =
      bytes_of 16 (pad1[j := cn_tweak_half VARIANT tweak s]) @ rest"
    unfolding n2 by (simp add: le_bytes_halves [of "cn_tweak_half VARIANT tweak s"] cn_tweak_half_eq)
  have ss: "lo64 a + lo64 (cn_mul (lo64 c) (lo64 d)) = lo64 s" "hi64 a + hi64 (cn_mul (lo64 c) (lo64 d)) = hi64 s"
    by (simp_all add: s_def cn_add_def)
  have lw: "le_word (le_bytes 8 (y :: u64)) = y" for y by (simp add: le_word_le_bytes)
  have "cn_step VARIANT tweak (a, b, pad) = (s XOR d, c, pad1[j := cn_tweak_half VARIANT tweak s])"
    by (simp add: cn_step_def Let_def i_def c_def x_def pad1_def j_def d_def s_def)
  then show ?thesis
    unfolding cn_iteration_def cn_repr_def MASK_def [symmetric]
    by (simp add: p q cx st v1 EXTRACT64_lo64 cl ch lw umul128_cn_mul ss s1 s2 [simplified] n3 [simplified] VARIANT1_2_twice Let_def)
qed

lemma cn_loop_eq:
  assumes aes: "aes_instructions hw \<or> SOFT_AES" and k: "k \<le> 60" "length (snd (snd s)) = 2 ^ k"
  shows "cn_loop hw (of_nat (16 * (2 ^ k - 1))) SOFT_AES VARIANT tweak n (cn_repr rest s) =
    Some (cn_repr rest ((cn_step VARIANT tweak ^^ n) s))"
  using k(2)
proof (induction n arbitrary: s)
  case 0
  then show ?case by simp
next
  case (Suc n)
  obtain a b pad where s: "s = (a, b, pad)" by (cases s) auto
  have "length (snd (snd (cn_step VARIANT tweak s))) = 2 ^ k" using Suc.prems by (simp only: length_cn_step)
  then show ?case
    using Suc.IH cn_iteration_eq [OF aes k(1), of pad VARIANT tweak rest a b] Suc.prems
    by (simp add: s funpow_swap1 del: of_nat_mult of_nat_diff)
qed

section \<open>The last hash\<close>

text \<open>What the code relies on: the states of the callee have their buffers.\<close>

definition cn_stack_ready :: "cn_stack \<Rightarrow> bool" where
  "cn_stack_ready S \<longleftrightarrow> length (cs_temp S) = 144 \<and> blake_ready (cs_blake S) \<and> groestl_ready (cs_groestl S) \<and>
     length (jh_buffer (cs_jh S)) = 64 \<and> length (sk_b (cs_skein S)) = 64"

text \<open>An entry of the table: the digest of the 200 bytes of the state, in 32 bytes.\<close>

locale final_hash =
  fixes run :: "cn_stack \<Rightarrow> bytes \<Rightarrow> nat \<Rightarrow> bytes option"
    and digest :: "bytes \<Rightarrow> bytes"
  assumes run_digest: "cn_stack_ready S \<Longrightarrow> length d = 200 \<Longrightarrow> run S d 200 = Some (digest d)"
    and length_digest: "length d = 200 \<Longrightarrow> length (digest d) = 32"
begin

lemma run_32: "cn_stack_ready S \<Longrightarrow> length d = 200 \<Longrightarrow> \<exists>h. run S d 200 = Some h \<and> h = digest d \<and> length h = 32"
  by (simp add: run_digest length_digest)

end

lemma length_ubi_any: "length (ubi G type pad m) = 8"
proof -
  have "length m - 64 * ((length m - 1) div 64) \<le> 64"
    using mult_div_mod_eq [of 64 "length m - 1"] mod_less_divisor [of 64 "length m - 1"] by linarith
  then show ?thesis by (simp add: ubi_def Let_def)
qed

lemma length_skein_hash_ref: "length (skein_hash_ref 256 m n) = 32"
  by (simp add: skein_hash_ref_def Let_def length_ubi_any)

interpretation blake_final: final_hash do_blake_hash "blake_hash_ref blake256_iv 0x81 0x01"
proof unfold_locales
  show "length (blake_hash_ref blake256_iv 0x81 0x01 d) = 32" for d
    by (rule length_blake_hash_ref) (simp add: blake256_iv_def)
qed (simp add: do_blake_hash_def cn_stack_ready_def blake_hashes_eq(1))

interpretation groestl_last: final_hash do_groestl_hash groestl_hash_ref
proof unfold_locales
  show "do_groestl_hash S d 200 = Some (groestl_hash_ref d)" if "cn_stack_ready S" "length d = 200" for S d
    using groestl_eq [of "cs_groestl S" 200 d] that by (simp add: do_groestl_hash_def cn_stack_ready_def)
qed (simp add: length_groestl_hash_ref)

interpretation jh_last: final_hash do_jh_hash "\<lambda>m. jh_hash_ref 256 m (8 * length m)"
proof unfold_locales
  show "do_jh_hash S d 200 = Some (jh_hash_ref 256 d (8 * length d))" if "cn_stack_ready S" "length d = 200" for S d
    using jh_hash_eq [of "cs_jh S" 256 1600 d] that by (simp add: do_jh_hash_def cn_stack_ready_def)
qed (simp add: length_jh_hash_ref)

interpretation skein_last: final_hash do_skein_hash "\<lambda>m. skein_hash_ref 256 m (8 * length m)"
proof unfold_locales
  show "do_skein_hash S d 200 = Some (skein_hash_ref 256 d (8 * length d))" if "cn_stack_ready S" "length d = 200" for S d
    using xmr_skein_eq [of "cs_skein S" d] that by (simp add: do_skein_hash_def cn_stack_ready_def)
qed (simp add: length_skein_hash_ref)

lemma extra_hashes_eq:
  assumes "cn_stack_ready S" "length d = 200" "i < 4"
  shows "(extra_hashes ! i) S d 200 = Some ((cn_finals ! i) d) \<and> length ((cn_finals ! i) d) = 32"
proof -
  have "i \<in> {0, 1, 2, 3}" using assms(3) by auto
  then show ?thesis
    using blake_final.run_32 [OF assms(1,2)] groestl_last.run_32 [OF assms(1,2)] jh_last.run_32 [OF assms(1,2)]
      skein_last.run_32 [OF assms(1,2)]
    by (auto simp: extra_hashes_def cn_finals_def)
qed

section \<open>The whole hash\<close>

lemma length_keccak_sponge_136: "length (keccak_sponge 136 m) = 25"
  unfolding keccak_sponge_def
  by (rule fold_invariant [where Q = "\<lambda>b. length b = 136" and P = "\<lambda>A. length A = 25"])
    (simp_all add: full_blocks_all_length length_keccak_absorb)

lemma keccak_200:
  assumes "length temp = 144" "len \<le> length inp"
  shows "keccak temp inp len 200 = Some (bytes_of 8 (keccak_sponge 136 (take len inp)))"
  using keccak_sponge_eq [of 200 136, OF _ _ _ _ assms] by (simp add: keccak_rsiz_def length_keccak_sponge_136)

lemma state_cells:
  assumes "length st = 200"
  shows "words_of 16 (take 128 (drop 64 st)) = take 8 (drop 4 (words_of 16 st :: m128 list))"
  using assms by (intro nth_equalityI) (simp_all add: words_of_def drop_take add.commute)

lemma cn_explode_eq:
  assumes "aes_instructions hw \<or> SOFT_AES" "length st = 200" "16 * (8 * n) \<le> length mem"
  shows "cn_explode_scratchpad hw (16 * (8 * n)) SOFT_AES st mem =
    Some (bytes_of 16 (cn_fill (aes256_keys (take 32 st)) n (take 8 (drop 4 (words_of 16 st)))) @ drop (16 * (8 * n)) mem)"
proof -
  have l: "mm_loads st 64 8 = Some (take 8 (drop 4 (words_of 16 st)))" using assms(2) by (simp add: mm_loads_eq state_cells)
  have k: "aes_genkey hw SOFT_AES st 0 = Some (aes256_keys (take 32 st))"
    using aes_genkey_eq [OF assms(1), of 0 st] assms(2) by simp
  show ?thesis
    using cn_explode_loop_eq [OF assms(1), of "take 8 (drop 4 (words_of 16 st))" 0 n mem] assms(2,3)
    by (simp add: cn_explode_scratchpad_def l k)
qed

lemma cn_implode_eq:
  assumes "aes_instructions hw \<or> SOFT_AES" "length st = 200" "length pad = 8 * n"
  shows "cn_implode_scratchpad hw (16 * (8 * n)) SOFT_AES (bytes_of 16 pad @ rest) st =
    Some (take 64 st @ bytes_of 16 (cn_combine (aes256_keys (take 32 (drop 32 st))) pad (take 8 (drop 4 (words_of 16 st)))) @ drop 192 st)"
proof -
  let ?xs = "take 8 (drop 4 (words_of 16 st)) :: m128 list"
  have l: "mm_loads st 64 8 = Some ?xs" using assms(2) by (simp add: mm_loads_eq state_cells)
  have k: "aes_genkey hw SOFT_AES st 32 = Some (aes256_keys (take 32 (drop 32 st)))"
    using aes_genkey_eq [OF assms(1), of 32 st] assms(2) by simp
  have c: "length (cn_combine ks pad ?xs) = 8" for ks
    unfolding cn_combine_def
    by (rule fold_invariant [where Q = "\<lambda>b. length b = 8" and P = "\<lambda>A. length A = 8"])
      (use assms(2) in \<open>simp_all add: full_blocks_all_length\<close>)
  then have s: "mm_stores st 64 (cn_combine ks pad ?xs) = Some (take 64 st @ bytes_of 16 (cn_combine ks pad ?xs) @ drop 192 st)" for ks
    using assms(2) by (simp add: mm_stores_eq)
  have "cn_implode_loop hw SOFT_AES (16 * (8 * n)) ks 0 (bytes_of 16 pad @ rest) ?xs = Some (cn_combine ks pad ?xs)" for ks
    using cn_implode_loop_eq [OF assms(1), of ?xs pad 0 n ks rest] assms(2,3) by simp
  then show ?thesis by (simp add: cn_implode_scratchpad_def l k s)
qed

lemma words_of_halves:
  assumes "i < length b div 16"
  shows "words_of 8 b ! (2 * i) = lo64 (words_of 16 b ! i)" "words_of 8 b ! (2 * i + 1) = hi64 (words_of 16 b ! i)"
proof -
  define X where "X = take 16 (drop (16 * i) b)"
  have i: "16 * i + 16 \<le> length b" using assms by (simp add: less_eq_div_iff_mult_less_eq flip: Suc_le_eq)
  then have X: "length X = 16" by (simp add: X_def)
  have "le_bytes 16 (le_word X :: m128) = X" using X by (simp add: le_bytes_le_word)
  then have h: "X = le_bytes 8 (lo64 (le_word X)) @ le_bytes 8 (hi64 (le_word X))" by (simp add: le_bytes_halves)
  have "take 8 X = le_bytes 8 (lo64 (le_word X))" "drop 8 X = le_bytes 8 (hi64 (le_word X))"
    by (subst h, simp)+
  then have "le_word (take 8 X) = lo64 (le_word X)" "le_word (drop 8 X) = hi64 (le_word X)"
    by (simp_all add: le_word_le_bytes)
  moreover have "2 * i + 1 < length b div 8" using i by (simp add: less_eq_div_iff_mult_less_eq flip: Suc_le_eq)
  moreover have "take 8 (drop (8 * (2 * i)) b) = take 8 X" "take 8 (drop (8 * (2 * i + 1)) b) = drop 8 X"
    by (simp_all add: X_def drop_take add.commute)
  ultimately show "words_of 8 b ! (2 * i) = lo64 (words_of 16 b ! i)" "words_of 8 b ! (2 * i + 1) = hi64 (words_of 16 b ! i)"
    using assms by (simp_all add: words_of_def X_def)
qed

lemma cn_enter_eq:
  assumes "length st = 200"
  shows "cn_enter st (bytes_of 16 pad @ rest) = cn_repr rest
    (words_of 16 st ! 0 XOR words_of 16 st ! 2, words_of 16 st ! 1 XOR words_of 16 st ! 3, pad)"
proof -
  have h: "words_of 8 st ! 0 = lo64 (words_of 16 st ! 0)" "words_of 8 st ! 1 = hi64 (words_of 16 st ! 0)"
    "words_of 8 st ! 2 = lo64 (words_of 16 st ! 1)" "words_of 8 st ! 3 = hi64 (words_of 16 st ! 1)"
    "words_of 8 st ! 4 = lo64 (words_of 16 st ! 2)" "words_of 8 st ! 5 = hi64 (words_of 16 st ! 2)"
    "words_of 8 st ! 6 = lo64 (words_of 16 st ! 3)" "words_of 8 st ! 7 = hi64 (words_of 16 st ! 3)"
    using words_of_halves [of 0 st] words_of_halves [of 1 st] words_of_halves [of 2 st] words_of_halves [of 3 st] assms
    by simp_all
  have "mm_set_epi64x (hi64 x XOR hi64 y) (lo64 x XOR lo64 y) = x XOR y" for x y
    by (rule m128_halves_eqI) simp_all
  then show ?thesis unfolding cn_enter_def cn_repr_def Let_def h by simp
qed

lemma cn_step_tweak: "\<not> 0 < VARIANT \<Longrightarrow> cn_step VARIANT t = cn_step VARIANT t'"
  by (simp add: cn_step_def cn_tweak_half_def fun_eq_iff)

lemma length_cn_steps: "length (snd (snd ((cn_step VARIANT tweak ^^ n) s))) = length (snd (snd s))"
  by (induction n) (simp_all add: length_cn_step)

lemma unat_and_3: "unat (b AND 3 :: u8) = unat b mod 4"
proof -
  have "b AND 3 = take_bit 2 b" by (simp add: take_bit_eq_mask mask_eq_exp_minus_1)
  then show ?thesis by (simp only: unsigned_take_bit_eq) (simp add: take_bit_eq_mod)
qed

lemma sint_of_nat_32: "n < 2 ^ 31 \<Longrightarrow> sint (of_nat n :: 32 word) = int n"
  by (simp add: signed_of_nat signed_take_bit_int_eq_self)

definition cn_kept :: "nat \<Rightarrow> cryptonight_ctx \<Rightarrow> cryptonight_ctx \<Rightarrow> bool" where
  "cn_kept MEM ctx ctx' \<longleftrightarrow> length (state0 ctx') = 200 \<and> length (memory ctx') = length (memory ctx) \<and>
     drop MEM (memory ctx') = drop MEM (memory ctx) \<and> state1 ctx' = state1 ctx"

lemma cryptonight_single_hash_eq:
  assumes S: "cn_stack_ready S"
    and k: "3 \<le> k" "k \<le> 60" and mem: "length (state0 ctx) = 200" "16 * 2 ^ k \<le> length (memory ctx)"
    and len: "len \<le> length inp" "len < 2 ^ 31" "0 < VARIANT \<Longrightarrow> 43 \<le> len"
  shows "\<exists>ctx'. cn_kept (16 * 2 ^ k) ctx ctx' \<and> length (cryptonight_ref iters (2 ^ k) VARIANT (take len inp)) = 32 \<and>
    (\<forall>hw SOFT_AES. aes_instructions hw \<or> SOFT_AES \<longrightarrow>
      cryptonight_single_hash hw S iters (16 * 2 ^ k) (of_nat (16 * (2 ^ k - 1))) SOFT_AES VARIANT inp len ctx =
      Some (cryptonight_ref iters (2 ^ k) VARIANT (take len inp), ctx'))"
proof -
  define m where "m = take len inp"
  define st where "st = bytes_of 8 (keccak_sponge 136 m)"
  define blk where "blk = (words_of 16 st :: m128 list)"
  define tweak where "tweak = (le_word (take 8 (drop 35 m)) XOR le_word (drop 192 st) :: u64)"
  define n where "n = (2 ^ k div 8 :: nat)"
  define pad where "pad = cn_fill (aes256_keys (take 32 st)) n (take 8 (drop 4 blk))"
  define rest where "rest = drop (16 * (8 * n)) (memory ctx)"
  obtain a b pad' where s: "(cn_step VARIANT tweak ^^ iters) (blk ! 0 XOR blk ! 2, blk ! 1 XOR blk ! 3, pad) = (a, b, pad')"
    by (cases "(cn_step VARIANT tweak ^^ iters) (blk ! 0 XOR blk ! 2, blk ! 1 XOR blk ! 3, pad)") auto
  define xs where "xs = cn_combine (aes256_keys (take 32 (drop 32 st))) pad' (take 8 (drop 4 blk))"
  define st' where "st' = bytes_of 8 (keccak_p (words_of 8 (take 64 st @ bytes_of 16 xs @ drop 192 st)))"
  define i where "i = unat (st' ! 0) mod 4"
  have n: "8 * n = 2 ^ k" using k(1) le_imp_power_dvd [of 3 k "2 :: nat"] by (simp add: n_def)
  have st: "length st = 200" by (simp add: st_def length_keccak_sponge_136)
  have lp: "length pad = 2 ^ k" using st n by (simp add: pad_def blk_def mult.commute)
  have lp': "length pad' = 8 * n"
    using length_cn_steps [of iters VARIANT tweak "(blk ! 0 XOR blk ! 2, blk ! 1 XOR blk ! 3, pad)"] unfolding s by (simp add: lp n)
  have md: "keccak (cs_temp S) inp len 200 = Some st"
    using keccak_200 [OF _ len(1)] S by (simp add: cn_stack_ready_def st_def m_def)
  have s0: "store (state0 ctx) 0 st = Some st" using mem(1) st by (simp add: store_def)
  define t where "t = (if VARIANT > 0 then tweak else 0)"
  have ti: "VARIANT1_INIT VARIANT inp st = Some t"
    using len st by (auto simp: VARIANT1_INIT_def mem_simps t_def tweak_def m_def drop_take)
  have ex: "aes_instructions hw \<or> SOFT_AES \<Longrightarrow> cn_explode_scratchpad hw (16 * 2 ^ k) SOFT_AES st (memory ctx) = Some (bytes_of 16 pad @ rest)" for hw SOFT_AES
    using cn_explode_eq [OF _ st, of hw SOFT_AES n "memory ctx"] mem(2) by (simp only: n pad_def blk_def rest_def)
  have step: "cn_step VARIANT t = cn_step VARIANT tweak"
    using cn_step_tweak [of VARIANT t tweak] by (cases "0 < VARIANT") (simp_all add: t_def)
  have lo: "aes_instructions hw \<or> SOFT_AES \<Longrightarrow> cn_loop hw (of_nat (16 * (2 ^ k - 1))) SOFT_AES VARIANT t iters (cn_enter st (bytes_of 16 pad @ rest)) = Some (cn_repr rest (a, b, pad'))" for hw SOFT_AES
    unfolding cn_enter_eq [OF st] blk_def [symmetric]
    by (subst cn_loop_eq [OF _ k(2)]) (simp_all only: lp step s snd_conv)
  have l0: "l0 (cn_repr rest (a, b, pad')) = bytes_of 16 pad' @ rest" by (simp add: cn_repr_def)
  have im: "aes_instructions hw \<or> SOFT_AES \<Longrightarrow> cn_implode_scratchpad hw (16 * 2 ^ k) SOFT_AES (bytes_of 16 pad' @ rest) st = Some (take 64 st @ bytes_of 16 xs @ drop 192 st)" for hw SOFT_AES
    using cn_implode_eq [OF _ st lp', of hw SOFT_AES rest] by (simp only: n xs_def blk_def)
  have lxs: "length xs = 8"
    unfolding xs_def cn_combine_def
    by (rule fold_invariant [where Q = "\<lambda>b. length b = 8" and P = "\<lambda>A. length A = 8"])
      (use st in \<open>simp_all add: blk_def full_blocks_all_length\<close>)
  have w: "length (words_of 8 (take 64 st @ bytes_of 16 xs @ drop 192 st) :: u64 list) = 25" using st lxs by simp
  have kf: "bytes_of 8 (keccakf (words_of 8 (take 64 st @ bytes_of 16 xs @ drop 192 st)) 24) = st'"
    unfolding st'_def by (simp add: keccakf_24 [OF w])
  have st': "length st' = 200" by (simp add: st'_def length_keccak_p [OF w])
  have fin: "(extra_hashes ! unat (st' ! 0 AND 3)) S st' 200 = Some ((cn_finals ! i) st')" "length ((cn_finals ! i) st') = 32"
    using extra_hashes_eq [OF S st', of i] by (simp_all add: unat_and_3 i_def)
  have ref: "cryptonight_ref iters (2 ^ k) VARIANT m = (cn_finals ! i) st'"
    unfolding cryptonight_ref_def Let_def st_def [symmetric] blk_def [symmetric] tweak_def [symmetric]
      n_def [symmetric] pad_def [symmetric] s prod.case xs_def [symmetric] st'_def [symmetric] i_def [symmetric] ..
  have g: "get_at st' 0 = Some (st' ! 0)" using st' by (simp add: get_at_Some)
  have H: "cryptonight_single_hash hw S iters (16 * 2 ^ k) (of_nat (16 * (2 ^ k - 1))) SOFT_AES VARIANT inp len ctx =
      Some (cryptonight_ref iters (2 ^ k) VARIANT m, ctx\<lparr>state0 := st', memory := bytes_of 16 pad' @ rest\<rparr>)"
    if "aes_instructions hw \<or> SOFT_AES" for hw SOFT_AES
    unfolding cryptonight_single_hash_def Let_def sint_of_nat_32 [OF len(2)]
    by (simp only: of_nat_less_0_iff if_False nat_int md bind.bind_lunit s0 ti ex [OF that] lo [OF that] l0 im [OF that] kf g fin ref)
  have K: "cn_kept (16 * 2 ^ k) ctx (ctx\<lparr>state0 := st', memory := bytes_of 16 pad' @ rest\<rparr>)"
    using lp' n mem(2) st' by (simp add: cn_kept_def rest_def)
  show ?thesis
    unfolding m_def [symmetric]
    by (intro exI [of _ "ctx\<lparr>state0 := st', memory := bytes_of 16 pad' @ rest\<rparr>"] conjI allI impI)
      (rule K, simp only: ref fin, rule H, assumption)
qed

section \<open>Bounds of the accesses\<close>

lemma cn_split_memory:
  assumes "16 * N \<le> length mem"
  shows "mem = bytes_of 16 (words_of 16 (take (16 * N) mem) :: m128 list) @ drop (16 * N) mem"
    and "length (words_of 16 (take (16 * N) mem) :: m128 list) = N"
proof -
  have "bytes_of 16 (words_of 16 (take (16 * N) mem) :: m128 list) = take (16 * N) mem"
    using assms by (intro bytes_of_words_of) simp_all
  then show "mem = bytes_of 16 (words_of 16 (take (16 * N) mem) :: m128 list) @ drop (16 * N) mem"
    by (simp only: append_take_drop_id)
  show "length (words_of 16 (take (16 * N) mem) :: m128 list) = N" using assms by simp
qed

lemma cn_iteration_inv:
  assumes aes: "aes_instructions hw \<or> SOFT_AES" and k: "k \<le> 60" and v: "16 * 2 ^ k \<le> length (l0 v)" "idx0 v = al0 v"
  shows "\<exists>v'. cn_iteration hw (of_nat (16 * (2 ^ k - 1))) SOFT_AES VARIANT tweak v = Some v' \<and> idx0 v' = al0 v' \<and>
    length (l0 v') = length (l0 v) \<and> drop (16 * 2 ^ k) (l0 v') = drop (16 * 2 ^ k) (l0 v)"
proof -
  define pad where "pad = (words_of 16 (take (16 * 2 ^ k) (l0 v)) :: m128 list)"
  define a where "a = mm_set_epi64x (ah0 v) (al0 v)"
  define rest where "rest = drop (16 * 2 ^ k) (l0 v)"
  note sp = cn_split_memory [OF v(1), folded pad_def rest_def]
  have r: "v = cn_repr rest (a, bx0 v, pad)" using sp(1) v(2) by (simp add: cn_repr_def a_def)
  obtain a' b' pad' where s: "cn_step VARIANT tweak (a, bx0 v, pad) = (a', b', pad')"
    by (cases "cn_step VARIANT tweak (a, bx0 v, pad)") auto
  have "length pad' = 2 ^ k" using length_cn_step [of VARIANT tweak "(a, bx0 v, pad)"] sp(2) unfolding s by simp
  moreover have "cn_iteration hw (of_nat (16 * (2 ^ k - 1))) SOFT_AES VARIANT tweak v = Some (cn_repr rest (a', b', pad'))"
    by (subst r, subst cn_iteration_eq [OF aes k sp(2)]) (simp only: s)
  moreover have "length (l0 v) = 16 * length pad + length rest" by (subst sp(1)) simp
  moreover have "length (l0 (cn_repr rest (a', b', pad'))) = 16 * length pad' + length rest"
    "drop (16 * 2 ^ k) (l0 (cn_repr rest (a', b', pad'))) = rest" "idx0 (cn_repr rest (a', b', pad')) = al0 (cn_repr rest (a', b', pad'))"
    using calculation(1) by (simp_all add: cn_repr_def)
  ultimately show ?thesis using sp(2) rest_def by metis
qed

lemma cn_loop_inv:
  assumes aes: "aes_instructions hw \<or> SOFT_AES" and k: "k \<le> 60" and v: "16 * 2 ^ k \<le> length (l0 v)" "idx0 v = al0 v"
  shows "\<exists>v'. cn_loop hw (of_nat (16 * (2 ^ k - 1))) SOFT_AES VARIANT tweak n v = Some v' \<and> idx0 v' = al0 v' \<and>
    length (l0 v') = length (l0 v) \<and> drop (16 * 2 ^ k) (l0 v') = drop (16 * 2 ^ k) (l0 v)"
  using v
proof (induction n arbitrary: v)
  case 0
  then show ?case by simp
next
  case (Suc n)
  obtain v1 where v1: "cn_iteration hw (of_nat (16 * (2 ^ k - 1))) SOFT_AES VARIANT tweak v = Some v1" "idx0 v1 = al0 v1"
    "length (l0 v1) = length (l0 v)" "drop (16 * 2 ^ k) (l0 v1) = drop (16 * 2 ^ k) (l0 v)"
    using cn_iteration_inv [OF aes k Suc.prems] by blast
  then show ?case using Suc.IH [of v1] Suc.prems by (simp del: of_nat_mult of_nat_diff)
qed

lemma VARIANT1_INIT_short: "0 < VARIANT \<Longrightarrow> length inp < 43 \<Longrightarrow> VARIANT1_INIT VARIANT inp st = None"
  by (simp add: VARIANT1_INIT_def load_None)

lemma cn_sizes:
  "MONERO_MEMORY = 16 * 2 ^ 17" "MONERO_MASK = of_nat (16 * (2 ^ 17 - 1))"
  "AEON_MEMORY = 16 * 2 ^ 16" "AEON_MASK = of_nat (16 * (2 ^ 16 - 1))"
  by (simp_all add: MONERO_MEMORY_def MONERO_MASK_def AEON_MEMORY_def AEON_MASK_def)

lemma variant1_bits:
  "bit (variant1_tmp tmp) n \<longleftrightarrow>
    (bit tmp n \<noteq> (if bit tmp 0 then n = 4 \<and> bit tmp 5 else n = 4 \<or> n = 5 \<and> bit tmp 4))"
proof -
  have k8: "k \<in> {0, 1, 2, 3, 4, 5, 6, 7}" if "k < 8" for k :: nat using that by auto
  have idx: "(drop_bit 3 tmp AND 6) OR (tmp AND 1) =
      (if bit tmp 5 then 4 else 0) OR (if bit tmp 4 then 2 else 0) OR (if bit tmp 0 then 1 else 0 :: u8)"
  proof (rule bit_word_eqI)
    fix k assume "k < LENGTH(8)"
    then have "k \<in> {0, 1, 2, 3, 4, 5, 6, 7}" by (intro k8) simp
    moreover have "bit (if P then c else 0) j \<longleftrightarrow> P \<and> bit c j" for P and c :: u8 and j by simp
    ultimately show "bit ((drop_bit 3 tmp AND 6) OR (tmp AND 1)) k =
        bit ((if bit tmp 5 then 4 else 0) OR (if bit tmp 4 then 2 else 0) OR (if bit tmp 0 then 1 else 0 :: u8)) k"
      by (elim insertE emptyE; simp only: bit_or_iff bit_and_iff bit_drop_bit_eq; simp)
  qed
  have "bit (16 :: int) n \<longleftrightarrow> n = 4" "bit (32 :: int) n \<longleftrightarrow> n = 5"
    using bit_exp_iff [of 4 n, where 'a = int] bit_exp_iff [of 5 n, where 'a = int] by auto
  moreover have "(48 :: int) = 16 OR 32" by simp
  ultimately have c: "bit (16 :: int) n \<longleftrightarrow> n = 4" "bit (48 :: int) n \<longleftrightarrow> n = 4 \<or> n = 5"
    by (simp_all only: bit_or_iff)
  show ?thesis
    unfolding variant1_tmp_def Let_def idx
    by (cases "bit tmp 0"; cases "bit tmp 4"; cases "bit tmp 5") (auto simp: bit_xor_iff bit_ucast_iff c)
qed

section \<open>Properties\<close>

text \<open>
  C1. \<open>cryptonight_single_hash\<close> returns the CryptoNight hash of its message, 32 bytes, for every
  iteration count and every power of two of scratchpad cells that fits the context, in both
  variants, in software and with AES instructions that do what is documented of them: no access
  leaves a buffer, and the rest of the context is kept. Variant 1 needs 43 bytes of message.
\<close>

theorem cryptonight_single_hash_is_cryptonight:
  assumes "aes_instructions hw \<or> SOFT_AES" "cn_stack_ready S" "3 \<le> k" "k \<le> 60"
    and "length (state0 ctx) = 200" "16 * 2 ^ k \<le> length (memory ctx)"
    and "len \<le> length inp" "len < 2 ^ 31" "0 < VARIANT \<Longrightarrow> 43 \<le> len"
  shows "\<exists>ctx'. cryptonight_single_hash hw S iters (16 * 2 ^ k) (of_nat (16 * (2 ^ k - 1))) SOFT_AES VARIANT inp len ctx =
      Some (cryptonight_ref iters (2 ^ k) VARIANT (take len inp), ctx') \<and> cn_kept (16 * 2 ^ k) ctx ctx' \<and>
      length (cryptonight_ref iters (2 ^ k) VARIANT (take len inp)) = 32"
  using cryptonight_single_hash_eq [OF assms(2-9), where iters = iters] assms(1) by blast

definition blank_stack :: cn_stack where
  "blank_stack = \<lparr>cs_temp = replicate 144 9, cs_blake = \<lparr>bl_h = [], bl_s = [], bl_t0 = 1, bl_t1 = 2, bl_buflen = 3, bl_nullt = True,
     bl_buf = replicate 64 4\<rparr>, cs_groestl = \<lparr>gr_chaining = [], gr_counter1 = 5, gr_counter2 = 6, gr_buffer = replicate 64 7,
     gr_buf_ptr = 8, gr_bits = 9\<rparr>, cs_jh = \<lparr>jh_hashbitlen = 1, jh_databitlen = 2, jh_datasize_in_buffer = 3, jh_x = [],
     jh_buffer = replicate 64 4\<rparr>, cs_skein = blank_skein\<rparr>"

definition blank_ctx :: cryptonight_ctx where
  "blank_ctx = \<lparr>state0 = replicate 200 1, state1 = replicate 200 2, memory = replicate MONERO_MEMORY 3\<rparr>"

lemma blank_ready: "cn_stack_ready blank_stack" "length (state0 blank_ctx) = 200" "length (memory blank_ctx) = 16 * 2 ^ 17"
  by (simp_all add: cn_stack_ready_def blank_stack_def blank_skein_def blake_ready_def groestl_ready_def blank_ctx_def MONERO_MEMORY_def)

theorem cryptonight_single_hash_is_cryptonight_witness:
  "\<exists>ctx'. cryptonight_single_hash soft_unit blank_stack MONERO_ITER MONERO_MEMORY MONERO_MASK False 1 (replicate 96 5) 76 blank_ctx =
      Some (cryptonight_ref MONERO_ITER (2 ^ 17) 1 (take 76 (replicate 96 5)), ctx') \<and> cn_kept MONERO_MEMORY blank_ctx ctx' \<and>
      length (cryptonight_ref MONERO_ITER (2 ^ 17) 1 (take 76 (replicate 96 5))) = 32"
  unfolding cn_sizes
  by (rule cryptonight_single_hash_is_cryptonight) (simp_all only: blank_ready soft_unit_instructions length_replicate, simp_all)

text \<open>
  C2. The software and the AES-NI instantiations of the template agree, on the digest and on the
  context they leave.
\<close>

theorem cryptonight_software_is_hardware:
  assumes "aes_instructions hw" "cn_stack_ready S" "3 \<le> k" "k \<le> 60"
    and "length (state0 ctx) = 200" "16 * 2 ^ k \<le> length (memory ctx)"
    and "len \<le> length inp" "len < 2 ^ 31" "0 < VARIANT \<Longrightarrow> 43 \<le> len"
  shows "cryptonight_single_hash hw S iters (16 * 2 ^ k) (of_nat (16 * (2 ^ k - 1))) False VARIANT inp len ctx =
    cryptonight_single_hash hw' S iters (16 * 2 ^ k) (of_nat (16 * (2 ^ k - 1))) True VARIANT inp len ctx"
proof -
  obtain ctx' where "aes_instructions hw \<or> SOFT_AES \<Longrightarrow>
      cryptonight_single_hash hw S iters (16 * 2 ^ k) (of_nat (16 * (2 ^ k - 1))) SOFT_AES VARIANT inp len ctx =
      Some (cryptonight_ref iters (2 ^ k) VARIANT (take len inp), ctx')" for hw SOFT_AES
    using cryptonight_single_hash_eq [OF assms(2-9), where iters = iters] by blast
  then show ?thesis using assms(1) by metis
qed

theorem cryptonight_software_is_hardware_witness:
  "cryptonight_single_hash soft_unit blank_stack AEON_ITER AEON_MEMORY AEON_MASK False 0 (replicate 20 5) 10 blank_ctx =
   cryptonight_single_hash soft_unit blank_stack AEON_ITER AEON_MEMORY AEON_MASK True 0 (replicate 20 5) 10 blank_ctx"
  unfolding cn_sizes
  by (rule cryptonight_software_is_hardware) (simp_all only: blank_ready soft_unit_instructions length_replicate, simp_all)

text \<open>
  C3. The memory-hard loop stays inside the scratchpad: from any scratchpad content, any number of
  iterations returns, the masked addresses being aligned cells below the mask; the length of the
  buffer and everything behind the scratchpad stay, and the address register is the low word of
  the accumulator again.
\<close>

theorem cn_loop_stays_in_scratchpad:
  assumes "aes_instructions hw \<or> SOFT_AES" "k \<le> 60" "16 * 2 ^ k \<le> length (l0 v)" "idx0 v = al0 v"
  shows "\<exists>v'. cn_loop hw (of_nat (16 * (2 ^ k - 1))) SOFT_AES VARIANT tweak n v = Some v' \<and> idx0 v' = al0 v' \<and>
    length (l0 v') = length (l0 v) \<and> drop (16 * 2 ^ k) (l0 v') = drop (16 * 2 ^ k) (l0 v)"
  using assms by (rule cn_loop_inv)

theorem cn_loop_stays_in_scratchpad_witness:
  "\<exists>v'. cn_loop soft_unit AEON_MASK True 1 7 AEON_ITER \<lparr>al0 = 1, ah0 = 2, bx0 = 3, idx0 = 1, l0 = replicate MONERO_MEMORY 4\<rparr> = Some v' \<and>
    idx0 v' = al0 v' \<and> length (l0 v') = MONERO_MEMORY \<and> drop AEON_MEMORY (l0 v') = replicate AEON_MEMORY 4"
  using cn_loop_stays_in_scratchpad [of soft_unit True 16 "\<lparr>al0 = 1, ah0 = 2, bx0 = 3, idx0 = 1, l0 = replicate MONERO_MEMORY 4\<rparr>" 1 7 AEON_ITER]
  unfolding cn_sizes(4) by (simp add: AEON_MEMORY_def MONERO_MEMORY_def)

text \<open>
  C40. Variant 1 reads the eight bytes at offset 35 of the input whatever its length is: a buffer
  of fewer than 43 bytes is read past its end.
\<close>

theorem cryptonight_variant1_overread:
  assumes "0 < VARIANT" "length inp < 43"
  shows "cryptonight_single_hash hw S iters MEM MASK SOFT_AES VARIANT inp len ctx = None"
  using VARIANT1_INIT_short [OF assms] by (simp add: cryptonight_single_hash_def Let_def split: Option.bind_split)

theorem cryptonight_variant1_overread_witness:
  "cryptonight_single_hash soft_unit blank_stack MONERO_ITER MONERO_MEMORY MONERO_MASK True 1 (replicate 42 0) 42 blank_ctx = None"
  by (rule cryptonight_variant1_overread) simp_all

text \<open>
  The byte tweak of variant 1 changes bits 4 and 5 only and is reversible: on even bytes it
  adds one to the number in these two bits, modulo four; on odd bytes it flips bit 4 if bit 5 is set.
\<close>

theorem variant1_tmp_bits:
  "(\<forall>n. bit (variant1_tmp tmp) n \<longleftrightarrow>
    (bit tmp n \<noteq> (if bit tmp 0 then n = 4 \<and> bit tmp 5 else n = 4 \<or> n = 5 \<and> bit tmp 4))) \<and> inj variant1_tmp"
proof (intro conjI allI injI variant1_bits)
  fix x y assume e: "variant1_tmp x = variant1_tmp y"
  have b: "(bit x n \<noteq> (if bit x 0 then n = 4 \<and> bit x 5 else n = 4 \<or> n = 5 \<and> bit x 4)) =
      (bit y n \<noteq> (if bit y 0 then n = 4 \<and> bit y 5 else n = 4 \<or> n = 5 \<and> bit y 4))" for n
    unfolding variant1_bits [symmetric] e ..
  have "bit x 0 = bit y 0" "bit x 4 = bit y 4" "bit x 5 = bit y 5"
    using b [of 0] b [of 4] b [of 5] by (auto split: if_splits)
  then have "bit x n = bit y n" for n using b [of n] by (cases "bit x 0") (simp_all, blast+)
  then show "x = y" by (rule bit_word_eqI)
qed

end
