(* ===== verification/Job.thy ===== *)
theory Job
  imports Prelude
begin

text \<open>
  Mining jobs and their results: \<open>src/src/net/JobId.h\<close>, \<open>Job.h\<close>, \<open>Job.cpp\<close> and
  \<open>JobResult.h\<close>. A C string is the list of its characters without the terminating zero, and a
  pointer that may be null an \<open>option\<close>; \<open>char\<close> is signed, but every comparison below is
  between characters of the ASCII range, so that bytes stand for characters. Fixed buffers are
  byte lists, and an access outside them is \<open>None\<close>, as is a division by zero.
\<close>

unbundle bit_operations_syntax

section \<open>Constants of Options.h\<close>

datatype Algo = ALGO_CRYPTONIGHT | ALGO_CRYPTONIGHT_LITE

definition VARIANT_AUTO :: int where "VARIANT_AUTO = -1"
definition VARIANT_NONE :: int where "VARIANT_NONE = 0"
definition VARIANT_V1 :: int where "VARIANT_V1 = 1"

section \<open>Job identifiers\<close>

text \<open>The 64 bytes of \<open>m_data\<close>.\<close>

type_synonym job_id = bytes

definition JobId_empty :: job_id where
  "JobId_empty = replicate 64 0"

definition JobId_eq :: "job_id \<Rightarrow> job_id \<Rightarrow> bool" where
  "JobId_eq a b \<longleftrightarrow> a = b"

text \<open>
  \<open>size - sizeFix\<close> is unsigned: when it would be negative, \<open>memcpy\<close> is given a huge length.
\<close>

definition setId :: "bytes option \<Rightarrow> nat \<Rightarrow> (bool \<times> job_id) option" where
  "setId str sizeFix =
    (let m_data = replicate 64 0
     in case str of
          None \<Rightarrow> Some (False, m_data)
        | Some s \<Rightarrow>
            if length s \<ge> 64 then Some (False, m_data)
            else if length s < sizeFix then None
            else do {
              m_data \<leftarrow> memcpy m_data 0 s 0 (length s - sizeFix);
              Some (True, m_data)
            })"

definition JobId_isValid :: "job_id \<Rightarrow> bool" where
  "JobId_isValid m_data \<longleftrightarrow> m_data ! 0 \<noteq> 0"

text \<open>The C string at \<open>data()\<close>.\<close>

definition JobId_data :: "job_id \<Rightarrow> bytes" where
  "JobId_data m_data = takeWhile (\<lambda>c. c \<noteq> 0) m_data"

section \<open>Hexadecimal digits\<close>

definition hf_hex2bin :: "u8 \<Rightarrow> bool \<Rightarrow> u8 \<times> bool" where
  "hf_hex2bin c err =
    (if c \<ge> 0x30 \<and> c \<le> 0x39 then (c - 0x30, err)
     else if c \<ge> 0x61 \<and> c \<le> 0x66 then (c - 0x61 + 0xA, err)
     else if c \<ge> 0x41 \<and> c \<le> 0x46 then (c - 0x41 + 0xA, err)
     else (0, True))"

definition hf_bin2hex :: "u8 \<Rightarrow> u8" where
  "hf_bin2hex c = (if c \<le> 0x9 then 0x30 + c else 0x61 - 0xA + c)"

text \<open>The loop of \<open>fromHex\<close>: its result and the output buffer.\<close>

function fromHex_loop :: "bytes \<Rightarrow> nat \<Rightarrow> nat \<Rightarrow> bytes \<Rightarrow> (bool \<times> bytes) option" where
  "fromHex_loop inp len i out =
    (if i < len
     then do {
       c \<leftarrow> get_at inp i;
       let (h, error) = hf_hex2bin c False;
       c \<leftarrow> get_at inp (i + 1);
       let (l, error) = hf_hex2bin c error;
       out \<leftarrow> put_at out (i div 2) (push_bit 4 h OR l);
       if error then Some (False, out) else fromHex_loop inp len (i + 2) out
     }
     else Some (True, out))"
  by pat_completeness auto
termination
  by (relation "measure (\<lambda>(inp, len, i, out). len - i)") auto

declare fromHex_loop.simps [simp del]

definition fromHex :: "bytes \<Rightarrow> nat \<Rightarrow> bytes \<Rightarrow> (bool \<times> bytes) option" where
  "fromHex inp len out = fromHex_loop inp len 0 out"

fun toHex_loop :: "bytes \<Rightarrow> nat list \<Rightarrow> bytes \<Rightarrow> bytes option" where
  "toHex_loop inp [] out = Some out"
| "toHex_loop inp (i # is) out =
    do {
      c \<leftarrow> get_at inp i;
      out \<leftarrow> put_at out (i * 2) (hf_bin2hex (drop_bit 4 (c AND 0xF0)));
      out \<leftarrow> put_at out (i * 2 + 1) (hf_bin2hex (c AND 0x0F));
      toHex_loop inp is out
    }"

definition toHex :: "bytes \<Rightarrow> nat \<Rightarrow> bytes \<Rightarrow> bytes option" where
  "toHex inp len out = toHex_loop inp [0..<len] out"

section \<open>Jobs\<close>

record job =
  j_nicehash :: bool
  j_coin :: bytes
  j_algo :: Algo
  j_poolId :: int
  j_threadId :: int
  j_variant :: int
  j_size :: nat
  j_diff :: u64
  j_target :: u64
  j_blob :: bytes
  j_id :: job_id

definition Job_default :: job where
  "Job_default = \<lparr>j_nicehash = False, j_coin = replicate 5 0, j_algo = ALGO_CRYPTONIGHT, j_poolId = -2,
     j_threadId = -1, j_variant = VARIANT_AUTO, j_size = 0, j_diff = 0, j_target = 0,
     j_blob = replicate 96 0, j_id = JobId_empty\<rparr>"

definition Job_for :: "int \<Rightarrow> bool \<Rightarrow> Algo \<Rightarrow> int \<Rightarrow> job" where
  "Job_for poolId nicehash algo variant = \<lparr>j_nicehash = nicehash, j_coin = replicate 5 0, j_algo = algo,
     j_poolId = poolId, j_threadId = -1, j_variant = variant, j_size = 0, j_diff = 0, j_target = 0,
     j_blob = replicate 96 0, j_id = JobId_empty\<rparr>"

definition Job_isValid :: "job \<Rightarrow> bool" where
  "Job_isValid J \<longleftrightarrow> j_size J > 0 \<and> j_diff J > 0"

definition Job_setId :: "job \<Rightarrow> bytes option \<Rightarrow> (bool \<times> job) option" where
  "Job_setId J str = map_option (\<lambda>(ok, d). (ok, J\<lparr>j_id := d\<rparr>)) (setId str 0)"

text \<open>The 32-bit word at byte 39 of the blob.\<close>

definition Job_nonce :: "job \<Rightarrow> u32" where
  "Job_nonce J = le_word (take 4 (drop 39 (j_blob J)))"

definition Job_setNonce :: "job \<Rightarrow> u32 \<Rightarrow> job" where
  "Job_setNonce J n = J\<lparr>j_blob := take 39 (j_blob J) @ le_bytes 4 n @ drop 43 (j_blob J)\<rparr>"

definition Job_variant :: "job \<Rightarrow> int" where
  "Job_variant J = (if j_variant J = VARIANT_AUTO then (if j_blob J ! 0 > 6 then 1 else 0) else j_variant J)"

definition Job_diff :: "job \<Rightarrow> u32" where
  "Job_diff J = ucast (j_diff J)"

definition toDiff :: "u64 \<Rightarrow> u64 option" where
  "toDiff target = (if target = 0 then None else Some (0xFFFFFFFFFFFFFFFF div target))"

definition setBlob :: "job \<Rightarrow> bytes option \<Rightarrow> (bool \<times> job) option" where
  "setBlob J blob =
    (case blob of
       None \<Rightarrow> Some (False, J)
     | Some s \<Rightarrow>
         (let J = J\<lparr>j_size := length s\<rparr>
          in if j_size J mod 2 \<noteq> 0 then Some (False, J)
             else
               let J = J\<lparr>j_size := j_size J div 2\<rparr>
               in if j_size J < 76 \<or> j_size J \<ge> 96 then Some (False, J)
                  else do {
                    (ok, b) \<leftarrow> fromHex s (j_size J * 2) (j_blob J);
                    let J = J\<lparr>j_blob := b\<rparr>;
                    if \<not> ok then Some (False, J)
                    else if Job_nonce J \<noteq> 0 \<and> \<not> j_nicehash J then Some (True, J\<lparr>j_nicehash := True\<rparr>)
                    else Some (True, J)
                  }))"

text \<open>
  \<open>g\<close> is what the 16 bytes of the uninitialised local \<open>str\<close> hold; the short branch uses eight.
  The words are little-endian, so the bytes written through the cast pointer are their bytes.
\<close>

definition setTarget :: "bytes \<Rightarrow> job \<Rightarrow> bytes option \<Rightarrow> (bool \<times> job) option" where
  "setTarget g J target =
    (case target of
       None \<Rightarrow> Some (False, J)
     | Some s \<Rightarrow>
         if length s \<le> 8 then do {
           str \<leftarrow> memcpy (take 8 g) 0 s 0 (length s);
           (ok, b) \<leftarrow> fromHex str 8 (replicate 4 0);
           let tmp = (le_word b :: u32);
           if \<not> ok \<or> tmp = 0 then Some (False, J)
           else
             let q = 0xFFFFFFFF div (ucast tmp :: u64)
             in if q = 0 then None
                else do {
                  let J = J\<lparr>j_target := 0xFFFFFFFFFFFFFFFF div q\<rparr>;
                  d \<leftarrow> toDiff (j_target J);
                  Some (True, J\<lparr>j_diff := d\<rparr>)
                }
         }
         else if length s \<le> 16 then do {
           str \<leftarrow> memcpy (take 16 g) 0 s 0 (length s);
           (ok, b) \<leftarrow> fromHex str 16 (replicate 8 0);
           let J = J\<lparr>j_target := le_word b\<rparr>;
           if \<not> ok \<or> j_target J = 0 then Some (False, J)
           else do {
             d \<leftarrow> toDiff (j_target J);
             Some (True, J\<lparr>j_diff := d\<rparr>)
           }
         }
         else Some (False, J))"

text \<open>\<open>strncpy\<close> into the five bytes of \<open>j_coin\<close>, and the comparison with \<open>"AEON"\<close>.\<close>

definition setCoin :: "job \<Rightarrow> bytes option \<Rightarrow> job" where
  "setCoin J coin =
    (case coin of
       None \<Rightarrow> J\<lparr>j_coin := replicate 5 0\<rparr>
     | Some s \<Rightarrow>
         if length s > 4 then J\<lparr>j_coin := replicate 5 0\<rparr>
         else
           let J = J\<lparr>j_coin := s @ replicate (5 - length s) 0\<rparr>
           in J\<lparr>j_algo := (if takeWhile (\<lambda>c. c \<noteq> 0) (j_coin J) = [0x41, 0x45, 0x4F, 0x4E]
                           then ALGO_CRYPTONIGHT_LITE else ALGO_CRYPTONIGHT)\<rparr>)"

definition setVariant :: "job \<Rightarrow> int \<Rightarrow> job" where
  "setVariant J variant =
    (if variant = VARIANT_AUTO \<or> variant = VARIANT_NONE \<or> variant = VARIANT_V1 then J\<lparr>j_variant := variant\<rparr> else J)"

definition Job_eq :: "job \<Rightarrow> job \<Rightarrow> bool" where
  "Job_eq a b \<longleftrightarrow> JobId_eq (j_id a) (j_id b) \<and> j_blob a = j_blob b"

section \<open>Results\<close>

record job_result =
  jr_poolId :: int
  jr_jobId :: job_id
  jr_diff :: u32
  jr_nonce :: u32
  jr_result :: bytes

text \<open>The constructors leave \<open>result\<close> as it is: \<open>g\<close> are the bytes it holds.\<close>

definition JobResult_default :: "bytes \<Rightarrow> job_result" where
  "JobResult_default g = \<lparr>jr_poolId = 0, jr_jobId = JobId_empty, jr_diff = 0, jr_nonce = 0, jr_result = g\<rparr>"

definition JobResult_make :: "int \<Rightarrow> job_id \<Rightarrow> u32 \<Rightarrow> bytes \<Rightarrow> u32 \<Rightarrow> job_result option" where
  "JobResult_make poolId jobId nonce result diff =
    do {
      r \<leftarrow> load result 0 32;
      Some \<lparr>jr_poolId = poolId, jr_jobId = jobId, jr_diff = diff, jr_nonce = nonce, jr_result = r\<rparr>
    }"

definition JobResult_of :: "bytes \<Rightarrow> job \<Rightarrow> job_result" where
  "JobResult_of g J = \<lparr>jr_poolId = j_poolId J, jr_jobId = j_id J, jr_diff = Job_diff J,
     jr_nonce = Job_nonce J, jr_result = g\<rparr>"

definition JobResult_assign :: "job_result \<Rightarrow> job \<Rightarrow> job_result" where
  "JobResult_assign R J = R\<lparr>jr_jobId := j_id J, jr_poolId := j_poolId J, jr_diff := Job_diff J\<rparr>"

definition actualDiff :: "job_result \<Rightarrow> u64 option" where
  "actualDiff R = toDiff (le_word (take 8 (drop 24 (jr_result R))))"

section \<open>Reference: hexadecimal strings\<close>

definition hex_value :: "u8 \<Rightarrow> u8 option" where
  "hex_value c =
    (if 0x30 \<le> c \<and> c \<le> 0x39 then Some (c - 0x30)
     else if 0x61 \<le> c \<and> c \<le> 0x66 then Some (c - 0x57)
     else if 0x41 \<le> c \<and> c \<le> 0x46 then Some (c - 0x37)
     else None)"

fun unhex :: "bytes \<Rightarrow> bytes option" where
  "unhex [] = Some []"
| "unhex [c] = None"
| "unhex (a # b # s) =
    do {
      h \<leftarrow> hex_value a;
      l \<leftarrow> hex_value b;
      bs \<leftarrow> unhex s;
      Some ((16 * h + l) # bs)
    }"

definition hex_digit :: "u8 \<Rightarrow> u8" where
  "hex_digit v = [0x30,0x31,0x32,0x33,0x34,0x35,0x36,0x37,0x38,0x39,0x61,0x62,0x63,0x64,0x65,0x66] ! unat v"

fun hex_of :: "bytes \<Rightarrow> bytes" where
  "hex_of [] = []"
| "hex_of (b # bs) = hex_digit (drop_bit 4 b) # hex_digit (b AND 0x0F) # hex_of bs"

definition lower_case :: "u8 \<Rightarrow> u8" where
  "lower_case c = (if 0x41 \<le> c \<and> c \<le> 0x5A then c + 0x20 else c)"

section \<open>The hexadecimal loops\<close>

lemma u8_interval:
  assumes "a \<le> c" "c \<le> b"
  shows "(c :: u8) \<in> set (map of_nat [unat a..<Suc (unat b)])"
proof -
  have "unat c \<in> {unat a..<Suc (unat b)}" using assms by (simp add: word_le_nat_alt)
  moreover have "c = of_nat (unat c)" by simp
  ultimately show ?thesis unfolding set_map set_upt by blast
qed

lemma hex2bin_value: "hf_hex2bin c err = (case hex_value c of Some v \<Rightarrow> (v, err) | None \<Rightarrow> (0, True))"
  by (simp add: hf_hex2bin_def hex_value_def)

lemma digits_check:
  "list_all (\<lambda>v. hf_bin2hex v = hex_digit v \<and> hex_value (hex_digit v) = Some v) (map of_nat [0..<Suc 15])"
  "list_all (\<lambda>c. c - 0x30 \<le> 15 \<and> hex_digit (c - 0x30) = lower_case c) (map of_nat [0x30..<Suc 0x39])"
  "list_all (\<lambda>c. c - 0x57 \<le> 15 \<and> hex_digit (c - 0x57) = lower_case c) (map of_nat [0x61..<Suc 0x66])"
  "list_all (\<lambda>c. c - 0x37 \<le> 15 \<and> hex_digit (c - 0x37) = lower_case c) (map of_nat [0x41..<Suc 0x46])"
  by code_simp+

lemma hex_digit_value:
  assumes "v \<le> 15"
  shows "hf_bin2hex v = hex_digit v" "hex_value (hex_digit v) = Some v"
proof -
  have "0 \<le> v" by simp
  then have "v \<in> set (map of_nat [0..<Suc 15])" using u8_interval [of 0 v 15] assms by simp
  then show "hf_bin2hex v = hex_digit v" "hex_value (hex_digit v) = Some v"
    using digits_check(1) unfolding list_all_iff by blast+
qed

lemma hex_value_digit:
  assumes "hex_value c = Some v"
  shows "v \<le> 15" "hex_digit v = lower_case c"
  using assms digits_check(2-4) u8_interval [of "0x30" c "0x39"] u8_interval [of "0x61" c "0x66"] u8_interval [of "0x41" c "0x46"]
  unfolding list_all_iff by (auto simp: hex_value_def simp del: set_map set_upt split: if_splits)

lemma u8_beyond: "8 \<le> n \<Longrightarrow> \<not> bit (b :: u8) n"
  by (auto dest: bit_imp_le_length)

lemma nibbles:
  fixes b h l :: u8
  shows "drop_bit 4 b \<le> 15" "b AND 0x0F \<le> 15" "16 * drop_bit 4 b + (b AND 0x0F) = b" "drop_bit 4 (b AND 0xF0) = drop_bit 4 b"
    and "h \<le> 15 \<Longrightarrow> l \<le> 15 \<Longrightarrow> push_bit 4 h OR l = 16 * h + l"
    and "h \<le> 15 \<Longrightarrow> l \<le> 15 \<Longrightarrow> drop_bit 4 (16 * h + l) = h \<and> (16 * h + l) AND 0x0F = l"
proof -
  have m: "(x AND 0x0F) = take_bit 4 x" for x :: u8 by (simp add: take_bit_eq_mask mask_eq_exp_minus_1)
  have b: "unat b < 256" using unsigned_less [of b] by simp
  have u: "unat (drop_bit 4 b) = unat b div 16" "unat (b AND 0x0F) = unat b mod 16"
    unfolding m by (simp_all only: unat_drop_bit_eq unsigned_take_bit_eq) (simp_all add: drop_bit_eq_div take_bit_eq_mod)
  show "drop_bit 4 b \<le> 15" "b AND 0x0F \<le> 15" using b by (simp_all add: word_le_nat_alt u)
  have "of_nat (16 * (unat b div 16) + unat b mod 16) = b" by simp
  then show "16 * drop_bit 4 b + (b AND 0x0F) = b" by (simp del: mult_div_mod_eq flip: u)
  show "drop_bit 4 (b AND 0xF0) = drop_bit 4 b"
  proof (rule bit_word_eqI)
    fix k assume "k < LENGTH(8)"
    then have "k = 0 \<or> k = 1 \<or> k = 2 \<or> k = 3 \<or> k = 4 \<or> k = 5 \<or> k = 6 \<or> k = 7" by auto
    then show "bit (drop_bit 4 (b AND 0xF0)) k = bit (drop_bit 4 b) k"
      by (elim disjE) (simp_all add: bit_drop_bit_eq bit_and_iff u8_beyond)
  qed
  assume hl: "h \<le> 15" "l \<le> 15"
  have z: "take_bit 4 l = l" "take_bit 4 h = h" using hl
    by (auto intro!: word_unat_eq_iff [THEN iffD2] simp: unsigned_take_bit_eq take_bit_nat_eq_self word_le_nat_alt)
  then have L: "bit l k \<Longrightarrow> k < 4" "bit h k \<Longrightarrow> k < 4" for k by (metis bit_take_bit_iff)+
  have "\<not> bit (push_bit 4 h) n \<or> \<not> bit l n" for n using L(1) [of n] by (auto simp: bit_push_bit_iff)
  then have "push_bit 4 h + l = push_bit 4 h OR l" by (rule disjunctive_add)
  then show p: "push_bit 4 h OR l = 16 * h + l" by (simp add: push_bit_eq_mult mult.commute)
  show "drop_bit 4 (16 * h + l) = h \<and> (16 * h + l) AND 0x0F = l"
    unfolding p [symmetric] m
    by (auto intro!: bit_word_eqI simp: bit_drop_bit_eq bit_take_bit_iff bit_or_iff bit_push_bit_iff dest: L)
qed

lemma unhex_length: "unhex s = Some bs \<Longrightarrow> length s = 2 * length bs"
  by (induction s arbitrary: bs rule: unhex.induct) (auto split: Option.bind_splits)

lemma length_hex_of [simp]: "length (hex_of bs) = 2 * length bs"
  by (induction bs) simp_all

lemma unhex_hex_of: "unhex (hex_of bs) = Some bs"
  by (induction bs) (simp_all add: hex_digit_value nibbles(1-3))

lemma hex_of_unhex: "unhex s = Some bs \<Longrightarrow> hex_of bs = map lower_case s"
proof (induction s arbitrary: bs rule: unhex.induct)
  case (3 a b s)
  then obtain h l bs' where e: "hex_value a = Some h" "hex_value b = Some l" "unhex s = Some bs'" "bs = (16 * h + l) # bs'"
    by (auto split: Option.bind_splits)
  then show ?case using 3 hex_value_digit [of a h] hex_value_digit [of b l] by (simp add: nibbles(6))
qed simp_all

text \<open>The loop decodes the characters from \<open>2 i\<close> to \<open>2 n\<close> into the output bytes from \<open>i\<close>.\<close>

lemma fromHex_loop_eq:
  assumes "2 * n \<le> length s" "n \<le> length out" "i \<le> n"
  shows "case unhex (take (2 * (n - i)) (drop (2 * i) s)) of
      Some bs \<Rightarrow> fromHex_loop s (2 * n) (2 * i) out = Some (True, take i out @ bs @ drop n out)
    | None \<Rightarrow> \<exists>out'. fromHex_loop s (2 * n) (2 * i) out = Some (False, out') \<and> length out' = length out"
  using assms(2,3)
proof (induction "n - i" arbitrary: i out)
  case 0
  then show ?case by (subst fromHex_loop.simps) simp
next
  case (Suc m)
  then have i: "i < n" by simp
  define a b where "a = s ! (2 * i)" and "b = s ! (2 * i + 1)"
  have g: "get_at s (2 * i) = Some a" "get_at s (2 * i + 1) = Some b"
    using i assms(1) by (simp_all add: get_at_Some a_def b_def)
  have "take (2 * (n - i)) (drop (2 * i) s) = a # b # take (2 * (n - Suc i)) (drop (2 * Suc i) s)"
  proof -
    have "drop (2 * i) s = a # b # drop (2 * Suc i) s"
      using i assms(1) Cons_nth_drop_Suc [of "2 * i" s] Cons_nth_drop_Suc [of "2 * i + 1" s] by (simp add: a_def b_def)
    moreover have "2 * (n - i) = Suc (Suc (2 * (n - Suc i)))" using i by simp
    ultimately show ?thesis by (simp only: take_Suc_Cons)
  qed
  note t = this
  have p: "put_at out i v = Some (out[i := v])" for v using i Suc.prems by (simp add: put_at_Some)
  show ?case
  proof (cases "hex_value a")
    case None
    then show ?thesis
      unfolding t by (subst fromHex_loop.simps) (use i in \<open>simp add: g g(2) [simplified] p hex2bin_value split: option.splits\<close>)
  next
    case a: (Some h)
    show ?thesis
    proof (cases "hex_value b")
      case None
      then show ?thesis
        unfolding t by (subst fromHex_loop.simps) (use i a in \<open>simp add: g g(2) [simplified] p hex2bin_value split: option.splits\<close>)
    next
      case b: (Some l)
      let ?out = "out[i := 16 * h + l]"
      have hl: "push_bit 4 h OR l = 16 * h + l" using hex_value_digit(1) [OF a] hex_value_digit(1) [OF b] by (rule nibbles(5))
      have "take (Suc i) ?out = take i out @ [16 * h + l]" "drop n ?out = drop n out"
        using i Suc.prems by (simp_all add: take_Suc_conv_app_nth)
      moreover have "fromHex_loop s (2 * n) (2 * i) out = fromHex_loop s (2 * n) (2 * Suc i) ?out"
        by (subst fromHex_loop.simps) (use i a b in \<open>simp add: g g(2) [simplified] p hex2bin_value hl\<close>)
      ultimately show ?thesis
        using Suc.hyps(1) [of "Suc i" ?out] Suc.hyps(2) Suc.prems i unfolding t
        by (cases "unhex (take (2 * (n - Suc i)) (drop (2 * Suc i) s))") (simp_all add: a b)
    qed
  qed
qed

lemma fromHex_eq:
  assumes "2 * n \<le> length s" "n \<le> length out"
  shows "case unhex (take (2 * n) s) of
      Some bs \<Rightarrow> fromHex s (2 * n) out = Some (True, bs @ drop n out)
    | None \<Rightarrow> \<exists>out'. fromHex s (2 * n) out = Some (False, out') \<and> length out' = length out"
  using fromHex_loop_eq [OF assms, of 0] by (cases "unhex (take (2 * n) s)") (simp_all add: fromHex_def)

lemma toHex_loop_eq:
  assumes "i + n \<le> length bs" "2 * (i + n) \<le> length out"
  shows "toHex_loop bs [i..<i + n] out = Some (take (2 * i) out @ hex_of (take n (drop i bs)) @ drop (2 * (i + n)) out)"
  using assms
proof (induction n arbitrary: i out)
  case 0
  then show ?case by simp
next
  case (Suc n)
  define b where "b = bs ! i"
  let ?o = "out[i * 2 := hex_digit (drop_bit 4 b), i * 2 + 1 := hex_digit (b AND 0x0F)]"
  have u: "[i..<i + Suc n] = i # [Suc i..<Suc i + n]" by (simp add: upt_rec)
  have g: "get_at bs i = Some b" using Suc.prems by (simp add: get_at_Some b_def)
  have d: "take (Suc n) (drop i bs) = b # take n (drop (Suc i) bs)"
    using Suc.prems Cons_nth_drop_Suc [of i bs] by (simp add: b_def flip: take_Suc_Cons)
  have "toHex_loop bs [Suc i..<Suc i + n] ?o = Some (take (2 * Suc i) ?o @ hex_of (take n (drop (Suc i) bs)) @ drop (2 * (Suc i + n)) ?o)"
    by (rule Suc.IH) (use Suc.prems in simp_all)
  moreover have "take (2 * Suc i) ?o = take (2 * i) out @ [hex_digit (drop_bit 4 b), hex_digit (b AND 0x0F)]"
  proof -
    have "2 * Suc i = Suc (Suc (i * 2))" by simp
    then show ?thesis using Suc.prems by (simp add: take_Suc_conv_app_nth mult.commute)
  qed
  moreover have "drop (2 * (Suc i + n)) ?o = drop (2 * (i + Suc n)) out" by simp
  moreover have "toHex_loop bs (i # [Suc i..<Suc i + n]) out = toHex_loop bs [Suc i..<Suc i + n] ?o"
    using Suc.prems unfolding toHex_loop.simps g bind.bind_lunit nibbles(4) hex_digit_value(1) [OF nibbles(1)] hex_digit_value(1) [OF nibbles(2)]
    by (simp add: put_at_Some)
  ultimately show ?case unfolding u d by simp
qed

lemma toHex_eq:
  assumes "n \<le> length bs" "2 * n \<le> length out"
  shows "toHex bs n out = Some (hex_of (take n bs) @ drop (2 * n) out)"
  using toHex_loop_eq [of 0 n bs out] assms by (simp add: toHex_def)

section \<open>Blobs and targets\<close>

text \<open>What \<open>setBlob\<close> takes: an even number of digits, 76 to 95 bytes of them.\<close>

definition blob_string :: "bytes \<Rightarrow> bytes \<Rightarrow> bool" where
  "blob_string s bs \<longleftrightarrow> unhex s = Some bs \<and> 76 \<le> length bs \<and> length bs < 96"

lemma setBlob_accepts:
  assumes "length (j_blob J) = 96" "blob_string s bs"
  shows "\<exists>J'. setBlob J (Some s) = Some (True, J') \<and>
    J' = J\<lparr>j_size := length bs, j_blob := bs @ drop (length bs) (j_blob J),
      j_nicehash := (j_nicehash J \<or> le_word (take 4 (drop 39 bs)) \<noteq> (0 :: u32))\<rparr>"
proof -
  have bs: "unhex s = Some bs" "76 \<le> length bs" "length bs < 96" and l: "length s = 2 * length bs"
    using assms(2) unhex_length by (auto simp: blob_string_def)
  have f: "fromHex s (length bs * 2) (j_blob J) = Some (True, bs @ drop (length bs) (j_blob J))"
    using fromHex_eq [of "length bs" s "j_blob J"] bs l assms(1) by (simp add: mult.commute)
  have n: "take 4 (drop 39 (bs @ drop (length bs) (j_blob J))) = take 4 (drop 39 bs)"
    using bs(2) by simp
  show ?thesis
    using bs l f n by (simp add: setBlob_def Let_def Job_nonce_def)
qed

lemma setBlob_rejects:
  assumes "length (j_blob J) = 96" "\<nexists>bs. blob_string s bs"
  shows "\<exists>J'. setBlob J (Some s) = Some (False, J') \<and> length (j_blob J') = 96 \<and> j_nicehash J' = j_nicehash J"
proof (cases "length s mod 2 = 0 \<and> 76 \<le> length s div 2 \<and> length s div 2 < 96")
  case False
  then show ?thesis using assms(1) by (auto simp: setBlob_def Let_def)
next
  case True
  then have l: "2 * (length s div 2) = length s" using mult_div_mod_eq [of 2 "length s"] by linarith
  have "unhex s = None"
  proof (rule ccontr)
    assume "unhex s \<noteq> None"
    then obtain bs where "unhex s = Some bs" by blast
    then show False using assms(2) True unhex_length [of s bs] by (simp add: blob_string_def)
  qed
  then obtain out' where "fromHex s (length s) (j_blob J) = Some (False, out')" "length out' = 96"
    using fromHex_eq [of "length s div 2" s "j_blob J"] True l assms(1) by auto
  then show ?thesis using True l by (simp add: setBlob_def Let_def mult.commute)
qed

lemma div_div_small:
  fixes N q :: nat
  assumes "0 < q" "q * q \<le> N"
  shows "N div (N div q) = q"
proof -
  define m where "m = N div q"
  have m: "q \<le> m" using assms by (simp add: m_def less_eq_div_iff_mult_less_eq)
  have "N = m * q + N mod q" by (simp add: m_def)
  moreover have "N mod q < m" using mod_less_divisor [OF assms(1), of N] m by simp
  ultimately have "N div m = q" using assms(1) m by (metis add.commute div_mult_self4 div_less add_0_right less_le_trans less_nat_zero_code not_gr_zero)
  then show ?thesis by (simp add: m_def)
qed

lemma unat_div_max: "unat (0xFFFFFFFFFFFFFFFF div (w :: u64)) = (2 ^ 64 - 1) div unat w"
  by (simp add: unat_div)

lemma u64_diff_positive: "t \<noteq> 0 \<Longrightarrow> 0 < (0xFFFFFFFFFFFFFFFF div t :: u64)"
proof -
  assume "t \<noteq> 0"
  then have "0 < unat t" "unat t < 2 ^ 64" using unsigned_less [of t, where 'a = nat] by (simp_all add: unat_gt_0)
  then have "0 < unat (0xFFFFFFFFFFFFFFFF div t)" unfolding unat_div_max by (simp add: div_greater_zero_iff)
  then show ?thesis by (simp add: unat_gt_0 word_gt_0)
qed

text \<open>
  The short branch decodes the string followed by what \<open>str\<close> held. Its difficulty is the quotient
  of \<open>2 ^ 32 - 1\<close> and the target, and it divides by nothing that is zero.
\<close>

lemma short_target:
  fixes t :: u32
  assumes "t \<noteq> 0"
  defines "q \<equiv> 0xFFFFFFFF div ucast t :: u64"
  defines "T \<equiv> 0xFFFFFFFFFFFFFFFF div q"
  shows "q \<noteq> 0" "T \<noteq> 0" "unat T = (2 ^ 64 - 1) div ((2 ^ 32 - 1) div unat t)"
    and "unat (0xFFFFFFFFFFFFFFFF div T) = (2 ^ 32 - 1) div unat t"
proof -
  have t: "0 < unat t" "unat t < 2 ^ 32" using assms(1) unsigned_less [of t, where 'a = nat] by (simp_all add: unat_gt_0)
  have q: "unat q = (2 ^ 32 - 1) div unat t"
    using t by (simp add: q_def unat_div unsigned_ucast_eq take_bit_nat_eq_self)
  have q0: "0 < unat q" "unat q \<le> 2 ^ 32 - 1" unfolding q using t by (simp_all add: div_greater_zero_iff div_le_dividend)
  then show "q \<noteq> 0" by (metis unat_0 less_numeral_extra(3))
  have T: "unat T = (2 ^ 64 - 1) div unat q" by (simp only: T_def unat_div_max)
  have "unat q * unat q \<le> (2 ^ 32 - 1) * (2 ^ 32 - 1)" by (rule mult_le_mono) (use q0 in simp_all)
  then have d: "(2 ^ 64 - 1) div unat T = unat q" unfolding T by (intro div_div_small) (use q0 in simp_all)
  then have "unat T \<noteq> 0" using q0 by (intro notI) simp
  then show "T \<noteq> 0" by (metis unat_0)
  show "unat T = (2 ^ 64 - 1) div ((2 ^ 32 - 1) div unat t)" unfolding T q ..
  show "unat (0xFFFFFFFFFFFFFFFF div T) = (2 ^ 32 - 1) div unat t" by (simp only: unat_div_max d q)
qed

lemma setTarget_short:
  assumes "length s \<le> 8" "16 \<le> length g"
  defines "str \<equiv> s @ drop (length s) (take 8 g)"
  shows "case unhex str of
      None \<Rightarrow> setTarget g J (Some s) = Some (False, J)
    | Some bs \<Rightarrow>
        (let t = (le_word bs :: u32); q = 0xFFFFFFFF div ucast t; T = 0xFFFFFFFFFFFFFFFF div q
         in setTarget g J (Some s) =
           Some (if t = 0 then (False, J) else (True, J\<lparr>j_target := T, j_diff := 0xFFFFFFFFFFFFFFFF div T\<rparr>)))"
proof -
  have l: "length str = 8" using assms by simp
  have m: "memcpy (take 8 g) 0 s 0 (length s) = Some str" using assms by (simp add: mem_simps)
  show ?thesis
  proof (cases "unhex str")
    case None
    then show ?thesis
      using fromHex_eq [of 4 str "replicate 4 0"] l assms(1) by (auto simp: setTarget_def m)
  next
    case (Some bs)
    then have "fromHex str 8 (replicate 4 0) = Some (True, bs)"
      using fromHex_eq [of 4 str "replicate 4 0"] l unhex_length [OF Some] by simp
    then show ?thesis
      using Some assms(1) short_target(1,2) [of "le_word bs"] by (simp add: setTarget_def m Let_def toDiff_def)
  qed
qed

lemma setTarget_long:
  assumes "8 < length s" "length s \<le> 16" "16 \<le> length g"
  defines "str \<equiv> s @ drop (length s) (take 16 g)"
  shows "case unhex str of
      None \<Rightarrow> \<exists>T. setTarget g J (Some s) = Some (False, J\<lparr>j_target := T\<rparr>)
    | Some bs \<Rightarrow>
        (let T = le_word bs
         in setTarget g J (Some s) =
           Some (if T = 0 then (False, J\<lparr>j_target := T\<rparr>) else (True, J\<lparr>j_target := T, j_diff := 0xFFFFFFFFFFFFFFFF div T\<rparr>)))"
proof -
  have l: "length str = 16" using assms by simp
  have m: "memcpy (take 16 g) 0 s 0 (length s) = Some str" using assms by (simp add: mem_simps)
  show ?thesis
  proof (cases "unhex str")
    case None
    then show ?thesis
      using fromHex_eq [of 8 str "replicate 8 0"] l assms(1,2) by (auto simp: setTarget_def m Let_def)
  next
    case (Some bs)
    then have "fromHex str 16 (replicate 8 0) = Some (True, bs)"
      using fromHex_eq [of 8 str "replicate 8 0"] l unhex_length [OF Some] by simp
    then show ?thesis
      using Some assms(1,2) by (simp add: setTarget_def m Let_def toDiff_def)
  qed
qed

lemma setTarget_total:
  assumes "16 \<le> length g"
  shows "\<exists>ok J'. setTarget g J target = Some (ok, J') \<and> (if ok then 0 < j_diff J' \<and> j_target J' \<noteq> 0 else j_diff J' = j_diff J)"
proof (cases target)
  case None
  then show ?thesis by (auto simp: setTarget_def)
next
  case (Some s)
  consider "length s \<le> 8" | "8 < length s" "length s \<le> 16" | "16 < length s" by linarith
  then show ?thesis
  proof cases
    case 1
    then show ?thesis
      using setTarget_short [OF 1 assms, of J] short_target(2) u64_diff_positive
      by (auto simp: Some Let_def split: option.splits if_splits)
  next
    case 2
    then show ?thesis
      using setTarget_long [OF 2 assms, of J] u64_diff_positive
      by (auto simp: Some Let_def split: option.splits if_splits)
  next
    case 3
    then show ?thesis by (auto simp: Some setTarget_def)
  qed
qed

section \<open>Identifiers\<close>

lemma setId_eq:
  assumes "length s < 64"
  shows "setId (Some s) 0 = Some (True, s @ replicate (64 - length s) 0)"
  using assms by (simp add: setId_def mem_simps)

lemma JobId_data_padded: "0 \<notin> set s \<Longrightarrow> JobId_data (s @ replicate n 0) = s"
  by (induction s) (cases n; simp add: JobId_data_def)+

text \<open>An incomplete target: the missing digits are taken from the stack.\<close>

lemma unhex_last_bad: "hex_value c = None \<Longrightarrow> unhex (s @ [c]) = None"
  by (induction s rule: unhex.induct) (auto split: Option.bind_splits)

lemma unhex_last_one:
  assumes "even (length (s @ [c]))" "\<And>x. x \<in> set s \<Longrightarrow> hex_value x \<noteq> None" "hex_value c = Some 1"
  shows "\<exists>bs h. unhex (s @ [c]) = Some (bs @ [16 * h + 1])"
  using assms(1,2)
proof (induction s rule: unhex.induct)
  case 1
  then show ?case by simp
next
  case (2 a)
  then obtain h where "hex_value a = Some h" by auto
  then show ?case by (auto simp: assms(3))
next
  case (3 a b s)
  then obtain h l where v: "hex_value a = Some h" "hex_value b = Some l" by force
  have "even (length (s @ [c]))" "\<And>x. x \<in> set s \<Longrightarrow> hex_value x \<noteq> None" using "3.prems" by auto
  then obtain bs k where "unhex (s @ [c]) = Some (bs @ [16 * k + 1])" using "3.IH" [OF v] by blast
  then have "unhex ((a # b # s) @ [c]) = Some (((16 * h + l) # bs) @ [16 * k + 1])" by (simp add: v)
  then show ?case by blast
qed

lemma le_word_last_nonzero:
  assumes "length bs = 3"
  shows "le_word (bs @ [16 * h + 1]) \<noteq> (0 :: u32)"
proof
  assume "le_word (bs @ [16 * h + 1]) = (0 :: u32)"
  then have "\<not> bit (le_word (bs @ [16 * h + 1]) :: u32) 24" by simp
  moreover have "bit (16 * h + 1 :: u8) 0" by (simp add: bit_0)
  ultimately show False using assms by (simp add: bit_le_word_iff nth_append)
qed

lemma short_target_garbage:
  assumes "length s < 8" "\<And>c. c \<in> set s \<Longrightarrow> hex_value c \<noteq> None"
  shows "setTarget (replicate 16 0) J (Some s) = Some (False, J)"
    and "\<exists>J'. setTarget (replicate 16 0x31) J (Some s) = Some (True, J')"
proof -
  have le: "length s \<le> 8" and g: "16 \<le> length (replicate 16 x)" for x :: u8 using assms(1) by simp_all
  have str: "s @ drop (length s) (take 8 (replicate 16 x)) = (s @ replicate (7 - length s) x) @ [x]" for x
  proof -
    have "8 - length s = Suc (7 - length s)" using assms(1) by simp
    then show ?thesis by (simp add: replicate_append_same)
  qed
  have v: "hex_value 0 = None" "hex_value 0x31 = Some 1" by (simp_all add: hex_value_def)
  show "setTarget (replicate 16 0) J (Some s) = Some (False, J)"
    using setTarget_short [OF le g, of 0 J] unfolding str unhex_last_bad [OF v(1)] by simp
  have "x \<in> set (s @ replicate (7 - length s) 0x31) \<Longrightarrow> hex_value x \<noteq> None" for x
    using assms(2) v(2) by (auto simp: set_replicate_conv_if split: if_splits)
  moreover have "even (length ((s @ replicate (7 - length s) 0x31) @ [0x31 :: u8]))" using assms(1) by simp
  ultimately obtain bs h where u: "unhex ((s @ replicate (7 - length s) 0x31) @ [0x31]) = Some (bs @ [16 * h + 1])"
    using unhex_last_one [OF _ _ v(2)] by blast
  have "length bs = 3" using unhex_length [OF u] assms(1) by simp
  then show "\<exists>J'. setTarget (replicate 16 0x31) J (Some s) = Some (True, J')"
    using setTarget_short [OF le g, of "0x31" J] le_word_last_nonzero [of bs h] unfolding str u by (simp add: Let_def)
qed

section \<open>Properties\<close>

text \<open>
  C28. \<open>toHex\<close> and \<open>fromHex\<close> are inverse: the digits written for any bytes are read back as
  these bytes, with nothing else of the buffers changed, and the digits of decoded bytes are the
  lower-case form of the string they came from.
\<close>

theorem hex_round_trip:
  assumes "2 * length bs \<le> length buf" "length bs \<le> length out"
  shows "toHex bs (length bs) buf = Some (hex_of bs @ drop (2 * length bs) buf) \<and>
    fromHex (hex_of bs) (2 * length bs) out = Some (True, bs @ drop (length bs) out) \<and>
    (\<forall>s. fromHex s (length s) (replicate (length bs) 0) = Some (True, bs) \<and> length s = 2 * length bs \<longrightarrow>
      hex_of bs = map lower_case s)"
proof (intro conjI allI impI)
  show "toHex bs (length bs) buf = Some (hex_of bs @ drop (2 * length bs) buf)"
    using toHex_eq [of "length bs" bs buf] assms by simp
  show "fromHex (hex_of bs) (2 * length bs) out = Some (True, bs @ drop (length bs) out)"
    using fromHex_eq [of "length bs" "hex_of bs" out] assms by (simp add: unhex_hex_of)
  fix s assume s: "fromHex s (length s) (replicate (length bs) 0) = Some (True, bs) \<and> length s = 2 * length bs"
  then show "hex_of bs = map lower_case s"
    using fromHex_eq [of "length bs" s "replicate (length bs) 0"] hex_of_unhex [of s bs]
    by (auto split: option.splits)
qed

theorem hex_round_trip_witness:
  "toHex [0xAB, 7] 2 (replicate 5 0) = Some (hex_of [0xAB, 7] @ [0]) \<and>
   fromHex (hex_of [0xAB, 7]) 4 (replicate 3 9) = Some (True, [0xAB, 7, 9])"
  using hex_round_trip [of "[0xAB, 7]" "replicate 5 0" "replicate 3 9"] by (simp add: numeral_eq_Suc)

text \<open>
  C22. \<open>setBlob\<close> accepts exactly the hexadecimal strings of 76 to 95 bytes. It then stores the
  bytes and their number, keeps the rest of the buffer, and turns on the nicehash mode when the
  nonce is not zero. It never leaves the blob's buffer.
\<close>

theorem setBlob_accepts_iff:
  assumes "length (j_blob J) = 96"
  shows "\<exists>ok J'. setBlob J (Some s) = Some (ok, J') \<and> (ok \<longleftrightarrow> (\<exists>bs. blob_string s bs)) \<and> length (j_blob J') = 96 \<and>
    (\<forall>bs. blob_string s bs \<longrightarrow> J' = J\<lparr>j_size := length bs, j_blob := bs @ drop (length bs) (j_blob J),
      j_nicehash := (j_nicehash J \<or> le_word (take 4 (drop 39 bs)) \<noteq> (0 :: u32))\<rparr>)"
proof (cases "\<exists>bs. blob_string s bs")
  case True
  then obtain bs where bs: "blob_string s bs" by blast
  have u: "blob_string s bs' \<Longrightarrow> bs' = bs" for bs' using bs by (simp add: blob_string_def)
  then show ?thesis using setBlob_accepts [OF assms bs] bs assms by (auto simp: blob_string_def)
next
  case False
  then show ?thesis using setBlob_rejects [OF assms, of s] by auto
qed

theorem setBlob_accepts_iff_witness:
  "\<exists>ok J'. setBlob Job_default (Some (hex_of (replicate 76 1))) = Some (ok, J') \<and> ok \<and> j_size J' = 76 \<and> j_nicehash J'"
proof -
  have "blob_string (hex_of (replicate 76 1)) (replicate 76 1)" by (simp add: blob_string_def unhex_hex_of)
  moreover have "take 4 (drop 39 (replicate 76 (1 :: u8))) = [1, 1, 1, 1]" by (simp add: numeral_eq_Suc)
  then have "le_word (take 4 (drop 39 (replicate 76 (1 :: u8)))) \<noteq> (0 :: u32)" by simp
  ultimately show ?thesis
    using setBlob_accepts_iff [of Job_default "hex_of (replicate 76 1)"] by (force simp: Job_default_def)
qed

text \<open>
  C26. \<open>setTarget\<close> never divides by zero and leaves the difficulty alone when it rejects. A target
  of eight digits sets the difficulty to the quotient of \<open>2 ^ 32 - 1\<close> and its little-endian value,
  exactly, although it is computed through the 64-bit target.
\<close>

theorem setTarget_difficulty:
  assumes "16 \<le> length g"
  shows "(\<exists>ok J'. setTarget g J target = Some (ok, J') \<and> (if ok then 0 < j_diff J' \<and> j_target J' \<noteq> 0 else j_diff J' = j_diff J)) \<and>
    (\<forall>s bs. target = Some s \<and> length s = 8 \<and> unhex s = Some bs \<and> le_word bs \<noteq> (0 :: u32) \<longrightarrow>
      (\<exists>J'. setTarget g J target = Some (True, J') \<and> unat (j_diff J') = (2 ^ 32 - 1) div unat (le_word bs :: u32) \<and>
        unat (j_target J') = (2 ^ 64 - 1) div unat (j_diff J')))"
proof (intro conjI allI impI setTarget_total [OF assms])
  fix s bs assume s: "target = Some s \<and> length s = 8 \<and> unhex s = Some bs \<and> le_word bs \<noteq> (0 :: u32)"
  then have le: "length s \<le> 8" by simp
  show "\<exists>J'. setTarget g J target = Some (True, J') \<and> unat (j_diff J') = (2 ^ 32 - 1) div unat (le_word bs :: u32) \<and>
      unat (j_target J') = (2 ^ 64 - 1) div unat (j_diff J')"
    using setTarget_short [OF le assms, of J] s short_target(3,4) [of "le_word bs"] by (simp add: Let_def)
qed

theorem setTarget_difficulty_witness:
  "\<exists>J'. setTarget (replicate 16 0) Job_default (Some [0x66, 0x66, 0x66, 0x66, 0x30, 0x30, 0x30, 0x30]) = Some (True, J') \<and>
    unat (j_diff J') = (2 ^ 32 - 1) div 65535"
proof -
  have u: "unhex [0x66, 0x66, 0x66, 0x66, 0x30, 0x30, 0x30, 0x30] = Some [0xFF, 0xFF, 0, 0]" by (simp add: hex_value_def)
  have "le_word [0xFF, 0xFF, 0, 0] = (0xFFFF :: u32)" by simp
  then show ?thesis
    using setTarget_difficulty [of "replicate 16 0" Job_default "Some [0x66, 0x66, 0x66, 0x66, 0x30, 0x30, 0x30, 0x30]"] u by fastforce
qed

text \<open>
  A target of fewer than eight digits is completed with whatever the stack holds: the same
  string is rejected or accepted depending on it.
\<close>

theorem setTarget_reads_stack:
  assumes "length s < 8" "\<And>c. c \<in> set s \<Longrightarrow> hex_value c \<noteq> None"
  shows "\<exists>g g' J'. length g = 16 \<and> length g' = 16 \<and> setTarget g J (Some s) = Some (False, J) \<and> setTarget g' J (Some s) = Some (True, J')"
  using short_target_garbage [OF assms, of J] by (metis length_replicate)

theorem setTarget_reads_stack_witness:
  "\<exists>g g' J'. length g = 16 \<and> length g' = 16 \<and> setTarget g Job_default (Some [0x37]) = Some (False, Job_default) \<and>
    setTarget g' Job_default (Some [0x37]) = Some (True, J')"
  by (rule setTarget_reads_stack) (simp_all add: hex_value_def)

text \<open>
  Identifiers of up to 63 characters are kept: the C string of a \<open>JobId\<close> is the one it was
  set to, and two of them compare equal exactly when the strings are equal.
\<close>

theorem JobId_keeps_string:
  assumes "length s < 64" "length t < 64" "0 \<notin> set s" "0 \<notin> set t"
  shows "\<exists>a b. setId (Some s) 0 = Some (True, a) \<and> setId (Some t) 0 = Some (True, b) \<and>
    JobId_data a = s \<and> (JobId_eq a b \<longleftrightarrow> s = t) \<and> (JobId_isValid a \<longleftrightarrow> s \<noteq> [])"
proof -
  have v: "JobId_isValid (s @ replicate (64 - length s) 0) \<longleftrightarrow> s \<noteq> []"
    using assms(1,3) by (cases s) (auto simp: JobId_isValid_def)
  have "s @ replicate (64 - length s) 0 = t @ replicate (64 - length t) 0 \<longleftrightarrow> s = t"
    using JobId_data_padded [OF assms(3)] JobId_data_padded [OF assms(4)] by metis
  then show ?thesis
    using v assms by (simp add: setId_eq JobId_data_padded JobId_eq_def)
qed

theorem JobId_keeps_string_witness:
  "\<exists>a b. setId (Some [0x31]) 0 = Some (True, a) \<and> setId (Some [0x31, 0x32]) 0 = Some (True, b) \<and> \<not> JobId_eq a b"
  using JobId_keeps_string [of "[0x31]" "[0x31, 0x32]"] by auto

end
