(* ===== verification/Proof_Of_Work.thy ===== *)
theory Proof_Of_Work
  imports Prelude Cryptonight Job
begin

text \<open>
  \<open>src/src/crypto/CryptoNight.cpp\<close>: the instances of the hash template, the table they are
  chosen from, the self test and the check of a nonce against the target of a job. The function
  pointer \<open>cryptonight_hash_ctx\<close> is an \<open>option\<close>, and a call through the null pointer
  \<open>None\<close>. The AES instructions and what the stack holds are parameters as in Cryptonight.
\<close>

unbundle bit_operations_syntax

section \<open>The instances of the template\<close>

text \<open>
  A hash function gets the input, its size, the bytes at \<open>output\<close>, the context and the variant.
\<close>

type_synonym cn_function =
  "bytes \<Rightarrow> nat \<Rightarrow> bytes \<Rightarrow> cryptonight_ctx \<Rightarrow> int \<Rightarrow> (bytes \<times> cryptonight_ctx) option"

text \<open>The macro: a variant that is neither of the two leaves the output as it is.\<close>

definition CRYPTONIGHT_HASH ::
  "aesni \<Rightarrow> cn_stack \<Rightarrow> nat \<Rightarrow> nat \<Rightarrow> u64 \<Rightarrow> bool \<Rightarrow> cn_function" where
  "CRYPTONIGHT_HASH hw S ITERATIONS MEM MASK SOFT_AES input len output ctx variant =
    (if variant = VARIANT_V1 then do {
       (d, ctx) \<leftarrow> cryptonight_single_hash hw S ITERATIONS MEM MASK SOFT_AES VARIANT_V1 input len ctx;
       output \<leftarrow> store output 0 d;
       Some (output, ctx)
     }
     else if variant = VARIANT_NONE then do {
       (d, ctx) \<leftarrow> cryptonight_single_hash hw S ITERATIONS MEM MASK SOFT_AES VARIANT_NONE input len ctx;
       output \<leftarrow> store output 0 d;
       Some (output, ctx)
     }
     else Some (output, ctx))"

definition cryptonight_av1_aesni :: "aesni \<Rightarrow> cn_stack \<Rightarrow> cn_function" where
  "cryptonight_av1_aesni hw S = CRYPTONIGHT_HASH hw S MONERO_ITER MONERO_MEMORY MONERO_MASK False"

definition cryptonight_av3_softaes :: "aesni \<Rightarrow> cn_stack \<Rightarrow> cn_function" where
  "cryptonight_av3_softaes hw S = CRYPTONIGHT_HASH hw S MONERO_ITER MONERO_MEMORY MONERO_MASK True"

definition cryptonight_lite_av1_aesni :: "aesni \<Rightarrow> cn_stack \<Rightarrow> cn_function" where
  "cryptonight_lite_av1_aesni hw S = CRYPTONIGHT_HASH hw S AEON_ITER AEON_MEMORY AEON_MASK False"

definition cryptonight_lite_av3_softaes :: "aesni \<Rightarrow> cn_stack \<Rightarrow> cn_function" where
  "cryptonight_lite_av3_softaes hw S = CRYPTONIGHT_HASH hw S AEON_ITER AEON_MEMORY AEON_MASK True"

text \<open>The table with and without \<open>XMRIG_NO_AEON\<close>.\<close>

definition cryptonight_variations :: "bool \<Rightarrow> aesni \<Rightarrow> cn_stack \<Rightarrow> cn_function option list" where
  "cryptonight_variations XMRIG_NO_AEON hw S =
    (if \<not> XMRIG_NO_AEON then
       [Some (cryptonight_av1_aesni hw S), None, Some (cryptonight_av3_softaes hw S), None,
        Some (cryptonight_lite_av1_aesni hw S), None, Some (cryptonight_lite_av3_softaes hw S), None]
     else
       [Some (cryptonight_av1_aesni hw S), None, Some (cryptonight_av3_softaes hw S), None])"

section \<open>Hashing\<close>

text \<open>\<open>CryptoNight::hash\<close> of bytes, and of a job into a result: whether the target is met.\<close>

definition CryptoNight_hash :: "cn_function option \<Rightarrow> cn_function" where
  "CryptoNight_hash cryptonight_hash_ctx input len output ctx variant =
    do {
      f \<leftarrow> cryptonight_hash_ctx;
      f input len output ctx variant
    }"

definition CryptoNight_hash_job ::
  "cn_function option \<Rightarrow> job \<Rightarrow> job_result \<Rightarrow> cryptonight_ctx \<Rightarrow> (bool \<times> job_result \<times> cryptonight_ctx) option" where
  "CryptoNight_hash_job cryptonight_hash_ctx J R ctx =
    do {
      f \<leftarrow> cryptonight_hash_ctx;
      (output, ctx) \<leftarrow> f (j_blob J) (j_size J) (jr_result R) ctx (Job_variant J);
      b \<leftarrow> load output 24 8;
      Some (le_word b < j_target J, R\<lparr>jr_result := output\<rparr>, ctx)
    }"

section \<open>The self test\<close>

text \<open>The vectors of \<open>CryptoNight_test.h\<close>.\<close>

definition test_input :: bytes where
  "test_input = [
     0x01, 0x00, 0xFB, 0x8E, 0x8A, 0xC8, 0x05, 0x89, 0x93, 0x23, 0x37, 0x1B, 0xB7, 0x90, 0xDB, 0x19,
     0x21, 0x8A, 0xFD, 0x8D, 0xB8, 0xE3, 0x75, 0x5D, 0x8B, 0x90, 0xF3, 0x9B, 0x3D, 0x55, 0x06, 0xA9,
     0xAB, 0xCE, 0x4F, 0xA9, 0x12, 0x24, 0x45, 0x00, 0x00, 0x00, 0x00, 0xEE, 0x81, 0x46, 0xD4, 0x9F,
     0xA9, 0x3E, 0xE7, 0x24, 0xDE, 0xB5, 0x7D, 0x12, 0xCB, 0xC6, 0xC6, 0xF3, 0xB9, 0x24, 0xD9, 0x46,
     0x12, 0x7C, 0x7A, 0x97, 0x41, 0x8F, 0x93, 0x48, 0x82, 0x8F, 0x0F, 0x02]"

definition test_output_v0 :: bytes where
  "test_output_v0 = [
     0x1B, 0x60, 0x6A, 0x3F, 0x4A, 0x07, 0xD6, 0x48, 0x9A, 0x1B, 0xCD, 0x07, 0x69, 0x7B, 0xD1, 0x66,
     0x96, 0xB6, 0x1C, 0x8A, 0xE9, 0x82, 0xF6, 0x1A, 0x90, 0x16, 0x0F, 0x4E, 0x52, 0x82, 0x8A, 0x7F]"

definition test_output_v1 :: bytes where
  "test_output_v1 = [
     0xC9, 0xFA, 0xE8, 0x42, 0x5D, 0x86, 0x88, 0xDC, 0x23, 0x6B, 0xCD, 0xBC, 0x42, 0xFD, 0xB4, 0x2D,
     0x37, 0x6C, 0x6E, 0xC1, 0x90, 0x50, 0x1A, 0xA8, 0x4B, 0x04, 0xA4, 0xB4, 0xCF, 0x1E, 0xE1, 0x22]"

definition test_output_v0_lite :: bytes where
  "test_output_v0_lite = [
     0x28, 0xA2, 0x2B, 0xAD, 0x3F, 0x93, 0xD1, 0x40, 0x8F, 0xCA, 0x47, 0x2E, 0xB5, 0xAD, 0x1C, 0xBE,
     0x75, 0xF2, 0x1D, 0x05, 0x3C, 0x8C, 0xE5, 0xB3, 0xAF, 0x10, 0x5A, 0x57, 0x71, 0x3E, 0x21, 0xDD]"

definition test_output_v1_lite :: bytes where
  "test_output_v1_lite = [
     0x87, 0xC4, 0xE5, 0x70, 0x65, 0x3E, 0xB4, 0xC2, 0xB4, 0x2B, 0x7A, 0x0D, 0x54, 0x65, 0x59, 0x45,
     0x2D, 0xFA, 0xB5, 0x73, 0xB8, 0x2E, 0xC5, 0x2F, 0x15, 0x2B, 0x7F, 0xF9, 0x8E, 0x79, 0x44, 0x6F]"

text \<open>\<open>g\<close> and \<open>ctx\<close> are what the local output buffer and the allocated context hold.\<close>

definition selfTest :: "bool \<Rightarrow> bytes \<Rightarrow> cryptonight_ctx \<Rightarrow> cn_function option \<Rightarrow> Algo \<Rightarrow> bool option" where
  "selfTest XMRIG_NO_AEON g ctx cryptonight_hash_ctx algo =
    (case cryptonight_hash_ctx of
       None \<Rightarrow> Some False
     | Some f \<Rightarrow>
         (let lite = (\<not> XMRIG_NO_AEON \<and> algo = ALGO_CRYPTONIGHT_LITE)
          in do {
            (output, ctx) \<leftarrow> f test_input 76 g ctx 0;
            if take 32 output = (if lite then test_output_v0_lite else test_output_v0)
            then do {
              (output, ctx) \<leftarrow> f test_input 76 output ctx 1;
              Some (take 32 output = (if lite then test_output_v1_lite else test_output_v1))
            }
            else Some False
          }))"

text \<open>The result and the function pointer; a rejected variant leaves the pointer as it was.\<close>

definition CryptoNight_init ::
  "bool \<Rightarrow> aesni \<Rightarrow> cn_stack \<Rightarrow> bytes \<Rightarrow> cryptonight_ctx \<Rightarrow> cn_function option \<Rightarrow> Algo \<Rightarrow> int \<Rightarrow>
    (bool \<times> cn_function option) option" where
  "CryptoNight_init XMRIG_NO_AEON hw S g ctx cryptonight_hash_ctx algo variant =
    (if variant < 1 \<or> variant > 4 then Some (False, cryptonight_hash_ctx)
     else do {
       let index = (if \<not> XMRIG_NO_AEON \<and> algo = ALGO_CRYPTONIGHT_LITE then variant + 3 else variant - 1);
       p \<leftarrow> get_at (cryptonight_variations XMRIG_NO_AEON hw S) (nat index);
       ok \<leftarrow> selfTest XMRIG_NO_AEON g ctx p algo;
       Some (ok, p)
     })"

section \<open>What the instances compute\<close>

text \<open>A context as \<open>_mm_malloc\<close> or a worker gives it: its three buffers have their sizes.\<close>

definition cn_ctx_ready :: "cryptonight_ctx \<Rightarrow> bool" where
  "cn_ctx_ready ctx \<longleftrightarrow> length (state0 ctx) = 200 \<and> length (memory ctx) = MONERO_MEMORY"

definition cn_digest :: "bool \<Rightarrow> int \<Rightarrow> bytes \<Rightarrow> bytes" where
  "cn_digest lite variant m =
    (if lite then cryptonight_ref AEON_ITER (2 ^ 16) variant m else cryptonight_ref MONERO_ITER (2 ^ 17) variant m)"

text \<open>
  What a caller may expect of an entry of the table, and what the checks of the program need:
  the first 32 bytes of the output become the digest of the message.
\<close>

locale cn_instance =
  fixes f :: cn_function and lite :: bool
  assumes f_digest: "cn_ctx_ready ctx \<Longrightarrow> len \<le> length input \<Longrightarrow> 43 \<le> len \<Longrightarrow> len < 2 ^ 31 \<Longrightarrow> 32 \<le> length output \<Longrightarrow>
      variant = 0 \<or> variant = 1 \<Longrightarrow>
      \<exists>ctx'. f input len output ctx variant = Some (cn_digest lite variant (take len input) @ drop 32 output, ctx') \<and> cn_ctx_ready ctx'"
    and length_digest: "43 \<le> length m \<Longrightarrow> length m < 2 ^ 31 \<Longrightarrow> variant = 0 \<or> variant = 1 \<Longrightarrow> length (cn_digest lite variant m) = 32"
begin

lemma hash_job:
  assumes "cn_ctx_ready ctx" "43 \<le> j_size J" "j_size J \<le> length (j_blob J)" "j_size J < 2 ^ 31" "length (jr_result R) = 32"
    and "Job_variant J = 0 \<or> Job_variant J = 1"
  defines "d \<equiv> cn_digest lite (Job_variant J) (take (j_size J) (j_blob J))"
  shows "\<exists>ctx'. CryptoNight_hash_job (Some f) J R ctx =
    Some (le_word (drop 24 d) < j_target J, R\<lparr>jr_result := d\<rparr>, ctx') \<and> cn_ctx_ready ctx' \<and> length d = 32"
proof -
  have d: "length d = 32" using length_digest [of "take (j_size J) (j_blob J)"] assms by simp
  obtain ctx' where "f (j_blob J) (j_size J) (jr_result R) ctx (Job_variant J) = Some (d @ drop 32 (jr_result R), ctx')" "cn_ctx_ready ctx'"
    using f_digest [OF assms(1,3,2,4) _ assms(6), of "jr_result R"] assms(5) unfolding d_def by auto
  then show ?thesis using d assms(5) by (simp add: CryptoNight_hash_job_def load_Some)
qed

lemma self_test:
  assumes "cn_ctx_ready ctx" "length g = 32" "lite = (\<not> no_aeon \<and> algo = ALGO_CRYPTONIGHT_LITE)"
  shows "selfTest no_aeon g ctx (Some f) algo =
    Some (cn_digest lite 0 test_input = (if lite then test_output_v0_lite else test_output_v0) \<and>
      cn_digest lite 1 test_input = (if lite then test_output_v1_lite else test_output_v1))"
proof -
  have ti: "length test_input = 76" by (simp add: test_input_def)
  have l: "length (cn_digest lite v test_input) = 32" if "v = 0 \<or> v = 1" for v
    using length_digest [of test_input v] ti that by simp
  obtain c1 where c1: "f test_input 76 g ctx 0 = Some (cn_digest lite 0 test_input, c1)" "cn_ctx_ready c1"
    using f_digest [OF assms(1), of 76 test_input g 0] ti assms(2) by auto
  obtain c2 where c2: "f test_input 76 (cn_digest lite 0 test_input) c1 1 = Some (cn_digest lite 1 test_input, c2)"
    using f_digest [OF c1(2), of 76 test_input "cn_digest lite 0 test_input" 1] ti l by auto
  have t: "take 32 (cn_digest lite 0 test_input) = cn_digest lite 0 test_input" "take 32 (cn_digest lite 1 test_input) = cn_digest lite 1 test_input"
    using l by simp_all
  show ?thesis
    unfolding selfTest_def option.case assms(3) [symmetric] Let_def c1(1) bind.bind_lunit prod.case t c2 by simp
qed

end

lemma CRYPTONIGHT_HASH_eq:
  assumes "cn_stack_ready S" "aes_instructions hw \<or> SOFT_AES" "3 \<le> k" "k \<le> 60" "16 * 2 ^ k \<le> MONERO_MEMORY"
    and "cn_ctx_ready ctx" "len \<le> length input" "43 \<le> len" "len < 2 ^ 31" "32 \<le> length output" "variant = 0 \<or> variant = 1"
  shows "\<exists>ctx'. CRYPTONIGHT_HASH hw S iters (16 * 2 ^ k) (of_nat (16 * (2 ^ k - 1))) SOFT_AES input len output ctx variant =
      Some (cryptonight_ref iters (2 ^ k) variant (take len input) @ drop 32 output, ctx') \<and> cn_ctx_ready ctx'"
proof -
  have c: "length (state0 ctx) = 200" "16 * 2 ^ k \<le> length (memory ctx)" using assms(5,6) by (simp_all add: cn_ctx_ready_def)
  obtain ctx' where ctx': "cn_kept (16 * 2 ^ k) ctx ctx'" "length (cryptonight_ref iters (2 ^ k) variant (take len input)) = 32"
    "cryptonight_single_hash hw S iters (16 * 2 ^ k) (of_nat (16 * (2 ^ k - 1))) SOFT_AES variant input len ctx =
      Some (cryptonight_ref iters (2 ^ k) variant (take len input), ctx')"
    using cryptonight_single_hash_eq [OF assms(1,3,4) c assms(7,9,8), of iters variant] assms(2) by blast
  have r: "cn_ctx_ready ctx'" using ctx'(1) assms(6) by (simp add: cn_ctx_ready_def cn_kept_def)
  have st: "store output 0 (cryptonight_ref iters (2 ^ k) variant (take len input)) =
      Some (cryptonight_ref iters (2 ^ k) variant (take len input) @ drop 32 output)"
    using ctx'(2) assms(10) by (simp add: store_Some)
  from assms(11) show ?thesis
  proof
    assume v: "variant = 0"
    then show ?thesis using ctx'(3) st r unfolding v
      by (simp only: CRYPTONIGHT_HASH_def VARIANT_V1_def VARIANT_NONE_def if_False if_True refl zero_neq_one) simp
  next
    assume v: "variant = 1"
    then show ?thesis using ctx'(3) st r unfolding v
      by (simp only: CRYPTONIGHT_HASH_def VARIANT_V1_def VARIANT_NONE_def if_False if_True refl) simp
  qed
qed

lemma length_cryptonight_ref:
  assumes "3 \<le> k" "k \<le> 60" "16 * 2 ^ k \<le> MONERO_MEMORY" "43 \<le> length m" "length m < 2 ^ 31"
  shows "length (cryptonight_ref iters (2 ^ k) variant m) = 32"
  using cryptonight_single_hash_eq [OF blank_ready(1) assms(1,2) blank_ready(2), where inp = m and len = "length m" and VARIANT = variant and iters = iters] assms
  by (simp add: blank_ctx_def MONERO_MEMORY_def) blast

lemma cn_instance_table:
  assumes "cn_stack_ready S" "aes_instructions hw \<or> SOFT_AES"
  shows "cn_instance (CRYPTONIGHT_HASH hw S MONERO_ITER MONERO_MEMORY MONERO_MASK SOFT_AES) False"
    and "cn_instance (CRYPTONIGHT_HASH hw S AEON_ITER AEON_MEMORY AEON_MASK SOFT_AES) True"
  unfolding cn_sizes
  by (unfold_locales; simp only: cn_digest_def if_True if_False; (rule CRYPTONIGHT_HASH_eq [OF assms] length_cryptonight_ref);
      simp add: MONERO_MEMORY_def)+

text \<open>The software instances need nothing but their buffers.\<close>

interpretation monero_soft: cn_instance "cryptonight_av3_softaes hw blank_stack" False
  unfolding cryptonight_av3_softaes_def by (rule cn_instance_table) (simp_all add: blank_ready)

interpretation aeon_soft: cn_instance "cryptonight_lite_av3_softaes hw blank_stack" True
  unfolding cryptonight_lite_av3_softaes_def by (rule cn_instance_table) (simp_all add: blank_ready)

text \<open>The instance of the template for an algorithm, with the AES instructions or in software.\<close>

definition cn_entry :: "aesni \<Rightarrow> cn_stack \<Rightarrow> bool \<Rightarrow> bool \<Rightarrow> cn_function" where
  "cn_entry hw S lite soft =
    (if lite then CRYPTONIGHT_HASH hw S AEON_ITER AEON_MEMORY AEON_MASK soft
     else CRYPTONIGHT_HASH hw S MONERO_ITER MONERO_MEMORY MONERO_MASK soft)"

lemma table_entry:
  assumes "lite = (\<not> no_aeon \<and> algo = ALGO_CRYPTONIGHT_LITE)" "variant = 1 \<or> variant = 3"
  shows "get_at (cryptonight_variations no_aeon hw S) (nat (if lite then variant + 3 else variant - 1)) =
    Some (Some (cn_entry hw S lite (variant = 3)))"
  using assms
  by (cases no_aeon; cases algo) (auto simp: get_at_def cryptonight_variations_def nat_numeral numeral_eq_Suc cn_entry_def
      cryptonight_av1_aesni_def cryptonight_av3_softaes_def cryptonight_lite_av1_aesni_def cryptonight_lite_av3_softaes_def)

lemma entry_instance:
  assumes "cn_stack_ready S" "aes_instructions hw \<or> soft"
  shows "cn_instance (cn_entry hw S lite soft) lite"
  using cn_instance_table [OF assms] by (cases lite) (simp_all add: cn_entry_def)

section \<open>Starting up\<close>

lemma CryptoNight_init_pointer:
  assumes "CryptoNight_init no_aeon hw S g ctx fp algo variant = Some (ok, p)"
    and lite_def: "lite = (\<not> no_aeon \<and> algo = ALGO_CRYPTONIGHT_LITE)"
  shows "p = (if variant = 1 \<or> variant = 3 then Some (cn_entry hw S lite (variant = 3))
    else if variant = 2 \<or> variant = 4 then None else fp)"
proof -
  have e: "get_at (cryptonight_variations no_aeon hw S) (nat (if lite then variant + 3 else variant - 1)) = Some None"
    if "variant = 2 \<or> variant = 4"
    using that by (auto simp: lite_def get_at_def cryptonight_variations_def)
  consider (out) "variant < 1 \<or> variant > 4" | (unused) "variant = 2 \<or> variant = 4" | (used) "variant = 1 \<or> variant = 3"
    by linarith
  then show ?thesis
  proof cases
    case out
    then show ?thesis using assms(1) by (auto simp: CryptoNight_init_def)
  next
    case unused
    then show ?thesis using assms(1) e [OF unused] unfolding CryptoNight_init_def lite_def [symmetric] Let_def
      by (auto split: Option.bind_splits)
  next
    case used
    then show ?thesis using assms(1) table_entry [OF lite_def used, of hw S]
      unfolding CryptoNight_init_def lite_def [symmetric] Let_def by (auto split: Option.bind_splits)
  qed
qed

lemma CryptoNight_init_eq:
  assumes "cn_stack_ready S" "aes_instructions hw \<or> variant \<noteq> 1" "cn_ctx_ready ctx" "length g = 32"
    and lite_def: "lite = (\<not> no_aeon \<and> algo = ALGO_CRYPTONIGHT_LITE)"
  shows "\<exists>ok p. CryptoNight_init no_aeon hw S g ctx fp algo variant = Some (ok, p) \<and>
    (ok \<longleftrightarrow> (variant = 1 \<or> variant = 3) \<and> cn_digest lite 0 test_input = (if lite then test_output_v0_lite else test_output_v0) \<and>
      cn_digest lite 1 test_input = (if lite then test_output_v1_lite else test_output_v1))"
proof -
  define i where "i = nat (if lite then variant + 3 else variant - 1)"
  consider (out) "variant < 1 \<or> variant > 4" | (unused) "variant = 2 \<or> variant = 4" | (used) "variant = 1 \<or> variant = 3"
    by linarith
  then show ?thesis
  proof cases
    case out
    then show ?thesis by (auto simp: CryptoNight_init_def)
  next
    case unused
    then have "get_at (cryptonight_variations no_aeon hw S) i = Some None"
      by (auto simp: i_def lite_def get_at_def cryptonight_variations_def)
    then show ?thesis using unused by (auto simp: CryptoNight_init_def i_def lite_def selfTest_def)
  next
    case used
    have inst: "cn_instance (cn_entry hw S lite (variant = 3)) lite"
      using used assms(2) by (intro entry_instance [OF assms(1)]) auto
    have "selfTest no_aeon g ctx (Some (cn_entry hw S lite (variant = 3))) algo =
        Some (cn_digest lite 0 test_input = (if lite then test_output_v0_lite else test_output_v0) \<and>
          cn_digest lite 1 test_input = (if lite then test_output_v1_lite else test_output_v1))"
      by (rule cn_instance.self_test [OF inst assms(3,4)]) (simp add: lite_def)
    then show ?thesis
      using used table_entry [OF lite_def used, of hw S] unfolding CryptoNight_init_def lite_def by (auto simp: Let_def)
  qed
qed

section \<open>Shares\<close>

lemma toDiff_mono: "x \<le> y \<Longrightarrow> toDiff x = Some a \<Longrightarrow> toDiff y = Some b \<Longrightarrow> b \<le> a"
  by (auto simp: toDiff_def word_le_nat_alt unat_div_max div_le_mono2 unat_gt_0 split: if_splits)

section \<open>Properties\<close>

text \<open>
  C15. \<open>CryptoNight::init\<close> succeeds exactly for the AES-NI variant 1 and the software variant 3
  when the hash passes both test vectors of the chosen algorithm. The function pointer it leaves is
  the instance of the template with the iterations, memory and mask of that algorithm, using the AES
  instructions for variant 1 and the software rounds for variant 3, and it computes that algorithm;
  the unused variants 2 and 4 leave a null pointer, which the self test rejects, and any other
  number leaves the pointer alone. Only variant 1 needs the AES instructions.
\<close>

theorem CryptoNight_init_selects:
  assumes "cn_stack_ready S" "aes_instructions hw \<or> variant \<noteq> 1" "cn_ctx_ready ctx" "length g = 32"
  shows "\<exists>ok p. CryptoNight_init no_aeon hw S g ctx fp algo variant = Some (ok, p) \<and>
    (let lite = (\<not> no_aeon \<and> algo = ALGO_CRYPTONIGHT_LITE)
     in (ok \<longleftrightarrow> (variant = 1 \<or> variant = 3) \<and> cn_digest lite 0 test_input = (if lite then test_output_v0_lite else test_output_v0) \<and>
        cn_digest lite 1 test_input = (if lite then test_output_v1_lite else test_output_v1)) \<and>
      p = (if variant = 1 \<or> variant = 3 then
             Some (if lite then CRYPTONIGHT_HASH hw S AEON_ITER AEON_MEMORY AEON_MASK (variant = 3)
               else CRYPTONIGHT_HASH hw S MONERO_ITER MONERO_MEMORY MONERO_MASK (variant = 3))
           else if variant = 2 \<or> variant = 4 then None else fp) \<and>
      (variant = 1 \<or> variant = 3 \<longrightarrow> (\<exists>f. p = Some f \<and> cn_instance f lite)))"
proof -
  define lite where "lite = (\<not> no_aeon \<and> algo = ALGO_CRYPTONIGHT_LITE)"
  obtain ok p where init: "CryptoNight_init no_aeon hw S g ctx fp algo variant = Some (ok, p)"
    "ok \<longleftrightarrow> (variant = 1 \<or> variant = 3) \<and> cn_digest lite 0 test_input = (if lite then test_output_v0_lite else test_output_v0) \<and>
      cn_digest lite 1 test_input = (if lite then test_output_v1_lite else test_output_v1)"
    using CryptoNight_init_eq [OF assms lite_def] by blast
  have "cn_instance (cn_entry hw S lite (variant = 3)) lite" if "variant = 1 \<or> variant = 3"
    using assms(2) that by (intro entry_instance [OF assms(1)]) auto
  then show ?thesis
    using init CryptoNight_init_pointer [OF init(1) lite_def] unfolding lite_def [symmetric] Let_def cn_entry_def by auto
qed

theorem CryptoNight_init_selects_witness:
  "\<exists>ok. CryptoNight_init False soft_unit blank_stack (replicate 32 0) blank_ctx None ALGO_CRYPTONIGHT_LITE 3 =
      Some (ok, Some (cryptonight_lite_av3_softaes soft_unit blank_stack)) \<and>
    (ok \<longleftrightarrow> cn_digest True 0 test_input = test_output_v0_lite \<and> cn_digest True 1 test_input = test_output_v1_lite)"
  using CryptoNight_init_selects [OF blank_ready(1), of soft_unit 3 blank_ctx "replicate 32 0" False None ALGO_CRYPTONIGHT_LITE]
    blank_ready(2) by (simp add: cn_ctx_ready_def blank_ctx_def cryptonight_lite_av3_softaes_def)

text \<open>
  C4. Hashing a job with an instance of the table stores the digest of its blob in the result and
  reports whether the last eight bytes of the digest, as a little-endian number, are below the
  target. A share that is reported has at least the difficulty of the target, unless these bytes
  are all zero, which makes \<open>actualDiff\<close> divide by zero.
\<close>

theorem CryptoNight_hash_job_share:
  assumes "cn_instance f lite" "cn_ctx_ready ctx" "43 \<le> j_size J" "j_size J \<le> length (j_blob J)" "j_size J < 2 ^ 31"
    and "length (jr_result R) = 32" "Job_variant J = 0 \<or> Job_variant J = 1" "toDiff (j_target J) = Some D"
  shows "\<exists>ok R' ctx'. CryptoNight_hash_job (Some f) J R ctx = Some (ok, R', ctx') \<and>
    jr_result R' = cn_digest lite (Job_variant J) (take (j_size J) (j_blob J)) \<and> length (jr_result R') = 32 \<and>
    (ok \<longleftrightarrow> le_word (drop 24 (jr_result R')) < j_target J) \<and>
    (ok \<longrightarrow> (case actualDiff R' of None \<Rightarrow> le_word (drop 24 (jr_result R')) = (0 :: u64) | Some d \<Rightarrow> D \<le> d))"
proof -
  define d where "d = cn_digest lite (Job_variant J) (take (j_size J) (j_blob J))"
  obtain ctx' where h: "CryptoNight_hash_job (Some f) J R ctx = Some (le_word (drop 24 d) < j_target J, R\<lparr>jr_result := d\<rparr>, ctx')"
    and l: "length d = 32"
    using cn_instance.hash_job [OF assms(1-7)] unfolding d_def by blast
  have a: "actualDiff (R\<lparr>jr_result := d\<rparr>) = toDiff (le_word (drop 24 d))" using l by (simp add: actualDiff_def)
  have "case toDiff (le_word (drop 24 d)) of None \<Rightarrow> le_word (drop 24 d) = (0 :: u64) | Some e \<Rightarrow> D \<le> e"
    if "le_word (drop 24 d) < j_target J"
  proof (cases "toDiff (le_word (drop 24 d))")
    case None
    then show ?thesis by (simp add: toDiff_def split: if_splits)
  next
    case (Some e)
    then show ?thesis using toDiff_mono [of "le_word (drop 24 d)" "j_target J" e D] that assms(8) by simp
  qed
  moreover have "jr_result (R\<lparr>jr_result := d\<rparr>) = d" by simp
  ultimately show ?thesis using h a l unfolding d_def [symmetric] by metis
qed

theorem CryptoNight_hash_job_share_witness:
  "\<exists>ok R' ctx'. CryptoNight_hash_job (Some (cryptonight_av3_softaes soft_unit blank_stack))
      (Job_default\<lparr>j_size := 76, j_target := 7\<rparr>) (JobResult_default (replicate 32 0)) blank_ctx = Some (ok, R', ctx') \<and>
    jr_result R' = cn_digest False 0 (replicate 76 0)"
  using CryptoNight_hash_job_share [OF monero_soft.cn_instance_axioms, of blank_ctx "Job_default\<lparr>j_size := 76, j_target := 7\<rparr>"
      "JobResult_default (replicate 32 0)"] blank_ready(2)
  by (fastforce simp: cn_ctx_ready_def blank_ctx_def Job_default_def JobResult_default_def Job_variant_def VARIANT_AUTO_def toDiff_def)

end
