(* ===== verification/C_Strings.thy ===== *)
theory C_Strings
  imports Prelude
begin

text \<open>
  The functions of \<open>string.h\<close>, \<open>strings.h\<close>, \<open>stdlib.h\<close> and \<open>stdio.h\<close> that the network code uses,
  on C strings: the list of the characters before the terminating zero. A pointer into a string
  is the string that starts there, and a null result \<open>None\<close>. \<open>long\<close> has 64 bits.
\<close>

type_synonym u16 = "16 word"
type_synonym s64 = "64 word"

section \<open>Characters\<close>

definition cstr :: "string \<Rightarrow> bytes" where
  "cstr s = map of_char s"

lemma cstr_Nil [simp]: "cstr [] = []"
  by (simp add: cstr_def)

lemma length_cstr [simp]: "length (cstr s) = length s"
  by (simp add: cstr_def)

text \<open>What a buffer holds when it is read as a string.\<close>

definition c_string :: "bytes \<Rightarrow> bytes" where
  "c_string buf = takeWhile (\<lambda>c. c \<noteq> 0) buf"

lemma c_string_id [simp]: "0 \<notin> set s \<Longrightarrow> c_string s = s"
  unfolding c_string_def by (rule takeWhile_eq_all_conv [THEN iffD2]) auto

lemma c_string_append [simp]: "0 \<notin> set s \<Longrightarrow> c_string (s @ 0 # t) = s"
  unfolding c_string_def by (subst takeWhile_append2) auto

definition tolower_c :: "u8 \<Rightarrow> u8" where
  "tolower_c c = (if 0x41 \<le> c \<and> c \<le> 0x5A then c + 0x20 else c)"

definition isspace_c :: "u8 \<Rightarrow> bool" where
  "isspace_c c \<longleftrightarrow> c = 0x20 \<or> 0x09 \<le> c \<and> c \<le> 0x0D"

definition isdigit_c :: "u8 \<Rightarrow> bool" where
  "isdigit_c c \<longleftrightarrow> 0x30 \<le> c \<and> c \<le> 0x39"

section \<open>Searching and comparing\<close>

definition strchr :: "bytes \<Rightarrow> u8 \<Rightarrow> bytes option" where
  "strchr s c = (case dropWhile (\<lambda>x. x \<noteq> c) s of [] \<Rightarrow> None | x # xs \<Rightarrow> Some (x # xs))"

fun strstr :: "bytes \<Rightarrow> bytes \<Rightarrow> bytes option" where
  "strstr s pat =
    (if take (length pat) s = pat then Some s
     else case s of [] \<Rightarrow> None | x # xs \<Rightarrow> strstr xs pat)"

declare strstr.simps [simp del]

text \<open>Whether \<open>strncasecmp\<close> is zero.\<close>

definition strncasecmp_eq :: "bytes \<Rightarrow> bytes \<Rightarrow> nat \<Rightarrow> bool" where
  "strncasecmp_eq a b n \<longleftrightarrow> map tolower_c (take n a) = map tolower_c (take n b)"

lemma strchr_append: "c \<notin> set s \<Longrightarrow> strchr (s @ c # t) c = Some (c # t)"
  unfolding strchr_def by (subst dropWhile_append2) auto

lemma strchr_None: "strchr s c = None \<longleftrightarrow> c \<notin> set s"
proof -
  have "dropWhile (\<lambda>x. x \<noteq> c) s = [] \<longleftrightarrow> c \<notin> set s"
    by (auto simp: dropWhile_eq_Nil_conv)
  thus ?thesis unfolding strchr_def by (cases "dropWhile (\<lambda>x. x \<noteq> c) s") (simp_all del: dropWhile_eq_Nil_conv)
qed

lemma strchr_cases:
  obtains (none) "c \<notin> set s" "strchr s c = None"
  | (some) u t where "s = u @ c # t" "c \<notin> set u" "strchr s c = Some (c # t)"
proof (cases "c \<in> set s")
  case True
  then obtain u t where "s = u @ c # t" "c \<notin> set u" using split_list_first by metis
  then show ?thesis using some strchr_append by metis
next
  case False
  then show ?thesis using none strchr_None by metis
qed

lemma strstr_None_char: "c \<in> set pat \<Longrightarrow> c \<notin> set s \<Longrightarrow> strstr s pat = None"
proof (induction s)
  case Nil
  then show ?case by (auto simp: strstr.simps)
next
  case (Cons x s)
  have "take (length pat) (x # s) \<noteq> pat"
    using Cons.prems by (metis in_set_takeD)
  then show ?case using Cons by (simp add: strstr.simps [of "x # s"])
qed

lemma strstr_found: "strstr (a @ pat @ b) pat \<noteq> None"
  by (induction a) (auto simp: strstr.simps split: list.splits)

section \<open>Numbers\<close>

fun decimal_value :: "bytes \<Rightarrow> nat" where
  "decimal_value [] = 0"
| "decimal_value (c # cs) = unat (c - 0x30) * 10 ^ length cs + decimal_value cs"

definition clamp_long :: "int \<Rightarrow> int" where
  "clamp_long v = max (- (2 ^ 63)) (min (2 ^ 63 - 1) v)"

text \<open>\<open>strtol(s, nullptr, 10)\<close>.\<close>

definition strtol10 :: "bytes \<Rightarrow> int" where
  "strtol10 s =
    (case dropWhile isspace_c s of
       [] \<Rightarrow> 0
     | c # cs \<Rightarrow>
         if c = 0x2D then clamp_long (- int (decimal_value (takeWhile isdigit_c cs)))
         else if c = 0x2B then clamp_long (int (decimal_value (takeWhile isdigit_c cs)))
         else clamp_long (int (decimal_value (takeWhile isdigit_c (c # cs)))))"

text \<open>The conversion of a wider integer to \<open>int\<close>.\<close>

definition to_int :: "int \<Rightarrow> int" where
  "to_int v = sint (of_int v :: u32)"

text \<open>What \<open>%d\<close> prints for a number that is not negative.\<close>

fun decimal :: "nat \<Rightarrow> bytes" where
  "decimal n = (if n < 10 then [0x30 + of_nat n] else decimal (n div 10) @ [0x30 + of_nat (n mod 10)])"

declare decimal.simps [simp del]

text \<open>The string \<open>snprintf\<close> leaves in a buffer of at least \<open>n\<close> bytes.\<close>

definition snprintf_string :: "nat \<Rightarrow> bytes \<Rightarrow> bytes" where
  "snprintf_string n text = take (n - 1) text"

lemma digit_range:
  assumes "d < 10"
  shows "isdigit_c (0x30 + of_nat d)" "unat (0x30 + of_nat d - 0x30 :: u8) = d"
    "(0x30 + of_nat d :: u8) \<noteq> 0" "(0x30 + of_nat d :: u8) \<noteq> 0x2D" "(0x30 + of_nat d :: u8) \<noteq> 0x2B"
    "\<not> isspace_c (0x30 + of_nat d)" "(0x30 + of_nat d :: u8) \<noteq> 0x3A"
proof -
  have "d \<in> set [0,1,2,3,4,5,6,7,8,9]" using assms by auto
  hence "isdigit_c (0x30 + of_nat d) \<and> unat (0x30 + of_nat d - 0x30 :: u8) = d
      \<and> (0x30 + of_nat d :: u8) \<noteq> 0 \<and> (0x30 + of_nat d :: u8) \<noteq> 0x2D \<and> (0x30 + of_nat d :: u8) \<noteq> 0x2B
      \<and> \<not> isspace_c (0x30 + of_nat d) \<and> (0x30 + of_nat d :: u8) \<noteq> 0x3A"
    by (auto simp: isdigit_c_def isspace_c_def)
  thus "isdigit_c (0x30 + of_nat d)" "unat (0x30 + of_nat d - 0x30 :: u8) = d"
    "(0x30 + of_nat d :: u8) \<noteq> 0" "(0x30 + of_nat d :: u8) \<noteq> 0x2D" "(0x30 + of_nat d :: u8) \<noteq> 0x2B"
    "\<not> isspace_c (0x30 + of_nat d)" "(0x30 + of_nat d :: u8) \<noteq> 0x3A"
    by blast+
qed

lemma decimal_value_append:
  "decimal_value (xs @ ys) = decimal_value xs * 10 ^ length ys + decimal_value ys"
  by (induction xs) (simp_all add: algebra_simps power_add)

lemma decimal_digits: "c \<in> set (decimal n) \<Longrightarrow> \<exists>d < 10. c = 0x30 + of_nat d"
proof (induction n rule: decimal.induct)
  case (1 n)
  show ?case
  proof (cases "n < 10")
    case True
    then show ?thesis using 1 by (auto simp: decimal.simps [of n])
  next
    case False
    hence "c \<in> set (decimal (n div 10)) \<or> c = 0x30 + of_nat (n mod 10)"
      using 1(2) by (auto simp: decimal.simps [of n])
    then show ?thesis
    proof
      assume "c \<in> set (decimal (n div 10))"
      then show ?thesis by (rule 1(1) [OF False])
    next
      assume "c = 0x30 + of_nat (n mod 10)"
      then show ?thesis by (intro exI [of _ "n mod 10"]) simp
    qed
  qed
qed

lemma decimal_nonempty [simp]: "decimal n \<noteq> []"
  by (simp add: decimal.simps [of n])

lemma unat_digit: "d < 10 \<Longrightarrow> unat (of_nat d :: u8) = d"
  using digit_range(2) [of d] by simp

lemma decimal_value_decimal: "decimal_value (decimal n) = n"
proof (induction n rule: decimal.induct)
  case (1 n)
  then show ?case
    by (cases "n < 10") (simp_all add: decimal.simps [of n] decimal_value_append unat_digit)
qed

lemma length_decimal: "0 < k \<Longrightarrow> n < 10 ^ k \<Longrightarrow> length (decimal n) \<le> k"
proof (induction n arbitrary: k rule: decimal.induct)
  case (1 n)
  show ?case
  proof (cases "n < 10")
    case True
    then show ?thesis using 1(2) by (simp add: decimal.simps [of n])
  next
    case False
    then obtain j where k: "k = Suc j" "0 < j"
      using 1(2,3) by (cases k; cases "k - 1") auto
    have "length (decimal (n div 10)) \<le> j"
      using 1(1) [OF False k(2)] 1(3) k(1) by (simp add: div_less_iff_less_mult mult.commute)
    then show ?thesis using False k by (simp add: decimal.simps [of n])
  qed
qed

lemma strtol10_decimal:
  assumes "n < 2 ^ 63"
  shows "strtol10 (decimal n) = int n"
proof -
  obtain c cs where d: "decimal n = c # cs"
    by (cases "decimal n") auto
  obtain k where k: "k < 10" "c = 0x30 + of_nat k"
    using decimal_digits [of c n] d by auto
  have w: "dropWhile isspace_c (decimal n) = decimal n"
    using digit_range(6) [OF k(1)] k(2) d by simp
  have t: "takeWhile isdigit_c (decimal n) = decimal n"
    using decimal_digits digit_range(1) by (auto simp: takeWhile_eq_all_conv)
  have v: "clamp_long (int (decimal_value (decimal n))) = int n"
    using assms by (simp add: clamp_long_def decimal_value_decimal)
  show ?thesis
    unfolding strtol10_def w using d digit_range(4,5) [OF k(1)] k(2) t v by simp
qed

end
