(* ===== verification/Url.thy ===== *)
theory Url
  imports C_Strings Job
begin

text \<open>
  The pool address of \<open>src/src/net/Url.h\<close> and \<open>src/src/net/Url.cpp\<close>. Strings own their memory
  in the code; here they are values, a null pointer being \<open>None\<close>. Reading through a null pointer
  or outside an object is a result \<open>None\<close> of the operation. \<open>m_url\<close> is the string that \<open>url()\<close>
  has cached.
\<close>

section \<open>The address and its operations\<close>

fun algo_int :: "Algo \<Rightarrow> int" where
  "algo_int ALGO_CRYPTONIGHT = 0"
| "algo_int ALGO_CRYPTONIGHT_LITE = 1"

record url =
  u_keepAlive :: bool
  u_nicehash :: bool
  u_host :: "bytes option"
  u_password :: "bytes option"
  u_user :: "bytes option"
  u_algo :: int
  u_variant :: int
  u_url :: "bytes option"
  u_port :: u16

definition kDefaultPassword :: bytes where "kDefaultPassword = cstr ''x''"
definition kDefaultUser :: bytes where "kDefaultUser = cstr ''x''"
definition kDefaultPort :: u16 where "kDefaultPort = 3333"

definition Url_default :: url where
  "Url_default = \<lparr>u_keepAlive = False, u_nicehash = False, u_host = None, u_password = None,
     u_user = None, u_algo = algo_int ALGO_CRYPTONIGHT, u_variant = VARIANT_AUTO, u_url = None,
     u_port = kDefaultPort\<rparr>"

definition Url_isValid :: "url \<Rightarrow> bool" where
  "Url_isValid u \<longleftrightarrow> u_host u \<noteq> None \<and> u_port u > 0"

definition Url_password :: "url \<Rightarrow> bytes" where
  "Url_password u = (case u_password u of Some p \<Rightarrow> p | None \<Rightarrow> kDefaultPassword)"

definition Url_user :: "url \<Rightarrow> bytes" where
  "Url_user u = (case u_user u of Some p \<Rightarrow> p | None \<Rightarrow> kDefaultUser)"

definition parseIPv6 :: "url \<Rightarrow> bytes \<Rightarrow> (bool \<times> url) option" where
  "parseIPv6 u addr =
    (case strchr addr 0x5D of
       None \<Rightarrow> Some (False, u)
     | Some end \<Rightarrow>
         (case strchr end 0x3A of
            None \<Rightarrow> Some (False, u)
          | Some port \<Rightarrow> do {
              let size = length addr - length end;
              m_host \<leftarrow> memcpy (replicate size 0) 0 addr 1 (size - 1);
              Some (True, u\<lparr>u_host := Some (c_string m_host), u_port := of_int (strtol10 (tl port))\<rparr>)
            }))"

definition Url_parse :: "url \<Rightarrow> bytes \<Rightarrow> (bool \<times> url) option" where
  "Url_parse u url =
    (let p = strstr url (cstr ''://'')
     in if p \<noteq> None \<and> \<not> strncasecmp_eq url (cstr ''stratum+tcp://'') 14 then Some (False, u)
        else
          let base = (if p \<noteq> None then drop 14 url else url)
          in if base = [] \<or> hd base = 0x2F then Some (False, u)
             else if hd base = 0x5B then parseIPv6 u base
             else
               (case strchr base 0x3A of
                  None \<Rightarrow> Some (False, u\<lparr>u_host := Some base\<rparr>)
                | Some port \<Rightarrow> do {
                    let size = length base - length port + 1;
                    m_host \<leftarrow> memcpy (replicate size 0) 0 base 0 (size - 1);
                    Some (True, u\<lparr>u_host := Some (c_string m_host), u_port := of_int (strtol10 (tl port))\<rparr>)
                  }))"

text \<open>The constructors.\<close>

definition Url_of :: "bytes \<Rightarrow> url option" where
  "Url_of url = map_option snd (Url_parse Url_default url)"

definition Url_make ::
  "bytes \<Rightarrow> u16 \<Rightarrow> bytes option \<Rightarrow> bytes option \<Rightarrow> bool \<Rightarrow> bool \<Rightarrow> int \<Rightarrow> url" where
  "Url_make host port user password keepAlive nicehash variant =
    \<lparr>u_keepAlive = keepAlive, u_nicehash = nicehash, u_host = Some host, u_password = password,
     u_user = user, u_algo = algo_int ALGO_CRYPTONIGHT, u_variant = variant, u_url = None,
     u_port = port\<rparr>"

text \<open>\<open>url()\<close>: its result and the address with the cached string.\<close>

definition Url_url :: "url \<Rightarrow> (bytes \<times> url) option" where
  "Url_url u =
    (case u_url u of
       Some s \<Rightarrow> Some (s, u)
     | None \<Rightarrow> do {
         host \<leftarrow> u_host u;
         let size = length host + 8;
         let s = snprintf_string (size - 1) (host @ [0x3A] @ decimal (unat (u_port u)));
         Some (s, u\<lparr>u_url := Some s\<rparr>)
       })"

definition Url_setAlgo :: "url \<Rightarrow> int \<Rightarrow> url" where
  "Url_setAlgo u algo =
    (if algo = algo_int ALGO_CRYPTONIGHT \<or> algo = algo_int ALGO_CRYPTONIGHT_LITE
     then u\<lparr>u_algo := algo\<rparr> else u)"

definition applyExceptions :: "url \<Rightarrow> url" where
  "applyExceptions u =
    (if \<not> Url_isValid u then u
     else
       let host = the (u_host u);
           u = (if strstr host (cstr ''.nicehash.com'') \<noteq> None
                then u\<lparr>u_keepAlive := False, u_nicehash := True\<rparr> else u)
       in if strstr host (cstr ''.minergate.com'') \<noteq> None then u\<lparr>u_keepAlive := False\<rparr> else u)"

definition Url_setPassword :: "url \<Rightarrow> bytes option \<Rightarrow> url" where
  "Url_setPassword u password = (case password of None \<Rightarrow> u | Some p \<Rightarrow> u\<lparr>u_password := Some p\<rparr>)"

definition Url_setUser :: "url \<Rightarrow> bytes option \<Rightarrow> url" where
  "Url_setUser u user = (case user of None \<Rightarrow> u | Some p \<Rightarrow> u\<lparr>u_user := Some p\<rparr>)"

definition Url_setVariant :: "url \<Rightarrow> int \<Rightarrow> url" where
  "Url_setVariant u variant =
    (if variant = VARIANT_AUTO \<or> variant = VARIANT_NONE \<or> variant = VARIANT_V1
     then u\<lparr>u_variant := variant\<rparr> else u)"

text \<open>The overload for \<open>bool\<close>, and the other two inline setters.\<close>

definition Url_setVariant_bool :: "url \<Rightarrow> bool \<Rightarrow> url" where
  "Url_setVariant_bool u monero = u\<lparr>u_variant := (if monero then 1 else 0)\<rparr>"

definition Url_setKeepAlive :: "url \<Rightarrow> bool \<Rightarrow> url" where
  "Url_setKeepAlive u keepAlive = u\<lparr>u_keepAlive := keepAlive\<rparr>"

definition Url_setNicehash :: "url \<Rightarrow> bool \<Rightarrow> url" where
  "Url_setNicehash u nicehash = u\<lparr>u_nicehash := nicehash\<rparr>"

definition Url_eq :: "url \<Rightarrow> url \<Rightarrow> bool option" where
  "Url_eq a b =
    (if u_port a \<noteq> u_port b \<or> u_keepAlive a \<noteq> u_keepAlive b \<or> u_nicehash a \<noteq> u_nicehash b
     then Some False
     else do {
       h \<leftarrow> u_host a;
       h' \<leftarrow> u_host b;
       Some (h = h' \<and> Url_user a = Url_user b \<and> Url_password a = Url_password b)
     })"

text \<open>\<open>operator=\<close>, the other address being a different object.\<close>

definition Url_assign :: "url \<Rightarrow> url \<Rightarrow> url option" where
  "Url_assign u other =
    (let u = u\<lparr>u_keepAlive := u_keepAlive other, u_algo := u_algo other, u_variant := u_variant other,
               u_nicehash := u_nicehash other, u_port := u_port other\<rparr>
     in do {
       host \<leftarrow> u_host other;
       let u = u\<lparr>u_host := Some host\<rparr>;
       let u = Url_setUser (Url_setPassword u (u_password other)) (u_user other);
       Some (u\<lparr>u_url := None\<rparr>)
     })"

section \<open>Parsing\<close>

lemma memcpy_string:
  assumes "o1 + n \<le> length s" "0 \<notin> set (take n (drop o1 s))"
  shows "\<exists>b. memcpy (replicate (n + 1) (0 :: u8)) 0 s o1 n = Some b \<and> c_string b = take n (drop o1 s)"
proof -
  have r: "replicate (n + 1) (0 :: u8) = replicate n 0 @ [0]"
    by (simp add: replicate_append_same)
  have "memcpy (replicate (n + 1) 0) 0 s o1 n = Some (take n (drop o1 s) @ [0])"
    unfolding r using assms(1) by (simp add: memcpy_Some min_def)
  thus ?thesis using assms(2) by simp
qed

lemma no_scheme:
  "0x3A \<notin> set h \<Longrightarrow> 0x2F \<notin> set d \<Longrightarrow> strstr (h @ 0x3A # d) (cstr ''://'') = None"
proof (induction h)
  case Nil
  have "strstr d (cstr ''://'') = None"
    using Nil(2) by (intro strstr_None_char [of "0x2F"]) (simp_all add: cstr_def)
  moreover have "take (length (cstr ''://'')) (0x3A # d) \<noteq> cstr ''://''"
    using Nil(2) by (cases d) (auto simp: cstr_def)
  ultimately show ?case by (simp add: strstr.simps [of "0x3A # d"])
next
  case (Cons x h)
  then show ?case by (auto simp: strstr.simps [of "x # y" for y] cstr_def)
qed

lemma tolower_colon: "tolower_c c = 0x3A \<Longrightarrow> c = 0x3A" and tolower_slash: "tolower_c c = 0x2F \<Longrightarrow> c = 0x2F"
proof -
  have "c = 0x3A - 0x20" if "c + 0x20 = 0x3A" using that by (simp add: eq_diff_eq)
  moreover have "c = 0x2F - 0x20" if "c + 0x20 = 0x2F" using that by (simp add: eq_diff_eq)
  ultimately have "c + 0x20 = 0x3A \<Longrightarrow> c = 0x1A" "c + 0x20 = 0x2F \<Longrightarrow> c = 0xF"
    by simp_all
  thus "tolower_c c = 0x3A \<Longrightarrow> c = 0x3A" "tolower_c c = 0x2F \<Longrightarrow> c = 0x2F"
    by (auto simp: tolower_c_def split: if_splits)
qed

definition stratum_scheme :: "bytes \<Rightarrow> bool" where
  "stratum_scheme s \<longleftrightarrow> map tolower_c s = cstr ''stratum+tcp://''"

lemma scheme_found:
  assumes "stratum_scheme s"
  shows "length s = 14" "strstr (s @ b) (cstr ''://'') \<noteq> None" "strncasecmp_eq (s @ b) (cstr ''stratum+tcp://'') 14"
proof -
  have m: "map tolower_c s = cstr ''stratum+tcp://''" using assms by (simp add: stratum_scheme_def)
  show l: "length s = 14" using arg_cong [OF m, of length] by simp
  have "map tolower_c (drop 11 s) = cstr ''://''"
    using arg_cong [OF m, of "drop 11"] by (simp add: drop_map cstr_def)
  hence "drop 11 s = cstr ''://''"
    by (auto simp: cstr_def map_eq_Cons_conv dest: tolower_colon tolower_slash)
  hence s: "s @ b = take 11 s @ cstr ''://'' @ b"
    by (metis append.assoc append_take_drop_id)
  show "strstr (s @ b) (cstr ''://'') \<noteq> None" unfolding s by (rule strstr_found)
  have "map tolower_c (cstr ''stratum+tcp://'') = cstr ''stratum+tcp://''"
    by (simp add: cstr_def tolower_c_def)
  thus "strncasecmp_eq (s @ b) (cstr ''stratum+tcp://'') 14"
    using m l by (simp add: strncasecmp_eq_def cstr_def)
qed

text \<open>A name that \<open>parse\<close> reads as a host.\<close>

definition host_name :: "bytes \<Rightarrow> bool" where
  "host_name h \<longleftrightarrow> h \<noteq> [] \<and> 0 \<notin> set h \<and> 0x3A \<notin> set h \<and> hd h \<noteq> 0x2F \<and> hd h \<noteq> 0x5B"

lemma parse_base:
  assumes h: "host_name h" and d: "0x2F \<notin> set d" and s: "s = [] \<or> stratum_scheme s"
  shows "Url_parse w (s @ h @ 0x3A # d) =
    Some (True, w\<lparr>u_host := Some h, u_port := of_int (strtol10 d)\<rparr>)"
proof -
  have h': "h \<noteq> []" "0 \<notin> set h" "0x3A \<notin> set h" "hd h \<noteq> 0x2F" "hd h \<noteq> 0x5B"
    using h by (auto simp: host_name_def)
  obtain b where b: "memcpy (replicate (length h + 1) 0) 0 (h @ 0x3A # d) 0 (length h) = Some b"
    "c_string b = h"
    using memcpy_string [of 0 "length h" "h @ 0x3A # d"] h'(2) by auto
  have size: "length (h @ 0x3A # d) - length (0x3A # d) + 1 = length h + 1" by simp
  have base: "(if strstr (s @ h @ 0x3A # d) (cstr ''://'') \<noteq> None then drop 14 (s @ h @ 0x3A # d)
      else s @ h @ 0x3A # d) = h @ 0x3A # d"
    and ok: "\<not> (strstr (s @ h @ 0x3A # d) (cstr ''://'') \<noteq> None \<and>
      \<not> strncasecmp_eq (s @ h @ 0x3A # d) (cstr ''stratum+tcp://'') 14)"
    using s no_scheme [OF h'(3) d] scheme_found(1) [of s] scheme_found(2,3) [of s "h @ 0x3A # d"] by auto
  have hd: "h @ 0x3A # d \<noteq> []" "hd (h @ 0x3A # d) \<noteq> 0x2F" "hd (h @ 0x3A # d) \<noteq> 0x5B"
    using h' by simp_all
  show ?thesis
    unfolding Url_parse_def Let_def if_not_P [OF ok] base strchr_append [OF h'(3)] option.case size
    using hd b by simp
qed

lemma Url_url_fits:
  "u_url u = None \<Longrightarrow> u_host u = Some h \<Longrightarrow>
    Url_url u = Some (h @ 0x3A # decimal (unat (u_port u)), u\<lparr>u_url := Some (h @ 0x3A # decimal (unat (u_port u)))\<rparr>)"
proof -
  assume a: "u_url u = None" "u_host u = Some h"
  have "unat (u_port u) < 10 ^ 5" using unsigned_less [of "u_port u", where 'a = nat] by simp
  hence "length (decimal (unat (u_port u))) \<le> 5" by (intro length_decimal) simp_all
  hence "snprintf_string (length h + 8 - 1) (h @ [0x3A] @ decimal (unat (u_port u))) = h @ [0x3A] @ decimal (unat (u_port u))"
    by (simp add: snprintf_string_def)
  thus ?thesis unfolding Url_url_def using a by (simp add: Let_def)
qed

lemma decimal_no_slash: "0x2F \<notin> set (decimal n)"
proof
  assume "0x2F \<in> set (decimal n)"
  then obtain d where "d < 10" "(0x2F :: u8) = 0x30 + of_nat d" using decimal_digits by blast
  moreover from this(1) have "isdigit_c (0x30 + of_nat d)" by (rule digit_range)
  ultimately have "isdigit_c (0x2F :: u8)" by metis
  thus False by (simp add: isdigit_c_def)
qed

lemma round_trip:
  assumes "Url_url u = Some (s, u')" "u_url u = None" "u_host u = Some h" "host_name h"
    "p = [] \<or> stratum_scheme p"
  shows "Url_parse w (p @ s) = Some (True, w\<lparr>u_host := u_host u, u_port := u_port u\<rparr>)"
proof -
  have s: "s = h @ 0x3A # decimal (unat (u_port u))" using assms(1-3) Url_url_fits by simp
  have "unat (u_port u) < 2 ^ 63" using unsigned_less [of "u_port u", where 'a = nat] by simp
  hence "strtol10 (decimal (unat (u_port u))) = int (unat (u_port u))" by (rule strtol10_decimal)
  thus ?thesis
    unfolding s using parse_base [OF assms(4) decimal_no_slash assms(5)] assms(3) by simp
qed

section \<open>What parsing changes\<close>

text \<open>Parsing ends without a bad access, and changes the host and the port at most.\<close>

definition address_change :: "url \<Rightarrow> (bool \<times> url) option \<Rightarrow> bool" where
  "address_change u r \<longleftrightarrow> (\<exists>ok h p. r = Some (ok, u\<lparr>u_host := h, u_port := p\<rparr>))"

lemma address_same: "address_change u (Some (ok, u))"
  unfolding address_change_def by (intro exI [of _ ok] exI [of _ "u_host u"] exI [of _ "u_port u"]) simp

lemma address_host: "address_change u (Some (ok, u\<lparr>u_host := h\<rparr>))"
  unfolding address_change_def by (intro exI [of _ ok] exI [of _ h] exI [of _ "u_port u"]) simp

lemma address_copy:
  assumes "n \<le> m" "so + n \<le> length s"
  shows "address_change u (do {
    b \<leftarrow> memcpy (replicate m (0 :: u8)) 0 s so n;
    Some (True, u\<lparr>u_host := Some (c_string b), u_port := p\<rparr>)
  })"
proof -
  obtain b where "memcpy (replicate m (0 :: u8)) 0 s so n = Some b"
    using assms by (simp add: memcpy_Some)
  thus ?thesis unfolding address_change_def by auto
qed

lemma strchr_length: "strchr s c = Some t \<Longrightarrow> 0 < length t \<and> length t \<le> length s"
  by (cases rule: strchr_cases [of c s]) auto

lemma parseIPv6_change: "b \<noteq> [] \<Longrightarrow> address_change u (parseIPv6 u b)"
proof (cases "strchr b 0x5D")
  case (Some e)
  assume "b \<noteq> []"
  hence "1 + (length b - length e - 1) \<le> length b" by (cases b) auto
  thus ?thesis unfolding parseIPv6_def Let_def Some option.case
    by (cases "strchr e 0x3A") (auto intro: address_same address_copy)
qed (simp add: parseIPv6_def address_same)

lemma Url_parse_change: "address_change u (Url_parse u s)"
proof -
  have name: "address_change u (case strchr b 0x3A of
      None \<Rightarrow> Some (False, u\<lparr>u_host := Some b\<rparr>)
    | Some port \<Rightarrow> do {
        m_host \<leftarrow> memcpy (replicate (length b - length port + 1) 0) 0 b 0 (length b - length port + 1 - 1);
        Some (True, u\<lparr>u_host := Some (c_string m_host), u_port := of_int (strtol10 (tl port))\<rparr>)
      })" for b
    by (cases "strchr b 0x3A"; simp only: option.case; rule address_host address_copy; simp)
  show ?thesis
    unfolding Url_parse_def Let_def
    by (auto intro: address_same parseIPv6_change name simp only: split: if_split)
qed

lemma Url_parse_total:
  obtains ok h p where "Url_parse u s = Some (ok, u\<lparr>u_host := h, u_port := p\<rparr>)"
  using Url_parse_change [of u s] unfolding address_change_def by auto

section \<open>Assignment\<close>

lemma Url_assign_fields:
  assumes "Url_assign u v = Some w"
  shows "u_host w = u_host v" "u_host v \<noteq> None" "u_port w = u_port v" "u_keepAlive w = u_keepAlive v"
    "u_nicehash w = u_nicehash v" "u_algo w = u_algo v" "u_variant w = u_variant v" "u_url w = None"
    "u_user w = (case u_user v of None \<Rightarrow> u_user u | Some x \<Rightarrow> Some x)"
    "u_password w = (case u_password v of None \<Rightarrow> u_password u | Some x \<Rightarrow> Some x)"
  using assms
  by (auto simp: Url_assign_def Let_def Url_setUser_def Url_setPassword_def
      split: option.splits Option.bind_splits)

lemma assign_eq:
  assumes "Url_assign u v = Some w"
  shows "Url_eq w v = Some ((u_user v = None \<longrightarrow> Url_user u = kDefaultUser) \<and>
    (u_password v = None \<longrightarrow> Url_password u = kDefaultPassword))"
  using Url_assign_fields [OF assms]
  by (auto simp: Url_eq_def Url_user_def Url_password_def split: option.splits)

text \<open>
  C29. What \<open>url()\<close> prints is read back by \<open>parse\<close>, with or without a \<open>stratum+tcp://\<close> before it in
  letters of any case: the buffer of \<open>strlen(m_host) + 8\<close> bytes cuts nothing off, and the host and
  the port, every value from 0 to 65535, come back whatever the address that is parsed into held
  before. The host must not be empty, contain a colon, or begin with a slash or a bracket: an IPv6
  address is printed without the brackets it was parsed with.
\<close>
theorem Url_round_trip:
  assumes "Url_url u = Some (s, u')" "u_url u = None" "u_host u = Some h" "host_name h"
    "scheme = [] \<or> stratum_scheme scheme"
  shows "Url_parse w (scheme @ s) = Some (True, w\<lparr>u_host := u_host u, u_port := u_port u\<rparr>)"
  using assms by (rule round_trip)

theorem Url_round_trip_witness:
  "Url_parse Url_default (cstr ''StraTUM+tcp://'' @ cstr ''a.b:65535'') =
    Some (True, Url_default\<lparr>u_host := Some (cstr ''a.b''), u_port := 65535\<rparr>)"
proof -
  let ?u = "Url_default\<lparr>u_host := Some (cstr ''a.b''), u_port := 65535\<rparr>"
  have d: "decimal 65535 = cstr ''65535''" by (simp add: decimal.simps cstr_def)
  have "Url_url ?u = Some (cstr ''a.b:65535'', ?u\<lparr>u_url := Some (cstr ''a.b:65535'')\<rparr>)"
    using Url_url_fits [of ?u "cstr ''a.b''"] d by (simp add: Url_default_def cstr_def)
  moreover have "host_name (cstr ''a.b'')" "stratum_scheme (cstr ''StraTUM+tcp://'')"
    by (simp_all add: host_name_def stratum_scheme_def cstr_def tolower_c_def)
  ultimately show ?thesis
    using Url_round_trip [of ?u _ _ "cstr ''a.b''" "cstr ''StraTUM+tcp://''" Url_default]
    by (simp add: Url_default_def)
qed

text \<open>
  Assignment copies everything but a user and a password that the source does not have: the
  old ones stay. So the address equals its source afterwards exactly if, for each of the two, the
  source has one or the old value was the default.
\<close>
theorem Url_assign_keeps_credentials:
  assumes "Url_assign u v = Some w"
  shows "Url_eq w v = Some ((u_user v = None \<longrightarrow> Url_user u = kDefaultUser) \<and>
    (u_password v = None \<longrightarrow> Url_password u = kDefaultPassword))"
  using assms by (rule assign_eq)

theorem Url_assign_keeps_credentials_witness:
  "\<exists>w. Url_assign (Url_make (cstr ''a'') 1 (Some (cstr ''me'')) None False False 0)
      (Url_make (cstr ''b'') 2 None None False False 0) = Some w \<and>
    Url_eq w (Url_make (cstr ''b'') 2 None None False False 0) = Some False"
proof -
  let ?u = "Url_make (cstr ''a'') 1 (Some (cstr ''me'')) None False False 0"
  let ?v = "Url_make (cstr ''b'') 2 None None False False 0"
  have "Url_assign ?u ?v \<noteq> None" by (simp add: Url_assign_def Url_make_def Let_def)
  then obtain w where w: "Url_assign ?u ?v = Some w" by auto
  moreover have "Url_eq w ?v = Some False"
    using Url_assign_keeps_credentials [OF w]
    by (simp add: Url_make_def Url_user_def kDefaultUser_def cstr_def)
  ultimately show ?thesis by blast
qed


end
