(* ===== verification/Options.thy ===== *)
theory Options
  imports Url
begin

text \<open>
  The configuration: \<open>src/src/Options.h\<close>, \<open>src/src/Options.cpp\<close> and the thread settings of
  \<open>src/src/workers/OclThread.h\<close>. The arguments are what \<open>getopt_long\<close> returns for them, in order,
  and the files what the JSON parser makes of them; both are parameters, as are the path of the
  default configuration and whether the processor has AES instructions. What is printed is left
  out. A result \<open>None\<close> is a read outside \<open>m_pools\<close> or an overflow.
\<close>

section \<open>JSON values\<close>

text \<open>
  The values of the JSON library as its queries see them; \<open>'d\<close> stands for the floating point
  numbers. A member that is missing is read as null: the library is built without its assertions.
\<close>

datatype 'd json =
    JNull
  | JBool bool
  | JInt int
  | JDouble 'd
  | JString bytes
  | JArray "'d json list"
  | JObject "(bytes \<times> 'd json) list"

definition IsUint64 :: "int \<Rightarrow> bool" where "IsUint64 n \<longleftrightarrow> 0 \<le> n \<and> n < 2 ^ 64"
definition IsInt64 :: "int \<Rightarrow> bool" where "IsInt64 n \<longleftrightarrow> - (2 ^ 63) \<le> n \<and> n < 2 ^ 63"
definition IsUint :: "int \<Rightarrow> bool" where "IsUint n \<longleftrightarrow> 0 \<le> n \<and> n < 2 ^ 32"
definition IsInt :: "int \<Rightarrow> bool" where "IsInt n \<longleftrightarrow> - (2 ^ 31) \<le> n \<and> n < 2 ^ 31"

definition json_member :: "(bytes \<times> 'd json) list \<Rightarrow> bytes \<Rightarrow> 'd json" where
  "json_member obj name = (case map_of obj name of Some v \<Rightarrow> v | None \<Rightarrow> JNull)"

text \<open>\<open>GetInt\<close> without its assertion: \<open>raw\<close> is what the value's memory holds otherwise.\<close>

definition GetInt :: "('d json \<Rightarrow> int) \<Rightarrow> 'd json \<Rightarrow> int" where
  "GetInt raw v = (case v of JInt n \<Rightarrow> to_int n | JNull \<Rightarrow> 0 | _ \<Rightarrow> raw v)"

section \<open>Threads and clocks\<close>

record ocl_thread =
  t_threadId :: int
  t_index :: u64
  t_rawIntensity :: u64
  t_worksize :: u64
  t_affinity :: int

definition OclThread_default :: ocl_thread where
  "OclThread_default = \<lparr>t_threadId = 0, t_index = 0, t_rawIntensity = 0, t_worksize = 8, t_affinity = -1\<rparr>"

definition OclThread_make :: "u64 \<Rightarrow> u64 \<Rightarrow> u64 \<Rightarrow> int \<Rightarrow> ocl_thread" where
  "OclThread_make index rawIntensity worksize affinity =
    \<lparr>t_threadId = 0, t_index = index, t_rawIntensity = rawIntensity, t_worksize = worksize,
     t_affinity = affinity\<rparr>"

text \<open>The two fields of a performance level that are set.\<close>

record performance_level =
  iClock :: int
  iVddc :: int

section \<open>The options\<close>

record options =
  o_background :: bool
  o_colors :: bool
  o_ready :: bool
  o_syslog :: bool
  o_accessToken :: "bytes option"
  o_id :: "bytes option"
  o_config :: "bytes option"
  o_log :: "bytes option"
  o_algo :: int
  o_algoVariant :: int
  o_port :: int
  o_intensity :: u64
  o_platformIndex :: int
  o_threads :: "ocl_thread list"
  o_pools :: "url list"
  o_systemClocks :: "performance_level list"
  o_memoryClocks :: "performance_level list"
  o_targetTemperature :: int
  o_powerLimit :: int

text \<open>The tables: name, whether there is an argument, key. A row without a name ends each.\<close>

type_synonym option_table = "(bytes option \<times> bool \<times> int) list"

definition key :: "char \<Rightarrow> int" where
  "key c = of_char c"

definition long_options :: option_table where
  "long_options =
    [(Some (cstr ''algo''), True, key CHR ''a''),
     (Some (cstr ''token''), True, 4001),
     (Some (cstr ''port''), True, 4000),
     (Some (cstr ''id''), True, 4002),
     (Some (cstr ''background''), False, key CHR ''b''),
     (Some (cstr ''config''), True, key CHR ''c''),
     (Some (cstr ''help''), False, key CHR ''h''),
     (Some (cstr ''keepalive''), False, key CHR ''k''),
     (Some (cstr ''log''), True, key CHR ''l''),
     (Some (cstr ''nicehash''), False, 1006),
     (Some (cstr ''no-color''), False, 1002),
     (Some (cstr ''variant''), True, 1010),
     (Some (cstr ''intensity''), True, 1401),
     (Some (cstr ''platform-index''), True, 1400),
     (Some (cstr ''pass''), True, key CHR ''p''),
     (Some (cstr ''syslog''), False, key CHR ''s''),
     (Some (cstr ''url''), True, key CHR ''o''),
     (Some (cstr ''user''), True, key CHR ''u''),
     (Some (cstr ''version''), False, key CHR ''v''),
     (None, False, 0)]"

definition config_options :: option_table where
  "config_options =
    [(Some (cstr ''algo''), True, key CHR ''a''),
     (Some (cstr ''background''), False, key CHR ''b''),
     (Some (cstr ''log''), True, key CHR ''l''),
     (Some (cstr ''platform_index''), True, 1400),
     (Some (cstr ''syslog''), False, key CHR ''s''),
     (None, False, 0)]"

definition pool_options :: option_table where
  "pool_options =
    [(Some (cstr ''url''), True, key CHR ''o''),
     (Some (cstr ''pass''), True, key CHR ''p''),
     (Some (cstr ''user''), True, key CHR ''u''),
     (Some (cstr ''keepalive''), False, key CHR ''k''),
     (Some (cstr ''nicehash''), False, 1006),
     (Some (cstr ''variant''), True, 1010),
     (None, False, 0)]"

definition api_options :: option_table where
  "api_options =
    [(Some (cstr ''port''), True, 4000),
     (Some (cstr ''token''), True, 4001),
     (Some (cstr ''id''), True, 4002),
     (None, False, 0)]"

definition profile_options :: option_table where
  "profile_options =
    [(Some (cstr ''system''), True, 5000),
     (Some (cstr ''memory''), True, 5001),
     (Some (cstr ''target_temperature''), True, 5002),
     (Some (cstr ''power_limit''), True, 5003),
     (None, False, 0)]"

definition algo_names :: "bool \<Rightarrow> bytes list" where
  "algo_names XMRIG_NO_AEON =
    (if XMRIG_NO_AEON then [cstr ''cryptonight''] else [cstr ''cryptonight'', cstr ''cryptonight-lite''])"

definition algoName :: "bool \<Rightarrow> options \<Rightarrow> bytes option" where
  "algoName XMRIG_NO_AEON self =
    (if o_algo self < 0 then None else get_at (algo_names XMRIG_NO_AEON) (nat (o_algo self)))"

section \<open>Single options\<close>

fun setAlgo_loop :: "bool \<Rightarrow> options \<Rightarrow> bytes \<Rightarrow> nat list \<Rightarrow> bool \<times> options" where
  "setAlgo_loop no_aeon self algo [] = (True, self)"
| "setAlgo_loop no_aeon self algo (i # is) =
    (let n = length (algo_names no_aeon)
     in if algo = algo_names no_aeon ! i then (True, self\<lparr>o_algo := int i\<rparr>)
        else if \<not> no_aeon \<and> i = n - 1 \<and> algo = cstr ''cryptonight-light''
          then (True, self\<lparr>o_algo := algo_int ALGO_CRYPTONIGHT_LITE\<rparr>)
        else if i = n - 1 then (False, self)
        else setAlgo_loop no_aeon self algo is)"

definition Options_setAlgo :: "bool \<Rightarrow> options \<Rightarrow> bytes \<Rightarrow> bool \<times> options" where
  "Options_setAlgo no_aeon self algo = setAlgo_loop no_aeon self algo [0..<length (algo_names no_aeon)]"

text \<open>A change of \<open>*m_pools.back()\<close>.\<close>

definition pools_back :: "(url \<Rightarrow> url) \<Rightarrow> options \<Rightarrow> options option" where
  "pools_back f self =
    (if o_pools self = [] then None
     else Some (self\<lparr>o_pools := butlast (o_pools self) @ [f (last (o_pools self))]\<rparr>))"

definition parseArg_uint64 :: "options \<Rightarrow> int \<Rightarrow> int \<Rightarrow> (bool \<times> options) option" where
  "parseArg_uint64 self k arg =
    (if k = 1010 then map_option (Pair True) (pools_back (\<lambda>u. Url_setVariant u (to_int arg)) self)
     else if k = 1400 then Some (True, self\<lparr>o_platformIndex := to_int arg\<rparr>)
     else if k = 1401 then Some (True, self\<lparr>o_intensity := of_int arg\<rparr>)
     else if k = 4000 then Some (True, if arg \<le> 65536 then self\<lparr>o_port := to_int arg\<rparr> else self)
     else if k = 5002 then Some (True, self\<lparr>o_targetTemperature := to_int arg\<rparr>)
     else Some (True, self))"

definition parseArg_int64 :: "options \<Rightarrow> int \<Rightarrow> int \<Rightarrow> (bool \<times> options) option" where
  "parseArg_int64 self k arg =
    (if k = 5003 then Some (True, self\<lparr>o_powerLimit := to_int arg\<rparr>) else Some (True, self))"

definition parseBoolean :: "options \<Rightarrow> int \<Rightarrow> bool \<Rightarrow> (bool \<times> options) option" where
  "parseBoolean self k enable =
    (if k = key CHR ''k'' then map_option (Pair True) (pools_back (\<lambda>u. Url_setKeepAlive u enable) self)
     else if k = key CHR ''b'' then Some (True, self\<lparr>o_background := enable\<rparr>)
     else if k = key CHR ''s'' then Some (True, self\<lparr>o_syslog := enable\<rparr>)
     else if k = 1006 then map_option (Pair True) (pools_back (\<lambda>u. Url_setNicehash u enable) self)
     else Some (True, self))"

text \<open>The case \<open>'o'\<close>: another pool, or the address of the first one.\<close>

definition parseArg_url :: "options \<Rightarrow> bytes \<Rightarrow> (bool \<times> options) option" where
  "parseArg_url self arg =
    do {
      front \<leftarrow> get_at (o_pools self) 0;
      self \<leftarrow> (if length (o_pools self) > 1 \<or> Url_isValid front
           then do {
             url \<leftarrow> Url_of arg;
             Some (if Url_isValid url then self\<lparr>o_pools := o_pools self @ [url]\<rparr> else self)
           }
           else do {
             (ok, url) \<leftarrow> Url_parse front arg;
             Some (self\<lparr>o_pools := (o_pools self)[0 := url]\<rparr>)
           });
      Some (Url_isValid (last (o_pools self)), self)
    }"

text \<open>\<open>parseArg\<close> of a string; \<open>config\<close> is \<open>parseConfig\<close>.\<close>

definition parseArg ::
  "bool \<Rightarrow> (options \<Rightarrow> bytes \<Rightarrow> options option) \<Rightarrow> options \<Rightarrow> int \<Rightarrow> bytes \<Rightarrow> (bool \<times> options) option" where
  "parseArg no_aeon config self k arg =
    (if k = key CHR ''a'' then Some (Options_setAlgo no_aeon self arg)
     else if k = key CHR ''o'' then parseArg_url self arg
     else if k = key CHR ''u'' then map_option (Pair True) (pools_back (\<lambda>u. Url_setUser u (Some arg)) self)
     else if k = key CHR ''p'' then map_option (Pair True) (pools_back (\<lambda>u. Url_setPassword u (Some arg)) self)
     else if k = key CHR ''l'' then Some (True, self\<lparr>o_log := Some arg\<rparr>)
     else if k = 4001 then Some (True, self\<lparr>o_accessToken := Some arg\<rparr>)
     else if k = 4002 then Some (True, self\<lparr>o_id := Some arg\<rparr>)
     else if k = 4000 \<or> k = 1400 \<or> k = 1401 then parseArg_uint64 self k (strtol10 arg mod 2 ^ 64)
     else if k = 1010 then parseArg_int64 self k (strtol10 arg)
     else if k = key CHR ''b'' \<or> k = key CHR ''k'' \<or> k = key CHR ''s'' \<or> k = 1006 then parseBoolean self k True
     else if k = key CHR ''v'' \<or> k = key CHR ''h'' then Some (False, self)
     else if k = key CHR ''c'' then map_option (Pair True) (config self arg)
     else Some (False, self))"

definition parseUrl :: "bytes \<Rightarrow> url option option" where
  "parseUrl arg = map_option (\<lambda>url. if Url_isValid url then Some url else None) (Url_of arg)"

section \<open>The configuration file\<close>

text \<open>
  A value for a row of a table. No table has the key \<open>'c'\<close>, so that \<open>parseConfig\<close> is not entered
  from here.
\<close>

definition parse_value ::
  "bool \<Rightarrow> bool \<times> int \<Rightarrow> 'd json \<Rightarrow> options \<Rightarrow> options option" where
  "parse_value no_aeon opt value self =
    (let (has_arg, val) = opt
     in case value of
          JString s \<Rightarrow>
            if has_arg then map_option snd (parseArg no_aeon (\<lambda>self f. None) self val (c_string s)) else Some self
        | JInt n \<Rightarrow>
            if has_arg \<and> IsUint64 n then map_option snd (parseArg_uint64 self val n)
            else if has_arg \<and> IsInt64 n then map_option snd (parseArg_int64 self val n)
            else Some self
        | JBool b \<Rightarrow> if \<not> has_arg then map_option snd (parseBoolean self val b) else Some self
        | _ \<Rightarrow> Some self)"

definition parseJSON ::
  "bool \<Rightarrow> bytes option \<times> bool \<times> int \<Rightarrow> (bytes \<times> 'd json) list \<Rightarrow> options \<Rightarrow> options option" where
  "parseJSON no_aeon opt object self =
    (case fst opt of
       None \<Rightarrow> Some self
     | Some name \<Rightarrow>
         (case map_of object name of
            None \<Rightarrow> Some self
          | Some value \<Rightarrow> parse_value no_aeon (snd opt) value self))"

text \<open>The loops over a table and over an array: one step after the other.\<close>

fun each :: "('a \<Rightarrow> 's \<Rightarrow> 's option) \<Rightarrow> 'a list \<Rightarrow> 's \<Rightarrow> 's option" where
  "each f [] s = Some s"
| "each f (x # xs) s = Option.bind (f x s) (each f xs)"

text \<open>\<open>milli\<close> is the conversion of the product with 1000 to \<open>int\<close>.\<close>

definition parseLevel ::
  "('d \<Rightarrow> int option) \<Rightarrow> int \<Rightarrow> (bytes \<times> 'd json) list \<Rightarrow> options \<Rightarrow> options option" where
  "parseLevel milli k object self =
    do {
      clock \<leftarrow> (case json_member object (cstr ''clock'') of
          JInt n \<Rightarrow> if IsInt n then (if IsInt (n * 100) then Some (n * 100) else None) else Some 0
        | _ \<Rightarrow> Some 0);
      vddc \<leftarrow> (case json_member object (cstr ''vddc'') of JDouble d \<Rightarrow> milli d | _ \<Rightarrow> Some 0);
      let level = \<lparr>iClock = clock, iVddc = vddc\<rparr>;
      Some (if k = 5000 then self\<lparr>o_systemClocks := o_systemClocks self @ [level]\<rparr>
            else if k = 5001 then self\<lparr>o_memoryClocks := o_memoryClocks self @ [level]\<rparr>
            else self)
    }"

definition parseProfile ::
  "bool \<Rightarrow> ('d \<Rightarrow> int option) \<Rightarrow> bytes option \<times> bool \<times> int \<Rightarrow> (bytes \<times> 'd json) list \<Rightarrow>
    options \<Rightarrow> options option" where
  "parseProfile no_aeon milli opt object self =
    (case fst opt of
       None \<Rightarrow> Some self
     | Some name \<Rightarrow>
         (case map_of object name of
            None \<Rightarrow> Some self
          | Some value \<Rightarrow>
              (case (fst (snd opt), value) of
                 (True, JArray levels) \<Rightarrow>
                   each (\<lambda>level self. case level of JObject l \<Rightarrow> parseLevel milli (snd (snd opt)) l self | _ \<Rightarrow> Some self)
                     levels self
               | _ \<Rightarrow> parse_value no_aeon (snd opt) value self)))"

definition parseThread :: "('d json \<Rightarrow> int) \<Rightarrow> (bytes \<times> 'd json) list \<Rightarrow> options \<Rightarrow> options" where
  "parseThread raw object self =
    (let t = OclThread_default;
         t = t\<lparr>t_index := of_int (GetInt raw (json_member object (cstr ''index'')))\<rparr>;
         t = (case json_member object (cstr ''intensity'') of
                JInt n \<Rightarrow> if IsUint n then t\<lparr>t_rawIntensity := of_int n\<rparr> else t | _ \<Rightarrow> t);
         t = (case json_member object (cstr ''worksize'') of
                JInt n \<Rightarrow> if IsUint n then t\<lparr>t_worksize := of_int n\<rparr> else t | _ \<Rightarrow> t);
         t = (case json_member object (cstr ''affine_to_cpu'') of
                JInt n \<Rightarrow> if IsInt n then t\<lparr>t_affinity := n\<rparr> else t | _ \<Rightarrow> t)
     in self\<lparr>o_threads := o_threads self @ [t]\<rparr>)"

text \<open>What the JSON library makes of a file: nothing if it cannot be opened or parsed.\<close>

definition getJSON :: "(bytes \<Rightarrow> 'd json option) \<Rightarrow> bytes \<Rightarrow> (bytes \<times> 'd json) list option" where
  "getJSON files fileName = (case files fileName of Some (JObject doc) \<Rightarrow> Some doc | _ \<Rightarrow> None)"

record 'd environment =
  env_files :: "bytes \<Rightarrow> 'd json option"
  env_milli :: "'d \<Rightarrow> int option"
  env_raw :: "'d json \<Rightarrow> int"
  env_no_aeon :: bool
  env_hasAES :: bool
  env_defaultConfig :: bytes

definition on_objects :: "((bytes \<times> 'd json) list \<Rightarrow> 's \<Rightarrow> 's option) \<Rightarrow> 'd json \<Rightarrow> 's \<Rightarrow> 's option" where
  "on_objects f v s =
    (case v of
       JArray values \<Rightarrow> each (\<lambda>value s. case value of JObject obj \<Rightarrow> f obj s | _ \<Rightarrow> Some s) values s
     | _ \<Rightarrow> Some s)"

definition parseConfig :: "'d environment \<Rightarrow> options \<Rightarrow> bytes \<Rightarrow> options option" where
  "parseConfig E self fileName =
    (case getJSON (env_files E) fileName of
       None \<Rightarrow> Some self
     | Some doc \<Rightarrow> do {
         let aeon = env_no_aeon E;
         let self = self\<lparr>o_config := Some fileName\<rparr>;
         self \<leftarrow> each (\<lambda>opt. parseJSON aeon opt doc) config_options self;
         self \<leftarrow> on_objects (\<lambda>obj. each (\<lambda>opt. parseJSON aeon opt obj) pool_options)
                (json_member doc (cstr ''pools'')) self;
         self \<leftarrow> on_objects (\<lambda>obj self. Some (parseThread (env_raw E) obj self)) (json_member doc (cstr ''threads'')) self;
         self \<leftarrow> (case json_member doc (cstr ''api'') of
                JObject api \<Rightarrow> each (\<lambda>opt. parseJSON aeon opt api) api_options self | _ \<Rightarrow> Some self);
         (case json_member doc (cstr ''profile'') of
            JObject profile \<Rightarrow> each (\<lambda>opt. parseProfile aeon (env_milli E) opt profile) profile_options self
          | _ \<Rightarrow> Some self)
       })"

section \<open>All options\<close>

definition Options_initial :: options where
  "Options_initial = \<lparr>o_background = False, o_colors = True, o_ready = False, o_syslog = False,
     o_accessToken = None, o_id = None, o_config = None, o_log = None, o_algo = 0, o_algoVariant = 0,
     o_port = 0, o_intensity = 0, o_platformIndex = 0, o_threads = [], o_pools = [Url_default],
     o_systemClocks = [], o_memoryClocks = [], o_targetTemperature = 0, o_powerLimit = 0\<rparr>"

text \<open>The loop over the arguments: whether it went to the end.\<close>

fun parse_args :: "'d environment \<Rightarrow> (int \<times> bytes) list \<Rightarrow> options \<Rightarrow> (bool \<times> options) option" where
  "parse_args E [] self = Some (True, self)"
| "parse_args E ((k, arg) # args) self =
    do {
      (ok, self) \<leftarrow> parseArg (env_no_aeon E) (parseConfig E) self k arg;
      if ok then parse_args E args self else Some (False, self)
    }"

definition default_pool :: url where
  "default_pool = Url_make (cstr ''cryptonight.eu.nicehash.com'') 3355
     (Some (cstr ''3EXnQ9TLnco6hqjL8S7685YF7mgkaN4LFq'')) None False True VARIANT_AUTO"

definition Options_make :: "'d environment \<Rightarrow> (int \<times> bytes) list \<Rightarrow> bool \<Rightarrow> options option" where
  "Options_make E args unsupported =
    do {
      (ok, self) \<leftarrow> parse_args E args Options_initial;
      if \<not> ok \<or> unsupported then Some self
      else do {
        front \<leftarrow> get_at (o_pools self) 0;
        self \<leftarrow> (if \<not> Url_isValid front then parseConfig E self (env_defaultConfig E) else Some self);
        front \<leftarrow> get_at (o_pools self) 0;
        let self = (if \<not> Url_isValid front then self\<lparr>o_pools := (o_pools self)[0 := default_pool]\<rparr> else self);
        let self = self\<lparr>o_algoVariant := (if env_hasAES E then 1 else 3)\<rparr>;
        let self = self\<lparr>o_pools := map (\<lambda>u. applyExceptions (Url_setAlgo u (o_algo self))) (o_pools self)\<rparr>;
        Some (self\<lparr>o_ready := True\<rparr>)
      }
    }"

text \<open>\<open>Options::parse\<close>: the null pointer if the options are not ready.\<close>

definition Options_parse :: "'d environment \<Rightarrow> (int \<times> bytes) list \<Rightarrow> bool \<Rightarrow> options option option" where
  "Options_parse E args unsupported =
    map_option (\<lambda>self. if o_ready self then Some self else None) (Options_make E args unsupported)"

section \<open>What every operation keeps\<close>

text \<open>
  There is always a pool, and with more than one all of them are valid; the settings that are
  chosen from an enumeration are in it, and the port of the interface is at most 65536.
\<close>

definition pool_wf :: "url \<Rightarrow> bool" where
  "pool_wf u \<longleftrightarrow> u_variant u \<in> {VARIANT_AUTO, VARIANT_NONE, VARIANT_V1} \<and>
    u_algo u \<in> {algo_int ALGO_CRYPTONIGHT, algo_int ALGO_CRYPTONIGHT_LITE}"

definition options_wf :: "bool \<Rightarrow> options \<Rightarrow> bool" where
  "options_wf no_aeon self \<longleftrightarrow> o_pools self \<noteq> [] \<and>
    (1 < length (o_pools self) \<longrightarrow> (\<forall>p \<in> set (o_pools self). Url_isValid p)) \<and>
    (\<forall>p \<in> set (o_pools self). pool_wf p) \<and>
    0 \<le> o_algo self \<and> o_algo self < int (length (algo_names no_aeon)) \<and> 0 \<le> o_port self \<and> o_port self \<le> 65536"

text \<open>While the arguments are read, \<open>m_ready\<close> is not set.\<close>

definition pending :: "bool \<Rightarrow> options \<Rightarrow> bool" where
  "pending no_aeon self \<longleftrightarrow> options_wf no_aeon self \<and> \<not> o_ready self"

text \<open>The result of an operation: well formed, and a bad access only where \<open>always\<close> does not hold.\<close>

definition keeps :: "bool \<Rightarrow> bool \<Rightarrow> options option \<Rightarrow> bool" where
  "keeps no_aeon always r = (case r of None \<Rightarrow> \<not> always | Some self \<Rightarrow> pending no_aeon self)"

named_theorems keeping

lemma keeps_Some [keeping]: "pending a self \<Longrightarrow> keeps a t (Some self)"
  by (simp add: keeps_def)

lemma keeps_bind [keeping]:
  "keeps a t r \<Longrightarrow> (\<And>self. pending a self \<Longrightarrow> keeps a t (f self)) \<Longrightarrow> keeps a t (Option.bind r f)"
  by (cases r) (auto simp: keeps_def)

lemma keeps_each [keeping]:
  "pending a self \<Longrightarrow> (\<And>x self. x \<in> set xs \<Longrightarrow> pending a self \<Longrightarrow> keeps a t (f x self)) \<Longrightarrow>
    keeps a t (each f xs self)"
proof (induction xs arbitrary: self)
  case (Cons x xs)
  have "keeps a t (f x self)" using Cons.prems by simp
  moreover have "keeps a t (each f xs self')" if "pending a self'" for self'
    using that Cons.prems by (intro Cons.IH) auto
  ultimately show ?case by (simp add: keeps_bind)
qed (simp add: keeps_Some)

lemma wf_updates [keeping]:
  "pending a self \<Longrightarrow> pending a (self\<lparr>o_log := l\<rparr>)"
  "pending a self \<Longrightarrow> pending a (self\<lparr>o_accessToken := l\<rparr>)"
  "pending a self \<Longrightarrow> pending a (self\<lparr>o_id := l\<rparr>)"
  "pending a self \<Longrightarrow> pending a (self\<lparr>o_config := l\<rparr>)"
  "pending a self \<Longrightarrow> pending a (self\<lparr>o_background := b\<rparr>)"
  "pending a self \<Longrightarrow> pending a (self\<lparr>o_syslog := b\<rparr>)"
  "pending a self \<Longrightarrow> pending a (self\<lparr>o_platformIndex := i\<rparr>)"
  "pending a self \<Longrightarrow> pending a (self\<lparr>o_intensity := w\<rparr>)"
  "pending a self \<Longrightarrow> pending a (self\<lparr>o_targetTemperature := i\<rparr>)"
  "pending a self \<Longrightarrow> pending a (self\<lparr>o_powerLimit := i\<rparr>)"
  "pending a self \<Longrightarrow> pending a (self\<lparr>o_algoVariant := i\<rparr>)"
  "pending a self \<Longrightarrow> pending a (self\<lparr>o_threads := ts\<rparr>)"
  "pending a self \<Longrightarrow> pending a (self\<lparr>o_systemClocks := ls\<rparr>)"
  "pending a self \<Longrightarrow> pending a (self\<lparr>o_memoryClocks := ls\<rparr>)"
  by (simp_all add: pending_def options_wf_def)

lemma keeps_pools_back [keeping]:
  assumes "pending a self" and f: "\<And>u. pool_wf u \<Longrightarrow> pool_wf (f u)" "\<And>u. Url_isValid (f u) = Url_isValid u"
  shows "keeps a t (pools_back f self)"
proof -
  obtain ps p where p: "o_pools self = ps @ [p]"
    using assms(1) by (cases "o_pools self" rule: rev_cases) (simp_all add: pending_def options_wf_def)
  thus ?thesis
    using assms(1) f by (auto simp: pools_back_def keeps_def pending_def options_wf_def)
qed

lemma pool_setters [keeping]:
  "pool_wf u \<Longrightarrow> pool_wf (Url_setVariant u v)" "Url_isValid (Url_setVariant u v) = Url_isValid u"
  "pool_wf u \<Longrightarrow> pool_wf (Url_setUser u s)" "Url_isValid (Url_setUser u s) = Url_isValid u"
  "pool_wf u \<Longrightarrow> pool_wf (Url_setPassword u s)" "Url_isValid (Url_setPassword u s) = Url_isValid u"
  "pool_wf u \<Longrightarrow> pool_wf (Url_setKeepAlive u b)" "Url_isValid (Url_setKeepAlive u b) = Url_isValid u"
  "pool_wf u \<Longrightarrow> pool_wf (Url_setNicehash u b)" "Url_isValid (Url_setNicehash u b) = Url_isValid u"
  "pool_wf u \<Longrightarrow> pool_wf (Url_setAlgo u i)" "Url_isValid (Url_setAlgo u i) = Url_isValid u"
  "pool_wf u \<Longrightarrow> pool_wf (applyExceptions u)" "Url_isValid (applyExceptions u) = Url_isValid u"
  by (auto simp: pool_wf_def Url_isValid_def Url_setVariant_def Url_setUser_def Url_setPassword_def
      Url_setKeepAlive_def Url_setNicehash_def Url_setAlgo_def applyExceptions_def Let_def
      split: option.splits)

lemma setAlgo_loop_keeps:
  "pending a self \<Longrightarrow> set is \<subseteq> {..<length (algo_names a)} \<Longrightarrow> pending a (snd (setAlgo_loop a self s is))"
proof (induction "is")
  case (Cons i "is")
  have "pending a (self\<lparr>o_algo := int i\<rparr>)"
    using Cons.prems by (simp add: pending_def options_wf_def)
  moreover have "\<not> a \<Longrightarrow> pending a (self\<lparr>o_algo := algo_int ALGO_CRYPTONIGHT_LITE\<rparr>)"
    using Cons.prems by (simp add: pending_def options_wf_def algo_names_def)
  ultimately show ?case using Cons by (simp add: Let_def)
qed simp

lemma Options_setAlgo_keeps [keeping]: "pending a self \<Longrightarrow> pending a (snd (Options_setAlgo a self s))"
  unfolding Options_setAlgo_def by (rule setAlgo_loop_keeps) auto

lemma keeps_snd [keeping]: "keeps a t r \<Longrightarrow> keeps a t (map_option snd (map_option (Pair b) r))"
  by (cases r) (auto simp: keeps_def)

lemma to_int_port: "0 \<le> n \<Longrightarrow> n \<le> 65536 \<Longrightarrow> to_int n = n"
  unfolding to_int_def sint_sbintrunc' by (simp add: signed_take_bit_int_eq_self)

lemma keeps_uint64 [keeping]: "pending a self \<Longrightarrow> 0 \<le> n \<Longrightarrow> keeps a t (map_option snd (parseArg_uint64 self k n))"
proof -
  assume wf: "pending a self" and n: "0 \<le> n"
  have "pending a (if n \<le> 65536 then self\<lparr>o_port := to_int n\<rparr> else self)"
    using wf n by (auto simp: pending_def options_wf_def to_int_port)
  thus ?thesis
    unfolding parseArg_uint64_def using wf by (auto intro!: keeping)
qed

lemma keeps_int64 [keeping]: "pending a self \<Longrightarrow> keeps a t (map_option snd (parseArg_int64 self k n))"
  unfolding parseArg_int64_def by (auto intro!: keeping)

lemma keeps_boolean [keeping]: "pending a self \<Longrightarrow> keeps a t (map_option snd (parseBoolean self k b))"
  unfolding parseBoolean_def by (auto intro!: keeping)

lemma pool_wf_address: "pool_wf (u\<lparr>u_host := h, u_port := p\<rparr>) = pool_wf u"
  by (simp add: pool_wf_def)

lemma pool_wf_default: "pool_wf Url_default"
  by (simp add: pool_wf_def Url_default_def)

lemma keeps_url [keeping]: "pending a self \<Longrightarrow> keeps a t (map_option snd (parseArg_url self arg))"
proof -
  assume wf: "pending a self"
  then obtain u us where p: "o_pools self = u # us" by (cases "o_pools self") (auto simp: pending_def options_wf_def)
  obtain ok h q where new: "Url_parse Url_default arg = Some (ok, Url_default\<lparr>u_host := h, u_port := q\<rparr>)"
    by (rule Url_parse_total)
  obtain ok' h' q' where first: "Url_parse u arg = Some (ok', u\<lparr>u_host := h', u_port := q'\<rparr>)"
    by (rule Url_parse_total)
  show ?thesis
    using wf p new first
    by (auto simp: parseArg_url_def get_at_Some Url_of_def keeps_def pending_def options_wf_def pool_wf_address
        pool_wf_default split: if_splits)
qed

lemma keeps_if:
  "(c \<Longrightarrow> keeps a t (map_option snd x)) \<Longrightarrow> (\<not> c \<Longrightarrow> keeps a t (map_option snd y)) \<Longrightarrow>
    keeps a t (map_option snd (if c then x else y))"
  by simp

lemma keeps_pair: "pending a (snd p) \<Longrightarrow> keeps a t (map_option snd (Some p))"
  by (simp add: keeps_Some)

lemma keeps_parseArg:
  assumes wf: "pending a self" and c: "k = key CHR ''c'' \<Longrightarrow> keeps a t (config self arg)"
  shows "keeps a t (map_option snd (parseArg a config self k arg))"
  unfolding parseArg_def
  by (intro keeps_if keeps_snd keeps_pair keeps_url keeps_uint64 keeps_int64 keeps_boolean keeps_pools_back
      pool_setters Options_setAlgo_keeps wf c) (simp_all add: wf wf_updates)

lemma keeps_value [keeping]:
  assumes "pending a self" "snd opt \<noteq> key CHR ''c''"
  shows "keeps a t (parse_value a opt v self)"
proof (cases v)
  case (JString s)
  then show ?thesis using assms by (cases opt) (auto simp: parse_value_def intro!: keeping keeps_parseArg)
next
  case (JInt n)
  then show ?thesis using assms by (cases opt) (auto simp: parse_value_def IsUint64_def intro!: keeping)
next
  case (JBool b)
  then show ?thesis using assms by (cases opt) (auto simp: parse_value_def intro!: keeping)
qed (use assms in \<open>auto simp: parse_value_def intro!: keeping split: prod.split\<close>)

definition no_config_key :: "option_table \<Rightarrow> bool" where
  "no_config_key table \<longleftrightarrow> (\<forall>opt \<in> set table. snd (snd opt) \<noteq> key CHR ''c'')"

lemma tables_no_config:
  "no_config_key config_options" "no_config_key pool_options" "no_config_key api_options"
  "no_config_key profile_options"
  by (simp_all add: no_config_key_def config_options_def pool_options_def api_options_def
      profile_options_def key_def)

lemma keeps_JSON [keeping]:
  "pending a self \<Longrightarrow> snd (snd opt) \<noteq> key CHR ''c'' \<Longrightarrow> keeps a t (parseJSON a opt obj self)"
  unfolding parseJSON_def by (auto intro!: keeping split: option.split)

lemma keeps_JSON_table [keeping]:
  "no_config_key table \<Longrightarrow> pending a self \<Longrightarrow> keeps a t (each (\<lambda>opt. parseJSON a opt obj) table self)"
  by (rule keeps_each) (auto intro: keeps_JSON simp: no_config_key_def)

lemma keeps_objects [keeping]:
  "pending a self \<Longrightarrow> (\<And>obj self. pending a self \<Longrightarrow> keeps a t (f obj self)) \<Longrightarrow>
    keeps a t (on_objects f v self)"
  unfolding on_objects_def by (auto intro!: keeps_each keeps_Some split: json.split)

text \<open>
  What can go wrong in a file: a clock of a profile whose product with 100, or a voltage whose
  product with 1000, is not an \<open>int\<close>.
\<close>

definition level_fits :: "('d \<Rightarrow> int option) \<Rightarrow> (bytes \<times> 'd json) list \<Rightarrow> bool" where
  "level_fits milli obj \<longleftrightarrow>
    (\<forall>n. json_member obj (cstr ''clock'') = JInt n \<longrightarrow> IsInt n \<longrightarrow> IsInt (n * 100)) \<and>
    (\<forall>d. json_member obj (cstr ''vddc'') = JDouble d \<longrightarrow> milli d \<noteq> None)"

definition option_fits :: "('d \<Rightarrow> int option) \<Rightarrow> (bytes \<times> 'd json) list \<Rightarrow> bytes option \<times> bool \<times> int \<Rightarrow> bool" where
  "option_fits milli obj opt \<longleftrightarrow> (\<forall>name levels l. fst opt = Some name \<longrightarrow> fst (snd opt) \<longrightarrow>
    map_of obj name = Some (JArray levels) \<longrightarrow> JObject l \<in> set levels \<longrightarrow> level_fits milli l)"

definition file_fits :: "'d environment \<Rightarrow> bytes \<Rightarrow> bool" where
  "file_fits E file \<longleftrightarrow> (\<forall>doc p. getJSON (env_files E) file = Some doc \<longrightarrow>
    json_member doc (cstr ''profile'') = JObject p \<longrightarrow> (\<forall>opt \<in> set profile_options. option_fits (env_milli E) p opt))"

lemma level_None: "parseLevel milli k obj self = None \<longleftrightarrow> \<not> level_fits milli obj"
  by (auto simp: parseLevel_def level_fits_def Let_def split: Option.bind_splits json.splits)

lemma keeps_returns: "keeps a False r \<Longrightarrow> (t \<Longrightarrow> r \<noteq> None) \<Longrightarrow> keeps a t r"
  by (cases r) (auto simp: keeps_def)

lemma keeps_level: "pending a self \<Longrightarrow> keeps a (level_fits milli obj) (parseLevel milli k obj self)"
proof (rule keeps_returns)
  show "keeps a False (parseLevel milli k obj self)" if "pending a self"
    using that unfolding parseLevel_def
    by (auto simp: keeps_def Let_def pending_def options_wf_def split: option.split Option.bind_split json.split)
qed (simp_all add: level_None)

lemma keeps_weaker: "keeps a t r \<Longrightarrow> (u \<Longrightarrow> t) \<Longrightarrow> keeps a u r"
  by (auto simp: keeps_def split: option.splits)

lemma keeps_profile:
  assumes "pending a self" "snd (snd opt) \<noteq> key CHR ''c''"
  shows "keeps a (option_fits milli obj opt) (parseProfile a milli opt obj self)"
proof -
  have "keeps a (option_fits milli obj opt)
      (each (\<lambda>level self. case level of JObject l \<Rightarrow> parseLevel milli (snd (snd opt)) l self | _ \<Rightarrow> Some self) levels self)"
    if "fst opt = Some name" "fst (snd opt)" "map_of obj name = Some (JArray levels)" for name levels
  proof (rule keeps_each [OF assms(1)])
    fix level self assume l: "level \<in> set levels" and s: "pending a self"
    show "keeps a (option_fits milli obj opt) (case level of JObject l \<Rightarrow> parseLevel milli (snd (snd opt)) l self | _ \<Rightarrow> Some self)"
    proof (cases level)
      case (JObject x)
      have "option_fits milli obj opt \<Longrightarrow> level_fits milli x"
        using that l JObject by (auto simp: option_fits_def)
      from keeps_weaker [OF keeps_level [OF s] this] show ?thesis using JObject by simp
    qed (simp_all add: keeps_Some s)
  qed
  then show ?thesis
    unfolding parseProfile_def using assms by (auto intro!: keeps_Some keeps_value split: option.split json.split bool.split)
qed

text \<open>A level that does not fit is never passed over.\<close>

lemma each_None: "x \<in> set xs \<Longrightarrow> (\<And>self. f x self = None) \<Longrightarrow> each f xs self = None"
proof (induction xs arbitrary: self)
  case (Cons y ys)
  then show ?case by (cases "x = y") (auto split: Option.bind_split)
qed simp

lemma profile_None:
  assumes "\<not> option_fits milli obj opt"
  shows "parseProfile a milli opt obj self = None"
proof -
  obtain name levels l where l: "fst opt = Some name" "fst (snd opt)" "map_of obj name = Some (JArray levels)"
    "JObject l \<in> set levels" "\<not> level_fits milli l" using assms by (auto simp: option_fits_def)
  have "each (\<lambda>level self. case level of JObject l \<Rightarrow> parseLevel milli (snd (snd opt)) l self | _ \<Rightarrow> Some self) levels self = None"
    by (rule each_None [OF l(4)]) (simp add: level_None l(5))
  then show ?thesis by (simp add: parseProfile_def l(1-3))
qed

lemma parseThread_keeps [keeping]: "pending a self \<Longrightarrow> pending a (parseThread raw obj self)"
  by (simp add: parseThread_def Let_def pending_def options_wf_def)

lemma keeps_config:
  assumes wf: "pending (env_no_aeon E) self"
  shows "keeps (env_no_aeon E) (file_fits E file) (parseConfig E self file)"
proof (cases "getJSON (env_files E) file")
  case None
  then show ?thesis using wf by (simp add: parseConfig_def keeps_Some)
next
  case (Some doc)
  let ?a = "env_no_aeon E"
  have api: "keeps ?a (file_fits E file) (case json_member doc (cstr ''api'') of
      JObject api \<Rightarrow> each (\<lambda>opt. parseJSON ?a opt api) api_options self | _ \<Rightarrow> Some self)"
    if "pending ?a self" for self
    using that by (auto intro!: keeping tables_no_config split: json.split)
  have each: "keeps ?a (file_fits E file) (each (\<lambda>opt. parseProfile ?a (env_milli E) opt p) profile_options self)"
    if "pending ?a self" "json_member doc (cstr ''profile'') = JObject p" for self p
  proof (rule keeps_each [OF that(1)])
    fix opt self assume o: "opt \<in> set profile_options" and s: "pending ?a self"
    have "snd (snd opt) \<noteq> key CHR ''c''" using o tables_no_config(4) by (auto simp: no_config_key_def)
    from keeps_profile [OF s this] show "keeps ?a (file_fits E file) (parseProfile ?a (env_milli E) opt p self)"
      by (rule keeps_weaker) (use o Some that(2) in \<open>auto simp: file_fits_def\<close>)
  qed
  have profile: "keeps ?a (file_fits E file) (case json_member doc (cstr ''profile'') of
      JObject p \<Rightarrow> each (\<lambda>opt. parseProfile ?a (env_milli E) opt p) profile_options self | _ \<Rightarrow> Some self)"
    if "pending ?a self" for self
    using each [OF that] that by (auto intro!: keeps_Some split: json.split)
  show ?thesis
    unfolding parseConfig_def Some option.case Let_def
    using wf by (intro keeps_bind api profile keeps_objects keeps_JSON_table keeps_Some keeping tables_no_config)
qed

lemma config_None:
  assumes "\<not> file_fits E file"
  shows "parseConfig E self file = None"
proof -
  obtain doc p opt where d: "getJSON (env_files E) file = Some doc" "json_member doc (cstr ''profile'') = JObject p"
    and o: "opt \<in> set profile_options" "\<not> option_fits (env_milli E) p opt"
    using assms by (auto simp: file_fits_def)
  have "each (\<lambda>opt. parseProfile (env_no_aeon E) (env_milli E) opt p) profile_options self = None" for self
    by (rule each_None [OF o(1)]) (rule profile_None [OF o(2)])
  then show ?thesis by (simp add: parseConfig_def d Let_def bind_eq_None_conv)
qed

text \<open>The files that are read: those of the arguments \<open>-c\<close> and the default one.\<close>

definition files_fit :: "'d environment \<Rightarrow> (int \<times> bytes) list \<Rightarrow> bool" where
  "files_fit E args \<longleftrightarrow> (\<forall>file. file = env_defaultConfig E \<or> (key CHR ''c'', file) \<in> set args \<longrightarrow> file_fits E file)"

lemma keeps_args:
  "pending (env_no_aeon E) self \<Longrightarrow> keeps (env_no_aeon E) (files_fit E args) (map_option snd (parse_args E args self))"
proof (induction args arbitrary: self)
  case (Cons karg args)
  obtain k arg where karg: "karg = (k, arg)" by fastforce
  have "keeps (env_no_aeon E) (files_fit E (karg # args))
      (map_option snd (parseArg (env_no_aeon E) (parseConfig E) self k arg))"
    using Cons.prems
    by (intro keeps_parseArg keeps_weaker [OF keeps_config]) (auto simp: karg files_fit_def)
  note first = this
  have rest: "keeps (env_no_aeon E) (files_fit E (karg # args)) (map_option snd (parse_args E args mid))"
    if "pending (env_no_aeon E) mid" for mid
    by (rule keeps_weaker [OF Cons.IH [OF that]]) (auto simp: files_fit_def)
  show ?case
  proof (cases "parseArg (env_no_aeon E) (parseConfig E) self k arg")
    case None
    then show ?thesis using first karg by (simp add: keeps_def)
  next
    case (Some r)
    then show ?thesis using first rest [of "snd r"] karg by (cases r) (simp add: keeps_def)
  qed
qed (simp add: keeps_Some)

lemma pending_initial: "pending a Options_initial"
  by (simp add: pending_def options_wf_def Options_initial_def pool_wf_default algo_names_def)

lemma valid_default_pool: "Url_isValid default_pool" "pool_wf default_pool"
  by (simp_all add: default_pool_def Url_make_def Url_isValid_def pool_wf_def)

definition options_ready :: "options \<Rightarrow> bool" where
  "options_ready self \<longleftrightarrow> (\<forall>p \<in> set (o_pools self). Url_isValid p \<and> u_algo p = o_algo self)"

lemma applyExceptions_algo [simp]: "u_algo (applyExceptions u) = u_algo u"
  by (simp add: applyExceptions_def Let_def)

lemma Url_setAlgo_algo: "algo \<in> {0, 1} \<Longrightarrow> u_algo (Url_setAlgo u algo) = algo"
  by (auto simp: Url_setAlgo_def)

lemma finish_wf:
  assumes wf: "options_wf a self" and valid: "\<forall>p \<in> set (o_pools self). Url_isValid p"
    and new: "new = self\<lparr>o_algoVariant := v, o_pools := map (\<lambda>u. applyExceptions (Url_setAlgo u (o_algo self))) (o_pools self), o_ready := True\<rparr>"
  shows "options_wf a new \<and> options_ready new"
proof -
  have "o_algo self \<in> {0, 1}" using wf by (auto simp: options_wf_def algo_names_def split: if_splits)
  thus ?thesis
    using wf valid unfolding new options_wf_def options_ready_def
    by (auto simp: pool_setters Url_setAlgo_algo)
qed

lemma hd_valid_all:
  "options_wf a self \<Longrightarrow> Url_isValid (hd (o_pools self)) \<Longrightarrow> \<forall>p \<in> set (o_pools self). Url_isValid p"
  by (cases "o_pools self") (auto simp: options_wf_def)

text \<open>The end of the constructor.\<close>

lemma finish_total:
  assumes p: "pending a self"
  shows "\<exists>new. do {
      front \<leftarrow> get_at (o_pools self) 0;
      let self = (if \<not> Url_isValid front then self\<lparr>o_pools := (o_pools self)[0 := default_pool]\<rparr> else self);
      let self = self\<lparr>o_algoVariant := v\<rparr>;
      let self = self\<lparr>o_pools := map (\<lambda>u. applyExceptions (Url_setAlgo u (o_algo self))) (o_pools self)\<rparr>;
      Some (self\<lparr>o_ready := True\<rparr>)
    } = Some new \<and> options_wf a new \<and> options_ready new"
proof -
  obtain u us where us: "o_pools self = u # us"
    using p by (cases "o_pools self") (auto simp: pending_def options_wf_def)
  define mid where "mid = (if \<not> Url_isValid u then self\<lparr>o_pools := (o_pools self)[0 := default_pool]\<rparr> else self)"
  have wf: "options_wf a mid" "Url_isValid (hd (o_pools mid))"
    using p us valid_default_pool by (auto simp: mid_def pending_def options_wf_def split: if_splits)
  note fin = finish_wf [OF wf(1) hd_valid_all [OF wf] refl, of v]
  show ?thesis
    using fin by (simp add: us get_at_Some mid_def [symmetric] Let_def)
qed

lemma Options_make_keeps:
  "files_fit E args \<Longrightarrow> Options_make E args unsupported \<noteq> None"
  "Options_make E args unsupported = Some self \<Longrightarrow> options_wf (env_no_aeon E) self"
  "Options_make E args unsupported = Some self \<Longrightarrow> o_ready self \<Longrightarrow> options_ready self"
proof -
  let ?a = "env_no_aeon E"
  have k: "keeps ?a (files_fit E args) (map_option snd (parse_args E args Options_initial))"
    by (rule keeps_args) (rule pending_initial)
  have "(files_fit E args \<longrightarrow> Options_make E args unsupported \<noteq> None) \<and>
    (Options_make E args unsupported = Some self \<longrightarrow> options_wf ?a self \<and> (o_ready self \<longrightarrow> options_ready self))"
  proof (cases "parse_args E args Options_initial")
    case None
    then show ?thesis using k by (simp add: Options_make_def keeps_def)
  next
    case (Some r)
    obtain ok mid where r: "r = (ok, mid)" by fastforce
    have mid: "pending ?a mid" using k Some r by (simp add: keeps_def)
    obtain u us where us: "o_pools mid = u # us"
      using mid by (cases "o_pools mid") (auto simp: pending_def options_wf_def)
    define cfg where "cfg = (if \<not> Url_isValid u then parseConfig E mid (env_defaultConfig E) else Some mid)"
    have cfg: "keeps ?a (files_fit E args) cfg"
      unfolding cfg_def using mid keeps_weaker [OF keeps_config [OF mid]] by (auto intro: keeps_Some simp: files_fit_def)
    show ?thesis
    proof (cases "\<not> ok \<or> unsupported")
      case True
      then show ?thesis using mid Some r by (auto simp: Options_make_def pending_def)
    next
      case False
      then have "Options_make E args unsupported = Option.bind cfg (\<lambda>self. do {
          front \<leftarrow> get_at (o_pools self) 0;
          let self = (if \<not> Url_isValid front then self\<lparr>o_pools := (o_pools self)[0 := default_pool]\<rparr> else self);
          let self = self\<lparr>o_algoVariant := (if env_hasAES E then 1 else 3)\<rparr>;
          let self = self\<lparr>o_pools := map (\<lambda>u. applyExceptions (Url_setAlgo u (o_algo self))) (o_pools self)\<rparr>;
          Some (self\<lparr>o_ready := True\<rparr>)
        })"
        using Some r us by (simp add: Options_make_def get_at_Some cfg_def)
      then show ?thesis
        using cfg finish_total [of ?a _ "if env_hasAES E then 1 else 3"]
        by (cases cfg) (fastforce simp: keeps_def)+
    qed
  qed
  thus "files_fit E args \<Longrightarrow> Options_make E args unsupported \<noteq> None"
    "Options_make E args unsupported = Some self \<Longrightarrow> options_wf (env_no_aeon E) self"
    "Options_make E args unsupported = Some self \<Longrightarrow> o_ready self \<Longrightarrow> options_ready self" by blast+
qed

section \<open>Pools on the command line\<close>

text \<open>A pool as host, port, user and password: its arguments, and the address they are to give.\<close>

type_synonym pool_spec = "bytes \<times> u16 \<times> bytes \<times> bytes"

fun pool_args :: "pool_spec \<Rightarrow> (int \<times> bytes) list" where
  "pool_args (h, p, user, pass) =
    [(key CHR ''o'', h @ 0x3A # decimal (unat p)), (key CHR ''u'', user), (key CHR ''p'', pass)]"

fun pool_of :: "pool_spec \<Rightarrow> url" where
  "pool_of (h, p, user, pass) = Url_make h p (Some user) (Some pass) False False VARIANT_AUTO"

fun pool_ok :: "pool_spec \<Rightarrow> bool" where
  "pool_ok (h, p, user, pass) \<longleftrightarrow> host_name h \<and> 0 < p"

lemma parse_host_port:
  assumes "host_name h"
  shows "Url_parse w (h @ 0x3A # decimal (unat p)) = Some (True, w\<lparr>u_host := Some h, u_port := p\<rparr>)"
proof -
  let ?u = "Url_default\<lparr>u_host := Some h, u_port := p\<rparr>"
  have "Url_url ?u = Some (h @ 0x3A # decimal (unat p), ?u\<lparr>u_url := Some (h @ 0x3A # decimal (unat p))\<rparr>)"
    using Url_url_fits [of ?u h] by (simp add: Url_default_def)
  from round_trip [OF this _ _ assms, of "[]"] show ?thesis by (simp add: Url_default_def)
qed

lemma key_simps:
  "key CHR ''a'' = 97" "key CHR ''b'' = 98" "key CHR ''c'' = 99" "key CHR ''h'' = 104" "key CHR ''k'' = 107"
  "key CHR ''l'' = 108" "key CHR ''o'' = 111" "key CHR ''p'' = 112" "key CHR ''s'' = 115"
  "key CHR ''u'' = 117" "key CHR ''v'' = 118"
  by (simp_all add: key_def)

lemma parseArg_credentials:
  assumes "o_pools self = ps @ [u]"
  shows "parseArg a config self (key CHR ''u'') x = Some (True, self\<lparr>o_pools := ps @ [u\<lparr>u_user := Some x\<rparr>]\<rparr>)"
    and "parseArg a config self (key CHR ''p'') x = Some (True, self\<lparr>o_pools := ps @ [u\<lparr>u_password := Some x\<rparr>]\<rparr>)"
  by (simp_all add: parseArg_def key_simps pools_back_def assms Url_setUser_def Url_setPassword_def)

lemma parse_pool:
  assumes ok: "pool_ok s"
    and o: "\<exists>h p user pass. s = (h, p, user, pass) \<and>
      parseArg_url self (h @ 0x3A # decimal (unat p)) =
        Some (True, self\<lparr>o_pools := ps @ [Url_default\<lparr>u_host := Some h, u_port := p\<rparr>]\<rparr>)"
  shows "parse_args E (pool_args s @ rest) self = parse_args E rest (self\<lparr>o_pools := ps @ [pool_of s]\<rparr>)"
proof -
  obtain h p user pass where s: "s = (h, p, user, pass)"
    and url: "parseArg_url self (h @ 0x3A # decimal (unat p)) =
        Some (True, self\<lparr>o_pools := ps @ [Url_default\<lparr>u_host := Some h, u_port := p\<rparr>]\<rparr>)"
    using o by blast
  have o: "parseArg a config self (key CHR ''o'') x = parseArg_url self x" for a config x
    by (simp add: parseArg_def key_simps)
  show ?thesis
    by (simp add: s o url parseArg_credentials [where ps = ps]) (simp add: Url_default_def Url_make_def)
qed

lemma valid_address: "0 < p \<Longrightarrow> Url_isValid (u\<lparr>u_host := Some h, u_port := p\<rparr>)"
  by (simp add: Url_isValid_def)

lemma parse_first:
  assumes "pool_ok s" "o_pools self = [Url_default]"
  shows "parse_args E (pool_args s @ rest) self = parse_args E rest (self\<lparr>o_pools := [pool_of s]\<rparr>)"
proof -
  obtain h p user pass where s: "s = (h, p, user, pass)" by (cases s)
  have "\<not> Url_isValid Url_default" by (simp add: Url_isValid_def Url_default_def)
  hence "parseArg_url self (h @ 0x3A # decimal (unat p)) =
      Some (True, self\<lparr>o_pools := [] @ [Url_default\<lparr>u_host := Some h, u_port := p\<rparr>]\<rparr>)"
    using assms s parse_host_port [of h] valid_address [of p h Url_default]
    by (simp add: parseArg_url_def get_at_Some)
  thus ?thesis using parse_pool [of s self "[]" E rest] assms s by simp
qed

lemma parse_next:
  assumes "pool_ok s" "ps \<noteq> []" "Url_isValid (hd ps)" "o_pools self = ps"
  shows "parse_args E (pool_args s @ rest) self = parse_args E rest (self\<lparr>o_pools := ps @ [pool_of s]\<rparr>)"
proof -
  obtain h p user pass where s: "s = (h, p, user, pass)" by (cases s)
  have "parseArg_url self (h @ 0x3A # decimal (unat p)) =
      Some (True, self\<lparr>o_pools := ps @ [Url_default\<lparr>u_host := Some h, u_port := p\<rparr>]\<rparr>)"
    using assms s parse_host_port [of h Url_default]
    by (simp add: parseArg_url_def get_at_Some Url_isValid_def Url_of_def hd_conv_nth)
  thus ?thesis using parse_pool [of s self ps E rest] assms s by blast
qed

lemma pool_of_valid: "pool_ok s \<Longrightarrow> Url_isValid (pool_of s)"
  by (cases s) (simp add: Url_isValid_def Url_make_def)

lemma parse_rest:
  "ps \<noteq> [] \<Longrightarrow> Url_isValid (hd ps) \<Longrightarrow> \<forall>s \<in> set specs. pool_ok s \<Longrightarrow> o_pools self = ps \<Longrightarrow>
    parse_args E (concat (map pool_args specs)) self = Some (True, self\<lparr>o_pools := ps @ map pool_of specs\<rparr>)"
proof (induction specs arbitrary: ps self)
  case Nil
  then show ?case by simp
next
  case (Cons s specs)
  have "parse_args E (concat (map pool_args (s # specs))) self =
      parse_args E (concat (map pool_args specs)) (self\<lparr>o_pools := ps @ [pool_of s]\<rparr>)"
    using parse_next [of s ps self] Cons.prems by simp
  also have "\<dots> = Some (True, self\<lparr>o_pools := ps @ [pool_of s]\<rparr>\<lparr>o_pools := (ps @ [pool_of s]) @ map pool_of specs\<rparr>)"
    using Cons.prems by (intro Cons.IH) auto
  finally show ?case by simp
qed

lemma parse_specs:
  assumes "specs \<noteq> []" "\<forall>s \<in> set specs. pool_ok s"
  shows "parse_args E (concat (map pool_args specs)) Options_initial =
    Some (True, Options_initial\<lparr>o_pools := map pool_of specs\<rparr>)"
proof -
  obtain s ss where ss: "specs = s # ss" using assms(1) by (cases specs) auto
  have "parse_args E (concat (map pool_args specs)) Options_initial =
      parse_args E (concat (map pool_args ss)) (Options_initial\<lparr>o_pools := [pool_of s]\<rparr>)"
    using parse_first [of s Options_initial] assms(2) ss by (simp add: Options_initial_def)
  also have "\<dots> = Some (True, Options_initial\<lparr>o_pools := [pool_of s]\<rparr>\<lparr>o_pools := [pool_of s] @ map pool_of ss\<rparr>)"
    using assms(2) ss by (intro parse_rest) (auto simp: pool_of_valid)
  finally show ?thesis using ss by simp
qed

lemma make_specs:
  assumes "specs \<noteq> []" "\<forall>s \<in> set specs. pool_ok s"
  shows "Options_make E (concat (map pool_args specs)) False =
    Some (Options_initial\<lparr>o_pools := map (applyExceptions \<circ> pool_of) specs,
      o_algoVariant := (if env_hasAES E then 1 else 3), o_ready := True\<rparr>)"
proof -
  obtain s ss where ss: "specs = s # ss" using assms(1) by (cases specs) auto
  have v: "Url_isValid (pool_of s)" using assms(2) ss by (intro pool_of_valid) auto
  have algo: "Url_setAlgo (pool_of x) 0 = pool_of x" for x
    by (cases x) (simp add: Url_setAlgo_def Url_make_def)
  show ?thesis
    unfolding Options_make_def parse_specs [OF assms]
    using v by (simp add: ss get_at_Some Let_def Options_initial_def algo)
qed

lemma rejected_pool:
  assumes "o_pools self = ps @ [u]" "\<forall>p \<in> set (o_pools self). Url_isValid p"
    "Url_of bad = Some b" "\<not> Url_isValid b"
  shows "parse_args E [(key CHR ''o'', bad), (key CHR ''u'', user), (key CHR ''p'', pass)] self =
    Some (True, self\<lparr>o_pools := ps @ [u\<lparr>u_user := Some user, u_password := Some pass\<rparr>]\<rparr>)"
proof -
  have f: "get_at (ps @ [u]) 0 = Some (hd (ps @ [u]))" by (cases ps) (simp_all add: get_at_Some)
  have "Url_isValid (hd (ps @ [u]))" using assms(1,2) by (cases ps) auto
  hence "parseArg a config self (key CHR ''o'') bad = Some (True, self)" for a config
    using assms f by (simp add: parseArg_def key_simps parseArg_url_def)
  thus ?thesis using assms(1) by (simp add: parseArg_credentials [where ps = ps])
qed

section \<open>Properties\<close>

text \<open>
  C10. The options always stay well formed, and those the miner starts with are usable: whatever
  the arguments and the files are, there is a pool, no pool list is read outside its bounds, the
  algorithm has a name, every variant is one of the three and the interface's port is at most
  65536; and when \<open>m_ready\<close> is set, every pool has a host and a port and the miner's algorithm.
  Reading a file, with whatever profile, goes wrong exactly when a level of its profile has a clock
  whose product with 100, or a voltage whose product with 1000, is not an \<open>int\<close>; the constructor can
  go wrong only if one of the files it is given, or the default one, does.
\<close>
theorem Options_make_wf:
  "((\<forall>file. file = env_defaultConfig E \<or> (key CHR ''c'', file) \<in> set args \<longrightarrow> file_fits E file) \<longrightarrow>
      Options_make E args unsupported \<noteq> None) \<and>
   (\<forall>file opts. pending (env_no_aeon E) opts \<longrightarrow> (parseConfig E opts file = None \<longleftrightarrow> \<not> file_fits E file)) \<and>
   (\<forall>self. Options_make E args unsupported = Some self \<longrightarrow>
      options_wf (env_no_aeon E) self \<and> (o_ready self \<longrightarrow> options_ready self))"
proof (intro conjI)
  show "(\<forall>file. file = env_defaultConfig E \<or> (key CHR ''c'', file) \<in> set args \<longrightarrow> file_fits E file) \<longrightarrow>
      Options_make E args unsupported \<noteq> None"
    using Options_make_keeps(1) [of E args unsupported] unfolding files_fit_def by blast
  show "\<forall>file opts. pending (env_no_aeon E) opts \<longrightarrow> (parseConfig E opts file = None \<longleftrightarrow> \<not> file_fits E file)"
  proof (intro allI impI iffI)
    fix name opts assume "pending (env_no_aeon E) opts"
    from keeps_config [OF this, of name] show "parseConfig E opts name = None \<Longrightarrow> \<not> file_fits E name"
      by (simp add: keeps_def)
  qed (rule config_None)
qed (use Options_make_keeps(2,3) in blast)

definition no_files :: "nat environment" where
  "no_files = \<lparr>env_files = \<lambda>f. None, env_milli = \<lambda>d. None, env_raw = \<lambda>v. 0, env_no_aeon = False,
     env_hasAES = True, env_defaultConfig = []\<rparr>"

text \<open>A file with one profile of the given clock.\<close>

definition profile_file :: "int \<Rightarrow> nat environment" where
  "profile_file n = no_files\<lparr>env_files := (\<lambda>f. if f = [0x66] then
     Some (JObject [(cstr ''profile'', JObject [(cstr ''system'', JArray [JObject [(cstr ''clock'', JInt n)]])])]) else None)\<rparr>"

lemma profile_file_fits: "file_fits (profile_file n) f \<longleftrightarrow> f \<noteq> [0x66] \<or> \<not> IsInt n \<or> IsInt (n * 100)"
  by (auto simp: file_fits_def option_fits_def level_fits_def profile_file_def no_files_def getJSON_def
      json_member_def profile_options_def cstr_def)

theorem Options_make_wf_witness:
  "(\<exists>self. Options_make (profile_file 1200) [(key CHR ''c'', [0x66]), (key CHR ''o'', cstr ''a.b:3'')] False = Some self \<and>
      options_wf False self) \<and>
   parseConfig (profile_file 30000000) Options_initial [0x66] = None"
  using Options_make_wf [of "profile_file 1200" "[(key CHR ''c'', [0x66]), (key CHR ''o'', cstr ''a.b:3'')]" False]
    Options_make_wf [of "profile_file 30000000" "[]" False] pending_initial [of False]
  by (simp add: profile_file_fits IsInt_def) (force simp: profile_file_def no_files_def)

text \<open>
  C23. Pools given as \<open>-o host:port -u user -p pass\<close>, any number of them, become the pool list in
  that order with each pool's own user and password, and the options are ready without any file
  being read; only the exceptions for known pool operators change an entry.
\<close>
theorem Options_pools_in_order:
  assumes "specs \<noteq> []" "\<forall>s \<in> set specs. pool_ok s"
  shows "Options_make E (concat (map pool_args specs)) False =
    Some (Options_initial\<lparr>o_pools := map (applyExceptions \<circ> pool_of) specs,
      o_algoVariant := (if env_hasAES E then 1 else 3), o_ready := True\<rparr>)"
  using assms by (rule make_specs)

theorem Options_pools_in_order_witness:
  "map_option (map u_port \<circ> o_pools)
     (Options_make no_files
        (concat (map pool_args [(cstr ''a'', 1, cstr ''u'', cstr ''p''), (cstr ''b'', 2, cstr ''v'', cstr ''q'')]))
        False) = Some [1, 2]"
  by (subst Options_pools_in_order)
    (auto simp: host_name_def cstr_def Url_make_def applyExceptions_def Let_def)

text \<open>
  A pool address that is refused when there are valid pools already is skipped without an
  error, and the user and the password given for it replace those of the pool before it.
\<close>
theorem rejected_pool_credentials:
  assumes "o_pools self = ps @ [u]" "\<forall>p \<in> set (o_pools self). Url_isValid p"
    "Url_of bad = Some b" "\<not> Url_isValid b"
  shows "parse_args E [(key CHR ''o'', bad), (key CHR ''u'', user), (key CHR ''p'', pass)] self =
    Some (True, self\<lparr>o_pools := ps @ [u\<lparr>u_user := Some user, u_password := Some pass\<rparr>]\<rparr>)"
  using assms by (rule rejected_pool)

theorem rejected_pool_credentials_witness:
  "parse_args no_files [(key CHR ''o'', []), (key CHR ''u'', cstr ''u2''), (key CHR ''p'', cstr ''p2'')]
     (Options_initial\<lparr>o_pools := [default_pool]\<rparr>) =
   Some (True, Options_initial\<lparr>o_pools := [default_pool\<lparr>u_user := Some (cstr ''u2''), u_password := Some (cstr ''p2'')\<rparr>]\<rparr>)"
proof -
  let ?s = "Options_initial\<lparr>o_pools := [default_pool]\<rparr>"
  have p: "o_pools ?s = [] @ [default_pool]" by simp
  have b: "Url_of [] = Some Url_default" "\<not> Url_isValid Url_default"
    by (simp_all add: Url_of_def Url_parse_def strstr.simps cstr_def Url_isValid_def Url_default_def)
  from rejected_pool_credentials [OF p _ b, of no_files "cstr ''u2''" "cstr ''p2''"]
  show ?thesis using valid_default_pool by simp
qed

text \<open>
  C39. Options that are offered but do nothing, or more than they say: \<open>--variant\<close> leaves the
  options as they are for every argument, since it is passed on as a signed number, for which only
  the power limit is handled; a power limit that is not negative is passed on as an unsigned
  number, for which it is not, and is lost; and \<open>--no-color\<close>, which the table of options has, ends
  the parsing as an unknown option, so that the miner does not start.
\<close>
theorem Options_dead_options:
  "parse_args E ((1010, arg) # args) self = parse_args E args self \<and>
   parseProfile a milli (Some (cstr ''power_limit''), True, 5003)
     [(cstr ''power_limit'', JInt n)] self =
   Some (if - (2 ^ 63) \<le> n \<and> n < 0 then self\<lparr>o_powerLimit := to_int n\<rparr> else self) \<and>
   (Some (cstr ''no-color''), False, 1002) \<in> set long_options \<and>
   Options_parse E ((1002, arg) # args) unsupported = Some None"
proof -
  have "parse_args E ((1010, arg) # args) self = parse_args E args self"
    by (simp add: parseArg_def key_simps parseArg_int64_def)
  moreover have "parseProfile a milli (Some (cstr ''power_limit''), True, 5003)
     [(cstr ''power_limit'', JInt n)] self =
   Some (if - (2 ^ 63) \<le> n \<and> n < 0 then self\<lparr>o_powerLimit := to_int n\<rparr> else self)"
  proof (cases "0 \<le> n")
    case True
    then show ?thesis
      by (simp add: parseProfile_def parse_value_def parseArg_uint64_def parseArg_int64_def IsInt64_def IsUint64_def)
  next
    case False
    then show ?thesis
      by (simp add: parseProfile_def parse_value_def parseArg_int64_def IsInt64_def IsUint64_def)
  qed
  moreover have "(Some (cstr ''no-color''), False, 1002) \<in> set long_options"
    by (simp add: long_options_def)
  moreover have "Options_parse E ((1002, arg) # args) unsupported = Some None"
    by (simp add: Options_parse_def Options_make_def parseArg_def key_simps Options_initial_def)
  ultimately show ?thesis by blast
qed

end
