(* ===== verification/Network_State.thy ===== *)
theory Network_State
  imports C_Strings "HOL-Library.Multiset"
begin

text \<open>
  The statistics of the connection: \<open>src/src/api/NetworkState.h\<close>, \<open>src/src/api/NetworkState.cpp\<close> and
  \<open>src/src/net/SubmitResult.h\<close>, \<open>src/src/net/SubmitResult.cpp\<close>. The clock readings are arguments.
  A C++ exception that nothing catches is the result \<open>None\<close>.
\<close>

section \<open>Results of submitted shares\<close>

record submit_result =
  sr_seq :: s64
  sr_diff :: u32
  sr_actualDiff :: u64
  sr_elapsed :: u64
  sr_start :: u64

definition SubmitResult_default :: submit_result where
  "SubmitResult_default = \<lparr>sr_seq = 0, sr_diff = 0, sr_actualDiff = 0, sr_elapsed = 0, sr_start = 0\<rparr>"

text \<open>\<open>hrtime\<close> is the time in nanoseconds.\<close>

definition SubmitResult_make :: "u64 \<Rightarrow> s64 \<Rightarrow> u32 \<Rightarrow> u64 \<Rightarrow> submit_result" where
  "SubmitResult_make hrtime seq diff actualDiff =
    \<lparr>sr_seq = seq, sr_diff = diff, sr_actualDiff = actualDiff, sr_elapsed = 0, sr_start = hrtime\<rparr>"

definition SubmitResult_done :: "u64 \<Rightarrow> submit_result \<Rightarrow> submit_result" where
  "SubmitResult_done hrtime r = r\<lparr>sr_elapsed := (hrtime - sr_start r) div 1000000\<rparr>"

section \<open>The state\<close>

record network_state =
  ns_userMask :: bytes
  ns_pool :: bytes
  ns_topDiff :: "u64 list"
  ns_diff :: u32
  ns_accepted :: u64
  ns_failures :: u64
  ns_rejected :: u64
  ns_total :: u64
  ns_active :: bool
  ns_latency :: "u16 list"
  ns_connectionTime :: u64

text \<open>The constructor leaves \<open>m_connectionTime\<close> as it is.\<close>

definition NetworkState_make :: "u64 \<Rightarrow> network_state" where
  "NetworkState_make uninit =
    \<lparr>ns_userMask = [], ns_pool = [], ns_topDiff = replicate 10 0, ns_diff = 0, ns_accepted = 0,
     ns_failures = 0, ns_rejected = 0, ns_total = 0, ns_active = False, ns_latency = [],
     ns_connectionTime = uninit\<rparr>"

definition connectionTime :: "u64 \<Rightarrow> network_state \<Rightarrow> int" where
  "connectionTime now S =
    (if ns_active S then to_int (uint ((now - ns_connectionTime S) div 1000)) else 0)"

definition avgTime :: "u64 \<Rightarrow> network_state \<Rightarrow> u32" where
  "avgTime now S =
    (if ns_latency S = [] then 0
     else ucast (ucast (of_int (connectionTime now S) :: u32) div (of_nat (length (ns_latency S)) :: u64)))"

text \<open>\<open>nth_element\<close> puts the element of the sorted vector at its place.\<close>

definition latency :: "network_state \<Rightarrow> u32" where
  "latency S =
    (let calls = length (ns_latency S)
     in if calls = 0 then 0 else ucast (sort (ns_latency S) ! (calls div 2)))"

definition NetworkState_add :: "submit_result \<Rightarrow> bytes option \<Rightarrow> network_state \<Rightarrow> network_state" where
  "NetworkState_add result error S =
    (case error of
       Some _ \<Rightarrow> S\<lparr>ns_rejected := ns_rejected S + 1\<rparr>
     | None \<Rightarrow>
         let S = S\<lparr>ns_accepted := ns_accepted S + 1, ns_total := ns_total S + ucast (sr_diff result)\<rparr>;
             ln = length (ns_topDiff S) - 1;
             S = (if sr_actualDiff result > ns_topDiff S ! ln
                  then S\<lparr>ns_topDiff := rev (sort ((ns_topDiff S)[ln := sr_actualDiff result]))\<rparr> else S)
         in S\<lparr>ns_latency := ns_latency S @
               [if sr_elapsed result > 0xFFFF then 0xFFFF else ucast (sr_elapsed result)]\<rparr>)"

text \<open>\<open>strlen(user) - 4\<close> is unsigned: no string can have the length it wraps around to.\<close>

definition setUserMask :: "bytes \<Rightarrow> network_state \<Rightarrow> network_state option" where
  "setUserMask user S =
    (if length user < 4 then None
     else
       let n = length user - 4
       in Some (S\<lparr>ns_userMask := snprintf_string 255 (replicate n 0x2A @ drop n user)\<rparr>))"

definition setPool :: "u64 \<Rightarrow> bytes \<Rightarrow> u16 \<Rightarrow> network_state \<Rightarrow> network_state" where
  "setPool now host port S =
    S\<lparr>ns_pool := snprintf_string 255 (host @ [0x3A] @ decimal (unat port)), ns_active := True,
      ns_connectionTime := now\<rparr>"

definition NetworkState_stop :: "network_state \<Rightarrow> network_state" where
  "NetworkState_stop S =
    S\<lparr>ns_active := False, ns_diff := 0, ns_failures := ns_failures S + 1, ns_latency := []\<rparr>"

section \<open>The ten best shares\<close>

text \<open>The greatest ten of a list in descending order, zeros filling up.\<close>

definition top_ten :: "u64 list \<Rightarrow> u64 list" where
  "top_ten xs = take 10 (rev (sort (xs @ replicate 10 0)))"

lemma sorted_rev_unique: "sorted (rev xs) \<Longrightarrow> mset xs = mset ys \<Longrightarrow> xs = rev (sort ys)"
  by (metis mset_rev properties_for_sort rev_rev_ident)

lemma length_top_ten [simp]: "length (top_ten xs) = 10"
  by (simp add: top_ten_def)

lemma top_ten_split: "\<exists>rest. rev (sort (xs @ replicate 10 0)) = top_ten xs @ rest"
  unfolding top_ten_def by (metis append_take_drop_id)

lemma sorted_rev_append:
  "sorted (rev (xs @ ys)) \<longleftrightarrow> sorted (rev xs) \<and> sorted (rev ys) \<and> (\<forall>x \<in> set xs. \<forall>y \<in> set ys. y \<le> x)"
  by (auto simp: sorted_append)

lemma insert_last:
  assumes "length t = 10" "sorted (rev (t @ rest))"
  shows "take 10 (rev (sort (x # t @ rest))) =
    (if x > t ! 9 then rev (sort (t[9 := x])) else t)"
proof -
  obtain u l where t: "t = u @ [l]" "length u = 9"
    using assms(1) by (cases t rule: rev_cases) auto
  have l: "t ! 9 = l" "t[9 := x] = u @ [x]" using t by (simp_all add: nth_append list_update_append)
  have srt: "sorted (rev u)" "\<forall>a \<in> set u. l \<le> a" "sorted (rev rest)"
    "\<forall>a \<in> set u. \<forall>b \<in> set rest. b \<le> a" "\<forall>b \<in> set rest. b \<le> l"
    using assms(2) unfolding t(1) rev_append append_assoc sorted_append by auto
  show ?thesis
  proof (cases "x > l")
    case True
    have "rev (sort (u @ [x])) @ l # rest = rev (sort (x # t @ rest))"
    proof (rule sorted_rev_unique)
      show "sorted (rev (rev (sort (u @ [x])) @ l # rest))"
        unfolding sorted_rev_append using srt True by (auto simp: sorted_append intro: order.trans)
    qed (simp add: t)
    moreover have "length (rev (sort (u @ [x]))) = 10" using t by simp
    ultimately have "take 10 (rev (sort (x # t @ rest))) = rev (sort (u @ [x]))"
      by (metis append_eq_conv_conj)
    then show ?thesis using True l by simp
  next
    case False
    have "t @ rev (sort (x # rest)) = rev (sort (x # t @ rest))"
    proof (rule sorted_rev_unique)
      have "\<forall>a \<in> set t. \<forall>b \<in> set (x # rest). b \<le> a"
        using srt False t by (auto intro: order.trans)
      moreover have "sorted (sort (x # rest))" "set (sort (x # rest)) = set (x # rest)"
        by (rule sorted_sort, rule set_sort)
      moreover have "sorted (rev t)"
        using assms(2) unfolding rev_append sorted_append by auto
      ultimately show "sorted (rev (t @ rev (sort (x # rest))))"
        unfolding rev_append rev_rev_ident sorted_append by auto
    qed simp
    then have "take 10 (rev (sort (x # t @ rest))) = t" using assms(1)
      by (metis append_eq_conv_conj)
    then show ?thesis using False l by simp
  qed
qed

lemma top_ten_add:
  "top_ten (xs @ [x]) = (if x > top_ten xs ! 9 then rev (sort ((top_ten xs)[9 := x])) else top_ten xs)"
proof -
  obtain rest where r: "rev (sort (xs @ replicate 10 0)) = top_ten xs @ rest"
    using top_ten_split by blast
  have "sorted (rev (top_ten xs @ rest))" unfolding r [symmetric] by simp
  from insert_last [OF length_top_ten this, of x]
  have i: "take 10 (rev (sort (x # top_ten xs @ rest))) =
    (if x > top_ten xs ! 9 then rev (sort ((top_ten xs)[9 := x])) else top_ten xs)" .
  have "mset (x # top_ten xs @ rest) = mset ((xs @ [x]) @ replicate 10 0)"
    using arg_cong [OF r, of mset] by simp
  hence "sort (x # top_ten xs @ rest) = sort ((xs @ [x]) @ replicate 10 0)"
    by (intro properties_for_sort) (simp_all only: mset_sort sorted_sort)
  thus ?thesis using i by (simp add: top_ten_def)
qed

lemma top_ten_Nil: "top_ten [] = replicate 10 0"
proof -
  have "sort (replicate 10 (0 :: u64)) = replicate 10 0" by (simp add: sorted_sort_id)
  thus ?thesis by (simp add: top_ten_def)
qed

section \<open>Adding results\<close>

type_synonym outcome = "submit_result \<times> bytes option"

definition add_all :: "outcome list \<Rightarrow> network_state \<Rightarrow> network_state" where
  "add_all rs S = fold (\<lambda>(r, e) S. NetworkState_add r e S) rs S"

definition accepted_of :: "outcome list \<Rightarrow> submit_result list" where
  "accepted_of rs = map fst (filter (\<lambda>(r, e). e = None) rs)"

definition elapsed_ms :: "submit_result \<Rightarrow> u16" where
  "elapsed_ms r = (if sr_elapsed r > 0xFFFF then 0xFFFF else ucast (sr_elapsed r))"

lemma add_all_snoc: "add_all (rs @ [(r, e)]) S = NetworkState_add r e (add_all rs S)"
  by (simp add: add_all_def)

lemma accepted_of_snoc:
  "accepted_of (rs @ [(r, e)]) = accepted_of rs @ (if e = None then [r] else [])"
  by (simp add: accepted_of_def)

lemma add_all_state:
  assumes "S = NetworkState_make t"
  shows "add_all rs S = S\<lparr>ns_topDiff := top_ten (map sr_actualDiff (accepted_of rs)),
    ns_accepted := of_nat (length (accepted_of rs)),
    ns_rejected := of_nat (length rs - length (accepted_of rs)),
    ns_total := (\<Sum>r \<leftarrow> accepted_of rs. ucast (sr_diff r)),
    ns_latency := map elapsed_ms (accepted_of rs)\<rparr>"
proof (induction rs rule: rev_induct)
  case Nil
  then show ?case using assms
    by (simp add: add_all_def accepted_of_def NetworkState_make_def top_ten_Nil)
next
  case (snoc x rs)
  obtain r e where x: "x = (r, e)" by fastforce
  have le: "length (accepted_of rs) \<le> length rs" by (simp add: accepted_of_def)
  show ?case
  proof (cases e)
    case (Some m)
    then show ?thesis
      using snoc.IH le unfolding x add_all_snoc accepted_of_snoc
      by (simp add: NetworkState_add_def Suc_diff_le)
  next
    case None
    then show ?thesis
      using snoc.IH le unfolding x add_all_snoc accepted_of_snoc
      by (simp add: NetworkState_add_def Let_def top_ten_add elapsed_ms_def)
  qed
qed

text \<open>Half of the accepted shares answered sooner or at the same time, half later.\<close>

lemma latency_median:
  assumes "ns_latency S \<noteq> []"
  defines "n \<equiv> length (ns_latency S)"
  shows "\<exists>l \<in> set (ns_latency S). latency S = ucast l \<and>
    length (filter (\<lambda>x. x < l) (ns_latency S)) \<le> n div 2 \<and>
    length (filter (\<lambda>x. x > l) (ns_latency S)) \<le> n - n div 2 - 1"
proof -
  let ?xs = "ns_latency S"
  let ?s = "sort ?xs"
  define l where "l = ?s ! (n div 2)"
  have n: "n div 2 < length ?s" using assms by (simp add: n_def)
  have "set ?s = set ?xs" by simp
  hence l: "l \<in> set ?xs" unfolding l_def using n nth_mem by blast
  have below: "length (filter (\<lambda>x. x < l) ?s) \<le> n div 2"
  proof -
    have "\<forall>x \<in> set (drop (n div 2) ?s). \<not> x < l"
    proof
      fix x assume "x \<in> set (drop (n div 2) ?s)"
      then obtain i where "i < length (drop (n div 2) ?s)" "x = drop (n div 2) ?s ! i"
        by (metis in_set_conv_nth)
      hence "x = ?s ! (n div 2 + i)" "n div 2 + i < length ?s" by auto
      hence "l \<le> x" unfolding l_def by (metis le_add1 sorted_nth_mono sorted_sort)
      thus "\<not> x < l" by simp
    qed
    hence "filter (\<lambda>x. x < l) (drop (n div 2) ?s) = []" by (simp add: filter_empty_conv)
    hence "filter (\<lambda>x. x < l) ?s = filter (\<lambda>x. x < l) (take (n div 2) ?s)"
      by (metis append.right_neutral append_take_drop_id filter_append)
    also have "length \<dots> \<le> n div 2"
      by (metis length_filter_le length_take min.bounded_iff order_trans min.cobounded2)
    finally show ?thesis .
  qed
  have above: "length (filter (\<lambda>x. x > l) ?s) \<le> n - n div 2 - 1"
  proof -
    have "\<forall>x \<in> set (take (n div 2 + 1) ?s). \<not> x > l"
    proof
      fix x assume "x \<in> set (take (n div 2 + 1) ?s)"
      then obtain i where "i < n div 2 + 1" "x = ?s ! i"
        by (auto simp: in_set_conv_nth)
      moreover from this have "?s ! i \<le> ?s ! (n div 2)" using n by (intro sorted_nth_mono) auto
      ultimately have "x \<le> l" unfolding l_def by simp
      thus "\<not> x > l" by simp
    qed
    hence "filter (\<lambda>x. x > l) (take (n div 2 + 1) ?s) = []" by (simp add: filter_empty_conv)
    hence "filter (\<lambda>x. x > l) ?s = filter (\<lambda>x. x > l) (drop (n div 2 + 1) ?s)"
      by (metis append.left_neutral append_take_drop_id filter_append)
    also have "length \<dots> \<le> n - n div 2 - 1"
      by (rule order.trans [OF length_filter_le]) (simp add: n_def)
    finally show ?thesis .
  qed
  have "mset (filter P ?s) = mset (filter P ?xs)" for P by simp
  hence len: "length (filter P ?s) = length (filter P ?xs)" for P by (metis size_mset)
  have "latency S = ucast l" using assms by (simp add: latency_def Let_def l_def n_def)
  thus ?thesis using l below above unfolding len by blast
qed

lemma setUserMask_eq:
  "setUserMask user S = None \<longleftrightarrow> length user < 4"
  "length u = 4 \<Longrightarrow> n + 4 < 255 \<Longrightarrow> length v = n \<Longrightarrow>
    setUserMask (v @ u) S = Some (S\<lparr>ns_userMask := replicate n 0x2A @ u\<rparr>)"
  by (simp_all add: setUserMask_def snprintf_string_def Let_def)

section \<open>Properties\<close>

text \<open>
  C25. The statistics after any sequence of accepted and rejected shares: the ten places hold the
  ten greatest difficulties of accepted shares in descending order, whatever the order they came
  in; the counters are the numbers of accepted and rejected shares, the total is the sum of the
  pool's difficulties modulo \<open>2 ^ 64\<close>, and there is one latency per accepted share, capped at
  65535 ms. Nothing else changes.
\<close>
theorem NetworkState_statistics:
  assumes "S = NetworkState_make t"
  shows "add_all rs S = S\<lparr>ns_topDiff := top_ten (map sr_actualDiff (accepted_of rs)),
    ns_accepted := of_nat (length (accepted_of rs)),
    ns_rejected := of_nat (length rs - length (accepted_of rs)),
    ns_total := (\<Sum>r \<leftarrow> accepted_of rs. ucast (sr_diff r)),
    ns_latency := map elapsed_ms (accepted_of rs)\<rparr>"
  using assms by (rule add_all_state)

theorem NetworkState_statistics_witness:
  "ns_topDiff (add_all (map (\<lambda>d. (SubmitResult_make 0 1 2 d, None)) [5, 7, 12, 9, 3, 2, 8, 6, 4, 11, 10])
     (NetworkState_make 0)) = [12, 11, 10, 9, 8, 7, 6, 5, 4, 3]"
proof -
  have "replicate 10 (0 :: u64) = [0, 0, 0, 0, 0, 0, 0, 0, 0, 0]" by (simp add: numeral_eq_Suc)
  thus ?thesis
    unfolding NetworkState_statistics [OF refl]
    by (simp add: accepted_of_def SubmitResult_make_def top_ten_def)
qed

text \<open>
  Masking the user name never returns for a name of fewer than four characters, and only
  then: the length minus four wraps around, and the string constructor throws. That includes the
  default user, which has one character, so that the miner ends when a pool without a user name
  accepts it. A longer name is shown as stars and its last four characters.
\<close>
theorem setUserMask_short_user:
  "(setUserMask user S = None \<longleftrightarrow> length user < 4) \<and>
   (length u = 4 \<longrightarrow> length v + 4 < 255 \<longrightarrow>
     setUserMask (v @ u) S = Some (S\<lparr>ns_userMask := replicate (length v) 0x2A @ u\<rparr>))"
  using setUserMask_eq by blast

theorem setUserMask_short_user_witness:
  "setUserMask (cstr ''x'') (NetworkState_make 0) = None \<and>
   setUserMask (cstr ''wallet'') (NetworkState_make 0) =
     Some ((NetworkState_make 0)\<lparr>ns_userMask := cstr ''**llet''\<rparr>)"
  using setUserMask_short_user [of "cstr ''x''" "NetworkState_make 0" "cstr ''llet''" "cstr ''wa''"]
  by (simp add: cstr_def numeral_2_eq_2)

text \<open>
  The latency that is shown is the upper median of the accepted shares' latencies.
\<close>
theorem latency_is_median:
  assumes "ns_latency S \<noteq> []"
  shows "\<exists>l \<in> set (ns_latency S). latency S = ucast l \<and>
    length (filter (\<lambda>x. x < l) (ns_latency S)) \<le> length (ns_latency S) div 2 \<and>
    length (filter (\<lambda>x. x > l) (ns_latency S)) \<le> length (ns_latency S) - length (ns_latency S) div 2 - 1"
  using assms by (rule latency_median)

theorem latency_is_median_witness:
  "\<exists>l \<in> {3, 1, 2 :: u16}. latency ((NetworkState_make 0)\<lparr>ns_latency := [3, 1, 2]\<rparr>) = ucast l"
proof -
  have "ns_latency ((NetworkState_make 0)\<lparr>ns_latency := [3, 1, 2]\<rparr>) \<noteq> []" by simp
  from latency_is_median [OF this] show ?thesis by auto
qed

end
