(* ===== verification/Strategies.thy ===== *)
theory Strategies
  imports Options Network_State
begin

text \<open>
  The strategies that choose between pools: \<open>SinglePoolStrategy\<close>, \<open>FailoverStrategy\<close> and
  \<open>DonateStrategy\<close> under \<open>src/src/net/strategies\<close>, behind the interface
  \<open>src/src/interfaces/IStrategy.h\<close>. An operation gives the new state and what it calls, in order:
  clients and timers, which answer only later through the event loop, and the listener. A client
  is its id: the pools have the ids from 0, the donation pool has -1.
\<close>

section \<open>Calls\<close>

datatype event =
    ClientConnect int
  | ClientDisconnect int
  | ClientTick int u64
  | ClientSubmit int job_result
  | TimerStart nat
  | TimerStop
  | ListenerActive int
  | ListenerJob int job
  | ListenerPause
  | ListenerResult int submit_result "bytes option"

text \<open>The methods of \<open>IStrategy\<close> and of \<open>IClientListener\<close>, and the timer of the donation.\<close>

datatype input =
    Submit job_result
  | Connect
  | Resume
  | Stop
  | Tick u64
  | OnClose int int
  | OnJobReceived int job
  | OnLoginSuccess int
  | OnResultAccepted int submit_result "bytes option"
  | OnTimer

text \<open>\<open>Options::retries()\<close> and \<open>Options::retryPause()\<close>.\<close>

definition retries :: int where "retries = 5"
definition retryPause :: int where "retryPause = 5"

section \<open>SinglePoolStrategy\<close>

record single =
  si_active :: bool

definition SinglePoolStrategy_make :: single where
  "SinglePoolStrategy_make = \<lparr>si_active = False\<rparr>"

definition single_onClose :: "single \<Rightarrow> single \<times> event list" where
  "single_onClose S = (if \<not> si_active S then (S, []) else (S\<lparr>si_active := False\<rparr>, [ListenerPause]))"

definition single_onLoginSuccess :: "single \<Rightarrow> int \<Rightarrow> single \<times> event list" where
  "single_onLoginSuccess S c = (S\<lparr>si_active := True\<rparr>, [ListenerActive c])"

definition single_resume :: "(int \<Rightarrow> job) \<Rightarrow> single \<Rightarrow> single \<times> event list" where
  "single_resume jobs S = (if \<not> si_active S then (S, []) else (S, [ListenerJob 0 (jobs 0)]))"

definition single_step :: "(int \<Rightarrow> job) \<Rightarrow> single \<Rightarrow> input \<Rightarrow> (single \<times> event list) option" where
  "single_step jobs S i =
    (case i of
       Submit result \<Rightarrow> Some (S, [ClientSubmit 0 result])
     | Connect \<Rightarrow> Some (S, [ClientConnect 0])
     | Resume \<Rightarrow> Some (single_resume jobs S)
     | Stop \<Rightarrow> Some (S, [ClientDisconnect 0])
     | Tick now \<Rightarrow> Some (S, [ClientTick 0 now])
     | OnClose c failures \<Rightarrow> Some (single_onClose S)
     | OnJobReceived c job \<Rightarrow> Some (S, [ListenerJob c job])
     | OnLoginSuccess c \<Rightarrow> Some (single_onLoginSuccess S c)
     | OnResultAccepted c result error \<Rightarrow> Some (S, [ListenerResult c result error])
     | OnTimer \<Rightarrow> None)"

section \<open>FailoverStrategy\<close>

text \<open>\<open>m_pools\<close> is the number of pools, each client having its index as id.\<close>

record failover =
  fo_active :: int
  fo_index :: int
  fo_pools :: nat

definition FailoverStrategy_make :: "url list \<Rightarrow> failover" where
  "FailoverStrategy_make urls = \<lparr>fo_active = -1, fo_index = 0, fo_pools = length urls\<rparr>"

definition failover_isActive :: "failover \<Rightarrow> bool" where
  "failover_isActive F \<longleftrightarrow> fo_active F \<ge> 0"

text \<open>The access \<open>m_pools[i]\<close>.\<close>

definition pool_at :: "failover \<Rightarrow> int \<Rightarrow> int option" where
  "pool_at F i = (if 0 \<le> i \<and> i < int (fo_pools F) then Some i else None)"

definition failover_submit :: "failover \<Rightarrow> job_result \<Rightarrow> (failover \<times> event list) option" where
  "failover_submit F result = do {
     c \<leftarrow> pool_at F (fo_active F);
     Some (F, [ClientSubmit c result])
   }"

definition failover_connect :: "failover \<Rightarrow> (failover \<times> event list) option" where
  "failover_connect F = do {
     c \<leftarrow> pool_at F (fo_index F);
     Some (F, [ClientConnect c])
   }"

definition failover_resume :: "(int \<Rightarrow> job) \<Rightarrow> failover \<Rightarrow> (failover \<times> event list) option" where
  "failover_resume jobs F =
    (if \<not> failover_isActive F then Some (F, [])
     else do {
       c \<leftarrow> pool_at F (fo_active F);
       Some (F, [ListenerJob c (jobs c)])
     })"

definition failover_stop :: "failover \<Rightarrow> failover \<times> event list" where
  "failover_stop F =
    (F\<lparr>fo_index := 0, fo_active := -1\<rparr>,
     map (\<lambda>i. ClientDisconnect (int i)) [0..<fo_pools F] @ [ListenerPause])"

definition failover_tick :: "failover \<Rightarrow> u64 \<Rightarrow> failover \<times> event list" where
  "failover_tick F now = (F, map (\<lambda>i. ClientTick (int i) now) [0..<fo_pools F])"

text \<open>\<open>m_pools.size() - m_index\<close> is unsigned.\<close>

definition failover_onClose :: "failover \<Rightarrow> int \<Rightarrow> int \<Rightarrow> (failover \<times> event list) option" where
  "failover_onClose F c failures =
    (if failures = -1 then Some (F, [])
     else
       let (F, evs) = (if fo_active F = c then (F\<lparr>fo_active := -1\<rparr>, [ListenerPause]) else (F, []))
       in if fo_index F = 0 \<and> failures < retries then Some (F, evs)
          else if fo_index F = c \<and> (of_nat (fo_pools F) - of_int (fo_index F) :: u64) > 1
          then do {
            let F = F\<lparr>fo_index := fo_index F + 1\<rparr>;
            p \<leftarrow> pool_at F (fo_index F);
            Some (F, evs @ [ClientConnect p])
          }
          else Some (F, evs))"

definition failover_onJobReceived :: "failover \<Rightarrow> int \<Rightarrow> job \<Rightarrow> failover \<times> event list" where
  "failover_onJobReceived F c job = (F, if fo_active F = c then [ListenerJob c job] else [])"

definition failover_onLoginSuccess :: "failover \<Rightarrow> int \<Rightarrow> failover \<times> event list" where
  "failover_onLoginSuccess F c =
    (let active = (if c = 0 \<or> \<not> failover_isActive F then c else fo_active F);
         evs = map (\<lambda>i. ClientDisconnect (int i)) (filter (\<lambda>i. active \<noteq> int i) [1..<fo_pools F])
     in if active \<ge> 0 \<and> active \<noteq> fo_active F
        then (F\<lparr>fo_active := active, fo_index := active\<rparr>, evs @ [ListenerActive c])
        else (F, evs))"

definition failover_step :: "(int \<Rightarrow> job) \<Rightarrow> failover \<Rightarrow> input \<Rightarrow> (failover \<times> event list) option" where
  "failover_step jobs F i =
    (case i of
       Submit result \<Rightarrow> failover_submit F result
     | Connect \<Rightarrow> failover_connect F
     | Resume \<Rightarrow> failover_resume jobs F
     | Stop \<Rightarrow> Some (failover_stop F)
     | Tick now \<Rightarrow> Some (failover_tick F now)
     | OnClose c failures \<Rightarrow> failover_onClose F c failures
     | OnJobReceived c job \<Rightarrow> Some (failover_onJobReceived F c job)
     | OnLoginSuccess c \<Rightarrow> Some (failover_onLoginSuccess F c)
     | OnResultAccepted c result error \<Rightarrow> Some (F, [ListenerResult c result error])
     | OnTimer \<Rightarrow> None)"

section \<open>DonateStrategy\<close>

definition DONATESTRATEGY_TIME :: nat where "DONATESTRATEGY_TIME = 120000"
definition DONATESTRATEGY_INTERVAL :: nat where "DONATESTRATEGY_INTERVAL = 12000000"

text \<open>The client exists only for one algorithm, and only with it the timer is initialised.\<close>

record donate =
  do_active :: bool
  do_client :: bool

definition DonateStrategy_make :: "int \<Rightarrow> donate \<times> event list" where
  "DonateStrategy_make algo =
    (let client = (DONATESTRATEGY_TIME > 0 \<and> algo = algo_int ALGO_CRYPTONIGHT)
     in (\<lparr>do_active = False, do_client = client\<rparr>, if client then [ClientConnect (-1)] else []))"

definition if_client :: "donate \<Rightarrow> event \<Rightarrow> event list" where
  "if_client D e = (if do_client D then [e] else [])"

definition donate_stop :: "donate \<Rightarrow> (donate \<times> event list) option" where
  "donate_stop D = (if do_client D then Some (D, [TimerStop, ClientDisconnect (-1)]) else None)"

definition donate_onLoginSuccess :: "donate \<Rightarrow> int \<Rightarrow> donate \<times> event list" where
  "donate_onLoginSuccess D c =
    (D\<lparr>do_active := True\<rparr>,
     (if \<not> do_active D then [TimerStart DONATESTRATEGY_TIME] else []) @ [ListenerActive c])"

definition donate_idle :: "event list" where
  "donate_idle = [TimerStart (DONATESTRATEGY_INTERVAL - DONATESTRATEGY_TIME)]"

definition donate_suspend :: "donate \<Rightarrow> donate \<times> event list" where
  "donate_suspend D =
    (D\<lparr>do_active := False\<rparr>, if_client D (ClientDisconnect (-1)) @ [ListenerPause] @ donate_idle)"

definition donate_onTimer :: "donate \<Rightarrow> donate \<times> event list" where
  "donate_onTimer D =
    (if \<not> do_active D then (D, if_client D (ClientConnect (-1))) else donate_suspend D)"

definition donate_step :: "donate \<Rightarrow> input \<Rightarrow> (donate \<times> event list) option" where
  "donate_step D i =
    (case i of
       Submit result \<Rightarrow> Some (D, if_client D (ClientSubmit (-1) result))
     | Connect \<Rightarrow> Some (D, if_client D (ClientConnect (-1)))
     | Resume \<Rightarrow> Some (D, [])
     | Stop \<Rightarrow> donate_stop D
     | Tick now \<Rightarrow> Some (D, if_client D (ClientTick (-1) now))
     | OnClose c failures \<Rightarrow> Some (D, [])
     | OnJobReceived c job \<Rightarrow> Some (D, [ListenerJob c job])
     | OnLoginSuccess c \<Rightarrow> Some (donate_onLoginSuccess D c)
     | OnResultAccepted c result error \<Rightarrow> Some (D, [ListenerResult c result error])
     | OnTimer \<Rightarrow> Some (donate_onTimer D))"

section \<open>The strategy of the network\<close>

datatype pool_strategy = SinglePool single | FailoverPools failover

fun isActive :: "pool_strategy \<Rightarrow> bool" where
  "isActive (SinglePool S) = si_active S"
| "isActive (FailoverPools F) = failover_isActive F"

fun strategy_step ::
  "(int \<Rightarrow> job) \<Rightarrow> pool_strategy \<Rightarrow> input \<Rightarrow> (pool_strategy \<times> event list) option" where
  "strategy_step jobs (SinglePool S) i = map_option (\<lambda>(S, evs). (SinglePool S, evs)) (single_step jobs S i)"
| "strategy_step jobs (FailoverPools F) i =
    map_option (\<lambda>(F, evs). (FailoverPools F, evs)) (failover_step jobs F i)"

section \<open>The interface\<close>

text \<open>
  What a listener that has been told \<open>b\<close> knows after the calls: the last notification counts.
\<close>

definition told :: "bool \<Rightarrow> event list \<Rightarrow> bool" where
  "told b evs = fold (\<lambda>e b. case e of ListenerActive _ \<Rightarrow> True | ListenerPause \<Rightarrow> False | _ \<Rightarrow> b) evs b"

lemma told_simps [simp]:
  "told b [] = b"
  "told b (ListenerActive c # evs) = told True evs"
  "told b (ListenerPause # evs) = told False evs"
  "told b (evs @ evs') = told (told b evs) evs'"
  "told b (ClientConnect c # evs) = told b evs"
  "told b (ClientDisconnect c # evs) = told b evs"
  "told b (ClientTick c now # evs) = told b evs"
  "told b (ClientSubmit c r # evs) = told b evs"
  "told b (TimerStart n # evs) = told b evs"
  "told b (TimerStop # evs) = told b evs"
  "told b (ListenerJob c j # evs) = told b evs"
  "told b (ListenerResult c res err # evs) = told b evs"
  by (simp_all add: told_def)

lemma told_map [simp]:
  "told b (map (\<lambda>i. ClientDisconnect (f i)) xs) = b" "told b (map (\<lambda>i. ClientTick (f i) now) xs) = b"
  by (induction xs) simp_all

text \<open>
  The contract of a strategy with its listener: an operation that is used with the strategy's own
  clients (\<open>ok\<close>) keeps its invariant and tells the listener whether it is active now.
\<close>

locale strategy =
  fixes act :: "'s \<Rightarrow> bool"
    and step :: "(int \<Rightarrow> job) \<Rightarrow> 's \<Rightarrow> input \<Rightarrow> ('s \<times> event list) option"
    and wf :: "'s \<Rightarrow> bool"
    and ok :: "'s \<Rightarrow> input \<Rightarrow> bool"
  assumes step_wf: "\<lbrakk>wf s; ok s i; step jobs s i = Some (s', evs)\<rbrakk> \<Longrightarrow> wf s'"
    and step_ok: "\<lbrakk>wf s; step jobs s i = Some (s', evs)\<rbrakk> \<Longrightarrow> ok s' j = ok s j"
    and reports: "\<lbrakk>wf s; ok s i; step jobs s i = Some (s', evs)\<rbrakk> \<Longrightarrow> told (act s) evs = act s'"
begin

fun run :: "(input \<times> (int \<Rightarrow> job)) list \<Rightarrow> 's \<Rightarrow> ('s \<times> event list) option" where
  "run [] s = Some (s, [])"
| "run ((i, jobs) # is) s = do {
     (s, evs) \<leftarrow> step jobs s i;
     (s, evs') \<leftarrow> run is s;
     Some (s, evs @ evs')
   }"

lemma run_told:
  "wf s \<Longrightarrow> \<forall>(i, jobs) \<in> set is. ok s i \<Longrightarrow> run is s = Some (s', evs) \<Longrightarrow>
    wf s' \<and> told (act s) evs = act s'"
proof (induction "is" arbitrary: s evs)
  case (Cons x "is")
  obtain i jobs where x: "x = (i, jobs)" by fastforce
  obtain t evs1 evs2 where t: "step jobs s i = Some (t, evs1)" "run is t = Some (s', evs2)" "evs = evs1 @ evs2"
    using Cons.prems(3) x by (auto split: Option.bind_splits)
  have s: "wf t" "told (act s) evs1 = act t"
    using Cons.prems t(1) x step_wf reports by auto
  have "\<forall>(j, jobs) \<in> set is. ok t j"
    using Cons.prems t(1) step_ok by auto
  from Cons.IH [OF s(1) this t(2)] s(2) t(3) show ?case by simp
qed simp

end

text \<open>A strategy that passes on jobs only while it is active.\<close>

locale guarded_strategy = strategy +
  assumes job_active: "\<lbrakk>wf s; ok s i; step jobs s i = Some (s', evs); ListenerJob c j \<in> set evs\<rbrakk> \<Longrightarrow> act s'"
begin

lemma inactive_quiet:
  "\<lbrakk>wf s; ok s i; step jobs s i = Some (s', evs); \<not> act s'\<rbrakk> \<Longrightarrow> ListenerJob c j \<notin> set evs"
  using job_active by blast

end

section \<open>The strategies as instances\<close>

fun client_in :: "int set \<Rightarrow> input \<Rightarrow> bool" where
  "client_in C (OnClose c failures) \<longleftrightarrow> c \<in> C"
| "client_in C (OnJobReceived c job) \<longleftrightarrow> c \<in> C"
| "client_in C (OnLoginSuccess c) \<longleftrightarrow> c \<in> C"
| "client_in C (OnResultAccepted c result error) \<longleftrightarrow> c \<in> C"
| "client_in C i \<longleftrightarrow> True"

interpretation sp: strategy si_active single_step "\<lambda>S. True" "\<lambda>S. client_in {0}"
  by unfold_locales
    (auto simp: single_step_def single_onClose_def single_onLoginSuccess_def single_resume_def
      split: input.splits if_splits)

interpretation dn: strategy do_active "\<lambda>jobs. donate_step" "\<lambda>D. True" "\<lambda>D. client_in {-1}"
  by unfold_locales
    (auto simp: donate_step_def donate_stop_def donate_onLoginSuccess_def donate_suspend_def
      donate_onTimer_def donate_idle_def if_client_def split: input.splits if_splits)

definition failover_wf :: "failover \<Rightarrow> bool" where
  "failover_wf F \<longleftrightarrow> 0 \<le> fo_index F \<and> fo_index F < int (fo_pools F) \<and> fo_pools F < 2 ^ 63 \<and>
    (fo_active F = -1 \<or> fo_active F = fo_index F)"

definition failover_ok :: "failover \<Rightarrow> input \<Rightarrow> bool" where
  "failover_ok F i \<longleftrightarrow> client_in {0..<int (fo_pools F)} i"

lemma pools_left:
  assumes "failover_wf F"
  shows "(of_nat (fo_pools F) - of_int (fo_index F) :: u64) > 1 \<longleftrightarrow> fo_index F + 1 < int (fo_pools F)"
proof -
  obtain k where k: "fo_index F = int k" using assms by (metis failover_wf_def nonneg_int_cases)
  have b: "k < fo_pools F" "fo_pools F < 2 ^ 63" using assms k by (auto simp: failover_wf_def)
  have e: "(of_nat (fo_pools F) - of_int (fo_index F) :: u64) = of_nat (fo_pools F - k)"
    using b(1) by (simp add: k of_nat_diff)
  have "unat (of_nat (fo_pools F - k) :: u64) = fo_pools F - k"
    using b(2) by (simp add: unsigned_of_nat take_bit_nat_eq_self_iff)
  hence "(of_nat (fo_pools F - k) :: u64) > 1 \<longleftrightarrow> fo_pools F - k > 1"
    by (simp add: word_less_nat_alt)
  thus ?thesis unfolding e using k b(1) by auto
qed

lemma failover_onClose_eq:
  assumes "failover_wf F"
  shows "failover_onClose F c failures = Some
    (if failures = -1 then (F, [])
     else
       let G = (if fo_active F = c then F\<lparr>fo_active := -1\<rparr> else F);
           evs = (if fo_active F = c then [ListenerPause] else [])
       in if \<not> (fo_index F = 0 \<and> failures < retries) \<and> fo_index F = c \<and> fo_index F + 1 < int (fo_pools F)
          then (G\<lparr>fo_index := fo_index F + 1\<rparr>, evs @ [ClientConnect (fo_index F + 1)])
          else (G, evs))"
  using assms
  by (auto simp: failover_onClose_def pools_left Let_def pool_at_def failover_wf_def
      pools_left [unfolded failover_wf_def])

lemma failover_close_wf:
  assumes "failover_wf F" "failover_onClose F c failures = Some (F', evs)"
  shows "failover_wf F'" "told (failover_isActive F) evs = failover_isActive F'" "ListenerJob k j \<notin> set evs"
  using assms(2) unfolding failover_onClose_eq [OF assms(1)] Let_def
  using assms(1) by (auto simp: failover_wf_def failover_isActive_def split: if_splits)

lemma failover_login_wf:
  assumes "failover_wf F" "0 \<le> c" "c < int (fo_pools F)" "failover_onLoginSuccess F c = (F', evs)"
  shows "failover_wf F'" "told (failover_isActive F) evs = failover_isActive F'" "ListenerJob k j \<notin> set evs"
proof -
  define a where "a = (if c = 0 \<or> \<not> failover_isActive F then c else fo_active F)"
  have e: "F' = (if a \<ge> 0 \<and> a \<noteq> fo_active F then F\<lparr>fo_active := a, fo_index := a\<rparr> else F)"
    "evs = map (\<lambda>i. ClientDisconnect (int i)) (filter (\<lambda>i. a \<noteq> int i) [1..<fo_pools F]) @
      (if a \<ge> 0 \<and> a \<noteq> fo_active F then [ListenerActive c] else [])"
    using assms(4) unfolding failover_onLoginSuccess_def Let_def a_def [symmetric] by (auto split: if_split_asm)
  show "failover_wf F'" "told (failover_isActive F) evs = failover_isActive F'" "ListenerJob k j \<notin> set evs"
    using assms(1-3) unfolding e
    by (auto simp: failover_wf_def failover_isActive_def a_def split: if_splits)
qed

lemma failover_step_wf:
  assumes "failover_wf F" "failover_ok F i" "failover_step jobs F i = Some (F', evs)"
  shows "failover_wf F'" "told (failover_isActive F) evs = failover_isActive F'"
    "ListenerJob c j \<in> set evs \<Longrightarrow> failover_isActive F'"
proof -
  have "failover_wf F' \<and> told (failover_isActive F) evs = failover_isActive F' \<and>
    (ListenerJob c j \<in> set evs \<longrightarrow> failover_isActive F')"
  proof (cases i)
    case (OnClose k failures)
    then show ?thesis using assms failover_close_wf [of F k failures F' evs]
      by (auto simp: failover_step_def)
  next
    case (OnLoginSuccess k)
    then show ?thesis using assms failover_login_wf [of F k F' evs]
      by (auto simp: failover_step_def failover_ok_def)
  next
    case Stop
    then show ?thesis using assms
      by (auto simp: failover_step_def failover_stop_def failover_wf_def failover_isActive_def)
  qed (use assms in \<open>auto simp: failover_step_def failover_submit_def failover_connect_def failover_resume_def
      failover_tick_def failover_onJobReceived_def failover_ok_def pool_at_def failover_isActive_def
      split: if_splits\<close>)
  thus "failover_wf F'" "told (failover_isActive F) evs = failover_isActive F'"
    "ListenerJob c j \<in> set evs \<Longrightarrow> failover_isActive F'" by blast+
qed

lemma failover_step_pools:
  assumes "failover_step jobs F i = Some (F', evs)"
  shows "fo_pools F' = fo_pools F"
  using assms
  by (cases i) (auto simp: failover_step_def failover_submit_def failover_connect_def failover_resume_def
      failover_stop_def failover_tick_def failover_onJobReceived_def failover_onClose_def
      failover_onLoginSuccess_def Let_def split: if_splits Option.bind_splits)

interpretation fo: guarded_strategy failover_isActive failover_step failover_wf failover_ok
proof unfold_locales
  fix F F' :: failover and i :: input and jobs evs
  assume "failover_wf F" "failover_ok F i" and s: "failover_step jobs F i = Some (F', evs)"
  from failover_step_wf [OF this] show "failover_wf F'" "told (failover_isActive F) evs = failover_isActive F'"
    "\<And>c j. ListenerJob c j \<in> set evs \<Longrightarrow> failover_isActive F'" by blast+
qed (simp add: failover_ok_def failover_step_pools)

text \<open>The strategy behind the pointer of the network.\<close>

fun strategy_wf :: "pool_strategy \<Rightarrow> bool" where
  "strategy_wf (SinglePool S) \<longleftrightarrow> True"
| "strategy_wf (FailoverPools F) \<longleftrightarrow> failover_wf F"

fun strategy_clients :: "pool_strategy \<Rightarrow> int set" where
  "strategy_clients (SinglePool S) = {0}"
| "strategy_clients (FailoverPools F) = {0..<int (fo_pools F)}"

definition strategy_ok :: "pool_strategy \<Rightarrow> input \<Rightarrow> bool" where
  "strategy_ok S i \<longleftrightarrow> client_in (strategy_clients S) i"

lemma strategy_step_clients:
  "strategy_step jobs S i = Some (S', evs) \<Longrightarrow> strategy_clients S' = strategy_clients S"
  by (cases S) (auto dest: failover_step_pools)

interpretation pools: strategy isActive strategy_step strategy_wf strategy_ok
proof unfold_locales
  fix S S' :: pool_strategy and i :: input and jobs evs
  assume a: "strategy_wf S" "strategy_ok S i" "strategy_step jobs S i = Some (S', evs)"
  show "strategy_wf S'" using a
    by (cases S) (auto simp: strategy_ok_def failover_ok_def [symmetric] intro: failover_step_wf(1))
  show "told (isActive S) evs = isActive S'" using a
    by (cases S) (auto simp: strategy_ok_def failover_ok_def failover_step_wf(2) sp.reports)
qed (auto simp: strategy_ok_def dest: strategy_step_clients)

section \<open>Failing over and back\<close>

lemma failover_make_wf:
  "urls \<noteq> [] \<Longrightarrow> length urls < 2 ^ 63 \<Longrightarrow> failover_wf (FailoverStrategy_make urls)"
  by (cases urls) (auto simp: failover_wf_def FailoverStrategy_make_def)

text \<open>The only access outside \<open>m_pools\<close> is that of \<open>submit\<close> while no pool is active.\<close>

lemma failover_step_None:
  assumes "failover_wf F"
  shows "failover_step jobs F i = None \<longleftrightarrow> (\<exists>r. i = Submit r) \<and> \<not> failover_isActive F \<or> i = OnTimer"
proof (cases i)
  case (OnClose c failures)
  then show ?thesis by (simp add: failover_step_def failover_onClose_eq [OF assms])
qed (use assms in \<open>auto simp: failover_step_def failover_submit_def failover_connect_def failover_resume_def
    pool_at_def failover_wf_def failover_isActive_def\<close>)

lemma jobs_of_active:
  assumes "failover_wf F" "failover_step jobs F i = Some (F', evs)" "ListenerJob c j \<in> set evs"
  shows "c = fo_active F'"
proof (cases i)
  case (OnClose k failures)
  then show ?thesis using assms failover_close_wf(3) [of F k failures F' evs] by (simp add: failover_step_def)
qed (use assms in \<open>auto simp: failover_step_def failover_submit_def failover_connect_def failover_resume_def
    failover_stop_def failover_tick_def failover_onJobReceived_def failover_onLoginSuccess_def pool_at_def Let_def
    split: if_splits\<close>)

text \<open>The pools from \<open>j\<close> to \<open>k - 1\<close> are given up, one after the other.\<close>

definition give_up :: "(nat \<Rightarrow> int) \<Rightarrow> nat \<Rightarrow> nat \<Rightarrow> (input \<times> (int \<Rightarrow> job)) list" where
  "give_up failures j k = map (\<lambda>i. (OnClose (int i) (failures i), \<lambda>c. Job_default)) [j..<k]"

lemma give_up_step:
  assumes "failover_wf F" "fo_active F = -1" "fo_index F = int i" "Suc i < fo_pools F"
    "failures \<noteq> -1" "i = 0 \<Longrightarrow> retries \<le> failures"
  shows "failover_step jobs F (OnClose (int i) failures) =
    Some (F\<lparr>fo_index := int (Suc i)\<rparr>, [ClientConnect (int (Suc i))])"
  using assms(2-)
  by (simp add: failover_step_def failover_onClose_eq [OF assms(1)] Let_def) (auto simp: add.commute)

lemma give_up_run:
  assumes "failover_wf F" "fo_active F = -1" "fo_index F = int j" "k < fo_pools F" "j \<le> k"
    "\<forall>i < k. failures i \<noteq> -1" "retries \<le> failures 0"
  shows "fo.run (give_up failures j k) F =
    Some (F\<lparr>fo_index := int k\<rparr>, map (\<lambda>i. ClientConnect (int i)) [Suc j..<Suc k])"
  using assms(5,1-4,6,7)
proof (induction j arbitrary: F rule: inc_induct)
  case base
  then show ?case by (simp add: give_up_def)
next
  case (step j)
  let ?G = "F\<lparr>fo_index := int (Suc j)\<rparr>"
  have "failover_step (\<lambda>c. Job_default) F (OnClose (int j) (failures j)) = Some (?G, [ClientConnect (int (Suc j))])"
    using step.prems step.hyps by (intro give_up_step) auto
  moreover have "fo.run (give_up failures (Suc j) k) ?G =
      Some (?G\<lparr>fo_index := int k\<rparr>, map (\<lambda>i. ClientConnect (int i)) [Suc (Suc j)..<Suc k])"
    using step.prems step.hyps by (intro step.IH) (auto simp: failover_wf_def)
  ultimately show ?case
    using step.hyps by (simp add: give_up_def upt_conv_Cons)
qed

lemma fails_over:
  assumes "k < length urls" "length urls < 2 ^ 63" "\<forall>i < k. failures i \<noteq> -1" "retries \<le> failures 0"
  shows "\<exists>F evs. fo.run ((Connect, jobs) # give_up failures 0 k @ [(OnLoginSuccess (int k), jobs)])
      (FailoverStrategy_make urls) = Some (F, evs) \<and>
    fo_active F = int k \<and> fo_index F = int k \<and> (\<forall>i \<le> k. ClientConnect (int i) \<in> set evs) \<and>
    last evs = ListenerActive (int k)"
proof -
  let ?F = "FailoverStrategy_make urls"
  have wf: "failover_wf ?F" using assms(1,2) by (intro failover_make_wf) auto
  have c: "failover_step jobs ?F Connect = Some (?F, [ClientConnect 0])"
    using assms(1) by (auto simp: failover_step_def failover_connect_def pool_at_def FailoverStrategy_make_def)
  have g: "fo.run (give_up failures 0 k) ?F =
      Some (?F\<lparr>fo_index := int k\<rparr>, map (\<lambda>i. ClientConnect (int i)) [Suc 0..<Suc k])"
    using assms by (intro give_up_run [OF wf]) (auto simp: FailoverStrategy_make_def)
  have run_append: "fo.run (xs @ ys) s = do {
      (s, evs) \<leftarrow> fo.run xs s; (s, evs') \<leftarrow> fo.run ys s; Some (s, evs @ evs')}" for xs ys s
  proof (induction xs arbitrary: s)
    case (Cons x xs)
    then show ?case by (cases x) (auto split: Option.bind_split)
  qed (auto split: Option.bind_split)
  obtain evs where l: "failover_step jobs (?F\<lparr>fo_index := int k\<rparr>) (OnLoginSuccess (int k)) =
      Some (?F\<lparr>fo_index := int k, fo_active := int k\<rparr>, evs @ [ListenerActive (int k)])"
    by (simp add: failover_step_def failover_onLoginSuccess_def failover_isActive_def FailoverStrategy_make_def Let_def)
  have "fo.run ((Connect, jobs) # give_up failures 0 k @ [(OnLoginSuccess (int k), jobs)]) ?F =
      Some (?F\<lparr>fo_index := int k, fo_active := int k\<rparr>,
        ClientConnect 0 # map (\<lambda>i. ClientConnect (int i)) [Suc 0..<Suc k] @ evs @ [ListenerActive (int k)])"
    by (simp add: c run_append g l del: upt_Suc)
  moreover have "\<forall>i \<le> k. ClientConnect (int i) \<in>
      set (ClientConnect 0 # map (\<lambda>i. ClientConnect (int i)) [Suc 0..<Suc k] @ evs @ [ListenerActive (int k)])"
  proof (intro allI impI)
    fix i assume "i \<le> k"
    thus "ClientConnect (int i) \<in>
      set (ClientConnect 0 # map (\<lambda>i. ClientConnect (int i)) [Suc 0..<Suc k] @ evs @ [ListenerActive (int k)])"
      by (cases "i = 0") auto
  qed
  ultimately show ?thesis by (simp add: FailoverStrategy_make_def)
qed

lemma back_to_first:
  assumes "failover_wf F" "fo_active F \<noteq> 0"
  shows "failover_step jobs F (OnLoginSuccess 0) = Some (F\<lparr>fo_active := 0, fo_index := 0\<rparr>,
    map (\<lambda>i. ClientDisconnect (int i)) [1..<fo_pools F] @ [ListenerActive 0])"
proof -
  have "filter (\<lambda>i. 0 \<noteq> int i) [1..<fo_pools F] = [1..<fo_pools F]" by simp
  thus ?thesis using assms by (simp add: failover_step_def failover_onLoginSuccess_def Let_def)
qed

section \<open>Properties\<close>

text \<open>
  C7. Whatever its clients report in whatever order, the failover strategy keeps its indices in
  the pool list, an active pool is the current one, it never reads outside the list except when a
  share is submitted while no pool is active, the listener's last notification tells whether it is
  active, and it passes on jobs of the active pool only.
\<close>
theorem failover_invariant:
  assumes "urls \<noteq> []" "length urls < 2 ^ 63"
    "\<forall>(i, jobs) \<in> set is. client_in {0..<int (length urls)} i"
    "fo.run is (FailoverStrategy_make urls) = Some (F, evs)"
  shows "failover_wf F \<and> told False evs = failover_isActive F \<and>
    (\<forall>jobs i. failover_step jobs F i = None \<longleftrightarrow> (\<exists>r. i = Submit r) \<and> \<not> failover_isActive F \<or> i = OnTimer) \<and>
    (\<forall>jobs i F' evs' c j. failover_step jobs F i = Some (F', evs') \<longrightarrow> ListenerJob c j \<in> set evs' \<longrightarrow>
      c = fo_active F')"
proof -
  have "\<not> failover_isActive (FailoverStrategy_make urls)"
    by (simp add: failover_isActive_def FailoverStrategy_make_def)
  moreover have "\<forall>(i, jobs) \<in> set is. failover_ok (FailoverStrategy_make urls) i"
    using assms(3) by (auto simp: failover_ok_def FailoverStrategy_make_def)
  ultimately have "failover_wf F \<and> told False evs = failover_isActive F"
    using fo.run_told [OF failover_make_wf [OF assms(1,2)] _ assms(4)] by simp
  moreover from this have wf: "failover_wf F" by simp
  ultimately show ?thesis
    by (intro conjI allI impI failover_step_None jobs_of_active [OF wf]) (assumption | simp)+
qed

theorem failover_invariant_witness:
  "\<exists>F evs. fo.run [(Connect, \<lambda>c. Job_default), (OnLoginSuccess 0, \<lambda>c. Job_default)]
      (FailoverStrategy_make [Url_default, Url_default]) = Some (F, evs) \<and> failover_wf F \<and> told False evs"
proof -
  let ?is = "[(Connect, \<lambda>c. Job_default), (OnLoginSuccess 0, \<lambda>c. Job_default)]"
  obtain F evs where r: "fo.run ?is (FailoverStrategy_make [Url_default, Url_default]) = Some (F, evs)"
    "failover_isActive F"
    by (auto simp: failover_step_def failover_connect_def pool_at_def FailoverStrategy_make_def
        failover_onLoginSuccess_def failover_isActive_def Let_def)
  from failover_invariant [OF _ _ _ r(1)] r show ?thesis by auto
qed

text \<open>
  C11. Failing over reaches every pool: if the first pool has failed at least \<open>retries\<close> times in a
  row and each further pool once, in order, then every pool up to the next one has been told to
  connect, and as soon as that one logs in it is the active one and the listener is told. A login
  of the first pool from any later state makes it the active one again and disconnects all others.
\<close>
theorem failover_reaches_pool:
  assumes "k < length urls" "length urls < 2 ^ 63" "\<forall>i < k. failures i \<noteq> -1" "retries \<le> failures 0"
    "failover_wf G" "fo_active G \<noteq> 0"
  shows "(\<exists>F evs. fo.run ((Connect, jobs) # give_up failures 0 k @ [(OnLoginSuccess (int k), jobs)])
        (FailoverStrategy_make urls) = Some (F, evs) \<and>
      fo_active F = int k \<and> fo_index F = int k \<and> (\<forall>i \<le> k. ClientConnect (int i) \<in> set evs) \<and>
      last evs = ListenerActive (int k)) \<and>
    failover_step jobs G (OnLoginSuccess 0) = Some (G\<lparr>fo_active := 0, fo_index := 0\<rparr>,
      map (\<lambda>i. ClientDisconnect (int i)) [1..<fo_pools G] @ [ListenerActive 0])"
  using fails_over [OF assms(1-4)] back_to_first [OF assms(5,6)] by blast

theorem failover_reaches_pool_witness:
  "\<exists>F evs. fo.run ((Connect, \<lambda>c. Job_default) # give_up (\<lambda>i. 5) 0 2 @ [(OnLoginSuccess 2, \<lambda>c. Job_default)])
      (FailoverStrategy_make [Url_default, Url_default, Url_default]) = Some (F, evs) \<and> fo_active F = 2"
proof -
  have g: "failover_wf (FailoverStrategy_make [Url_default])" "fo_active (FailoverStrategy_make [Url_default]) \<noteq> 0"
    by (simp_all add: failover_wf_def FailoverStrategy_make_def)
  have "2 < length [Url_default, Url_default, Url_default]" by simp
  from failover_reaches_pool [OF this _ _ _ g, of "\<lambda>i. 5" "\<lambda>c. Job_default"] show ?thesis
    by (auto simp: retries_def)
qed

end
