(* ===== verification/Workers.thy ===== *)
theory Workers
  imports Job C_Strings
begin

text \<open>
  The threads that mine: the shared state and the operations on it of \<open>src/src/workers/Workers.h\<close>
  and \<open>src/src/workers/Workers.cpp\<close>, \<open>Handle\<close>, and \<open>src/src/workers/OclWorker.cpp\<close>. The operations
  run in the thread of the event loop, each worker in its own thread; shared variables are atomic
  and the job is behind a lock, so that an operation is a sequence of single writes and a worker
  a machine that does one read or write of shared state per step. The two entry points of the
  OpenCL code are parameters.
\<close>

unbundle bit_operations_syntax

section \<open>The shared state\<close>

record shared =
  ws_active :: bool
  ws_enabled :: bool
  ws_job :: job
  ws_paused :: int
  ws_sequence :: u64
  ws_queue :: "job list"

text \<open>After \<open>Workers::start\<close>.\<close>

definition Workers_start :: shared where
  "Workers_start = \<lparr>ws_active = False, ws_enabled = True, ws_job = Job_default, ws_paused = 1,
     ws_sequence = 1, ws_queue = []\<rparr>"

datatype store_op =
    WriteJob job
  | WriteActive bool
  | WriteEnabled bool
  | WritePaused int
  | IncSequence
  | ZeroSequence

fun apply_write :: "store_op \<Rightarrow> shared \<Rightarrow> shared" where
  "apply_write (WriteJob j) w = w\<lparr>ws_job := j\<rparr>"
| "apply_write (WriteActive b) w = w\<lparr>ws_active := b\<rparr>"
| "apply_write (WriteEnabled b) w = w\<lparr>ws_enabled := b\<rparr>"
| "apply_write (WritePaused n) w = w\<lparr>ws_paused := n\<rparr>"
| "apply_write IncSequence w = w\<lparr>ws_sequence := ws_sequence w + 1\<rparr>"
| "apply_write ZeroSequence w = w\<lparr>ws_sequence := 0\<rparr>"

text \<open>
  The operations as the writes they do. \<open>m_active\<close> and \<open>m_enabled\<close>, which they branch on, are used
  by the thread of the event loop only. \<open>stop\<close> goes on to join the threads.
\<close>

datatype operation = SetJob job | Pause | SetEnabled bool | StopWorkers

fun writes :: "shared \<Rightarrow> operation \<Rightarrow> store_op list" where
  "writes w (SetJob j) =
    [WriteJob j, WriteActive True] @ (if \<not> ws_enabled w then [] else [IncSequence, WritePaused 0])"
| "writes w Pause = [WriteActive False, WritePaused 1, IncSequence]"
| "writes w (SetEnabled e) =
    (if ws_enabled w = e then []
     else [WriteEnabled e] @
       (if \<not> ws_active w then [] else [WritePaused (if e then 0 else 1), IncSequence]))"
| "writes w StopWorkers = [WritePaused 0, ZeroSequence]"

definition operate :: "operation \<Rightarrow> shared \<Rightarrow> shared" where
  "operate op w = fold apply_write (writes w op) w"

text \<open>What the workers read.\<close>

definition isPaused :: "shared \<Rightarrow> bool" where
  "isPaused w \<longleftrightarrow> ws_paused w = 1"

definition isOutdated :: "shared \<Rightarrow> u64 \<Rightarrow> bool" where
  "isOutdated w sequence \<longleftrightarrow> ws_sequence w \<noteq> sequence"

definition Workers_submit :: "job \<Rightarrow> shared \<Rightarrow> shared" where
  "Workers_submit result w = w\<lparr>ws_queue := ws_queue w @ [result]\<rparr>"

section \<open>A worker\<close>

record 'd gpu_context =
  gc_rawIntensity :: u64
  gc_threadId :: int
  gc_Nonce :: u32
  gc_device :: 'd

record 'd opencl =
  XMRSetJob :: "'d gpu_context \<Rightarrow> bytes \<Rightarrow> nat \<Rightarrow> u64 \<Rightarrow> int \<Rightarrow> 'd gpu_context"
  XMRRunJob :: "'d gpu_context \<Rightarrow> u32 list \<times> 'd gpu_context"

record 'd handle =
  h_lite :: bool
  h_threadId :: int
  h_threads :: int
  h_ctx :: "'d gpu_context"

definition Handle_make :: "int \<Rightarrow> 'd gpu_context \<Rightarrow> int \<Rightarrow> bool \<Rightarrow> 'd handle" where
  "Handle_make threadId ctx threads lite =
    \<lparr>h_lite = lite, h_threadId = threadId, h_threads = threads, h_ctx = ctx\<lparr>gc_threadId := threadId\<rparr>\<rparr>"

record 'd worker =
  wk_lite :: bool
  wk_id :: int
  wk_threads :: int
  wk_ctx :: "'d gpu_context"
  wk_job :: job
  wk_pausedJob :: job
  wk_hashCount :: u64
  wk_timestamp :: u64
  wk_nonce :: u32
  wk_pausedNonce :: u32
  wk_count :: u64
  wk_sequence :: u64
  wk_blob :: bytes

text \<open>The constructor leaves \<open>m_nonce\<close> and \<open>m_pausedNonce\<close> as they are.\<close>

definition OclWorker_make :: "u32 \<Rightarrow> u32 \<Rightarrow> 'd handle \<Rightarrow> 'd worker" where
  "OclWorker_make n0 p0 handle =
    \<lparr>wk_lite = h_lite handle, wk_id = h_threadId handle, wk_threads = h_threads handle,
     wk_ctx = h_ctx handle, wk_job = Job_default, wk_pausedJob = Job_default, wk_hashCount = 0,
     wk_timestamp = 0, wk_nonce = n0, wk_pausedNonce = p0, wk_count = 0, wk_sequence = 0,
     wk_blob = replicate 96 0\<rparr>"

definition worker_resume :: "job \<Rightarrow> 'd worker \<Rightarrow> bool \<times> 'd worker" where
  "worker_resume job W =
    (if j_poolId (wk_job W) = -1 \<and> j_poolId job \<ge> 0 \<and> JobId_eq (j_id job) (j_id (wk_pausedJob W))
     then (True, W\<lparr>wk_job := wk_pausedJob W, wk_nonce := wk_pausedNonce W\<rparr>)
     else (False, W))"

definition worker_save :: "job \<Rightarrow> 'd worker \<Rightarrow> 'd worker" where
  "worker_save job W =
    (if j_poolId job = -1 \<and> j_poolId (wk_job W) \<ge> 0
     then W\<lparr>wk_pausedJob := wk_job W, wk_pausedNonce := wk_nonce W\<rparr> else W)"

definition worker_setJob :: "'d opencl \<Rightarrow> 'd worker \<Rightarrow> 'd worker" where
  "worker_setJob cl W =
    (let W = W\<lparr>wk_blob := j_blob (wk_job W)\<rparr>
     in W\<lparr>wk_ctx := XMRSetJob cl (wk_ctx W) (wk_blob W) (j_size (wk_job W)) (j_target (wk_job W))
            (Job_variant (wk_job W))\<rparr>)"

text \<open>The nonce a worker begins with.\<close>

definition first_nonce :: "job \<Rightarrow> int \<Rightarrow> int \<Rightarrow> u32" where
  "first_nonce job threads i =
    (if j_nicehash job
     then (Job_nonce job AND 0xFF000000) + (0xFFFFFF div of_int threads * of_int i)
     else 0xFFFFFFFF div of_int threads * of_int i)"

text \<open>\<open>consumeJob\<close> after its two reads of shared state.\<close>

definition consume :: "'d opencl \<Rightarrow> job \<Rightarrow> 'd worker \<Rightarrow> 'd worker" where
  "consume cl job W =
    (if Job_eq (wk_job W) job then W
     else
       let W = worker_save job W;
           (resumed, W) = worker_resume job W
       in if resumed then worker_setJob cl W
          else
            let W = W\<lparr>wk_job := job\<lparr>j_threadId := wk_id W\<rparr>\<rparr>;
                W = W\<lparr>wk_nonce := first_nonce (wk_job W) (wk_threads W) (wk_id W)\<rparr>;
                W = W\<lparr>wk_ctx := (wk_ctx W)\<lparr>gc_Nonce := wk_nonce W\<rparr>\<rparr>
            in worker_setJob cl W)"

definition storeStats :: "u64 \<Rightarrow> 'd worker \<Rightarrow> 'd worker" where
  "storeStats timestamp W = W\<lparr>wk_hashCount := wk_count W, wk_timestamp := timestamp\<rparr>"

text \<open>The loop over the results: the nonces go into the worker's job, which is submitted.\<close>

fun submit_results :: "u32 list \<Rightarrow> nat list \<Rightarrow> 'd worker \<Rightarrow> shared \<Rightarrow> ('d worker \<times> shared) option" where
  "submit_results results [] W w = Some (W, w)"
| "submit_results results (i # is) W w = do {
     n \<leftarrow> get_at results i;
     let W = W\<lparr>wk_job := Job_setNonce (wk_job W) n\<rparr>;
     submit_results results is W (Workers_submit (wk_job W) w)
   }"

definition mine :: "'d opencl \<Rightarrow> u64 \<Rightarrow> 'd worker \<Rightarrow> shared \<Rightarrow> ('d worker \<times> shared) option" where
  "mine cl timestamp W w = do {
     let (results, ctx) = XMRRunJob cl (wk_ctx W);
     let W = W\<lparr>wk_ctx := ctx\<rparr>;
     n \<leftarrow> get_at results 0xFF;
     (W, w) \<leftarrow> submit_results results [0..<unat n] W w;
     let W = W\<lparr>wk_count := wk_count W + gc_rawIntensity (wk_ctx W)\<rparr>;
     Some (storeStats timestamp W, w)
   }"

section \<open>The thread of a worker\<close>

text \<open>
  The points of \<open>OclWorker::start\<close> and \<open>consumeJob\<close>. The flag of the two points inside \<open>consumeJob\<close>
  tells whether it was called after a pause.
\<close>

datatype pc =
    OuterCheck
  | PausedCheck
  | Sleeping
  | StopCheck
  | FetchJob bool
  | ReadSequence bool job
  | InnerCheck
  | Mining
  | Exited

record 'd thread =
  th_pc :: pc
  th_worker :: "'d worker"
  th_shared :: shared

definition thread_step :: "'d opencl \<Rightarrow> u64 \<Rightarrow> 'd thread \<Rightarrow> 'd thread option" where
  "thread_step cl timestamp T =
    (let w = th_shared T; W = th_worker T
     in case th_pc T of
          OuterCheck \<Rightarrow> Some (T\<lparr>th_pc := (if ws_sequence w > 0 then PausedCheck else Exited)\<rparr>)
        | PausedCheck \<Rightarrow> Some (T\<lparr>th_pc := (if isPaused w then Sleeping else InnerCheck)\<rparr>)
        | Sleeping \<Rightarrow> Some (T\<lparr>th_pc := (if isPaused w then Sleeping else StopCheck)\<rparr>)
        | StopCheck \<Rightarrow> Some (T\<lparr>th_pc := (if ws_sequence w = 0 then Exited else FetchJob True)\<rparr>)
        | FetchJob p \<Rightarrow> Some (T\<lparr>th_pc := ReadSequence p (ws_job w)\<rparr>)
        | ReadSequence p job \<Rightarrow>
            Some (T\<lparr>th_worker := consume cl job (W\<lparr>wk_sequence := ws_sequence w\<rparr>),
                    th_pc := (if p then InnerCheck else OuterCheck)\<rparr>)
        | InnerCheck \<Rightarrow> Some (T\<lparr>th_pc := (if \<not> isOutdated w (wk_sequence W) then Mining else FetchJob False)\<rparr>)
        | Mining \<Rightarrow> do {
            (W, w) \<leftarrow> mine cl timestamp W w;
            Some (T\<lparr>th_worker := W, th_shared := w, th_pc := InnerCheck\<rparr>)
          }
        | Exited \<Rightarrow> Some T)"

text \<open>
  The two threads together: the event loop begins an operation when it has finished the one
  before, and does its writes one by one between steps of the worker.
\<close>

record 'd system =
  sy_thread :: "'d thread"
  sy_pending :: "store_op list"
  sy_stopped :: bool

definition system_start :: "'d worker \<Rightarrow> 'd system" where
  "system_start W = \<lparr>sy_thread = \<lparr>th_pc = OuterCheck, th_worker = W, th_shared = Workers_start\<rparr>,
     sy_pending = [], sy_stopped = False\<rparr>"

inductive system_step :: "'d opencl \<Rightarrow> 'd system \<Rightarrow> 'd system \<Rightarrow> bool" for cl where
  begin_operation: "\<lbrakk>sy_pending s = []; \<not> sy_stopped s\<rbrakk> \<Longrightarrow>
    system_step cl s (s\<lparr>sy_pending := writes (th_shared (sy_thread s)) op, sy_stopped := (op = StopWorkers)\<rparr>)"
| do_write: "sy_pending s = x # xs \<Longrightarrow>
    system_step cl s (s\<lparr>sy_thread := (sy_thread s)\<lparr>th_shared := apply_write x (th_shared (sy_thread s))\<rparr>,
      sy_pending := xs\<rparr>)"
| worker: "thread_step cl timestamp (sy_thread s) = Some T \<Longrightarrow> system_step cl s (s\<lparr>sy_thread := T\<rparr>)"

definition system_reachable :: "'d opencl \<Rightarrow> 'd worker \<Rightarrow> 'd system \<Rightarrow> bool" where
  "system_reachable cl W s \<longleftrightarrow> (system_step cl)\<^sup>*\<^sup>* (system_start W) s"

section \<open>Single steps\<close>

lemma consume_sequence [simp]: "wk_sequence (consume cl job W) = wk_sequence W"
  by (simp add: consume_def worker_setJob_def worker_save_def worker_resume_def Let_def split: prod.split)

text \<open>A device that reports at most 255 nonces, as \<open>XMRRunJob\<close> makes sure.\<close>

definition device_ok :: "'d opencl \<Rightarrow> bool" where
  "device_ok cl \<longleftrightarrow> (\<forall>ctx. length (fst (XMRRunJob cl ctx)) = 256 \<and> unat (fst (XMRRunJob cl ctx) ! 255) \<le> 255)"

lemma submit_results_keeps:
  "submit_results results is W w = Some (W', w') \<Longrightarrow>
    wk_sequence W' = wk_sequence W \<and> ws_sequence w' = ws_sequence w \<and> ws_paused w' = ws_paused w \<and>
    ws_job w' = ws_job w"
proof (induction "is" arbitrary: W w)
  case (Cons i "is")
  then obtain n where "get_at results i = Some n" by (cases "get_at results i") auto
  with Cons show ?case by (fastforce simp: Let_def Workers_submit_def)
qed simp

lemma submit_results_total:
  "\<forall>i \<in> set is. i < length results \<Longrightarrow> \<exists>r. submit_results results is W w = Some r"
  by (induction "is" arbitrary: W w) (simp_all add: get_at_Some Let_def)

lemma mine_keeps:
  assumes "mine cl ts W w = Some (W', w')"
  shows "wk_sequence W' = wk_sequence W" "ws_sequence w' = ws_sequence w" "ws_paused w' = ws_paused w"
    "ws_job w' = ws_job w"
proof -
  obtain results ctx where r: "XMRRunJob cl (wk_ctx W) = (results, ctx)" by fastforce
  show "wk_sequence W' = wk_sequence W" "ws_sequence w' = ws_sequence w" "ws_paused w' = ws_paused w"
    "ws_job w' = ws_job w"
    using assms r
    by (auto simp: mine_def Let_def storeStats_def split: Option.bind_splits dest: submit_results_keeps)
qed

lemma mine_kept:
  "mine cl ts W w = Some (W', w') \<Longrightarrow> wk_sequence W' = wk_sequence W \<and> ws_sequence w' = ws_sequence w \<and>
    ws_paused w' = ws_paused w \<and> ws_job w' = ws_job w"
  by (intro conjI; rule mine_keeps)

lemma mine_total:
  assumes "device_ok cl"
  shows "\<exists>r. mine cl ts W w = Some r"
proof -
  obtain results ctx where r: "XMRRunJob cl (wk_ctx W) = (results, ctx)" by fastforce
  have l: "length results = 256" "unat (results ! 255) \<le> 255"
    using assms r unfolding device_ok_def by (metis fst_conv)+
  have "\<exists>r. submit_results results [0..<unat (results ! 255)] (W\<lparr>wk_ctx := ctx\<rparr>) w = Some r"
    using l by (intro submit_results_total) auto
  thus ?thesis using r l by (auto simp: mine_def Let_def get_at_Some)
qed

section \<open>Stopping\<close>

text \<open>The states from which a worker does not leave its loops when nothing more is written.\<close>

fun stuck :: "pc \<Rightarrow> u64 \<Rightarrow> bool" where
  "stuck (FetchJob p) q \<longleftrightarrow> p"
| "stuck (ReadSequence p job) q \<longleftrightarrow> p"
| "stuck PausedCheck q \<longleftrightarrow> q = 0"
| "stuck InnerCheck q \<longleftrightarrow> q = 0"
| "stuck Mining q \<longleftrightarrow> q = 0"
| "stuck _ q \<longleftrightarrow> False"

definition stopped :: "shared \<Rightarrow> bool" where
  "stopped w \<longleftrightarrow> ws_sequence w = 0 \<and> ws_paused w \<noteq> 1"

lemma stuck_step:
  assumes "thread_step cl ts T = Some T'" "stopped (th_shared T)"
  shows "stopped (th_shared T')"
    and "stuck (th_pc T) (wk_sequence (th_worker T)) \<Longrightarrow> stuck (th_pc T') (wk_sequence (th_worker T'))"
  using assms
  by (auto simp: thread_step_def stopped_def isOutdated_def isPaused_def Let_def
      split: pc.splits if_splits Option.bind_splits dest: mine_kept)

fun thread_run :: "'d opencl \<Rightarrow> u64 list \<Rightarrow> 'd thread \<Rightarrow> 'd thread option" where
  "thread_run cl [] T = Some T"
| "thread_run cl (t # ts) T = Option.bind (thread_step cl t T) (thread_run cl ts)"

lemma stuck_run:
  "thread_run cl ts T = Some T' \<Longrightarrow> stopped (th_shared T) \<Longrightarrow>
    stuck (th_pc T) (wk_sequence (th_worker T)) \<Longrightarrow> stuck (th_pc T') (wk_sequence (th_worker T'))"
  by (induction ts arbitrary: T) (auto split: Option.bind_splits dest: stuck_step)

lemma exits:
  assumes "device_ok cl" "stopped (th_shared T)" "\<not> stuck (th_pc T) (wk_sequence (th_worker T))"
  shows "\<exists>T'. thread_run cl [t, t, t, t, t] T = Some T' \<and> th_pc T' = Exited"
proof (cases "th_pc T")
  case Mining
  obtain W w where m: "mine cl t (th_worker T) (th_shared T) = Some (W, w)"
    using mine_total [OF assms(1)] by fastforce
  from mine_keeps [OF m] show ?thesis
    using assms(2,3) Mining m
    by (auto simp: thread_step_def stopped_def isOutdated_def Let_def)
next
  case (FetchJob p)
  then show ?thesis using assms(2,3) by (auto simp: thread_step_def stopped_def Let_def)
next
  case (ReadSequence p job)
  then show ?thesis using assms(2,3) by (auto simp: thread_step_def stopped_def Let_def)
qed (use assms(2,3) in \<open>auto simp: thread_step_def stopped_def isPaused_def isOutdated_def Let_def\<close>)

lemma stop_exits:
  assumes "device_ok cl" "stopped (th_shared T)"
  shows "(\<exists>ts T'. thread_run cl ts T = Some T' \<and> th_pc T' = Exited) \<longleftrightarrow>
    \<not> stuck (th_pc T) (wk_sequence (th_worker T))"
proof
  assume "\<exists>ts T'. thread_run cl ts T = Some T' \<and> th_pc T' = Exited"
  then obtain ts T' where "thread_run cl ts T = Some T'" "th_pc T' = Exited" by blast
  thus "\<not> stuck (th_pc T) (wk_sequence (th_worker T))"
    using stuck_run [OF _ assms(2)] by fastforce
qed (use exits [OF assms] in blast)

lemma worker_path:
  "thread_run cl ts (sy_thread s) = Some T \<Longrightarrow> (system_step cl)\<^sup>*\<^sup>* s (s\<lparr>sy_thread := T\<rparr>)"
proof (induction ts arbitrary: s)
  case (Cons t ts)
  then obtain U where U: "thread_step cl t (sy_thread s) = Some U" "thread_run cl ts U = Some T"
    by (auto split: Option.bind_splits)
  have "system_step cl s (s\<lparr>sy_thread := U\<rparr>)" using U(1) by (rule system_step.worker)
  moreover have "(system_step cl)\<^sup>*\<^sup>* (s\<lparr>sy_thread := U\<rparr>) (s\<lparr>sy_thread := U, sy_thread := T\<rparr>)"
    using Cons.IH [of "s\<lparr>sy_thread := U\<rparr>"] U(2) by simp
  ultimately show ?case by (simp add: converse_rtranclp_into_rtranclp)
next
  case Nil
  hence "s\<lparr>sy_thread := T\<rparr> = s" by auto
  thus ?case by simp
qed

lemma writes_path:
  "sy_pending s = xs @ ys \<Longrightarrow> (system_step cl)\<^sup>*\<^sup>* s
    (s\<lparr>sy_thread := (sy_thread s)\<lparr>th_shared := fold apply_write xs (th_shared (sy_thread s))\<rparr>, sy_pending := ys\<rparr>)"
proof (induction xs arbitrary: s)
  case (Cons x xs)
  let ?s = "s\<lparr>sy_thread := (sy_thread s)\<lparr>th_shared := apply_write x (th_shared (sy_thread s))\<rparr>,
    sy_pending := xs @ ys\<rparr>"
  have "system_step cl s ?s" using Cons.prems by (intro do_write) simp
  also have "(system_step cl)\<^sup>*\<^sup>* ?s (?s\<lparr>sy_thread := (sy_thread ?s)\<lparr>th_shared :=
      fold apply_write xs (th_shared (sy_thread ?s))\<rparr>, sy_pending := ys\<rparr>)"
    by (rule Cons.IH) simp
  finally show ?case by simp
next
  case Nil
  hence "s\<lparr>sy_thread := (sy_thread s)\<lparr>th_shared := th_shared (sy_thread s)\<rparr>, sy_pending := ys\<rparr> = s" by auto
  thus ?case by simp
qed

inductive_cases system_stepE: "system_step cl s s'"

lemma stuck_system:
  assumes "(system_step cl)\<^sup>*\<^sup>* s s'" "sy_pending s = []" "sy_stopped s" "stopped (th_shared (sy_thread s))"
    "stuck (th_pc (sy_thread s)) (wk_sequence (th_worker (sy_thread s)))"
  shows "th_pc (sy_thread s') \<noteq> Exited"
proof -
  have "sy_pending s' = [] \<and> sy_stopped s' \<and> stopped (th_shared (sy_thread s')) \<and>
    stuck (th_pc (sy_thread s')) (wk_sequence (th_worker (sy_thread s')))"
    using assms
  proof (induction rule: rtranclp_induct)
    case (step t u)
    from step.hyps(2) step.IH step.prems show ?case
      by (elim system_stepE) (auto dest: stuck_step)
  qed simp
  thus ?thesis by auto
qed

lemma hang_reachable:
  "\<exists>s. system_reachable cl W s \<and> sy_stopped s \<and> sy_pending s = [] \<and>
    (\<forall>s'. (system_step cl)\<^sup>*\<^sup>* s s' \<longrightarrow> th_pc (sy_thread s') \<noteq> Exited)"
proof -
  let ?w1 = "Workers_start\<lparr>ws_paused := 0\<rparr>"
  let ?th = "\<lambda>p w. \<lparr>th_pc = p, th_worker = W, th_shared = w\<rparr>"
  let ?s1 = "\<lparr>sy_thread = ?th Sleeping Workers_start, sy_pending = [], sy_stopped = False\<rparr>"
  let ?s2 = "?s1\<lparr>sy_pending := [WritePaused 0, ZeroSequence], sy_stopped := True\<rparr>"
  let ?s3 = "\<lparr>sy_thread = ?th Sleeping ?w1, sy_pending = [ZeroSequence], sy_stopped = True\<rparr>"
  let ?s4 = "\<lparr>sy_thread = ?th (FetchJob True) ?w1, sy_pending = [ZeroSequence], sy_stopped = True\<rparr>"
  let ?s5 = "\<lparr>sy_thread = ?th (FetchJob True) (?w1\<lparr>ws_sequence := 0\<rparr>), sy_pending = [], sy_stopped = True\<rparr>"
  have "(system_step cl)\<^sup>*\<^sup>* (system_start W) ?s1"
    using worker_path [of cl "[0, 0]" "system_start W" "?th Sleeping Workers_start"]
    by (simp add: system_start_def thread_step_def Workers_start_def isPaused_def Let_def)
  also have "system_step cl ?s1 ?s2"
    using begin_operation [of ?s1 cl StopWorkers] by simp
  also have "(system_step cl)\<^sup>*\<^sup>* ?s2 ?s3"
    using writes_path [of ?s2 "[WritePaused 0]" "[ZeroSequence]" cl] by simp
  also have "(system_step cl)\<^sup>*\<^sup>* ?s3 ?s4"
    using worker_path [of cl "[0, 0]" ?s3 "?th (FetchJob True) ?w1"]
    by (simp add: thread_step_def Workers_start_def isPaused_def Let_def)
  also have "(system_step cl)\<^sup>*\<^sup>* ?s4 ?s5"
    using writes_path [of ?s4 "[ZeroSequence]" "[]" cl] by simp
  finally have "system_reachable cl W ?s5" by (simp add: system_reachable_def)
  moreover have "th_pc (sy_thread s') \<noteq> Exited" if "(system_step cl)\<^sup>*\<^sup>* ?s5 s'" for s'
    by (rule stuck_system [OF that]) (simp_all add: stopped_def Workers_start_def)
  ultimately show ?thesis by (intro exI [of _ ?s5]) simp
qed

section \<open>A new job\<close>

lemma consume_new:
  assumes "\<not> Job_eq (wk_job W) job" "j_poolId (wk_job W) \<noteq> -1"
  shows "wk_job (consume cl job W) = job\<lparr>j_threadId := wk_id W\<rparr>"
    "gc_Nonce (wk_ctx W) = n \<Longrightarrow> wk_nonce (consume cl job W) = first_nonce job (wk_threads W) (wk_id W)"
  using assms
  by (simp_all add: consume_def worker_setJob_def worker_save_def worker_resume_def Let_def first_nonce_def
      Job_nonce_def split: prod.split)

text \<open>While nothing is written, a worker whose sequence is current goes on with its job.\<close>

lemma current_run:
  "thread_run cl ts T = Some T' \<Longrightarrow> th_pc T \<in> {InnerCheck, Mining} \<Longrightarrow>
    \<not> isOutdated (th_shared T) (wk_sequence (th_worker T)) \<Longrightarrow>
    th_pc T' \<in> {InnerCheck, Mining} \<and> ws_job (th_shared T') = ws_job (th_shared T)"
proof (induction ts arbitrary: T)
  case (Cons t ts)
  then obtain U where U: "thread_step cl t T = Some U" "thread_run cl ts U = Some T'"
    by (auto split: Option.bind_splits)
  have "th_pc U \<in> {InnerCheck, Mining} \<and> \<not> isOutdated (th_shared U) (wk_sequence (th_worker U)) \<and>
    ws_job (th_shared U) = ws_job (th_shared T)"
  proof (cases "th_pc T")
    case Mining
    then obtain W w where m: "mine cl t (th_worker T) (th_shared T) = Some (W, w)"
      "U = T\<lparr>th_worker := W, th_shared := w, th_pc := InnerCheck\<rparr>"
      using U(1) by (auto simp: thread_step_def Let_def split: Option.bind_splits)
    show ?thesis using m(2) mine_kept [OF m(1)] Cons.prems(3) by (simp add: isOutdated_def)
  qed (use U(1) Cons.prems(2,3) in \<open>auto simp: thread_step_def isOutdated_def Let_def\<close>)
  with Cons.IH [OF U(2)] show ?case by simp
qed simp

lemma stale_reachable:
  assumes "\<not> Job_eq (wk_job W) j1" "j_poolId (wk_job W) \<noteq> -1"
  shows "\<exists>s. system_reachable cl W s \<and> sy_pending s = [] \<and> ws_job (th_shared (sy_thread s)) = j2 \<and>
    wk_job (th_worker (sy_thread s)) = j1\<lparr>j_threadId := wk_id W\<rparr> \<and> th_pc (sy_thread s) = Mining \<and>
    (\<forall>ts T. thread_run cl ts (sy_thread s) = Some T \<longrightarrow>
      th_pc T \<in> {InnerCheck, Mining} \<and> ws_job (th_shared T) = j2)"
proof -
  let ?th = "\<lambda>p W w. \<lparr>th_pc = p, th_worker = W, th_shared = w\<rparr>"
  let ?w1 = "Workers_start\<lparr>ws_job := j1, ws_active := True, ws_sequence := 2, ws_paused := 0\<rparr>"
  let ?w2 = "?w1\<lparr>ws_job := j2, ws_sequence := 3\<rparr>"
  let ?W = "consume cl j1 (W\<lparr>wk_sequence := 3\<rparr>)"
  let ?p1 = "[WriteJob j1, WriteActive True, IncSequence, WritePaused 0]"
  let ?p2 = "[WriteJob j2, WriteActive True, IncSequence, WritePaused 0]"
  let ?sy = "\<lambda>T p. \<lparr>sy_thread = T, sy_pending = p, sy_stopped = False\<rparr>"
  have "(system_step cl)\<^sup>*\<^sup>* (system_start W) (?sy (?th Sleeping W Workers_start) [])"
    using worker_path [of cl "[0, 0]" "system_start W" "?th Sleeping W Workers_start"]
    by (simp add: system_start_def thread_step_def Workers_start_def isPaused_def Let_def)
  also have "system_step cl \<dots> (?sy (?th Sleeping W Workers_start) ?p1)"
    using begin_operation [of "?sy (?th Sleeping W Workers_start) []" cl "SetJob j1"]
    by (simp add: Workers_start_def)
  also have "(system_step cl)\<^sup>*\<^sup>* \<dots> (?sy (?th Sleeping W ?w1) [])"
    using writes_path [of "?sy (?th Sleeping W Workers_start) ?p1" ?p1 "[]" cl] by (simp add: Workers_start_def)
  also have "(system_step cl)\<^sup>*\<^sup>* \<dots> (?sy (?th (ReadSequence True j1) W ?w1) [])"
    using worker_path [of cl "[0, 0, 0]" "?sy (?th Sleeping W ?w1) []" "?th (ReadSequence True j1) W ?w1"]
    by (simp add: thread_step_def isPaused_def Let_def)
  also have "system_step cl \<dots> (?sy (?th (ReadSequence True j1) W ?w1) ?p2)"
    using begin_operation [of "?sy (?th (ReadSequence True j1) W ?w1) []" cl "SetJob j2"]
    by (simp add: Workers_start_def)
  also have "(system_step cl)\<^sup>*\<^sup>* \<dots> (?sy (?th (ReadSequence True j1) W ?w2) [])"
    using writes_path [of "?sy (?th (ReadSequence True j1) W ?w1) ?p2" ?p2 "[]" cl] by (simp add: Workers_start_def)
  also have "(system_step cl)\<^sup>*\<^sup>* \<dots> (?sy (?th Mining ?W ?w2) [])"
    using worker_path [of cl "[0, 0]" "?sy (?th (ReadSequence True j1) W ?w2) []" "?th Mining ?W ?w2"]
    by (simp add: thread_step_def isOutdated_def Let_def)
  finally have "system_reachable cl W (?sy (?th Mining ?W ?w2) [])" by (simp add: system_reachable_def)
  moreover have "wk_job ?W = j1\<lparr>j_threadId := wk_id W\<rparr>"
    using consume_new(1) [of "W\<lparr>wk_sequence := 3\<rparr>" j1 cl] assms by simp
  moreover have "th_pc T \<in> {InnerCheck, Mining} \<and> ws_job (th_shared T) = j2"
    if "thread_run cl ts (?th Mining ?W ?w2) = Some T" for ts T
    using current_run [OF that] by (simp add: isOutdated_def)
  ultimately show ?thesis by (intro exI [of _ "?sy (?th Mining ?W ?w2) []"]) simp
qed

section \<open>The ranges of nonces\<close>

definition nonce_base :: "job \<Rightarrow> nat" where
  "nonce_base job = (if j_nicehash job then unat (Job_nonce job AND 0xFF000000) else 0)"

definition nonce_limit :: "job \<Rightarrow> nat" where
  "nonce_limit job = (if j_nicehash job then 2 ^ 24 - 1 else 2 ^ 32 - 1)"

definition nonce_share :: "job \<Rightarrow> int \<Rightarrow> nat" where
  "nonce_share job threads = nonce_limit job div nat threads"

lemma share_fits: "k < n \<Longrightarrow> (M div n) * k + M div n \<le> (M :: nat)"
proof -
  assume "k < n"
  hence "(M div n) * (k + 1) \<le> (M div n) * n" by (intro mult_le_mono2) simp
  also have "\<dots> \<le> M" by (simp add: div_times_less_eq_dividend)
  finally show ?thesis by (simp add: algebra_simps)
qed

lemma unat_share:
  assumes "0 < t" "t < 2 ^ 32" "0 \<le> i" "i < t"
  shows "unat ((M :: u32) div of_int t * of_int i) = (unat M div nat t) * nat i"
proof -
  obtain n k where nk: "t = int n" "i = int k"
    using assms by (metis nonneg_int_cases order_less_imp_le)
  have b: "n < 2 ^ 32" "k < n" using assms nk by auto
  have u: "unat (of_nat n :: u32) = n" "unat (of_nat k :: u32) = k"
    using b by (simp_all add: unsigned_of_nat take_bit_nat_eq_self_iff)
  have q: "unat (M div of_nat n) = unat M div n"
    by (simp add: unat_div u)
  have "(unat M div n) * k \<le> unat M"
    using share_fits [OF b(2), of "unat M"] by simp
  also have "unat M < 2 ^ 32" using unsigned_less [of M, where 'a = nat] by simp
  finally have "unat (M div of_nat n) * unat (of_nat k :: u32) < 2 ^ LENGTH(32)"
    by (simp add: q u)
  from unat_mult_lem [THEN iffD1, OF this] show ?thesis by (simp add: nk q u)
qed

lemma first_nonce_value:
  assumes "0 < t" "t < 2 ^ 32" "0 \<le> i" "i < t"
  shows "unat (first_nonce job t i) = nonce_base job + nonce_share job t * nat i"
proof (cases "j_nicehash job")
  case False
  then show ?thesis
    using unat_share [OF assms, of "0xFFFFFFFF"]
    by (simp add: first_nonce_def nonce_base_def nonce_share_def nonce_limit_def)
next
  case True
  let ?b = "Job_nonce job AND 0xFF000000"
  let ?x = "0xFFFFFF div of_int t * of_int i :: u32"
  have x: "unat ?x = nonce_share job t * nat i"
    using True unat_share [OF assms, of "0xFFFFFF"] by (simp add: nonce_share_def nonce_limit_def)
  have "nonce_share job t * nat i \<le> 2 ^ 24 - 1"
    using share_fits [of "nat i" "nat t" "2 ^ 24 - 1"] assms True
    by (simp add: nonce_share_def nonce_limit_def nat_less_eq_zless)
  moreover have "?b \<le> 0xFF000000" by (rule word_and_le1)
  hence "unat ?b \<le> 0xFF000000" by (simp add: word_le_nat_alt)
  ultimately have "unat ?b + unat ?x < 2 ^ LENGTH(32)" using x by simp
  from unat_add_lem [THEN iffD1, OF this] show ?thesis
    using True x by (simp add: first_nonce_def nonce_base_def)
qed

section \<open>Properties\<close>

text \<open>
  C8. The workers of one job begin with disjoint ranges of nonces: worker \<open>i\<close> of \<open>t\<close> begins at
  \<open>i\<close> times the share, the share being the number of nonces divided by \<open>t\<close>; no product or sum wraps
  around, the range of a worker ends before the next one begins, the last one inside the nonces,
  and with nicehash the top byte that the pool has chosen stays.
\<close>
theorem nonce_ranges:
  assumes "0 < t" "t < 2 ^ 32" "0 \<le> i" "i < t"
  shows "unat (first_nonce job t i) = nonce_base job + nonce_share job t * nat i \<and>
    nonce_share job t * nat i + nonce_share job t \<le> nonce_limit job \<and>
    (\<forall>j. i < j \<longrightarrow> j < t \<longrightarrow>
      unat (first_nonce job t i) + nonce_share job t \<le> unat (first_nonce job t j))"
proof -
  have v: "unat (first_nonce job t j) = nonce_base job + nonce_share job t * nat j" if "0 \<le> j" "j < t" for j
    using first_nonce_value [OF assms(1,2) that] .
  have "nonce_share job t * nat i + nonce_share job t \<le> nonce_limit job"
    unfolding nonce_share_def using assms by (intro share_fits) (simp add: nat_less_eq_zless)
  moreover have "nonce_share job t * nat i + nonce_share job t \<le> nonce_share job t * nat j" if "i < j" for j
  proof -
    have "nat i + 1 \<le> nat j" using that assms(3) by linarith
    from mult_le_mono2 [OF this, of "nonce_share job t"] show ?thesis by (simp add: algebra_simps)
  qed
  ultimately show ?thesis using v assms(3,4) by (auto simp: add.assoc)
qed

theorem nonce_ranges_witness:
  "unat (first_nonce Job_default 4 1) = 1073741823 \<and>
   unat (first_nonce Job_default 4 1) + 1073741823 \<le> unat (first_nonce Job_default 4 2)"
proof -
  have v: "nonce_base Job_default = 0" "nonce_share Job_default 4 = 1073741823"
    by (simp_all add: nonce_base_def nonce_share_def nonce_limit_def Job_default_def)
  from nonce_ranges [of 4 1 Job_default] have "unat (first_nonce Job_default 4 1) = 1073741823"
    "\<forall>j. 1 < j \<longrightarrow> j < 4 \<longrightarrow>
      unat (first_nonce Job_default 4 1) + 1073741823 \<le> unat (first_nonce Job_default 4 j)"
    by (auto simp: v)
  from this(1) this(2) [rule_format, of 2] show ?thesis by simp
qed

text \<open>
  C12. When the miner has been stopped, a worker ends exactly if it is not in one of these places:
  between its test of the sequence after a pause and its reading of the sequence, or at or before
  the inner loop with a sequence number of zero. From everywhere else it ends in five steps of its
  own; from there it never does, since the zero it has read is never outdated.
\<close>
theorem worker_exits_iff:
  assumes "device_ok cl" "stopped (th_shared T)"
  shows "(\<exists>ts T'. thread_run cl ts T = Some T' \<and> th_pc T' = Exited) \<longleftrightarrow>
    \<not> stuck (th_pc T) (wk_sequence (th_worker T))"
  using assms by (rule stop_exits)

definition idle_device :: "unit opencl" where
  "idle_device = \<lparr>XMRSetJob = \<lambda>ctx blob len target variant. ctx, XMRRunJob = \<lambda>ctx. (replicate 256 0, ctx)\<rparr>"

definition first_worker :: "unit worker" where
  "first_worker = OclWorker_make 0 0 (Handle_make 0
     \<lparr>gc_rawIntensity = 1, gc_threadId = 0, gc_Nonce = 0, gc_device = ()\<rparr> 1 False)"

theorem worker_exits_iff_witness:
  "\<exists>ts T'. thread_run idle_device ts
     \<lparr>th_pc = InnerCheck, th_worker = first_worker\<lparr>wk_sequence := 7\<rparr>,
      th_shared = operate StopWorkers Workers_start\<rparr> = Some T' \<and> th_pc T' = Exited"
proof -
  have "device_ok idle_device" by (simp add: device_ok_def idle_device_def)
  moreover have "stopped (operate StopWorkers Workers_start)"
    by (simp add: stopped_def operate_def Workers_start_def)
  ultimately show ?thesis
    using worker_exits_iff [of idle_device "\<lparr>th_pc = InnerCheck, th_worker = first_worker\<lparr>wk_sequence := 7\<rparr>,
      th_shared = operate StopWorkers Workers_start\<rparr>"]
    by simp
qed

text \<open>
  C34. Stopping can hang: for every device and worker there is an order of the steps, of a stop
  during a pause, after which the stop has written everything, nothing else will be written, and
  no step whatsoever leads to a state in which the worker has ended. \<open>Workers::stop\<close> then waits in
  \<open>join\<close> for ever.
\<close>
theorem stop_can_hang:
  "\<exists>s. system_reachable cl W s \<and> sy_stopped s \<and> sy_pending s = [] \<and>
    (\<forall>s'. (system_step cl)\<^sup>*\<^sup>* s s' \<longrightarrow> th_pc (sy_thread s') \<noteq> Exited)"
  by (rule hang_reachable)

theorem stop_can_hang_witness:
  "\<exists>s. system_reachable idle_device first_worker s \<and> th_pc (sy_thread s) \<noteq> Exited"
  using stop_can_hang [of idle_device first_worker] by blast

text \<open>
  C35. A worker can miss a job: since it reads the job before the sequence, there is for any two
  jobs in a row an order of the steps after which the second one is set completely and the worker
  mines the first one under the newest sequence, and it goes on with it, never looking at the job
  again, until another operation changes the sequence.
\<close>
theorem worker_can_miss_job:
  assumes "\<not> Job_eq (wk_job W) j1" "j_poolId (wk_job W) \<noteq> -1"
  shows "\<exists>s. system_reachable cl W s \<and> sy_pending s = [] \<and> ws_job (th_shared (sy_thread s)) = j2 \<and>
    wk_job (th_worker (sy_thread s)) = j1\<lparr>j_threadId := wk_id W\<rparr> \<and> th_pc (sy_thread s) = Mining \<and>
    (\<forall>ts T. thread_run cl ts (sy_thread s) = Some T \<longrightarrow>
      th_pc T \<in> {InnerCheck, Mining} \<and> ws_job (th_shared T) = j2)"
  using assms by (rule stale_reachable)

theorem worker_can_miss_job_witness:
  "\<exists>s. system_reachable idle_device first_worker s \<and>
    j_target (wk_job (th_worker (sy_thread s))) = 1 \<and> j_target (ws_job (th_shared (sy_thread s))) = 2"
proof -
  let ?j1 = "Job_default\<lparr>j_id := 1 # replicate 63 0, j_target := 1\<rparr>"
  let ?j2 = "Job_default\<lparr>j_id := 2 # replicate 63 0, j_target := 2\<rparr>"
  have "wk_job first_worker = Job_default" by (simp add: first_worker_def OclWorker_make_def)
  hence "\<not> Job_eq (wk_job first_worker) ?j1" "j_poolId (wk_job first_worker) \<noteq> -1"
    by (auto simp: Job_eq_def JobId_eq_def Job_default_def JobId_empty_def replicate_eq_replicate
        dest: arg_cong [of _ _ hd])
  from worker_can_miss_job [OF this, of idle_device ?j2] show ?thesis by fastforce
qed

end
