(* ===== verification/Network.thy ===== *)
theory Network
  imports Strategies Workers
begin

text \<open>
  The network of the miner: \<open>src/src/net/Network.cpp\<close>, which connects the strategies, the
  statistics and the workers. The strategies call it synchronously: their calls are carried out in
  order on the state they have left. What reaches the network from outside is an input: what a
  client reports, in the order in which \<open>src/src/net/Client.cpp\<close> calls its listener, a share the
  workers have found, the timers, and the user's switch. Calls to clients and timers are
  collected. Log messages and the statistics of the API are left out.
\<close>

section \<open>State\<close>

text \<open>\<open>n_jobs\<close> and \<open>n_urls\<close> are the \<open>m_job\<close> and \<open>m_url\<close> of the clients, \<open>n_now\<close> is the loop's time.\<close>

record network =
  n_strategy :: pool_strategy
  n_donate :: donate
  n_state :: network_state
  n_jobs :: "int \<Rightarrow> job"
  n_urls :: "int \<Rightarrow> url"
  n_workers :: shared
  n_calls :: "event list"
  n_now :: u64

text \<open>\<open>Client::setUrl\<close>.\<close>

definition Client_setUrl :: "url \<Rightarrow> url \<Rightarrow> url" where
  "Client_setUrl m_url url =
    (if \<not> Url_isValid url then m_url else (case Url_assign m_url url of Some u \<Rightarrow> u | None \<Rightarrow> m_url))"

definition donate_url :: url where
  "donate_url = Url_make (cstr ''cryptonight.eu.nicehash.com'') 3355
     (Some (cstr ''3EXnQ9TLnco6hqjL8S7685YF7mgkaN4LFq'')) None False True VARIANT_AUTO"

text \<open>The constructor; \<open>pools.front()\<close> of no pools is a bad access.\<close>

definition Network_make :: "u64 \<Rightarrow> options \<Rightarrow> network option" where
  "Network_make uninit self =
    (let pools = o_pools self;
         (donate, calls) = DonateStrategy_make (o_algo self)
     in if pools = [] then None
        else Some
          \<lparr>n_strategy = (if length pools > 1 then FailoverPools (FailoverStrategy_make pools)
                         else SinglePool SinglePoolStrategy_make),
           n_donate = donate, n_state = NetworkState_make uninit, n_jobs = (\<lambda>c. Job_default),
           n_urls = (\<lambda>c. Client_setUrl Url_default (if c = -1 then donate_url else pools ! nat c)),
           n_workers = Workers_start, n_calls = calls, n_now = uninit\<rparr>)"

section \<open>Calls of the strategies\<close>

definition Network_onActive :: "int \<Rightarrow> network \<Rightarrow> network option" where
  "Network_onActive c N =
    (if c = -1 then Some N
     else do {
       let url = n_urls N c;
       host \<leftarrow> u_host url;
       state \<leftarrow> setUserMask (Url_user url) (setPool (n_now N) host (u_port url) (n_state N));
       Some (N\<lparr>n_state := state\<rparr>)
     })"

definition Network_setJob :: "int \<Rightarrow> job \<Rightarrow> network \<Rightarrow> network" where
  "Network_setJob c job N =
    (if c = -1 then N
     else N\<lparr>n_state := (n_state N)\<lparr>ns_diff := Job_diff job\<rparr>,
            n_workers := operate (SetJob job) (n_workers N)\<rparr>)"

definition Network_onJob :: "int \<Rightarrow> job \<Rightarrow> network \<Rightarrow> network" where
  "Network_onJob c job N =
    (if do_active (n_donate N) \<and> c \<noteq> -1 then N else Network_setJob c job N)"

definition Network_onResultAccepted ::
  "int \<Rightarrow> submit_result \<Rightarrow> bytes option \<Rightarrow> network \<Rightarrow> network" where
  "Network_onResultAccepted c result error N = N\<lparr>n_state := NetworkState_add result error (n_state N)\<rparr>"

text \<open>The end of \<open>onPause\<close>.\<close>

definition pause_if_inactive :: "network \<Rightarrow> network" where
  "pause_if_inactive N =
    (if \<not> isActive (n_strategy N)
     then N\<lparr>n_state := NetworkState_stop (n_state N), n_workers := operate Pause (n_workers N)\<rparr>
     else N)"

text \<open>A call of \<open>m_strategy\<close>, which is not the donation's.\<close>

fun pool_call :: "event \<Rightarrow> network \<Rightarrow> network option" where
  "pool_call (ListenerActive c) N = Network_onActive c N"
| "pool_call (ListenerJob c job) N = Some (Network_onJob c job N)"
| "pool_call ListenerPause N = Some (pause_if_inactive N)"
| "pool_call (ListenerResult c result error) N = Some (Network_onResultAccepted c result error N)"
| "pool_call e N = Some (N\<lparr>n_calls := n_calls N @ [e]\<rparr>)"

definition net_pool :: "input \<Rightarrow> network \<Rightarrow> network option" where
  "net_pool i N = do {
     (S, evs) \<leftarrow> strategy_step (n_jobs N) (n_strategy N) i;
     each pool_call evs (N\<lparr>n_strategy := S\<rparr>)
   }"

text \<open>A call of \<open>m_donate\<close>: when it pauses, the pools are resumed.\<close>

fun donate_call :: "event \<Rightarrow> network \<Rightarrow> network option" where
  "donate_call ListenerPause N = do {
     N \<leftarrow> net_pool Resume N;
     Some (pause_if_inactive N)
   }"
| "donate_call e N = pool_call e N"

definition net_donate :: "input \<Rightarrow> network \<Rightarrow> network option" where
  "net_donate i N = do {
     (D, evs) \<leftarrow> donate_step (n_donate N) i;
     each donate_call evs (N\<lparr>n_donate := D\<rparr>)
   }"

definition Network_onJobResult :: "job_result \<Rightarrow> network \<Rightarrow> network option" where
  "Network_onJobResult result N =
    (if jr_poolId result = -1 then net_donate (Submit result) N else net_pool (Submit result) N)"

definition Network_tick :: "u64 \<Rightarrow> network \<Rightarrow> network option" where
  "Network_tick now N = do {
     N \<leftarrow> net_pool (Tick now) N;
     net_donate (Tick now) N
   }"

definition Network_connect :: "network \<Rightarrow> network option" where
  "Network_connect N = net_pool Connect N"

definition Network_stop :: "network \<Rightarrow> network option" where
  "Network_stop N = do {
     N \<leftarrow> net_donate Stop N;
     net_pool Stop N
   }"

section \<open>Inputs\<close>

datatype net_input =
    Started
  | Stopped
  | Ticked
  | PoolLogin int job
  | PoolJob int job
  | PoolClosed int int
  | PoolResult int submit_result "bytes option"
  | DonateLogin job
  | DonateJob job
  | DonateClosed int
  | DonateResult submit_result "bytes option"
  | DonateTimer
  | Found job_result
  | Switched bool

text \<open>
  A login, the answer to it and a job as \<open>parseResponse\<close> and \<open>parseNotification\<close> report them: the
  job is the client's before the listener is called.
\<close>

definition pool_job :: "int \<Rightarrow> job \<Rightarrow> network \<Rightarrow> network" where
  "pool_job c job N = N\<lparr>n_jobs := (n_jobs N)(c := job)\<rparr>"

fun net_step :: "net_input \<Rightarrow> network \<Rightarrow> network option" where
  "net_step Started N = Network_connect N"
| "net_step Stopped N = Network_stop N"
| "net_step Ticked N = Network_tick (n_now N) N"
| "net_step (PoolLogin c job) N =
    Option.bind (net_pool (OnLoginSuccess c) (pool_job c job N)) (net_pool (OnJobReceived c job))"
| "net_step (PoolJob c job) N = net_pool (OnJobReceived c job) (pool_job c job N)"
| "net_step (PoolClosed c failures) N = net_pool (OnClose c failures) N"
| "net_step (PoolResult c result error) N = net_pool (OnResultAccepted c result error) N"
| "net_step (DonateLogin job) N =
    Option.bind (net_donate (OnLoginSuccess (-1)) (pool_job (-1) job N)) (net_donate (OnJobReceived (-1) job))"
| "net_step (DonateJob job) N = net_donate (OnJobReceived (-1) job) (pool_job (-1) job N)"
| "net_step (DonateClosed failures) N = net_donate (OnClose (-1) failures) N"
| "net_step (DonateResult result error) N = net_donate (OnResultAccepted (-1) result error) N"
| "net_step DonateTimer N = net_donate OnTimer N"
| "net_step (Found result) N = Network_onJobResult result N"
| "net_step (Switched enabled) N = Some (N\<lparr>n_workers := operate (SetEnabled enabled) (n_workers N)\<rparr>)"

text \<open>The inputs that can come: those of the strategy's own clients.\<close>

fun input_ok :: "network \<Rightarrow> net_input \<Rightarrow> bool" where
  "input_ok N (PoolLogin c job) \<longleftrightarrow> c \<in> strategy_clients (n_strategy N)"
| "input_ok N (PoolJob c job) \<longleftrightarrow> c \<in> strategy_clients (n_strategy N)"
| "input_ok N (PoolClosed c failures) \<longleftrightarrow> c \<in> strategy_clients (n_strategy N)"
| "input_ok N (PoolResult c result error) \<longleftrightarrow> c \<in> strategy_clients (n_strategy N)"
| "input_ok N _ \<longleftrightarrow> True"

inductive net_reachable :: "options \<Rightarrow> network \<Rightarrow> bool" for self where
  initial: "Network_make uninit self = Some N \<Longrightarrow> net_reachable self N"
| step: "\<lbrakk>net_reachable self N; input_ok N i; net_step i (N\<lparr>n_now := now\<rparr>) = Some N'\<rbrakk> \<Longrightarrow>
    net_reachable self N'"

section \<open>What the calls do\<close>

text \<open>The effect of a call on the workers, for an active or inactive strategy and donation.\<close>

fun worker_effect :: "bool \<Rightarrow> bool \<Rightarrow> event \<Rightarrow> shared \<Rightarrow> shared" where
  "worker_effect act don (ListenerJob c job) w = (if don \<or> c = -1 then w else operate (SetJob job) w)"
| "worker_effect act don ListenerPause w = (if \<not> act then operate Pause w else w)"
| "worker_effect act don _ w = w"

definition effects :: "bool \<Rightarrow> bool \<Rightarrow> event list \<Rightarrow> shared \<Rightarrow> shared" where
  "effects act don evs w = fold (worker_effect act don) evs w"

lemma effects_simps [simp]:
  "effects act don [] w = w"
  "effects act don (evs @ evs') w = effects act don evs' (effects act don evs w)"
  "effects act don (e # evs) w = effects act don evs (worker_effect act don e w)"
  by (simp_all add: effects_def)

lemma effects_map [simp]:
  "effects act don (map (\<lambda>i. ClientDisconnect (f i)) xs) w = w"
  "effects act don (map (\<lambda>i. ClientTick (f i) now) xs) w = w"
  by (induction xs arbitrary: w) simp_all

text \<open>The rest of the network.\<close>

definition same_net :: "network \<Rightarrow> network \<Rightarrow> bool" where
  "same_net N N' \<longleftrightarrow> n_strategy N' = n_strategy N \<and> n_donate N' = n_donate N \<and> n_jobs N' = n_jobs N \<and>
    n_urls N' = n_urls N"

lemma pool_call_effect:
  assumes "pool_call e N = Some N'"
  shows "same_net N N' \<and> n_workers N' =
    worker_effect (isActive (n_strategy N)) (do_active (n_donate N)) e (n_workers N)"
  using assms
  by (cases e) (auto simp: same_net_def Network_onActive_def Network_onJob_def Network_setJob_def
      pause_if_inactive_def Network_onResultAccepted_def Let_def split: if_splits Option.bind_splits)

lemma pool_calls_effect:
  "each pool_call evs N = Some N' \<Longrightarrow> same_net N N' \<and> n_workers N' =
    effects (isActive (n_strategy N)) (do_active (n_donate N)) evs (n_workers N)"
proof (induction evs arbitrary: N)
  case (Cons e evs)
  then obtain M where M: "pool_call e N = Some M" "each pool_call evs M = Some N'"
    by (auto split: Option.bind_splits)
  show ?case using pool_call_effect [OF M(1)] Cons.IH [OF M(2)] by (simp add: same_net_def)
qed (simp add: same_net_def)

lemma net_pool_effect:
  assumes "net_pool i N = Some N'"
  shows "\<exists>evs. strategy_step (n_jobs N) (n_strategy N) i = Some (n_strategy N', evs) \<and>
    n_donate N' = n_donate N \<and> n_jobs N' = n_jobs N \<and>
    n_workers N' = effects (isActive (n_strategy N')) (do_active (n_donate N)) evs (n_workers N)"
proof -
  obtain S evs where s: "strategy_step (n_jobs N) (n_strategy N) i = Some (S, evs)"
    "each pool_call evs (N\<lparr>n_strategy := S\<rparr>) = Some N'"
    using assms by (auto simp: net_pool_def split: Option.bind_splits)
  show ?thesis using s(1) pool_calls_effect [OF s(2)] by (auto simp: same_net_def)
qed

section \<open>Invariants\<close>

definition workers_ok :: "shared \<Rightarrow> bool" where
  "workers_ok w \<longleftrightarrow> ws_paused w = (if ws_active w \<and> ws_enabled w then 0 else 1)"

lemma workers_ok_operate:
  "op \<noteq> StopWorkers \<Longrightarrow> workers_ok w \<Longrightarrow> workers_ok (operate op w)"
  by (cases op) (auto simp: workers_ok_def operate_def)

lemma workers_ok_effects: "workers_ok w \<Longrightarrow> workers_ok (effects act don evs w)"
proof (induction evs arbitrary: w)
  case (Cons e evs)
  have "workers_ok (worker_effect act don e w)"
    using Cons.prems by (cases e) (auto intro: workers_ok_operate)
  then show ?case using Cons.IH by simp
qed simp

fun active_client :: "pool_strategy \<Rightarrow> int" where
  "active_client (SinglePool S) = 0"
| "active_client (FailoverPools F) = fo_active F"

text \<open>Outside the donation the workers have the newest job of the active pool.\<close>

definition fresh :: "bool \<Rightarrow> (int \<Rightarrow> job) \<Rightarrow> pool_strategy \<Rightarrow> shared \<Rightarrow> bool" where
  "fresh don jobs S w \<longleftrightarrow> (\<not> don \<and> isActive S \<longrightarrow> ws_job w = jobs (active_client S))"

lemma ws_job_operate [simp]:
  "ws_job (operate (SetJob j) w) = j" "ws_job (operate Pause w) = ws_job w"
  "ws_job (operate (SetEnabled b) w) = ws_job w" "ws_job (operate StopWorkers w) = ws_job w"
  by (simp_all add: operate_def)

lemma fresh_step:
  assumes "strategy_wf S" "strategy_ok S i" "strategy_step jobs S i = Some (S', evs)"
    and fresh: "fresh don jobs S w"
    and i: "\<nexists>c. i = OnLoginSuccess c" "\<nexists>c job. i = OnJobReceived c job"
  shows "fresh don jobs S' (effects (isActive S') don evs w)"
proof (cases S)
  case (SinglePool T)
  then show ?thesis using assms
    by (cases i) (auto simp: single_step_def single_resume_def single_onClose_def fresh_def split: if_splits)
next
  case (FailoverPools F)
  show ?thesis
  proof (cases i)
    case (OnClose c failures)
    have "failover_wf F" using assms(1) FailoverPools by simp
    then show ?thesis using assms(3) fresh FailoverPools OnClose
      by (auto simp: failover_step_def failover_onClose_eq fresh_def failover_isActive_def Let_def split: if_splits)
  qed (use assms FailoverPools in \<open>auto simp: failover_step_def failover_submit_def failover_connect_def
      failover_resume_def failover_stop_def failover_tick_def fresh_def failover_isActive_def pool_at_def
      failover_wf_def split: if_splits\<close>)
qed

lemma fresh_job:
  assumes "strategy_wf S" "strategy_ok S (OnJobReceived c job)"
    "strategy_step (jobs(c := job)) S (OnJobReceived c job) = Some (S', evs)"
    and fresh: "fresh don jobs S w"
  shows "fresh don (jobs(c := job)) S' (effects (isActive S') don evs w)"
  using assms
  by (cases S) (auto simp: single_step_def failover_step_def failover_onJobReceived_def fresh_def
      strategy_ok_def failover_isActive_def split: if_splits)

lemma login_active:
  assumes "failover_onLoginSuccess F c = (F', evs)" "0 \<le> c"
  shows "fo_active F' = c \<or> fo_active F' = fo_active F \<and> failover_isActive F"
    "effects act don evs w = w"
proof -
  define a where "a = (if c = 0 \<or> \<not> failover_isActive F then c else fo_active F)"
  have e: "F' = (if a \<ge> 0 \<and> a \<noteq> fo_active F then F\<lparr>fo_active := a, fo_index := a\<rparr> else F)"
    "evs = map (\<lambda>i. ClientDisconnect (int i)) (filter (\<lambda>i. a \<noteq> int i) [1..<fo_pools F]) @
      (if a \<ge> 0 \<and> a \<noteq> fo_active F then [ListenerActive c] else [])"
    using assms(1) unfolding failover_onLoginSuccess_def Let_def a_def [symmetric] by (auto split: if_split_asm)
  show "fo_active F' = c \<or> fo_active F' = fo_active F \<and> failover_isActive F"
    using assms(2) unfolding e(1) a_def by auto
  show "effects act don evs w = w" unfolding e(2) by auto
qed

lemma fresh_login:
  assumes "strategy_ok S (OnLoginSuccess c)"
    "strategy_step (jobs(c := job)) S (OnLoginSuccess c) = Some (S1, evs1)"
    "strategy_step (jobs(c := job)) S1 (OnJobReceived c job) = Some (S2, evs2)"
    and fresh: "fresh don jobs S w"
  shows "fresh don (jobs(c := job)) S2 (effects (isActive S2) don evs2 (effects (isActive S1) don evs1 w))"
proof (cases S)
  case (SinglePool T)
  then show ?thesis using assms
    by (auto simp: single_step_def single_onLoginSuccess_def fresh_def strategy_ok_def)
next
  case (FailoverPools F)
  obtain F' where F': "failover_onLoginSuccess F c = (F', evs1)" "S1 = FailoverPools F'"
    using assms(2) FailoverPools by (auto simp: failover_step_def split: prod.splits)
  have c: "0 \<le> c" using assms(1) FailoverPools by (simp add: strategy_ok_def)
  note l = login_active [OF F'(1) c]
  have s2: "S2 = S1" "evs2 = (if fo_active F' = c then [ListenerJob c job] else [])"
    using assms(3) F'(2) by (auto simp: failover_step_def failover_onJobReceived_def)
  show ?thesis
    using l(1) fresh c FailoverPools unfolding s2 l(2) F'(2) by (auto simp: fresh_def)
qed

lemma quiet_effects:
  "\<forall>c j. ListenerJob c j \<notin> set evs \<Longrightarrow> ws_active (effects False don evs w) \<Longrightarrow> ws_active w \<and> told True evs"
proof (induction evs arbitrary: w)
  case (Cons e evs)
  have IH: "ws_active (effects False don evs v) \<Longrightarrow> ws_active v \<and> told True evs" for v
    using Cons by simp
  have p: "\<not> ws_active (operate Pause w)" by (simp add: operate_def)
  show ?case
  proof (cases "e = ListenerPause")
    case True
    then show ?thesis using Cons.prems(2) IH [of "operate Pause w"] p by simp
  next
    case False
    then have "worker_effect False don e w = w" "told True (e # evs) = told True evs"
      using Cons.prems(1) by (cases e; simp)+
    then show ?thesis using Cons.prems(2) IH [of w] by simp
  qed
qed simp

lemma guard_effects:
  assumes "told act evs = act'" "\<forall>c j. ListenerJob c j \<in> set evs \<longrightarrow> act'" "ws_active w \<longrightarrow> act"
    "ws_active (effects act' don evs w)"
  shows act'
proof (rule ccontr)
  assume n: "\<not> act'"
  hence "ws_active w \<and> told True evs" using assms(2,4) quiet_effects [of evs don w] by simp
  thus False using assms(1,3) n by simp
qed

definition guarded :: "pool_strategy \<Rightarrow> shared \<Rightarrow> bool" where
  "guarded S w \<longleftrightarrow> (\<forall>F. S = FailoverPools F \<longrightarrow> ws_active w \<longrightarrow> failover_isActive F)"

lemma guarded_step:
  assumes "strategy_wf S" "strategy_ok S i" "strategy_step jobs S i = Some (S', evs)" "guarded S w"
  shows "guarded S' (effects (isActive S') don evs w)"
proof (cases S)
  case (SinglePool T)
  then show ?thesis using assms(3) by (auto simp: guarded_def)
next
  case (FailoverPools F)
  then obtain F' where F': "failover_step jobs F i = Some (F', evs)" "S' = FailoverPools F'"
    using assms(3) by auto
  have wf: "failover_wf F" "failover_ok F i"
    using assms(1,2) FailoverPools by (auto simp: strategy_ok_def failover_ok_def)
  show ?thesis
    unfolding guarded_def F'(2)
  proof (intro allI impI)
    fix G assume G: "FailoverPools F' = FailoverPools G"
      "ws_active (effects (isActive (FailoverPools F')) don evs w)"
    have "told (failover_isActive F) evs = failover_isActive F'" by (rule fo.reports [OF wf F'(1)])
    moreover have "\<forall>c j. ListenerJob c j \<in> set evs \<longrightarrow> failover_isActive F'"
      using fo.job_active [OF wf F'(1)] by blast
    moreover have "ws_active w \<longrightarrow> failover_isActive F"
      using assms(4) FailoverPools by (simp add: guarded_def)
    ultimately have "failover_isActive F'" using G(2) guard_effects [of "failover_isActive F" evs "failover_isActive F'" w don] by simp
    thus "failover_isActive G" using G(1) by simp
  qed
qed

definition net_inv :: "network \<Rightarrow> bool" where
  "net_inv N \<longleftrightarrow> strategy_wf (n_strategy N) \<and> workers_ok (n_workers N) \<and>
    fresh (do_active (n_donate N)) (n_jobs N) (n_strategy N) (n_workers N) \<and>
    guarded (n_strategy N) (n_workers N)"

lemma net_inv_parts:
  assumes "net_inv N"
  shows "strategy_wf (n_strategy N)" "workers_ok (n_workers N)"
    "fresh (do_active (n_donate N)) (n_jobs N) (n_strategy N) (n_workers N)"
    "guarded (n_strategy N) (n_workers N)"
  using assms by (simp_all add: net_inv_def)

lemma net_pool_inv:
  assumes inv: "net_inv N" and ok: "strategy_ok (n_strategy N) i" and r: "net_pool i N = Some N'"
    and i: "\<nexists>c. i = OnLoginSuccess c" "\<nexists>c job. i = OnJobReceived c job"
  shows "net_inv N'"
proof -
  obtain evs where s: "strategy_step (n_jobs N) (n_strategy N) i = Some (n_strategy N', evs)"
    "n_donate N' = n_donate N" "n_jobs N' = n_jobs N"
    "n_workers N' = effects (isActive (n_strategy N')) (do_active (n_donate N)) evs (n_workers N)"
    using net_pool_effect [OF r] by blast
  note i' = net_inv_parts [OF inv]
  show ?thesis
    unfolding net_inv_def s(2-4)
    by (intro conjI pools.step_wf [OF i'(1) ok s(1)] workers_ok_effects [OF i'(2)]
      fresh_step [OF i'(1) ok s(1) i'(3) i] guarded_step [OF i'(1) ok s(1) i'(4)])
qed

lemma net_job_inv:
  assumes inv: "net_inv N" and ok: "strategy_ok (n_strategy N) (OnJobReceived c job)"
    and r: "net_pool (OnJobReceived c job) (pool_job c job N) = Some N'"
  shows "net_inv N'"
proof -
  obtain evs where s: "strategy_step ((n_jobs N)(c := job)) (n_strategy N) (OnJobReceived c job) = Some (n_strategy N', evs)"
    "n_donate N' = n_donate N" "n_jobs N' = (n_jobs N)(c := job)"
    "n_workers N' = effects (isActive (n_strategy N')) (do_active (n_donate N)) evs (n_workers N)"
    using net_pool_effect [OF r] unfolding pool_job_def by auto
  note i' = net_inv_parts [OF inv]
  show ?thesis
    unfolding net_inv_def s(2-4)
    by (intro conjI pools.step_wf [OF i'(1) ok s(1)] workers_ok_effects [OF i'(2)]
      fresh_job [OF i'(1) ok s(1) i'(3)] guarded_step [OF i'(1) ok s(1) i'(4)])
qed

lemma net_login_inv:
  assumes inv: "net_inv N" and ok: "c \<in> strategy_clients (n_strategy N)"
    and r: "net_step (PoolLogin c job) N = Some N'"
  shows "net_inv N'"
proof -
  obtain M where M: "net_pool (OnLoginSuccess c) (pool_job c job N) = Some M"
    "net_pool (OnJobReceived c job) M = Some N'"
    using r by (auto split: Option.bind_splits)
  obtain evs where s: "strategy_step ((n_jobs N)(c := job)) (n_strategy N) (OnLoginSuccess c) = Some (n_strategy M, evs)"
    "n_donate M = n_donate N" "n_jobs M = (n_jobs N)(c := job)"
    "n_workers M = effects (isActive (n_strategy M)) (do_active (n_donate N)) evs (n_workers N)"
    using net_pool_effect [OF M(1)] unfolding pool_job_def by auto
  obtain evs2 where s2: "strategy_step ((n_jobs N)(c := job)) (n_strategy M) (OnJobReceived c job) = Some (n_strategy N', evs2)"
    "n_donate N' = n_donate N" "n_jobs N' = (n_jobs N)(c := job)"
    "n_workers N' = effects (isActive (n_strategy N')) (do_active (n_donate N)) evs2 (n_workers M)"
    using net_pool_effect [OF M(2)] unfolding s by blast
  note i' = net_inv_parts [OF inv]
  have ok1: "strategy_ok (n_strategy N) (OnLoginSuccess c)" using ok by (simp add: strategy_ok_def)
  have ok2: "strategy_ok (n_strategy M) (OnJobReceived c job)"
    using ok strategy_step_clients [OF s(1)] by (simp add: strategy_ok_def)
  have wf: "strategy_wf (n_strategy M)" by (rule pools.step_wf [OF i'(1) ok1 s(1)])
  show ?thesis
    unfolding net_inv_def s2(2-4) s(4)
    by (intro conjI pools.step_wf [OF wf ok2 s2(1)] workers_ok_effects i'(2)
      fresh_login [OF ok1 s(1) s2(1) i'(3)] guarded_step [OF wf ok2 s2(1) guarded_step [OF i'(1) ok1 s(1) i'(4)]])
qed

lemma pause_if_inactive_inv: "net_inv N \<Longrightarrow> net_inv (pause_if_inactive N)"
  by (cases "n_strategy N")
    (auto simp: net_inv_def pause_if_inactive_def fresh_def guarded_def operate_def workers_ok_def)

text \<open>Outside the donation, resuming makes the workers' job the newest one.\<close>

lemma resume_fresh:
  assumes "strategy_wf S" "strategy_step jobs S Resume = Some (S', evs)"
  shows "fresh False jobs S' (effects (isActive S') False evs w)"
  using assms
  by (cases S) (auto simp: single_step_def single_resume_def failover_step_def failover_resume_def fresh_def
      pool_at_def failover_isActive_def split: if_splits)

definition net_inv_donating :: "network \<Rightarrow> bool" where
  "net_inv_donating N \<longleftrightarrow> strategy_wf (n_strategy N) \<and> workers_ok (n_workers N) \<and>
    guarded (n_strategy N) (n_workers N)"

lemma net_resume_inv:
  assumes inv: "net_inv_donating N" "\<not> do_active (n_donate N)" and r: "net_pool Resume N = Some N'"
  shows "net_inv N' \<and> n_donate N' = n_donate N"
proof -
  obtain evs where s: "strategy_step (n_jobs N) (n_strategy N) Resume = Some (n_strategy N', evs)"
    "n_donate N' = n_donate N" "n_jobs N' = n_jobs N"
    "n_workers N' = effects (isActive (n_strategy N')) (do_active (n_donate N)) evs (n_workers N)"
    using net_pool_effect [OF r] by blast
  have i: "strategy_wf (n_strategy N)" "workers_ok (n_workers N)" "guarded (n_strategy N) (n_workers N)"
    using inv(1) by (simp_all add: net_inv_donating_def)
  have ok: "strategy_ok (n_strategy N) Resume" by (simp add: strategy_ok_def)
  have f: "fresh (do_active (n_donate N)) (n_jobs N) (n_strategy N')
      (effects (isActive (n_strategy N')) (do_active (n_donate N)) evs (n_workers N))"
    using resume_fresh [OF i(1) s(1), of "n_workers N"] inv(2) by simp
  show ?thesis
    unfolding net_inv_def s(2-4)
    by (intro conjI refl f pools.step_wf [OF i(1) ok s(1)] workers_ok_effects [OF i(2)]
        guarded_step [OF i(1) ok s(1) i(3)])
qed

lemma net_inv_calls: "net_inv N \<Longrightarrow> net_inv (N\<lparr>n_calls := es\<rparr>)"
  by (simp add: net_inv_def)

lemma suspend_inv:
  assumes inv: "net_inv N" and r: "each donate_call (snd (donate_suspend D)) (N\<lparr>n_donate := D\<lparr>do_active := False\<rparr>\<rparr>) = Some N'"
  shows "net_inv N'"
proof -
  let ?M = "N\<lparr>n_donate := D\<lparr>do_active := False\<rparr>, n_calls := n_calls N @ if_client D (ClientDisconnect (-1))\<rparr>"
  have "each donate_call (snd (donate_suspend D)) (N\<lparr>n_donate := D\<lparr>do_active := False\<rparr>\<rparr>) = do {
      N \<leftarrow> net_pool Resume ?M;
      let N = pause_if_inactive N;
      Some (N\<lparr>n_calls := n_calls N @ donate_idle\<rparr>)
    }"
    by (cases "net_pool Resume ?M")
      (auto simp: donate_suspend_def if_client_def donate_idle_def Let_def)
  then obtain M where M: "net_pool Resume ?M = Some M" "N' = (pause_if_inactive M)\<lparr>n_calls := n_calls (pause_if_inactive M) @ donate_idle\<rparr>"
    using r by (auto simp: Let_def split: Option.bind_splits)
  have "net_inv_donating ?M" using inv by (simp add: net_inv_def net_inv_donating_def)
  from net_resume_inv [OF this _ M(1)] have "net_inv M" by simp
  thus ?thesis unfolding M(2) by (intro net_inv_calls pause_if_inactive_inv)
qed

text \<open>Everything else the donation reports leaves the strategy and the workers alone.\<close>

lemma donate_call_same:
  assumes "donate_call e N = Some N'" "e \<noteq> ListenerPause" "\<forall>c j. e = ListenerJob c j \<longrightarrow> c = -1"
  shows "n_strategy N' = n_strategy N \<and> n_workers N' = n_workers N \<and> n_jobs N' = n_jobs N \<and>
    n_donate N' = n_donate N"
  using assms pool_call_effect [of e N N'] by (cases e) (auto simp: same_net_def)

lemma donate_calls_same:
  "each donate_call evs N = Some N' \<Longrightarrow> \<forall>e \<in> set evs. e \<noteq> ListenerPause \<and> (\<forall>c j. e = ListenerJob c j \<longrightarrow> c = -1) \<Longrightarrow>
    n_strategy N' = n_strategy N \<and> n_workers N' = n_workers N \<and> n_jobs N' = n_jobs N \<and>
    n_donate N' = n_donate N"
proof (induction evs arbitrary: N)
  case (Cons e evs)
  then obtain M where M: "donate_call e N = Some M" "each donate_call evs M = Some N'"
    by (auto split: Option.bind_splits)
  show ?case using donate_call_same [OF M(1)] Cons.IH [OF M(2)] Cons.prems(2) by auto
qed simp

lemma net_donate_same:
  assumes "net_donate i N = Some N'" "i \<noteq> OnTimer" "client_in {-1} i"
  shows "n_strategy N' = n_strategy N \<and> n_workers N' = n_workers N \<and> n_jobs N' = n_jobs N \<and>
    (do_active (n_donate N) \<longrightarrow> do_active (n_donate N'))"
proof -
  obtain D evs where d: "donate_step (n_donate N) i = Some (D, evs)"
    "each donate_call evs (N\<lparr>n_donate := D\<rparr>) = Some N'"
    using assms(1) by (auto simp: net_donate_def split: Option.bind_splits)
  have "\<forall>e \<in> set evs. e \<noteq> ListenerPause \<and> (\<forall>c j. e = ListenerJob c j \<longrightarrow> c = -1)"
    "do_active (n_donate N) \<longrightarrow> do_active D"
    using d(1) assms(2,3)
    by (cases i; auto simp: donate_step_def donate_stop_def donate_onLoginSuccess_def if_client_def split: if_splits)+
  from donate_calls_same [OF d(2) this(1)] this(2) show ?thesis by simp
qed

lemma net_donate_inv:
  assumes inv: "net_inv N" and r: "net_donate i N = Some N'" and i: "client_in {-1} i"
  shows "net_inv N'"
proof (cases "i = OnTimer")
  case False
  with net_donate_same [OF r False i] inv show ?thesis by (auto simp: net_inv_def fresh_def)
next
  case True
  obtain D evs where d: "donate_onTimer (n_donate N) = (D, evs)"
    "each donate_call evs (N\<lparr>n_donate := D\<rparr>) = Some N'"
    using r True by (auto simp: net_donate_def donate_step_def split: Option.bind_splits prod.splits)
  show ?thesis
  proof (cases "do_active (n_donate N)")
    case True
    then have "D = (n_donate N)\<lparr>do_active := False\<rparr>" "evs = snd (donate_suspend (n_donate N))"
      using d(1) by (auto simp: donate_onTimer_def donate_suspend_def)
    with suspend_inv [OF inv] d(2) show ?thesis by simp
  next
    case False
    then have D: "D = n_donate N" "\<forall>e \<in> set evs. e = ClientConnect (-1)"
      using d(1) by (auto simp: donate_onTimer_def if_client_def split: if_splits)
    then have "\<forall>e \<in> set evs. e \<noteq> ListenerPause \<and> (\<forall>c j. e = ListenerJob c j \<longrightarrow> c = -1)" by auto
    from donate_calls_same [OF d(2) this] D(1) inv show ?thesis by (simp add: net_inv_def)
  qed
qed

lemma donate_job_inv: "net_inv N \<Longrightarrow> net_inv (pool_job (-1) job N)"
  by (cases "n_strategy N") (auto simp: net_inv_def pool_job_def fresh_def failover_isActive_def)

lemma ws_active_switch [simp]: "ws_active (operate (SetEnabled b) w) = ws_active w"
  by (simp add: operate_def)

lemma net_step_inv:
  assumes inv: "net_inv N" and ok: "input_ok N i" and r: "net_step i N = Some N'"
  shows "net_inv N'"
proof (cases i)
  case Started
  then show ?thesis using net_pool_inv [OF inv, of Connect] r
    by (simp add: Network_connect_def strategy_ok_def)
next
  case Stopped
  then obtain M where M: "net_donate Stop N = Some M" "net_pool Stop M = Some N'"
    using r by (auto simp: Network_stop_def split: Option.bind_splits)
  show ?thesis using net_pool_inv [OF net_donate_inv [OF inv M(1)] _ M(2)] by (simp add: strategy_ok_def)
next
  case Ticked
  then obtain M where M: "net_pool (Tick (n_now N)) N = Some M" "net_donate (Tick (n_now N)) M = Some N'"
    using r by (auto simp: Network_tick_def split: Option.bind_splits)
  show ?thesis using net_donate_inv [OF net_pool_inv [OF inv _ M(1)] M(2)] by (simp add: strategy_ok_def)
next
  case (PoolLogin c job)
  then show ?thesis using net_login_inv [OF inv] r ok by simp
next
  case (PoolJob c job)
  then show ?thesis using net_job_inv [OF inv] r ok by (simp add: strategy_ok_def)
next
  case (PoolClosed c f)
  then show ?thesis using net_pool_inv [OF inv, of "OnClose c f" N'] r ok by (simp add: strategy_ok_def)
next
  case (PoolResult c res err)
  then show ?thesis using net_pool_inv [OF inv, of "OnResultAccepted c res err" N'] r ok by (simp add: strategy_ok_def)
next
  case (DonateLogin job)
  then obtain M where M: "net_donate (OnLoginSuccess (-1)) (pool_job (-1) job N) = Some M"
    "net_donate (OnJobReceived (-1) job) M = Some N'"
    using r by (auto split: Option.bind_splits)
  show ?thesis using net_donate_inv [OF net_donate_inv [OF donate_job_inv [OF inv] M(1)] M(2)] by simp
next
  case (DonateJob job)
  have "net_inv (pool_job (-1) job N)" by (rule donate_job_inv [OF inv])
  then show ?thesis using net_donate_inv [of "pool_job (-1) job N" "OnJobReceived (-1) job" N'] r DonateJob by simp
next
  case (DonateClosed f)
  then show ?thesis using net_donate_inv [OF inv, of "OnClose (-1) f" N'] r by simp
next
  case (DonateResult res err)
  then show ?thesis using net_donate_inv [OF inv, of "OnResultAccepted (-1) res err" N'] r by simp
next
  case DonateTimer
  then show ?thesis using net_donate_inv [OF inv, of OnTimer N'] r by simp
next
  case (Found res)
  then show ?thesis using net_donate_inv [OF inv, of "Submit res" N'] net_pool_inv [OF inv, of "Submit res" N'] r
    by (auto simp: Network_onJobResult_def strategy_ok_def split: if_splits)
next
  case (Switched b)
  then show ?thesis using r inv workers_ok_operate [of "SetEnabled b"]
    by (auto simp: net_inv_def fresh_def guarded_def)
qed

lemma net_initial_inv:
  assumes "length (o_pools self) < 2 ^ 63" "Network_make uninit self = Some N"
  shows "net_inv N"
proof -
  have p: "o_pools self \<noteq> []"
    using assms(2) by (auto simp: Network_make_def Let_def split: prod.splits if_splits)
  have "failover_wf (FailoverStrategy_make (o_pools self))" by (rule failover_make_wf [OF p assms(1)])
  moreover have "\<not> failover_isActive (FailoverStrategy_make (o_pools self))"
    by (simp add: failover_isActive_def FailoverStrategy_make_def)
  moreover have "workers_ok Workers_start" "\<not> ws_active Workers_start"
    by (simp_all add: workers_ok_def Workers_start_def)
  ultimately show ?thesis
    using assms(2) by (auto simp: Network_make_def Let_def net_inv_def fresh_def guarded_def
        SinglePoolStrategy_make_def split: prod.splits if_splits)
qed

lemma net_reachable_inv:
  assumes "net_reachable self N" "length (o_pools self) < 2 ^ 63"
  shows "net_inv N"
  using assms(1)
proof (induction rule: net_reachable.induct)
  case (initial uninit N)
  then show ?case using net_initial_inv assms(2) by blast
next
  case (step N i now N')
  have "net_inv (N\<lparr>n_now := now\<rparr>)" using step.IH by (simp add: net_inv_def)
  moreover have "input_ok (N\<lparr>n_now := now\<rparr>) i" using step.hyps(2) by (cases i) simp_all
  ultimately show ?case using step.hyps(3) by (rule net_step_inv)
qed

section \<open>During the donation\<close>

lemma effects_donating: "ws_job (effects act True evs w) = ws_job w"
proof (induction evs arbitrary: w)
  case (Cons e evs)
  have "ws_job (worker_effect act True e w) = ws_job w" by (cases e) simp_all
  then show ?case using Cons by simp
qed simp

lemma net_pool_donating:
  assumes "net_pool i N = Some N'" "do_active (n_donate N)"
  shows "ws_job (n_workers N') = ws_job (n_workers N) \<and> do_active (n_donate N')"
proof -
  obtain evs where "n_donate N' = n_donate N"
    "n_workers N' = effects (isActive (n_strategy N')) (do_active (n_donate N)) evs (n_workers N)"
    using net_pool_effect [OF assms(1)] by blast
  thus ?thesis using assms(2) effects_donating by simp
qed

lemma donating_step:
  assumes d: "do_active (n_donate N)" and i: "i \<noteq> DonateTimer" and r: "net_step i N = Some N'"
  shows "ws_job (n_workers N') = ws_job (n_workers N)"
proof -
  have pj: "do_active (n_donate (pool_job c j N))" "n_workers (pool_job c j N) = n_workers N" for c j
    using d by (simp_all add: pool_job_def)
  have don: "ws_job (n_workers M') = ws_job (n_workers M) \<and> do_active (n_donate M')"
    if "net_donate k M = Some M'" "k \<noteq> OnTimer" "client_in {-1} k" "do_active (n_donate M)" for k M M'
    using net_donate_same [OF that(1-3)] that(4) by simp
  show ?thesis
    using r i d net_pool_donating don pj
    by (cases i) (fastforce simp: Network_connect_def Network_stop_def Network_tick_def Network_onJobResult_def
        split: Option.bind_splits if_splits)+
qed

section \<open>Crashes and lost pauses\<close>

lemma client_url:
  assumes "Url_isValid u"
  shows "u_host (Client_setUrl Url_default u) = u_host u" "Url_user (Client_setUrl Url_default u) = Url_user u"
    "u_host u \<noteq> None"
proof -
  obtain h where h: "u_host u = Some h" using assms by (auto simp: Url_isValid_def)
  then obtain w where w: "Url_assign Url_default u = Some w"
    by (simp add: Url_assign_def Let_def)
  have e: "Client_setUrl Url_default u = w" using assms w by (simp add: Client_setUrl_def)
  show "u_host (Client_setUrl Url_default u) = u_host u" "u_host u \<noteq> None"
    using Url_assign_fields(1,2) [OF w] unfolding e by blast+
  show "Url_user (Client_setUrl Url_default u) = Url_user u"
    unfolding e using Url_assign_fields(9) [OF w]
    by (auto simp: Url_user_def Url_default_def split: option.splits)
qed

lemma each_disconnects:
  "each pool_call (map (\<lambda>i. ClientDisconnect (f i)) xs) N =
    Some (N\<lparr>n_calls := n_calls N @ map (\<lambda>i. ClientDisconnect (f i)) xs\<rparr>)"
  by (induction xs arbitrary: N) simp_all

lemma each_append: "each f (xs @ ys) s = Option.bind (each f xs s) (each f ys)"
  by (induction xs arbitrary: s) (auto split: Option.bind_split)

text \<open>A found share when the failover strategy has no active pool.\<close>

lemma found_inactive:
  "n_strategy N = FailoverPools F \<Longrightarrow> failover_wf F \<Longrightarrow> \<not> failover_isActive F \<Longrightarrow> jr_poolId r \<noteq> -1 \<Longrightarrow>
    net_step (Found r) N = None"
  using failover_step_None [of F "n_jobs N" "Submit r"] by (simp add: Network_onJobResult_def net_pool_def)

text \<open>The first login of the first pool.\<close>

lemma first_login:
  assumes "Network_make t self = Some N" "\<forall>p \<in> set (o_pools self). Url_isValid p"
    "length (o_pools self) < 2 ^ 63"
  defines "user \<equiv> Url_user (hd (o_pools self))"
  shows "length user < 4 \<Longrightarrow> net_step (PoolLogin 0 job) N = None"
    and "4 \<le> length user \<Longrightarrow> \<exists>M. net_step (PoolLogin 0 job) N = Some M \<and> isActive (n_strategy M) \<and>
      active_client (n_strategy M) = 0 \<and> n_workers M = operate (SetJob job) Workers_start \<and>
      \<not> do_active (n_donate M)"
proof -
  obtain p ps where p: "o_pools self = p # ps"
    using assms(1) by (cases "o_pools self") (auto simp: Network_make_def Let_def split: prod.splits)
  have valid: "Url_isValid p" using assms(2) p by simp
  obtain h where h: "u_host p = Some h" using client_url(3) [OF valid] by auto
  have urls: "n_urls N 0 = Client_setUrl Url_default p" "n_workers N = Workers_start"
    "\<not> do_active (n_donate N)"
    using assms(1) p by (auto simp: Network_make_def Let_def DonateStrategy_make_def split: prod.splits)
  have host: "u_host (n_urls N 0) = Some h" "Url_user (n_urls N 0) = user"
    using client_url [OF valid] h p unfolding urls user_def by simp_all
  have active: "Network_onActive 0 M = (if length user < 4 then None
      else map_option (\<lambda>st. M\<lparr>n_state := st\<rparr>) (setUserMask user (setPool (n_now M) h (u_port (n_urls M 0)) (n_state M))))"
    if "n_urls M = n_urls N" for M
    using that host by (auto simp: Network_onActive_def Let_def setUserMask_def)
  obtain S1 evs where s1: "strategy_step ((n_jobs N)(0 := job)) (n_strategy N) (OnLoginSuccess 0) = Some (S1, evs @ [ListenerActive 0])"
    "\<exists>xs. evs = map (\<lambda>i. ClientDisconnect (int i)) xs" "isActive S1" "active_client S1 = 0"
    "strategy_step ((n_jobs N)(0 := job)) S1 (OnJobReceived 0 job) = Some (S1, [ListenerJob 0 job])"
  proof (cases "1 < length (o_pools self)")
    case True
    then have n: "n_strategy N = FailoverPools (FailoverStrategy_make (o_pools self))"
      using assms(1) by (auto simp: Network_make_def Let_def split: prod.splits if_splits)
    show ?thesis
      by (rule that [of "FailoverPools ((FailoverStrategy_make (o_pools self))\<lparr>fo_active := 0, fo_index := 0\<rparr>)"
          "map (\<lambda>i. ClientDisconnect (int i)) [1..<length (o_pools self)]"])
        (auto simp: n failover_step_def failover_onLoginSuccess_def FailoverStrategy_make_def Let_def
          failover_isActive_def failover_onJobReceived_def)
  next
    case False
    then have n: "n_strategy N = SinglePool SinglePoolStrategy_make"
      using assms(1) by (auto simp: Network_make_def Let_def split: prod.splits if_splits)
    show ?thesis
      by (rule that [of "SinglePool \<lparr>si_active = True\<rparr>" "[]"])
        (auto simp: n single_step_def single_onLoginSuccess_def SinglePoolStrategy_make_def)
  qed
  from s1(2) obtain xs where xs: "evs = map (\<lambda>i. ClientDisconnect (int i)) xs" by blast
  let ?M = "(pool_job 0 job N)\<lparr>n_strategy := S1, n_calls := n_calls N @ evs\<rparr>"
  have l: "net_pool (OnLoginSuccess 0) (pool_job 0 job N) = Network_onActive 0 ?M"
    using s1(1) by (simp add: net_pool_def pool_job_def each_append xs each_disconnects)
      (cases "Network_onActive 0 ?M", simp_all add: pool_job_def xs)
  have M: "n_urls ?M = n_urls N" by (simp add: pool_job_def)
  show "length user < 4 \<Longrightarrow> net_step (PoolLogin 0 job) N = None"
    using l active [OF M] by simp
  assume "4 \<le> length user"
  then obtain st where st: "net_pool (OnLoginSuccess 0) (pool_job 0 job N) = Some (?M\<lparr>n_state := st\<rparr>)"
    using l active [OF M] by (auto simp: setUserMask_def Let_def)
  have "net_step (PoolLogin 0 job) N = Some (Network_onJob 0 job (?M\<lparr>n_state := st, n_strategy := S1\<rparr>))"
    using st s1(5) by (simp add: net_pool_def pool_job_def)
  thus "\<exists>M. net_step (PoolLogin 0 job) N = Some M \<and> isActive (n_strategy M) \<and>
      active_client (n_strategy M) = 0 \<and> n_workers M = operate (SetJob job) Workers_start \<and>
      \<not> do_active (n_donate M)"
    using s1(3,4) urls(2,3) by (simp add: Network_onJob_def Network_setJob_def pool_job_def)
qed

lemma reachable_step:
  assumes "net_reachable self N" "input_ok N i" "net_step i N = Some N'"
  shows "net_reachable self N'"
proof -
  have "net_step i (N\<lparr>n_now := n_now N\<rparr>) = Some N'" using assms(3) by simp
  from net_reachable.step [OF assms(1,2) this] show ?thesis .
qed

lemma crash_reachable:
  assumes "Network_make t self = Some N" "\<forall>p \<in> set (o_pools self). Url_isValid p"
    "1 < length (o_pools self)" "length (o_pools self) < 2 ^ 63" "4 \<le> length (Url_user (hd (o_pools self)))"
  shows "\<exists>M M'. net_reachable self M \<and> ws_paused (n_workers M) = 0 \<and>
    net_step (PoolClosed 0 1) M = Some M' \<and> (\<forall>r. jr_poolId r \<noteq> -1 \<longrightarrow> net_step (Found r) M' = None)"
proof -
  obtain M where M: "net_step (PoolLogin 0 Job_default) N = Some M" "isActive (n_strategy M)"
    "active_client (n_strategy M) = 0" "n_workers M = operate (SetJob Job_default) Workers_start"
    using first_login(2) [OF assms(1,2,4,5)] by blast
  have n: "n_strategy N = FailoverPools (FailoverStrategy_make (o_pools self))"
    using assms(1,3) by (auto simp: Network_make_def Let_def split: prod.splits if_splits)
  have ok: "input_ok N (PoolLogin 0 Job_default)" using n assms(3) by (auto simp: FailoverStrategy_make_def)
  have reach: "net_reachable self M"
    by (rule reachable_step [OF net_reachable.initial [OF assms(1)] ok M(1)])
  obtain F where F: "n_strategy M = FailoverPools F"
  proof (cases "n_strategy M")
    case (SinglePool S)
    obtain L where L: "net_pool (OnLoginSuccess 0) (pool_job 0 Job_default N) = Some L"
      "net_pool (OnJobReceived 0 Job_default) L = Some M"
      using M(1) by (auto split: Option.bind_splits)
    have kind: "strategy_step jobs (FailoverPools G) i = Some (S, evs) \<Longrightarrow> \<exists>H. S = FailoverPools H" for jobs G i S evs
      by auto
    have "n_strategy (pool_job 0 Job_default N) = FailoverPools (FailoverStrategy_make (o_pools self))"
      using n by (simp add: pool_job_def)
    with net_pool_effect [OF L(1)] obtain G where "n_strategy L = FailoverPools G" using kind by metis
    with net_pool_effect [OF L(2)] kind obtain H where "n_strategy M = FailoverPools H" by metis
    thus ?thesis using that by blast
  qed (rule that)
  have inv: "net_inv M" by (rule net_reachable_inv [OF reach assms(4)])
  have wf: "failover_wf F" "fo_active F = 0" "fo_index F = 0"
    using inv F M(3) by (auto simp: net_inv_def failover_wf_def)
  have c: "failover_step (n_jobs M) F (OnClose 0 1) = Some (F\<lparr>fo_active := -1\<rparr>, [ListenerPause])"
    using wf by (simp add: failover_step_def failover_onClose_eq Let_def retries_def)
  define M' where "M' = pause_if_inactive (M\<lparr>n_strategy := FailoverPools (F\<lparr>fo_active := -1\<rparr>)\<rparr>)"
  have s: "net_step (PoolClosed 0 1) M = Some M'"
    using c F by (simp add: net_pool_def M'_def)
  have F': "n_strategy M' = FailoverPools (F\<lparr>fo_active := -1\<rparr>)"
    by (simp add: M'_def pause_if_inactive_def)
  have "failover_wf (F\<lparr>fo_active := -1\<rparr>)" "\<not> failover_isActive (F\<lparr>fo_active := -1\<rparr>)"
    using wf by (auto simp: failover_wf_def failover_isActive_def)
  hence "\<forall>r. jr_poolId r \<noteq> -1 \<longrightarrow> net_step (Found r) M' = None"
    using found_inactive [OF F'] by blast
  moreover have "ws_paused (n_workers M) = 0" by (simp add: M(4) operate_def Workers_start_def)
  ultimately show ?thesis using reach s by blast
qed

lemma premature_job:
  assumes "Network_make t self = Some N" "length (o_pools self) = 1" "net_step (PoolJob 0 job) N = Some M"
    "net_step (PoolClosed 0 failures) M = Some M'"
  shows "\<not> isActive (n_strategy M') \<and> ws_paused (n_workers M') = 0 \<and> ws_job (n_workers M') = job"
proof -
  have n: "n_strategy N = SinglePool SinglePoolStrategy_make" "n_workers N = Workers_start"
    "\<not> do_active (n_donate N)"
    using assms(1,2) by (auto simp: Network_make_def Let_def DonateStrategy_make_def split: prod.splits if_splits)
  have m: "n_strategy M = SinglePool SinglePoolStrategy_make" "n_workers M = operate (SetJob job) Workers_start"
    using assms(3) n by (auto simp: net_pool_def single_step_def pool_job_def Network_onJob_def Network_setJob_def)
  have "M' = M"
    using assms(4) m(1) by (auto simp: net_pool_def single_step_def single_onClose_def SinglePoolStrategy_make_def)
  thus ?thesis using m by (simp add: SinglePoolStrategy_make_def operate_def Workers_start_def)
qed

section \<open>Properties\<close>

definition two_pools :: options where
  "two_pools = Options_initial\<lparr>o_pools := [default_pool, default_pool\<lparr>u_port := 80\<rparr>]\<rparr>"

definition one_pool :: options where
  "one_pool = Options_initial\<lparr>o_pools := [default_pool]\<rparr>"

definition two_pools_network :: network where
  "two_pools_network = the (Network_make 0 two_pools)"

definition one_pool_network :: network where
  "one_pool_network = the (Network_make 0 one_pool)"

lemma two_pools_network: "Network_make 0 two_pools = Some two_pools_network"
  "Network_make 0 one_pool = Some one_pool_network"
  by (simp_all add: two_pools_network_def one_pool_network_def Network_make_def two_pools_def one_pool_def
      Let_def split: prod.split)

text \<open>
  C6. Whatever the pools, the donation, the timers, the workers and the user do, in whatever order:
  outside the donation the workers have the newest job of the active pool; they mine exactly if
  they have been given a job since the last pause and the user has not switched them off; and with
  the failover strategy they are paused whenever no pool is active.
\<close>
theorem network_invariant:
  assumes "net_reachable self N" "length (o_pools self) < 2 ^ 63"
  shows "(\<not> do_active (n_donate N) \<and> isActive (n_strategy N) \<longrightarrow>
      ws_job (n_workers N) = n_jobs N (active_client (n_strategy N))) \<and>
    ws_paused (n_workers N) = (if ws_active (n_workers N) \<and> ws_enabled (n_workers N) then 0 else 1) \<and>
    (\<forall>F. n_strategy N = FailoverPools F \<longrightarrow> \<not> failover_isActive F \<longrightarrow> ws_paused (n_workers N) = 1)"
  using net_reachable_inv [OF assms] by (auto simp: net_inv_def fresh_def workers_ok_def guarded_def)

theorem network_invariant_witness: "ws_paused (n_workers two_pools_network) = 1"
proof -
  have "net_reachable two_pools two_pools_network" by (rule net_reachable.initial [OF two_pools_network(1)])
  moreover have "\<exists>F. n_strategy two_pools_network = FailoverPools F \<and> \<not> failover_isActive F"
    by (simp add: two_pools_network_def Network_make_def two_pools_def Let_def FailoverStrategy_make_def
        failover_isActive_def split: prod.split)
  ultimately show ?thesis using network_invariant [of two_pools two_pools_network] by (auto simp: two_pools_def)
qed

text \<open>
  C31. While the donation is active, nothing but the end of the donation changes the job the workers
  have: the pools' jobs are refused because the donation is active, and the donation's because they
  are the donation's. For these two minutes the workers go on with the job they had, which the pool
  may have replaced long since.
\<close>
theorem donation_freezes_job:
  assumes "do_active (n_donate N)" "i \<noteq> DonateTimer" "net_step i N = Some N'"
  shows "ws_job (n_workers N') = ws_job (n_workers N)"
  using assms by (rule donating_step)

theorem donation_freezes_job_witness:
  "\<exists>N'. net_step (PoolJob 0 (Job_default\<lparr>j_target := 5\<rparr>))
      (one_pool_network\<lparr>n_donate := \<lparr>do_active = True, do_client = True\<rparr>\<rparr>) = Some N' \<and>
    ws_job (n_workers N') = Job_default"
proof -
  let ?N = "one_pool_network\<lparr>n_donate := \<lparr>do_active = True, do_client = True\<rparr>\<rparr>"
  have s: "n_strategy ?N = SinglePool SinglePoolStrategy_make" "ws_job (n_workers ?N) = Job_default"
    by (simp_all add: one_pool_network_def Network_make_def one_pool_def Let_def Workers_start_def split: prod.split)
  obtain N' where n: "net_step (PoolJob 0 (Job_default\<lparr>j_target := 5\<rparr>)) ?N = Some N'"
    using s(1) by (simp add: net_pool_def pool_job_def single_step_def)
  moreover have "ws_job (n_workers N') = Job_default"
    using donation_freezes_job [OF _ _ n] s(2) by simp
  ultimately show ?thesis by blast
qed

text \<open>
  C33. A share that is found when no pool is active crashes the miner: with several pools, after the
  first one has logged in and the workers mine, a lost connection leaves no active pool, and every
  share that comes in then reads the pool list at index -1. Workers are paused asynchronously and
  results are checked in another thread, so that such shares come.
\<close>
theorem share_after_loss_crashes:
  assumes "Network_make t self = Some N" "\<forall>p \<in> set (o_pools self). Url_isValid p"
    "1 < length (o_pools self)" "length (o_pools self) < 2 ^ 63" "4 \<le> length (Url_user (hd (o_pools self)))"
  shows "\<exists>M M'. net_reachable self M \<and> ws_paused (n_workers M) = 0 \<and>
    net_step (PoolClosed 0 1) M = Some M' \<and> (\<forall>r. jr_poolId r \<noteq> -1 \<longrightarrow> net_step (Found r) M' = None)"
  using assms by (rule crash_reachable)

theorem share_after_loss_crashes_witness:
  "\<exists>M M'. net_reachable two_pools M \<and> net_step (PoolClosed 0 1) M = Some M' \<and>
    net_step (Found (JobResult_default [])) M' = None"
proof -
  have "\<forall>p \<in> set (o_pools two_pools). Url_isValid p" "1 < length (o_pools two_pools)"
    "length (o_pools two_pools) < 2 ^ 63" "4 \<le> length (Url_user (hd (o_pools two_pools)))"
    by (simp_all add: two_pools_def default_pool_def Url_make_def Url_isValid_def Url_user_def)
  from share_after_loss_crashes [OF two_pools_network(1) this]
  obtain M M' where "net_reachable two_pools M" "net_step (PoolClosed 0 1) M = Some M'"
    "\<forall>r. jr_poolId r \<noteq> -1 \<longrightarrow> net_step (Found r) M' = None" by blast
  moreover have "jr_poolId (JobResult_default []) \<noteq> -1" by (simp add: JobResult_default_def)
  ultimately show ?thesis by blast
qed

text \<open>
  With one pool, a job that arrives before the login is answered is mined at once, and a
  connection that is then lost pauses nothing, since the strategy has never been active: the
  workers go on with a job no pool is waiting for.
\<close>
theorem job_before_login_never_paused:
  assumes "Network_make t self = Some N" "length (o_pools self) = 1" "net_step (PoolJob 0 job) N = Some M"
    "net_step (PoolClosed 0 failures) M = Some M'"
  shows "\<not> isActive (n_strategy M') \<and> ws_paused (n_workers M') = 0 \<and> ws_job (n_workers M') = job"
  using assms by (rule premature_job)

theorem job_before_login_never_paused_witness:
  "\<exists>M M'. net_step (PoolJob 0 Job_default) one_pool_network = Some M \<and>
    net_step (PoolClosed 0 1) M = Some M' \<and> ws_paused (n_workers M') = 0"
proof -
  have s: "n_strategy one_pool_network = SinglePool SinglePoolStrategy_make"
    by (simp add: one_pool_network_def Network_make_def one_pool_def Let_def split: prod.split)
  obtain M where M: "net_step (PoolJob 0 Job_default) one_pool_network = Some M"
    "n_strategy M = SinglePool SinglePoolStrategy_make"
    using s by (simp add: net_pool_def pool_job_def single_step_def Network_onJob_def Network_setJob_def)
  obtain M' where M': "net_step (PoolClosed 0 1) M = Some M'"
    using M(2) by (simp add: net_pool_def single_step_def single_onClose_def SinglePoolStrategy_make_def)
  have "length (o_pools one_pool) = 1" by (simp add: one_pool_def)
  from job_before_login_never_paused [OF two_pools_network(2) this M(1) M'] M(1) M' show ?thesis by blast
qed

text \<open>
  C32. A pool whose user name has fewer than four characters, such as the default one, ends the
  miner when it accepts the login; with a longer name the login makes the pool the active one and
  gives its job to the workers.
\<close>
theorem login_needs_long_user:
  assumes "Network_make t self = Some N" "\<forall>p \<in> set (o_pools self). Url_isValid p"
    "length (o_pools self) < 2 ^ 63"
  shows "(length (Url_user (hd (o_pools self))) < 4 \<longrightarrow> net_step (PoolLogin 0 job) N = None) \<and>
    (4 \<le> length (Url_user (hd (o_pools self))) \<longrightarrow>
      (\<exists>M. net_step (PoolLogin 0 job) N = Some M \<and> isActive (n_strategy M) \<and>
        n_workers M = operate (SetJob job) Workers_start))"
  using first_login [OF assms] by blast

theorem login_needs_long_user_witness:
  "net_step (PoolLogin 0 Job_default)
    (the (Network_make 0 (Options_initial\<lparr>o_pools := [default_pool\<lparr>u_user := None\<rparr>]\<rparr>))) = None"
proof -
  let ?o = "Options_initial\<lparr>o_pools := [default_pool\<lparr>u_user := None\<rparr>]\<rparr>"
  have "Network_make 0 ?o = Some (the (Network_make 0 ?o))"
    by (simp add: Network_make_def Let_def split: prod.split)
  moreover have "\<forall>p \<in> set (o_pools ?o). Url_isValid p" "length (o_pools ?o) < 2 ^ 63"
    "length (Url_user (hd (o_pools ?o))) < 4"
    by (simp_all add: default_pool_def Url_make_def Url_isValid_def Url_user_def kDefaultUser_def)
  ultimately show ?thesis using login_needs_long_user [of 0 ?o] by blast
qed

end
