(* ===== verification/Hashrate.thy ===== *)
theory Hashrate
  imports C_Strings
begin

text \<open>
  The hash rate meter: \<open>src/src/workers/Hashrate.h\<close> and \<open>src/src/workers/Hashrate.cpp\<close>. Each
  thread has a ring of samples, a hash count and the time at which it was read. The clock is an
  argument; floating point numbers are a type parameter with the operations the code uses. An
  access outside an array is \<open>None\<close>; what is printed is left out.
\<close>

unbundle bit_operations_syntax

section \<open>State\<close>

definition kBucketSize :: nat where "kBucketSize = 4096"
definition kBucketMask :: u64 where "kBucketMask = 4095"

text \<open>
  \<open>rate\<close> is the quotient of the difference of two counts and the difference of two times in
  seconds.
\<close>

record 'f float_ops =
  f_zero :: 'f
  f_add :: "'f \<Rightarrow> 'f \<Rightarrow> 'f"
  f_less :: "'f \<Rightarrow> 'f \<Rightarrow> bool"
  f_isnormal :: "'f \<Rightarrow> bool"
  f_rate :: "u64 \<Rightarrow> u64 \<Rightarrow> u64 \<Rightarrow> u64 \<Rightarrow> 'f"

record 'f hashrate =
  hr_highest :: 'f
  hr_threads :: nat
  hr_top :: "u32 list"
  hr_counts :: "u64 list list"
  hr_timestamps :: "u64 list list"

text \<open>
  The constructor. The arrays are not initialised when they are allocated, \<open>garbage\<close> is what they
  hold; the loop clears those of thread 0 once for every thread.
\<close>

fun init_loop :: "nat list \<Rightarrow> 'f hashrate \<Rightarrow> 'f hashrate option" where
  "init_loop [] H = Some H"
| "init_loop (i # is) H = do {
     tp \<leftarrow> put_at (hr_top H) i 0;
     c0 \<leftarrow> get_at (hr_counts H) 0;
     c0 \<leftarrow> memset c0 0 0 kBucketSize;
     counts \<leftarrow> put_at (hr_counts H) 0 c0;
     t0 \<leftarrow> get_at (hr_timestamps H) 0;
     t0 \<leftarrow> memset t0 0 0 kBucketSize;
     timestamps \<leftarrow> put_at (hr_timestamps H) 0 t0;
     init_loop is (H\<lparr>hr_top := tp, hr_counts := counts, hr_timestamps := timestamps\<rparr>)
   }"

definition Hashrate_make ::
  "'f float_ops \<Rightarrow> (nat \<Rightarrow> u32) \<Rightarrow> (nat \<Rightarrow> u64 list) \<Rightarrow> (nat \<Rightarrow> u64 list) \<Rightarrow> nat \<Rightarrow> 'f hashrate option" where
  "Hashrate_make fl gtop gcounts gtimestamps threads =
    init_loop [0..<threads] \<lparr>hr_highest = f_zero fl, hr_threads = threads, hr_top = map gtop [0..<threads],
      hr_counts = map gcounts [0..<threads], hr_timestamps = map gtimestamps [0..<threads]\<rparr>"

section \<open>Operations\<close>

definition Hashrate_add :: "nat \<Rightarrow> u64 \<Rightarrow> u64 \<Rightarrow> 'f hashrate \<Rightarrow> 'f hashrate option" where
  "Hashrate_add threadId count timestamp H = do {
     tp \<leftarrow> get_at (hr_top H) threadId;
     cs \<leftarrow> get_at (hr_counts H) threadId;
     cs \<leftarrow> put_at cs (unat tp) count;
     ts \<leftarrow> get_at (hr_timestamps H) threadId;
     ts \<leftarrow> put_at ts (unat tp) timestamp;
     Some (H\<lparr>hr_counts := (hr_counts H)[threadId := cs], hr_timestamps := (hr_timestamps H)[threadId := ts],
             hr_top := (hr_top H)[threadId := ucast ((ucast tp + 1) AND kBucketMask)]\<rparr>)
   }"

text \<open>
  The loop of \<open>calc\<close> over the samples, the newest first: whether an older one than \<open>ms\<close> was met,
  and the earliest and the latest stamp and count.
\<close>

type_synonym window = "u64 \<times> u64 \<times> u64 \<times> u64"

definition ring_index :: "u32 \<Rightarrow> nat \<Rightarrow> nat" where
  "ring_index tp i = unat ((ucast tp - of_nat i :: u64) AND kBucketMask)"

fun calc_loop ::
  "u64 list \<Rightarrow> u64 list \<Rightarrow> u32 \<Rightarrow> u64 \<Rightarrow> u64 \<Rightarrow> nat list \<Rightarrow> window \<Rightarrow> (bool \<times> window) option" where
  "calc_loop cs ts tp now ms [] w = Some (False, w)"
| "calc_loop cs ts tp now ms (i # is) (earliestStamp, earliestHashCount, lastestStamp, lastestHashCnt) = do {
     let idx = ring_index tp i;
     t \<leftarrow> get_at ts idx;
     c \<leftarrow> get_at cs idx;
     if t = 0 then Some (False, earliestStamp, earliestHashCount, lastestStamp, lastestHashCnt)
     else
       let (lastestStamp, lastestHashCnt) = (if lastestStamp = 0 then (t, c) else (lastestStamp, lastestHashCnt))
       in if now - t > ms then Some (True, earliestStamp, earliestHashCount, lastestStamp, lastestHashCnt)
          else calc_loop cs ts tp now ms is (t, c, lastestStamp, lastestHashCnt)
   }"

text \<open>\<open>calc\<close> of a thread: no value stands for \<open>nan\<close>.\<close>

definition calc_thread :: "'f float_ops \<Rightarrow> u64 \<Rightarrow> nat \<Rightarrow> u64 \<Rightarrow> 'f hashrate \<Rightarrow> 'f option option" where
  "calc_thread fl now threadId ms H = do {
     tp \<leftarrow> get_at (hr_top H) threadId;
     cs \<leftarrow> get_at (hr_counts H) threadId;
     ts \<leftarrow> get_at (hr_timestamps H) threadId;
     (full, es, ec, ls, lc) \<leftarrow> calc_loop cs ts tp now ms [1..<kBucketSize] (0, 0, 0, 0);
     Some (if \<not> full \<or> es = 0 \<or> ls = 0 then None
           else if ls - es = 0 then None
           else Some (f_rate fl lc ec ls es))
   }"

text \<open>\<open>now i\<close> is what the clock shows when the rate of thread \<open>i\<close> is taken.\<close>

fun calc_sum :: "'f float_ops \<Rightarrow> (nat \<Rightarrow> u64) \<Rightarrow> u64 \<Rightarrow> 'f hashrate \<Rightarrow> nat list \<Rightarrow> 'f \<Rightarrow> 'f option" where
  "calc_sum fl now ms H [] result = Some result"
| "calc_sum fl now ms H (i # is) result = do {
     data \<leftarrow> calc_thread fl (now i) i ms H;
     calc_sum fl now ms H is
       (case data of Some d \<Rightarrow> if f_isnormal fl d then f_add fl result d else result | None \<Rightarrow> result)
   }"

definition Hashrate_calc :: "'f float_ops \<Rightarrow> (nat \<Rightarrow> u64) \<Rightarrow> u64 \<Rightarrow> 'f hashrate \<Rightarrow> 'f option" where
  "Hashrate_calc fl now ms H = calc_sum fl now ms H [0..<hr_threads H] (f_zero fl)"

definition updateHighest :: "'f float_ops \<Rightarrow> (nat \<Rightarrow> u64) \<Rightarrow> 'f hashrate \<Rightarrow> 'f hashrate option" where
  "updateHighest fl now H = do {
     highest \<leftarrow> Hashrate_calc fl now 10000 H;
     Some (if f_isnormal fl highest \<and> f_less fl (hr_highest H) highest then H\<lparr>hr_highest := highest\<rparr> else H)
   }"
section \<open>The ring as a list of samples\<close>

type_synonym sample = "u64 \<times> u64"

text \<open>
  The ring of a thread stands for a list of samples, count and time, the newest first: going back
  \<open>i\<close> places from the top leads to sample \<open>i - 1\<close>, and to a zero time after the last one.
\<close>

definition stamp_at :: "sample list \<Rightarrow> nat \<Rightarrow> u64" where
  "stamp_at xs i = (if i < length xs then snd (xs ! i) else 0)"

definition ring :: "u64 list \<Rightarrow> u64 list \<Rightarrow> u32 \<Rightarrow> sample list \<Rightarrow> bool" where
  "ring cs ts tp xs \<longleftrightarrow> length cs = 4096 \<and> length ts = 4096 \<and> unat tp < 4096 \<and>
    (\<forall>i. 1 \<le> i \<and> i < 4096 \<longrightarrow> ts ! ring_index tp i = stamp_at xs (i - 1) \<and>
      (i - 1 < length xs \<longrightarrow> cs ! ring_index tp i = fst (xs ! (i - 1))))"

lemma ring_index_eq:
  assumes "unat tp < 4096" "i < 4096"
  shows "ring_index tp i = (unat tp + 4096 - i) mod 4096"
proof -
  have m: "(kBucketMask :: u64) = mask 12" by (simp add: kBucketMask_def mask_eq_exp_minus_1)
  have u: "unat (ucast tp :: u64) = unat tp"
    using assms(1) by (simp add: unsigned_ucast_eq take_bit_nat_eq_self_iff)
  let ?n = "unat tp + 4096 - i"
  define k :: nat where "k = 2 ^ 52 - 1"
  have k: "(4096 * of_nat k :: u64) = - 4096" by (simp add: k_def)
  have "of_nat (?n + 4096 * k) = (of_nat ?n - 4096 :: u64)" using k by simp
  also have "\<dots> = of_nat (unat tp) - of_nat i" using assms(2) by (simp add: of_nat_diff)
  also have "of_nat (unat tp) = (ucast tp :: u64)" by (simp add: u [symmetric])
  finally have z: "(ucast tp - of_nat i :: u64) = of_nat (?n + 4096 * k)" by simp
  have "ring_index tp i = take_bit 12 (?n + 4096 * k)"
    unfolding ring_index_def z m take_bit_eq_mask [symmetric]
    by (simp only: unsigned_take_bit_eq unsigned_of_nat) simp
  also have "\<dots> = ?n mod 4096" by (simp add: take_bit_eq_mod)
  finally show ?thesis .
qed

lemma next_index:
  assumes "unat tp < 4096"
  shows "unat (ucast ((ucast tp + 1 :: u64) AND kBucketMask) :: u32) = (unat tp + 1) mod 4096"
proof -
  have m: "(kBucketMask :: u64) = mask 12" by (simp add: kBucketMask_def mask_eq_exp_minus_1)
  have u: "unat (ucast tp :: u64) = unat tp"
    using assms by (simp add: unsigned_ucast_eq take_bit_nat_eq_self_iff)
  have z: "(ucast tp + 1 :: u64) = of_nat (unat tp + 1)" by (simp add: u [symmetric])
  have "unat ((ucast tp + 1 :: u64) AND kBucketMask) = take_bit 12 (unat tp + 1)"
    unfolding m take_bit_eq_mask [symmetric] z by (simp only: unsigned_take_bit_eq unsigned_of_nat) simp
  moreover have "take_bit 12 (unat tp + 1) < 2 ^ 12" by (rule take_bit_nat_less_exp)
  ultimately show ?thesis
    by (simp add: unsigned_ucast_eq take_bit_nat_eq_self take_bit_eq_mod)
qed

lemma ring_shift:
  fixes n j :: nat
  assumes "n < 4096" "j < 4096"
  shows "((n + 1) mod 4096 + 4096 - (j + 1)) mod 4096 = (n + 4096 - j) mod 4096"
    "0 < j \<Longrightarrow> (n + 4096 - j) mod 4096 \<noteq> n" "(n + 4096 - 0) mod 4096 = n"
proof -
  show "((n + 1) mod 4096 + 4096 - (j + 1)) mod 4096 = (n + 4096 - j) mod 4096"
  proof (cases "n + 1 = 4096")
    case False
    then have "(n + 1) mod 4096 = n + 1" using assms(1) by simp
    then show ?thesis using assms(2) by (simp add: add.commute)
  next
    case True
    then have n: "n = 4095" by simp
    have "(8191 - j) mod 4096 = (4095 - j + 4096) mod 4096" using assms(2) by simp
    also have "\<dots> = (4095 - j) mod 4096" by simp
    finally show ?thesis unfolding n by simp
  qed
  show "0 < j \<Longrightarrow> (n + 4096 - j) mod 4096 \<noteq> n"
    by (cases "j \<le> n") (use assms in \<open>auto simp: le_mod_geq\<close>)
  show "(n + 4096 - 0) mod 4096 = n" using assms(1) by simp
qed

lemma ring_add:
  assumes r: "ring cs ts tp xs"
  shows "ring (cs[unat tp := c]) (ts[unat tp := t]) (ucast ((ucast tp + 1) AND kBucketMask)) ((c, t) # xs)"
proof -
  let ?tp = "ucast ((ucast tp + 1 :: u64) AND kBucketMask) :: u32"
  have l: "length cs = 4096" "length ts = 4096" "unat tp < 4096" using r by (auto simp: ring_def)
  have tp: "unat ?tp = (unat tp + 1) mod 4096" by (rule next_index [OF l(3)])
  have tp_less: "unat ?tp < 4096" unfolding tp by simp
  have "ts[unat tp := t] ! ring_index ?tp i = stamp_at ((c, t) # xs) (i - 1) \<and>
      (i - 1 < length ((c, t) # xs) \<longrightarrow> cs[unat tp := c] ! ring_index ?tp i = fst (((c, t) # xs) ! (i - 1)))"
    if i: "1 \<le> i" "i < 4096" for i
  proof -
    obtain j where j: "i = j + 1" "j < 4096" using i by (cases i) auto
    have idx: "ring_index ?tp i = (unat tp + 4096 - j) mod 4096"
      using ring_index_eq [OF tp_less i(2)] ring_shift(1) [OF l(3) j(2)] unfolding tp j(1) by (rule trans)
    show ?thesis
    proof (cases "j = 0")
      case True
      then show ?thesis using idx l ring_shift(3) [OF l(3), of 0] j(1) by (simp add: stamp_at_def)
    next
      case False
      then have n: "ring_index ?tp i = ring_index tp j" "ring_index tp j \<noteq> unat tp"
        using idx ring_index_eq [OF l(3) j(2)] ring_shift(2) [OF l(3) j(2)] by simp_all
      have "1 \<le> j \<and> j < 4096" using False j(2) by simp
      with r have "ts ! ring_index tp j = stamp_at xs (j - 1) \<and>
          (j - 1 < length xs \<longrightarrow> cs ! ring_index tp j = fst (xs ! (j - 1)))"
        by (simp add: ring_def)
      then show ?thesis using n False j(1) by (cases j) (auto simp: stamp_at_def)
    qed
  qed
  thus ?thesis using l tp_less unfolding ring_def by simp
qed

lemma ring_empty: "length cs = 4096 \<Longrightarrow> ring cs (replicate 4096 0) 0 []"
proof -
  assume l: "length cs = 4096"
  have "replicate 4096 (0 :: u64) ! ring_index 0 i = 0" if "1 \<le> i" "i < 4096" for i
    using ring_index_eq [of 0 i] that by simp
  thus ?thesis using l by (simp add: ring_def stamp_at_def)
qed

section \<open>The window\<close>

text \<open>The samples \<open>calc\<close> looks at: the 4095 newest, as far as they are in the interval.\<close>

definition seen :: "sample list \<Rightarrow> sample list" where
  "seen xs = take 4095 xs"

definition recent :: "u64 \<Rightarrow> u64 \<Rightarrow> sample list \<Rightarrow> sample list" where
  "recent now ms xs = takeWhile (\<lambda>(c, t). \<not> now - t > ms) (seen xs)"

fun scan :: "u64 \<Rightarrow> u64 \<Rightarrow> sample list \<Rightarrow> window \<Rightarrow> bool \<times> window" where
  "scan now ms [] w = (False, w)"
| "scan now ms ((c, t) # xs) (es, ec, ls, lc) =
    (let (ls, lc) = (if ls = 0 then (t, c) else (ls, lc))
     in if now - t > ms then (True, es, ec, ls, lc) else scan now ms xs (t, c, ls, lc))"

lemma calc_loop_scan:
  assumes r: "ring cs ts tp xs" and nz: "\<forall>x \<in> set xs. snd x \<noteq> 0" and i: "i \<le> 4096"
  shows "1 \<le> i \<Longrightarrow> calc_loop cs ts tp now ms [i..<4096] w = Some (scan now ms (drop (i - 1) (seen xs)) w)"
  using i
proof (induction i arbitrary: w rule: inc_induct)
  case base
  have "drop 4095 (seen xs) = []" by (simp add: seen_def)
  then show ?case by simp
next
  case (step i)
  obtain es ec ls lc where w: "w = (es, ec, ls, lc)" by (cases w)
  have idx: "ring_index tp i < 4096" using ring_index_eq [of tp i] r step.hyps by (simp add: ring_def)
  have l: "length cs = 4096" "length ts = 4096" using r by (auto simp: ring_def)
  have s: "ts ! ring_index tp i = stamp_at xs (i - 1)"
    "i - 1 < length xs \<Longrightarrow> cs ! ring_index tp i = fst (xs ! (i - 1))"
    using r step by (auto simp: ring_def)
  have up: "[i..<4096] = i # [Suc i..<4096]" using step.hyps by (simp add: upt_conv_Cons)
  show ?case
  proof (cases "i - 1 < length xs")
    case False
    then have "drop (i - 1) (seen xs) = []" "stamp_at xs (i - 1) = 0" by (simp_all add: seen_def stamp_at_def)
    then show ?thesis using idx l s by (simp add: up w get_at_Some)
  next
    case True
    obtain c t where x: "xs ! (i - 1) = (c, t)" by fastforce
    have t: "t \<noteq> 0" using nz x True by (metis nth_mem snd_conv)
    have d: "drop (i - 1) (seen xs) = (c, t) # drop i (seen xs)"
      using True step.hyps step.prems x by (simp add: seen_def Cons_nth_drop_Suc [symmetric])
    have "stamp_at xs (i - 1) = t" using True x by (simp add: stamp_at_def)
    then show ?thesis
      using idx l s True x t step.IH [of "(t, c, if ls = 0 then (t, c) else (ls, lc))"]
      by (simp add: up w d [unfolded One_nat_def] get_at_Some Let_def)
  qed
qed

lemma scan_closed:
  assumes "\<forall>x \<in> set ys. snd x \<noteq> 0" "ls \<noteq> 0"
  shows "scan now ms ys (es, ec, ls, lc) =
    (let rs = takeWhile (\<lambda>(c, t). \<not> now - t > ms) ys
     in (length rs < length ys, if rs = [] then es else snd (last rs), if rs = [] then ec else fst (last rs), ls, lc))"
  using assms
proof (induction ys arbitrary: es ec)
  case (Cons y ys)
  obtain c t where y: "y = (c, t)" by fastforce
  show ?case
    using Cons.IH [of t c] Cons.prems unfolding y by (simp add: Let_def)
qed simp

lemma scan_seen:
  assumes "\<forall>x \<in> set xs. snd x \<noteq> 0"
  shows "scan now ms (seen xs) (0, 0, 0, 0) =
    (if seen xs = [] then (False, 0, 0, 0, 0)
     else if recent now ms xs = [] then (True, 0, 0, snd (hd (seen xs)), fst (hd (seen xs)))
     else (length (recent now ms xs) < length (seen xs), snd (last (recent now ms xs)),
       fst (last (recent now ms xs)), snd (hd (recent now ms xs)), fst (hd (recent now ms xs))))"
proof (cases "seen xs")
  case (Cons y ys)
  obtain c t where y: "y = (c, t)" by fastforce
  have "set (seen xs) \<subseteq> set xs" by (simp add: seen_def set_take_subset)
  hence nz: "\<forall>x \<in> set ys. snd x \<noteq> 0" "t \<noteq> 0" using assms Cons y by auto
  show ?thesis
    using scan_closed [OF nz, of now ms t c c] by (simp add: recent_def Cons y Let_def)
qed simp

text \<open>The rate of a list of samples.\<close>

definition sample_rate :: "'f float_ops \<Rightarrow> u64 \<Rightarrow> u64 \<Rightarrow> sample list \<Rightarrow> 'f option" where
  "sample_rate fl now ms xs =
    (let rs = recent now ms xs
     in if rs = [] \<or> length rs = length (seen xs) \<or> snd (hd rs) = snd (last rs) then None
        else Some (f_rate fl (fst (hd rs)) (fst (last rs)) (snd (hd rs)) (snd (last rs))))"

lemma recent_le: "length (recent now ms xs) \<le> length (seen xs)"
  by (simp add: recent_def length_takeWhile_le)

lemma calc_thread_eq:
  assumes "i < length (hr_top H)" "i < length (hr_counts H)" "i < length (hr_timestamps H)"
    and r: "ring (hr_counts H ! i) (hr_timestamps H ! i) (hr_top H ! i) xs"
    and nz: "\<forall>x \<in> set xs. snd x \<noteq> 0"
  shows "calc_thread fl now i ms H = Some (sample_rate fl now ms xs)"
proof -
  have l: "calc_loop (hr_counts H ! i) (hr_timestamps H ! i) (hr_top H ! i) now ms [1..<4096] (0, 0, 0, 0) =
      Some (scan now ms (seen xs) (0, 0, 0, 0))"
    using calc_loop_scan [OF r nz _ order.refl, of now ms "(0, 0, 0, 0)"] by (simp only: diff_self_eq_0 drop_0)
  have sub: "set (recent now ms xs) \<subseteq> set xs"
    unfolding recent_def seen_def using set_takeWhileD in_set_takeD by fast
  have z: "snd (last (recent now ms xs)) \<noteq> 0" "snd (hd (recent now ms xs)) \<noteq> 0" if "recent now ms xs \<noteq> []"
    using that sub nz by (auto dest: last_in_set hd_in_set)
  have c: "calc_thread fl now i ms H = Some (case scan now ms (seen xs) (0, 0, 0, 0) of (full, es, ec, ls, lc) \<Rightarrow>
      if \<not> full \<or> es = 0 \<or> ls = 0 then None else if ls - es = 0 then None else Some (f_rate fl lc ec ls es))"
    using assms(1-3)
    by (simp only: calc_thread_def get_at_Some kBucketSize_def l bind.simps)
      (cases "scan now ms (seen xs) (0, 0, 0, 0)"; simp)
  show ?thesis
  proof (cases "recent now ms xs = []")
    case True
    then show ?thesis unfolding c scan_seen [OF nz] sample_rate_def by simp
  next
    case False
    then have "seen xs \<noteq> []" by (auto simp: recent_def)
    with False show ?thesis
      using z [OF False] recent_le [of now ms xs] unfolding c scan_seen [OF nz] sample_rate_def
      by (simp add: Let_def)
  qed
qed

text \<open>The state after the samples of a thread, from a cleared ring.\<close>

definition cleared :: "'f hashrate \<Rightarrow> nat \<Rightarrow> bool" where
  "cleared H i \<longleftrightarrow> i < length (hr_top H) \<and> i < length (hr_counts H) \<and> i < length (hr_timestamps H) \<and>
    hr_top H ! i = 0 \<and> length (hr_counts H ! i) = 4096 \<and> hr_timestamps H ! i = replicate 4096 0"

definition add_samples :: "nat \<Rightarrow> sample list \<Rightarrow> 'f hashrate \<Rightarrow> 'f hashrate option" where
  "add_samples i xs H = foldl (\<lambda>H (c, t). Option.bind H (Hashrate_add i c t)) (Some H) xs"

lemma add_samples_ring:
  assumes "cleared H i"
  shows "\<exists>H'. add_samples i xs H = Some H' \<and> i < length (hr_top H') \<and> i < length (hr_counts H') \<and>
    i < length (hr_timestamps H') \<and> ring (hr_counts H' ! i) (hr_timestamps H' ! i) (hr_top H' ! i) (rev xs)"
proof (induction xs rule: rev_induct)
  case Nil
  then show ?case using assms ring_empty by (auto simp: add_samples_def cleared_def)
next
  case (snoc x xs)
  obtain c t where x: "x = (c, t)" by fastforce
  obtain H' where H': "add_samples i xs H = Some H'" "i < length (hr_top H')" "i < length (hr_counts H')"
    "i < length (hr_timestamps H')" "ring (hr_counts H' ! i) (hr_timestamps H' ! i) (hr_top H' ! i) (rev xs)"
    using snoc.IH by blast
  have l: "unat (hr_top H' ! i) < length (hr_counts H' ! i)" "unat (hr_top H' ! i) < length (hr_timestamps H' ! i)"
    using H'(5) by (simp_all add: ring_def)
  have "add_samples i (xs @ [x]) H = Hashrate_add i c t H'"
    using H'(1) by (simp add: add_samples_def x)
  moreover have "Hashrate_add i c t H' = Some (H'\<lparr>
      hr_counts := (hr_counts H')[i := (hr_counts H' ! i)[unat (hr_top H' ! i) := c]],
      hr_timestamps := (hr_timestamps H')[i := (hr_timestamps H' ! i)[unat (hr_top H' ! i) := t]],
      hr_top := (hr_top H')[i := ucast ((ucast (hr_top H' ! i) + 1) AND kBucketMask)]\<rparr>)"
    using H'(2-4) l by (simp add: Hashrate_add_def get_at_Some put_at_Some)
  ultimately show ?case using H'(2-4) ring_add [OF H'(5), of c t] by (simp add: x)
qed

lemma meter:
  assumes "cleared H i" "\<forall>x \<in> set xs. snd x \<noteq> 0"
  shows "\<exists>H'. add_samples i xs H = Some H' \<and> calc_thread fl now i ms H' = Some (sample_rate fl now ms (rev xs))"
  using add_samples_ring [OF assms(1), of xs] calc_thread_eq [of i _ "rev xs" fl now ms] assms(2) by fastforce

section \<open>The constructor\<close>

lemma init_loop_eq:
  assumes "\<forall>i \<in> set is. i < n" "length (hr_top H) = n" "length (hr_counts H) = n" "length (hr_timestamps H) = n"
    "\<forall>c \<in> set (hr_counts H). length c = 4096" "\<forall>t \<in> set (hr_timestamps H). length t = 4096" "is \<noteq> []"
  shows "init_loop is H = Some (H\<lparr>hr_top := fold (\<lambda>i l. l[i := 0]) is (hr_top H),
    hr_counts := (hr_counts H)[0 := replicate 4096 0], hr_timestamps := (hr_timestamps H)[0 := replicate 4096 0]\<rparr>)"
  using assms
proof (induction "is" arbitrary: H)
  case (Cons i "is")
  have n: "0 < n" "i < n" using Cons.prems(1) by auto
  obtain c cs t ts where ct: "hr_counts H = c # cs" "hr_timestamps H = t # ts"
    using Cons.prems(3,4) n by (metis length_greater_0_conv neq_Nil_conv)
  have l: "length c = 4096" "length t = 4096" using Cons.prems(5,6) ct by auto
  have m: "memset c 0 0 4096 = Some (replicate 4096 0)" "memset t 0 0 4096 = Some (replicate 4096 0)"
    using l by (simp_all add: memset_Some)
  let ?H = "H\<lparr>hr_top := (hr_top H)[i := 0], hr_counts := (hr_counts H)[0 := replicate 4096 0],
    hr_timestamps := (hr_timestamps H)[0 := replicate 4096 0]\<rparr>"
  have step: "init_loop (i # is) H = init_loop is ?H"
    using n Cons.prems(2-4) m by (simp add: get_at_Some put_at_Some ct kBucketSize_def)
  show ?case
  proof (cases "is = []")
    case True
    then show ?thesis using step by simp
  next
    case False
    have "init_loop is ?H = Some (?H\<lparr>hr_top := fold (\<lambda>i l. l[i := 0]) is (hr_top ?H),
      hr_counts := (hr_counts ?H)[0 := replicate 4096 0], hr_timestamps := (hr_timestamps ?H)[0 := replicate 4096 0]\<rparr>)"
      using Cons.prems False ct by (intro Cons.IH) auto
    then show ?thesis using step by simp
  qed
qed simp

lemma fold_zero_tops: "fold (\<lambda>i l. l[i := 0]) [0..<n] (map g [0..<n]) = replicate n 0"
proof -
  have "k \<le> n \<Longrightarrow> fold (\<lambda>i l. l[i := 0]) [0..<k] (map g [0..<n]) = replicate k 0 @ map g [k..<n]" for k
  proof (induction k)
    case (Suc k)
    then show ?case by (simp add: list_update_append upt_conv_Cons replicate_append_same [symmetric])
  qed simp
  from this [of n] show ?thesis by simp
qed

lemma make_eq:
  assumes "0 < n" "\<forall>i < n. length (gc i) = 4096 \<and> length (gt i) = 4096"
  shows "Hashrate_make fl g gc gt n = Some \<lparr>hr_highest = f_zero fl, hr_threads = n, hr_top = replicate n 0,
    hr_counts = (map gc [0..<n])[0 := replicate 4096 0], hr_timestamps = (map gt [0..<n])[0 := replicate 4096 0]\<rparr>"
  unfolding Hashrate_make_def
  by (subst init_loop_eq [where n = n]) (use assms in \<open>auto simp: fold_zero_tops\<close>)

lemma make_cleared:
  assumes "i < n" "\<forall>i < n. length (gc i) = 4096 \<and> length (gt i) = 4096"
  shows "\<exists>H. Hashrate_make fl g gc gt n = Some H \<and> (cleared H i \<longleftrightarrow> i = 0 \<or> gt i = replicate 4096 0)"
proof -
  have "i = 0 \<or> 0 < i" by auto
  thus ?thesis
    using assms make_eq [of n gc gt fl g] by (auto simp: cleared_def)
qed

section \<open>Properties\<close>

text \<open>
  C27. The ring of a thread that was cleared is a list of samples: after any number of samples with
  a time, \<open>calc\<close> gives the rate between the newest sample and the oldest one in the interval, of
  the 4095 newest, and no value if none lies in the interval, if none lies before it, or if both
  are the same instant. The constructor clears the ring of the first thread only: that of another
  thread is a cleared one exactly if its uninitialised memory is zero already.
\<close>
theorem hashrate_is_sample_rate:
  assumes "i < n" "\<forall>i < n. length (gc i) = 4096 \<and> length (gt i) = 4096" "\<forall>x \<in> set xs. snd x \<noteq> 0"
  shows "\<exists>H. Hashrate_make fl g gc gt n = Some H \<and> (cleared H i \<longleftrightarrow> i = 0 \<or> gt i = replicate 4096 0) \<and>
    (cleared H i \<longrightarrow> (\<exists>H'. add_samples i xs H = Some H' \<and>
      calc_thread fl now i ms H' = Some (sample_rate fl now ms (rev xs))))"
  using make_cleared [OF assms(1,2)] meter [OF _ assms(3)] by blast

definition nat_ops :: "nat float_ops" where
  "nat_ops = \<lparr>f_zero = 0, f_add = (+), f_less = (<), f_isnormal = (\<lambda>x. x \<noteq> 0),
     f_rate = (\<lambda>lc ec ls es. unat (lc - ec) * 1000 div unat (ls - es))\<rparr>"

theorem hashrate_is_sample_rate_witness:
  "\<exists>H. Hashrate_make nat_ops (\<lambda>i. 7) (\<lambda>i. replicate 4096 3) (\<lambda>i. replicate 4096 3) 2 = Some H \<and>
    (\<exists>H'. add_samples 0 [(100, 1000), (300, 11000), (700, 13000)] H = Some H' \<and>
      calc_thread nat_ops 14000 0 10000 H' = Some (Some 200))"
proof -
  have "seen [(700, 13000), (300, 11000), (100, 1000)] = [(700, 13000), (300, 11000), (100, 1000 :: u64)]"
    by (simp add: seen_def)
  hence "recent 14000 10000 [(700, 13000), (300, 11000), (100, 1000)] = [(700, 13000), (300, 11000)]"
    by (simp add: recent_def)
  hence "sample_rate nat_ops 14000 10000 [(700, 13000), (300, 11000), (100, 1000)] = Some 200"
    by (simp add: sample_rate_def nat_ops_def seen_def)
  moreover have "0 < (2 :: nat)" "\<forall>i < (2 :: nat). length (replicate 4096 (3 :: u64)) = 4096 \<and> length (replicate 4096 (3 :: u64)) = 4096"
    "\<forall>x \<in> set [(100, 1000), (300, 11000), (700, 13000)]. snd x \<noteq> (0 :: u64)"
    by simp_all
  from hashrate_is_sample_rate [OF this, of nat_ops "\<lambda>i. 7" 14000 10000] show ?thesis
    using calculation by auto
qed

end
