(* ===== verification/Client.thy ===== *)
theory Client
  imports Network
begin

text \<open>
  The client of a pool: \<open>src/src/net/Client.h\<close> and \<open>src/src/net/Client.cpp\<close>. Each callback and each
  operation of the strategies is a step on the client's state. What the event loop, the operating
  system and the JSON library answer during a step is the environment of the step; what the client
  asks of them and tells its listener is appended to \<open>c_calls\<close>. A result \<open>None\<close> is a fault: an
  access outside a buffer, a division by zero, or a handle or request that is released or used
  again while the event loop has it. Log messages are left out.
\<close>

section \<open>Environment\<close>

datatype socket_state =
    UnconnectedState
  | HostLookupState
  | ConnectingState
  | ConnectedState
  | ClosingState

datatype family = Inet | Inet6 | OtherFamily

type_synonym address = "family \<times> bytes"

text \<open>Requests to the event loop, and the calls of the listener with this client.\<close>

datatype call =
    UvResolve "bytes option"
  | UvConnect address u16
  | UvReadStart
  | UvWrite bytes
  | UvClose
  | KeepAliveStart nat
  | KeepAliveStop
  | NotifyClose int
  | NotifyJob job
  | NotifyLogin
  | NotifyResult submit_result "bytes option"

text \<open>
  \<open>uv_getaddrinfo\<close> and \<open>uv_tcp_connect\<close> tell whether the event loop accepts the request, whose
  callback comes later; \<open>uv_try_write\<close> gives the number of bytes written or an error. \<open>uv_reacts\<close>
  tells whether the listener disconnects this client when it is called, which is all the strategies
  do to it then. \<open>js_write\<close> and \<open>js_parse\<close> are the JSON library's, \<open>js_int\<close> and \<open>js_string\<close> what
  \<open>GetInt\<close> and \<open>GetString\<close> make of values of another type. \<open>st_target\<close> are the uninitialised bytes
  in \<open>Job::setTarget\<close>, and \<open>mem_cpy b i n\<close> is the buffer after \<open>memcpy(b, b + i, n)\<close>.
\<close>

record 'd uv =
  uv_now :: u64
  uv_hrtime :: u64
  uv_rand :: nat
  uv_getaddrinfo :: "bytes option \<Rightarrow> bool"
  uv_tcp_connect :: "address \<Rightarrow> bool"
  uv_writable :: bool
  uv_try_write :: "bytes \<Rightarrow> int"
  uv_reacts :: "call \<Rightarrow> bool"
  js_parse :: "bytes \<Rightarrow> 'd json option"
  js_write :: "'d json \<Rightarrow> bytes"
  js_int :: "'d json \<Rightarrow> int"
  js_string :: "'d json \<Rightarrow> bytes option"
  st_target :: bytes
  mem_cpy :: "bytes \<Rightarrow> nat \<Rightarrow> nat \<Rightarrow> bytes"

section \<open>State\<close>

text \<open>
  \<open>c_stream\<close> and \<open>c_socket\<close> tell whether the pointers are set. The static \<open>m_sequence\<close> is that of all
  clients. \<open>c_resolving\<close>, \<open>c_connecting\<close> and \<open>c_closing\<close> are the event loop's: the callbacks to come.
\<close>

record client =
  c_ipv6 :: bool
  c_nicehash :: bool
  c_buf :: bytes
  c_ip :: bytes
  c_sendBuf :: bytes
  c_agent :: bytes
  c_id :: int
  c_retryPause :: int
  c_failures :: int
  c_job :: job
  c_recvBufPos :: nat
  c_state :: socket_state
  c_sequence :: nat
  c_results :: "int \<Rightarrow> submit_result option"
  c_expire :: u64
  c_url :: url
  c_stream :: bool
  c_socket :: bool
  c_rpcId :: job_id
  c_resolving :: bool
  c_connecting :: bool
  c_closing :: bool
  c_calls :: "call list"

definition kResponseTimeout :: u64 where "kResponseTimeout = 20000"
definition kKeepAliveTimeout :: nat where "kKeepAliveTimeout = 60000"

text \<open>The two buffers are not initialised.\<close>

definition Client_make :: "bytes \<Rightarrow> bytes \<Rightarrow> nat \<Rightarrow> int \<Rightarrow> bytes \<Rightarrow> client" where
  "Client_make gbuf gsend sequence cid agent =
    \<lparr>c_ipv6 = False, c_nicehash = False, c_buf = gbuf, c_ip = [], c_sendBuf = gsend, c_agent = agent,
     c_id = cid, c_retryPause = 5000, c_failures = 0, c_job = Job_default, c_recvBufPos = 0,
     c_state = UnconnectedState, c_sequence = sequence, c_results = (\<lambda>i. None), c_expire = 0,
     c_url = Url_default, c_stream = False, c_socket = False, c_rpcId = JobId_empty,
     c_resolving = False, c_connecting = False, c_closing = False, c_calls = []\<rparr>"

definition emit :: "call \<Rightarrow> client \<Rightarrow> client" where
  "emit e C = C\<lparr>c_calls := c_calls C @ [e]\<rparr>"

lemma emit_sel [simp]:
  "c_ipv6 (emit e C) = c_ipv6 C" "c_nicehash (emit e C) = c_nicehash C" "c_buf (emit e C) = c_buf C"
  "c_ip (emit e C) = c_ip C" "c_sendBuf (emit e C) = c_sendBuf C" "c_agent (emit e C) = c_agent C"
  "c_id (emit e C) = c_id C" "c_retryPause (emit e C) = c_retryPause C" "c_failures (emit e C) = c_failures C"
  "c_job (emit e C) = c_job C" "c_recvBufPos (emit e C) = c_recvBufPos C" "c_state (emit e C) = c_state C"
  "c_sequence (emit e C) = c_sequence C" "c_results (emit e C) = c_results C" "c_expire (emit e C) = c_expire C"
  "c_url (emit e C) = c_url C" "c_stream (emit e C) = c_stream C" "c_socket (emit e C) = c_socket C"
  "c_rpcId (emit e C) = c_rpcId C" "c_resolving (emit e C) = c_resolving C"
  "c_connecting (emit e C) = c_connecting C" "c_closing (emit e C) = c_closing C"
  "c_calls (emit e C) = c_calls C @ [e]"
  by (simp_all add: emit_def)

section \<open>Closing and disconnecting\<close>

definition Client_close :: "client \<Rightarrow> client" where
  "Client_close C =
    (if c_state C = UnconnectedState \<or> c_state C = ClosingState \<or> \<not> c_socket C then C
     else
       let C = C\<lparr>c_state := ClosingState\<rparr>
       in if \<not> c_closing C then emit UvClose (C\<lparr>c_closing := True\<rparr>) else C)"

definition Client_disconnect :: "client \<Rightarrow> client" where
  "Client_disconnect C =
    (let C = emit KeepAliveStop C
     in Client_close (C\<lparr>c_expire := 0, c_failures := -1\<rparr>))"

text \<open>A call of the listener.\<close>

definition notify :: "'d uv \<Rightarrow> call \<Rightarrow> client \<Rightarrow> client" where
  "notify E e C = (let C = emit e C in if uv_reacts E e then Client_disconnect C else C)"

section \<open>Connecting\<close>

definition Client_resolve :: "'d uv \<Rightarrow> bytes option \<Rightarrow> client \<Rightarrow> client option" where
  "Client_resolve E host C =
    (let C = C\<lparr>c_state := HostLookupState\<rparr>;
         C = C\<lparr>c_expire := 0, c_recvBufPos := 0\<rparr>;
         C = (if c_failures C = -1 then C\<lparr>c_failures := 0\<rparr> else C)
     in if c_resolving C then None
        else if \<not> uv_getaddrinfo E host then Some C
        else Some (emit (UvResolve host) (C\<lparr>c_resolving := True\<rparr>)))"

definition Client_connect :: "'d uv \<Rightarrow> client \<Rightarrow> client option" where
  "Client_connect E C = Client_resolve E (u_host (c_url C)) C"

definition Client_tick :: "'d uv \<Rightarrow> client \<Rightarrow> client option" where
  "Client_tick E C =
    (if c_expire C = 0 \<or> uv_now E < c_expire C then Some C
     else
       let C = (if c_state C = ConnectedState then Client_close C else C)
       in if c_state C = ConnectingState then Client_connect E C else Some C)"

text \<open>\<open>delete m_socket\<close> releases a handle that the event loop still has, if there is one.\<close>

definition connect_address :: "'d uv \<Rightarrow> address \<Rightarrow> client \<Rightarrow> client option" where
  "connect_address E addr C =
    (let C = C\<lparr>c_state := ConnectingState\<rparr>
     in if c_socket C then None
        else
          let C = C\<lparr>c_socket := True, c_closing := False\<rparr>
          in Some (if uv_tcp_connect E addr
                   then emit (UvConnect addr (u_port (c_url C))) (C\<lparr>c_connecting := True\<rparr>) else C))"

definition connect_addresses :: "'d uv \<Rightarrow> address list \<Rightarrow> address list \<Rightarrow> client \<Rightarrow> client option" where
  "connect_addresses E ipv4 ipv6 C =
    (let C = C\<lparr>c_ipv6 := (ipv4 = [] \<and> ipv6 \<noteq> [])\<rparr>;
         addrs = (if c_ipv6 C then ipv6 else ipv4)
     in do {
          addr \<leftarrow> get_at addrs (if length addrs = 1 then 0 else uv_rand E mod length addrs);
          connect_address E addr (C\<lparr>c_ip := snd addr\<rparr>)
        })"

definition Client_reconnect :: "'d uv \<Rightarrow> client \<Rightarrow> client" where
  "Client_reconnect E C =
    (let C = C\<lparr>c_state := ConnectingState\<rparr>;
         C = (if u_keepAlive (c_url C) then emit KeepAliveStop C else C)
     in if c_failures C = -1 then notify E (NotifyClose (-1)) C
        else
          let C = C\<lparr>c_failures := c_failures C + 1\<rparr>;
              C = notify E (NotifyClose (to_int (c_failures C))) C
          in C\<lparr>c_expire := uv_now E + of_int (c_retryPause C)\<rparr>)"

definition onResolved :: "'d uv \<Rightarrow> address list option \<Rightarrow> client \<Rightarrow> client option" where
  "onResolved E res C =
    (let C = C\<lparr>c_resolving := False\<rparr>
     in case res of
          None \<Rightarrow> Some (Client_reconnect E C)
        | Some addrs \<Rightarrow>
            let ipv4 = filter (\<lambda>a. fst a = Inet) addrs;
                ipv6 = filter (\<lambda>a. fst a = Inet6) addrs
            in if ipv4 = [] \<and> ipv6 = [] then Some (Client_reconnect E C)
               else connect_addresses E ipv4 ipv6 C)"

definition onClose :: "'d uv \<Rightarrow> client \<Rightarrow> client" where
  "onClose E C =
    (let C = C\<lparr>c_stream := False, c_socket := False, c_closing := False\<rparr>;
         C = C\<lparr>c_state := UnconnectedState\<rparr>
     in Client_reconnect E C)"

section \<open>Sending\<close>

text \<open>The result of \<open>send\<close>, which nobody uses, is left out.\<close>

definition Client_send :: "'d uv \<Rightarrow> nat \<Rightarrow> client \<Rightarrow> client option" where
  "Client_send E len C =
    (if c_state C \<noteq> ConnectedState then Some C
     else if \<not> c_stream C then None
     else if \<not> uv_writable E then Some C
     else do {
       buf \<leftarrow> load (c_sendBuf C) 0 len;
       let n = uv_try_write E buf;
       if n < 0 then Some (Client_close C)
       else
         let C = emit (UvWrite (take (nat n) buf)) C
         in Some (C\<lparr>c_expire := uv_now E + kResponseTimeout, c_sequence := c_sequence C + 1\<rparr>)
     })"

text \<open>\<open>snprintf\<close> into \<open>m_sendBuf\<close>; its result is the length of the whole text.\<close>

definition print_send :: "bytes \<Rightarrow> client \<Rightarrow> client" where
  "print_send s C =
    (let t = snprintf_string 768 s
     in C\<lparr>c_sendBuf := t @ 0 # drop (length t + 1) (c_sendBuf C)\<rparr>)"

definition login_request :: "client \<Rightarrow> 'd json" where
  "login_request C = JObject
    [(cstr ''id'', JInt 1), (cstr ''jsonrpc'', JString (cstr ''2.0'')), (cstr ''method'', JString (cstr ''login'')),
     (cstr ''params'', JObject
       [(cstr ''login'', JString (Url_user (c_url C))), (cstr ''pass'', JString (Url_password (c_url C))),
        (cstr ''agent'', JString (c_agent C))])]"

definition Client_login :: "'d uv \<Rightarrow> client \<Rightarrow> client option" where
  "Client_login E C =
    (let C = C\<lparr>c_results := (\<lambda>i. None)\<rparr>;
         buffer = js_write E (login_request C);
         size = length buffer
     in if size > 2048 - 2 then Some C
        else do {
          b \<leftarrow> memcpy (c_sendBuf C) 0 buffer 0 size;
          b \<leftarrow> put_at b size 0x0A;
          b \<leftarrow> put_at b (size + 1) 0;
          Client_send E (size + 1) (C\<lparr>c_sendBuf := b\<rparr>)
        })"

definition onConnect :: "'d uv \<Rightarrow> bool \<Rightarrow> client \<Rightarrow> client option" where
  "onConnect E ok C =
    (let C = C\<lparr>c_connecting := False\<rparr>
     in if \<not> ok then Some (Client_close C)
        else
          let C = C\<lparr>c_stream := True\<rparr>;
              C = C\<lparr>c_state := ConnectedState\<rparr>
          in Client_login E (emit UvReadStart C))"

definition submit_text :: "nat \<Rightarrow> bytes \<Rightarrow> bytes \<Rightarrow> bytes \<Rightarrow> bytes \<Rightarrow> bytes" where
  "submit_text sequence rpcId jobId nonce data =
    cstr ''{\"id\":'' @ decimal sequence @
    cstr '',\"jsonrpc\":\"2.0\",\"method\":\"submit\",\"params\":{\"id\":\"'' @ rpcId @
    cstr ''\",\"job_id\":\"'' @ jobId @ cstr ''\",\"nonce\":\"'' @ nonce @ cstr ''\",\"result\":\"'' @ data @
    cstr ''\"}}'' @ [0x0A]"

definition Client_submit :: "'d uv \<Rightarrow> job_result \<Rightarrow> client \<Rightarrow> client option" where
  "Client_submit E result C = do {
     nonce \<leftarrow> toHex (le_bytes 4 (jr_nonce result)) 4 (replicate 9 0);
     nonce \<leftarrow> put_at nonce 8 0;
     data \<leftarrow> toHex (jr_result result) 32 (replicate 65 0);
     data \<leftarrow> put_at data 64 0;
     let text = submit_text (c_sequence C) (JobId_data (c_rpcId C)) (JobId_data (jr_jobId result))
                  (c_string nonce) (c_string data);
     let C = print_send text C;
     actual \<leftarrow> actualDiff result;
     let C = C\<lparr>c_results := (c_results C)(int (c_sequence C) \<mapsto>
       SubmitResult_make (uv_hrtime E) (of_nat (c_sequence C)) (jr_diff result) actual)\<rparr>;
     Client_send E (length text) C
   }"

definition ping_text :: "nat \<Rightarrow> bytes \<Rightarrow> bytes" where
  "ping_text sequence rpcId =
    cstr ''{\"id\":'' @ decimal sequence @
    cstr '',\"jsonrpc\":\"2.0\",\"method\":\"keepalived\",\"params\":{\"id\":\"'' @ rpcId @ cstr ''\"}}'' @ [0x0A]"

definition Client_ping :: "'d uv \<Rightarrow> client \<Rightarrow> client option" where
  "Client_ping E C =
    (let text = ping_text (c_sequence C) (JobId_data (c_rpcId C))
     in Client_send E (length text) (print_send text C))"

section \<open>Messages\<close>

definition startTimeout :: "client \<Rightarrow> client" where
  "startTimeout C =
    (let C = C\<lparr>c_expire := 0\<rparr>
     in if \<not> u_keepAlive (c_url C) then C else emit (KeepAliveStart kKeepAliveTimeout) C)"

definition isCriticalError :: "bytes option \<Rightarrow> bool" where
  "isCriticalError message =
    (case message of
       None \<Rightarrow> False
     | Some s \<Rightarrow>
         if strncasecmp_eq s (cstr ''Unauthenticated'') 15 then True
         else if strncasecmp_eq s (cstr ''your IP is banned'') 17 then True
         else if strncasecmp_eq s (cstr ''IP Address currently banned'') 27 then True
         else False)"

text \<open>
  \<open>GetString\<close> without its assertion: null, booleans and numbers have a null pointer where strings
  have theirs, objects and arrays that to their elements.
\<close>

definition GetString :: "'d uv \<Rightarrow> 'd json \<Rightarrow> bytes option" where
  "GetString E v = (case v of JString s \<Rightarrow> Some (c_string s) | JArray _ \<Rightarrow> js_string E v | JObject _ \<Rightarrow> js_string E v
     | _ \<Rightarrow> None)"

definition HasMember :: "(bytes \<times> 'd json) list \<Rightarrow> bytes \<Rightarrow> bool" where
  "HasMember obj name \<longleftrightarrow> map_of obj name \<noteq> None"

definition url_algo :: "url \<Rightarrow> Algo" where
  "url_algo u = (if u_algo u = algo_int ALGO_CRYPTONIGHT_LITE then ALGO_CRYPTONIGHT_LITE else ALGO_CRYPTONIGHT)"

text \<open>The error codes are only logged.\<close>

definition parseJob :: "'d uv \<Rightarrow> 'd json \<Rightarrow> client \<Rightarrow> (bool \<times> client) option" where
  "parseJob E params C =
    (case params of
       JObject obj \<Rightarrow> do {
         let job = Job_for (c_id C) (c_nicehash C) (url_algo (c_url C)) (u_variant (c_url C));
         (ok, job) \<leftarrow> Job_setId job (GetString E (json_member obj (cstr ''job_id'')));
         if \<not> ok then Some (False, C)
         else do {
           (ok, job) \<leftarrow> setBlob job (GetString E (json_member obj (cstr ''blob'')));
           if \<not> ok then Some (False, C)
           else do {
             (ok, job) \<leftarrow> setTarget (st_target E) job (GetString E (json_member obj (cstr ''target'')));
             if \<not> ok then Some (False, C)
             else
               let job = (if HasMember obj (cstr ''coin'')
                          then setCoin job (GetString E (json_member obj (cstr ''coin''))) else job);
                   job = (if HasMember obj (cstr ''variant'')
                          then setVariant job (GetInt (js_int E) (json_member obj (cstr ''variant''))) else job)
               in if Job_eq (c_job C) job then Some (False, Client_close C)
                  else Some (True, C\<lparr>c_job := job\<rparr>)
           }
         }
       }
     | _ \<Rightarrow> Some (False, C))"

definition parseExtensions :: "'d json \<Rightarrow> client \<Rightarrow> client" where
  "parseExtensions value C =
    (case value of
       JArray exts \<Rightarrow>
         fold (\<lambda>ext C. case ext of
             JString s \<Rightarrow> if c_string s = cstr ''nicehash'' then C\<lparr>c_nicehash := True\<rparr> else C
           | _ \<Rightarrow> C) exts C
     | _ \<Rightarrow> C)"

definition parseLogin :: "'d uv \<Rightarrow> (bytes \<times> 'd json) list \<Rightarrow> client \<Rightarrow> (bool \<times> client) option" where
  "parseLogin E result C = do {
     (ok, rpcId) \<leftarrow> setId (GetString E (json_member result (cstr ''id''))) 0;
     let C = C\<lparr>c_rpcId := rpcId\<rparr>;
     if \<not> ok then Some (False, C)
     else
       let C = C\<lparr>c_nicehash := u_nicehash (c_url C)\<rparr>;
           C = (if HasMember result (cstr ''extensions'')
                then parseExtensions (json_member result (cstr ''extensions'')) C else C)
       in parseJob E (json_member result (cstr ''job'')) C
   }"

definition parseNotification ::
  "'d uv \<Rightarrow> bytes option \<Rightarrow> 'd json \<Rightarrow> 'd json \<Rightarrow> client \<Rightarrow> client option" where
  "parseNotification E method params error C =
    (case error of
       JObject _ \<Rightarrow> Some C
     | _ \<Rightarrow>
         (case method of
            None \<Rightarrow> Some C
          | Some m \<Rightarrow>
              if m = cstr ''job'' then do {
                (ok, C) \<leftarrow> parseJob E params C;
                Some (if ok then notify E (NotifyJob (c_job C)) C else C)
              }
              else Some C))"

text \<open>A result that is waited for is reported and forgotten.\<close>

definition report_result :: "'d uv \<Rightarrow> int \<Rightarrow> bytes option \<Rightarrow> client \<Rightarrow> client" where
  "report_result E rid error C =
    (case c_results C rid of
       Some r \<Rightarrow>
         let C = notify E (NotifyResult (SubmitResult_done (uv_hrtime E) r) error) C
         in C\<lparr>c_results := (c_results C)(rid := None)\<rparr>
     | None \<Rightarrow> C)"

definition parseResponse :: "'d uv \<Rightarrow> int \<Rightarrow> 'd json \<Rightarrow> 'd json \<Rightarrow> client \<Rightarrow> client option" where
  "parseResponse E rid result error C =
    (case error of
       JObject err \<Rightarrow>
         let message = GetString E (json_member err (cstr ''message''));
             C = report_result E rid message C
         in Some (if rid = 1 \<or> isCriticalError message then Client_close C else C)
     | _ \<Rightarrow>
         (case result of
            JObject res \<Rightarrow>
              if rid = 1 then do {
                (ok, C) \<leftarrow> parseLogin E res C;
                if \<not> ok then Some (Client_close C)
                else
                  let C = C\<lparr>c_failures := 0\<rparr>;
                      C = notify E NotifyLogin C
                  in Some (notify E (NotifyJob (c_job C)) C)
              }
              else Some (report_result E rid None C)
          | _ \<Rightarrow> Some C))"

text \<open>
  \<open>line\<close> ends with the line feed, which a zero replaces. What the parser leaves in the line is not
  read again.
\<close>

definition Client_parse :: "'d uv \<Rightarrow> bytes \<Rightarrow> client \<Rightarrow> client option" where
  "Client_parse E line C =
    (let C = startTimeout C
     in if length line < 32 \<or> line ! 0 \<noteq> 0x7B then Some C
        else
          case js_parse E (c_string (butlast line)) of
            Some (JObject doc) \<Rightarrow>
              (case json_member doc (cstr ''id'') of
                 JInt rid \<Rightarrow>
                   if IsInt64 rid
                   then parseResponse E rid (json_member doc (cstr ''result'')) (json_member doc (cstr ''error'')) C
                   else parseNotification E (GetString E (json_member doc (cstr ''method'')))
                          (json_member doc (cstr ''params'')) (json_member doc (cstr ''error'')) C
               | _ \<Rightarrow> parseNotification E (GetString E (json_member doc (cstr ''method'')))
                        (json_member doc (cstr ''params'')) (json_member doc (cstr ''error'')) C)
          | _ \<Rightarrow> Some C)"

section \<open>Receiving\<close>

definition onAllocBuffer :: "client \<Rightarrow> nat \<times> nat" where
  "onAllocBuffer C = (c_recvBufPos C, 2048 - c_recvBufPos C)"

definition memchr :: "bytes \<Rightarrow> u8 \<Rightarrow> nat option" where
  "memchr s c = (let i = length (takeWhile (\<lambda>x. x \<noteq> c) s) in if i < length s then Some i else None)"

lemma memchr_less: "memchr s c = Some i \<Longrightarrow> i < length s"
  by (simp add: memchr_def Let_def split: if_splits)

text \<open>The loop over the lines: \<open>start\<close> and \<open>remaining\<close> are its variables, \<open>E k\<close> is there for line \<open>k\<close>.\<close>

function read_loop ::
  "(nat \<Rightarrow> 'd uv) \<Rightarrow> nat \<Rightarrow> nat \<Rightarrow> nat \<Rightarrow> client \<Rightarrow> (nat \<times> nat \<times> client) option" where
  "read_loop E k start remaining C =
    (case memchr (take remaining (drop start (c_buf C))) 0x0A of
       None \<Rightarrow> Some (start, remaining, C)
     | Some i \<Rightarrow>
         let len = i + 1; line = take len (drop start (c_buf C))
         in do {
              b \<leftarrow> put_at (c_buf C) (start + len - 1) 0;
              C \<leftarrow> Client_parse (E k) line (C\<lparr>c_buf := b\<rparr>);
              read_loop E (k + 1) (start + len) (remaining - len) C
            })"
  by pat_completeness auto
termination
  by (relation "measure (\<lambda>(E, k, start, remaining, C). remaining)") (auto dest!: memchr_less)

declare read_loop.simps [simp del]

text \<open>The event loop has written \<open>data\<close> into the place \<open>onAllocBuffer\<close> has given it.\<close>

definition onRead :: "(nat \<Rightarrow> 'd uv) \<Rightarrow> bytes \<Rightarrow> client \<Rightarrow> client option" where
  "onRead E data C = do {
     b \<leftarrow> store (c_buf C) (fst (onAllocBuffer C)) data;
     let C = C\<lparr>c_buf := b\<rparr>;
     if (of_nat (length data) :: u64) > 2048 - 8 - of_nat (c_recvBufPos C) then Some (Client_close C)
     else do {
       let C = C\<lparr>c_recvBufPos := c_recvBufPos C + length data\<rparr>;
       (start, remaining, C) \<leftarrow> read_loop E 0 0 (c_recvBufPos C) C;
       if remaining = 0 then Some (C\<lparr>c_recvBufPos := 0\<rparr>)
       else if start = 0 then Some C
       else Some (C\<lparr>c_buf := mem_cpy (E 0) (c_buf C) start remaining, c_recvBufPos := remaining\<rparr>)
     }
   }"

section \<open>The client as a machine\<close>

datatype client_input =
    InConnect
  | InDisconnect
  | InSubmit job_result
  | InTick
  | InKeepAlive
  | InResolved "address list option"
  | InConnected bool
  | InRead bytes
  | InReadError
  | InClosed
  | InOthers nat

text \<open>\<open>InOthers n\<close>: the other clients have sent \<open>n\<close> messages.\<close>

fun client_step :: "(nat \<Rightarrow> 'd uv) \<Rightarrow> client_input \<Rightarrow> client \<Rightarrow> client option" where
  "client_step E InConnect C = Client_connect (E 0) C"
| "client_step E InDisconnect C = Some (Client_disconnect C)"
| "client_step E (InSubmit result) C = Client_submit (E 0) result C"
| "client_step E InTick C = Client_tick (E 0) C"
| "client_step E InKeepAlive C = Client_ping (E 0) C"
| "client_step E (InResolved res) C = onResolved (E 0) res C"
| "client_step E (InConnected ok) C = onConnect (E 0) ok C"
| "client_step E (InRead data) C = onRead E data C"
| "client_step E InReadError C = Some (Client_close C)"
| "client_step E InClosed C = Some (onClose (E 0) C)"
| "client_step E (InOthers n) C = Some (C\<lparr>c_sequence := c_sequence C + n\<rparr>)"

text \<open>
  The client that a strategy makes. The callbacks come as the event loop promises: for requests it
  has, those of a handle that is being closed as cancelled, and the one of the closing at last.
  What the strategies call comes at any time, in any state. \<open>m_sequence\<close> does not overflow.
\<close>

definition client_start :: "bytes \<Rightarrow> bytes \<Rightarrow> nat \<Rightarrow> int \<Rightarrow> bytes \<Rightarrow> url \<Rightarrow> int \<Rightarrow> client" where
  "client_start gbuf gsend sequence cid agent url pause =
    (Client_make gbuf gsend sequence cid agent)
      \<lparr>c_retryPause := pause, c_url := Client_setUrl Url_default url\<rparr>"

fun client_input_ok :: "client \<Rightarrow> client_input \<Rightarrow> bool" where
  "client_input_ok C (InResolved res) \<longleftrightarrow> c_resolving C"
| "client_input_ok C (InConnected ok) \<longleftrightarrow> c_connecting C \<and> (c_closing C \<longrightarrow> \<not> ok)"
| "client_input_ok C (InRead data) \<longleftrightarrow>
    c_stream C \<and> \<not> c_closing C \<and> length data \<le> snd (onAllocBuffer C)"
| "client_input_ok C InReadError \<longleftrightarrow> c_stream C \<and> \<not> c_closing C"
| "client_input_ok C InClosed \<longleftrightarrow> c_closing C \<and> \<not> c_connecting C"
| "client_input_ok C (InSubmit result) \<longleftrightarrow> length (jr_result result) = 32 \<and> length (jr_jobId result) = 64"
| "client_input_ok C _ \<longleftrightarrow> True"

inductive client_reachable :: "((nat \<Rightarrow> 'd uv) \<Rightarrow> bool) \<Rightarrow> client \<Rightarrow> client \<Rightarrow> bool" for envs start where
  initial: "client_reachable envs start start"
| step: "\<lbrakk>client_reachable envs start C; client_input_ok C i; envs E; c_sequence C < 2 ^ 63;
      client_step E i C = Some C'\<rbrakk> \<Longrightarrow> client_reachable envs start C'"

section \<open>What a message can change\<close>

text \<open>
  A message leaves the buffers, the connection and the requests alone; it may close the
  connection. The rules for the operations form a collection.
\<close>

named_theorems framing \<open>operations that keep the frame of the client\<close>

definition closed_or_same :: "client \<Rightarrow> client \<Rightarrow> bool" where
  "closed_or_same C C' \<longleftrightarrow> c_state C' = c_state C \<and> c_closing C' = c_closing C \<or>
    c_state C' = ClosingState \<and> c_closing C' \<and> c_socket C \<and> c_state C \<noteq> UnconnectedState"

definition frame :: "client \<Rightarrow> client \<Rightarrow> bool" where
  "frame C C' \<longleftrightarrow> c_buf C' = c_buf C \<and> c_recvBufPos C' = c_recvBufPos C \<and> c_sendBuf C' = c_sendBuf C \<and>
    c_agent C' = c_agent C \<and> c_id C' = c_id C \<and> c_retryPause C' = c_retryPause C \<and>
    c_sequence C' = c_sequence C \<and> c_url C' = c_url C \<and> c_stream C' = c_stream C \<and>
    c_socket C' = c_socket C \<and> c_resolving C' = c_resolving C \<and> c_connecting C' = c_connecting C \<and>
    (length (c_rpcId C) = 64 \<longrightarrow> length (c_rpcId C') = 64) \<and> (c_expire C' = 0 \<or> c_expire C' = c_expire C) \<and>
    (-1 \<le> c_failures C \<longrightarrow> -1 \<le> c_failures C') \<and> closed_or_same C C'"

lemma frame_refl [framing, simp]: "frame C C"
  by (simp add: frame_def closed_or_same_def)

lemma closed_or_same_trans:
  "closed_or_same C C' \<Longrightarrow> closed_or_same C' C'' \<Longrightarrow> c_socket C' = c_socket C \<Longrightarrow> closed_or_same C C''"
  unfolding closed_or_same_def by (elim disjE conjE) simp_all

lemma frame_trans: "frame C C' \<Longrightarrow> frame C' C'' \<Longrightarrow> frame C C''"
  using closed_or_same_trans [of C C' C''] unfolding frame_def by (elim conjE disjE) simp_all

lemma frame_fields [framing]:
  "frame C (C\<lparr>c_job := j\<rparr>)" "frame C (C\<lparr>c_nicehash := n\<rparr>)" "frame C (C\<lparr>c_failures := 0\<rparr>)"
  "frame C (C\<lparr>c_results := r\<rparr>)" "frame C (C\<lparr>c_expire := 0\<rparr>)" "frame C (emit e C)"
  "length i = 64 \<Longrightarrow> frame C (C\<lparr>c_rpcId := i\<rparr>)"
  by (simp_all add: frame_def closed_or_same_def emit_def)

lemma frame_close [framing]: "frame C (Client_close C)"
  by (simp add: frame_def closed_or_same_def Client_close_def emit_def Let_def)

lemma frame_disconnect [framing]: "frame C (Client_disconnect C)"
proof -
  have "frame C ((emit KeepAliveStop C)\<lparr>c_expire := 0, c_failures := -1\<rparr>)"
    by (simp add: frame_def closed_or_same_def emit_def)
  thus ?thesis unfolding Client_disconnect_def Let_def by (rule frame_trans [OF _ frame_close])
qed

lemma frame_notify [framing]: "frame C (notify E e C)"
  using frame_trans [OF frame_fields(6) frame_disconnect] unfolding notify_def Let_def
  by (simp add: frame_fields(6))

lemma frame_startTimeout [framing]: "frame C (startTimeout C)"
  unfolding startTimeout_def Let_def by (simp add: frame_fields(5) frame_trans [OF frame_fields(5) frame_fields(6)])

lemma frame_report [framing]: "frame C (report_result E rid error C)"
  unfolding report_result_def Let_def
  by (cases "c_results C rid") (simp_all add: frame_trans [OF frame_notify frame_fields(4)])

lemma frame_extensions [framing]: "frame C (parseExtensions v C)"
proof -
  have "frame C (fold (\<lambda>ext C. case ext of
      JString s \<Rightarrow> if c_string s = cstr ''nicehash'' then C\<lparr>c_nicehash := True\<rparr> else C | _ \<Rightarrow> C) exts C)" for exts
  proof (induction exts arbitrary: C)
    case (Cons e exts)
    show ?case
    proof (cases "\<exists>s. e = JString s \<and> c_string s = cstr ''nicehash''")
      case True
      then show ?thesis using frame_trans [OF frame_fields(2) Cons.IH] by auto
    next
      case False
      then show ?thesis using Cons.IH [of C] by (cases e) auto
    qed
  qed simp
  thus ?thesis unfolding parseExtensions_def by (cases v) auto
qed

section \<open>Messages are read without a fault\<close>

definition env_ok :: "'d uv \<Rightarrow> bool" where
  "env_ok E \<longleftrightarrow> 16 \<le> length (st_target E) \<and> (\<forall>b i n. length (mem_cpy E b i n) = length b)"

lemma setId_total: "\<exists>ok m_data. setId s 0 = Some (ok, m_data) \<and> length m_data = 64"
proof (cases s)
  case None
  then show ?thesis by (intro exI [of _ False] exI [of _ "replicate 64 0"]) (simp add: setId_def)
next
  case (Some t)
  show ?thesis
  proof (cases "length t < 64")
    case True
    then have "setId (Some t) 0 = Some (True, t @ replicate (64 - length t) 0)" by (rule setId_eq)
    then show ?thesis unfolding Some using True by (intro exI [of _ True]) simp
  next
    case False
    then show ?thesis
      unfolding Some by (intro exI [of _ False] exI [of _ "replicate 64 0"]) (simp add: setId_def)
  qed
qed

lemma setBlob_total:
  assumes "length (j_blob J) = 96"
  shows "\<exists>ok J'. setBlob J s = Some (ok, J')"
proof (cases s)
  case None
  then have "setBlob J s = Some (False, J)" by (simp add: setBlob_def)
  then show ?thesis by blast
next
  case (Some t)
  then show ?thesis
    using setBlob_accepts [OF assms] setBlob_rejects [OF assms] by (cases "\<exists>bs. blob_string t bs") blast+
qed

text \<open>The result of \<open>parseJob\<close>: the job, if it is one, or nothing.\<close>

definition read_job :: "'d uv \<Rightarrow> 'd json \<Rightarrow> int \<Rightarrow> bool \<Rightarrow> url \<Rightarrow> job option" where
  "read_job E params cid nicehash url =
    (case params of
       JObject obj \<Rightarrow> do {
         (ok, job) \<leftarrow> Job_setId (Job_for cid nicehash (url_algo url) (u_variant url))
                        (GetString E (json_member obj (cstr ''job_id'')));
         if \<not> ok then None
         else do {
           (ok, job) \<leftarrow> setBlob job (GetString E (json_member obj (cstr ''blob'')));
           if \<not> ok then None
           else do {
             (ok, job) \<leftarrow> setTarget (st_target E) job (GetString E (json_member obj (cstr ''target'')));
             if \<not> ok then None
             else
               let job = (if HasMember obj (cstr ''coin'')
                          then setCoin job (GetString E (json_member obj (cstr ''coin''))) else job)
               in Some (if HasMember obj (cstr ''variant'')
                        then setVariant job (GetInt (js_int E) (json_member obj (cstr ''variant''))) else job)
           }
         }
       }
     | _ \<Rightarrow> None)"

lemma parseJob_eq:
  assumes "env_ok E"
  shows "parseJob E params C = Some
    (case read_job E params (c_id C) (c_nicehash C) (c_url C) of
       None \<Rightarrow> (False, C)
     | Some job \<Rightarrow> if Job_eq (c_job C) job then (False, Client_close C) else (True, C\<lparr>c_job := job\<rparr>))"
proof (cases params)
  case (JObject obj)
  let ?J = "Job_for (c_id C) (c_nicehash C) (url_algo (c_url C)) (u_variant (c_url C))"
  obtain ok1 d where 1: "setId (GetString E (json_member obj (cstr ''job_id''))) 0 = Some (ok1, d)"
    using setId_total by blast
  obtain ok2 J2 where 2: "setBlob (?J\<lparr>j_id := d\<rparr>) (GetString E (json_member obj (cstr ''blob''))) = Some (ok2, J2)"
    using setBlob_total [of "?J\<lparr>j_id := d\<rparr>" "GetString E (json_member obj (cstr ''blob''))"]
    by (simp add: Job_for_def) blast
  obtain ok3 J3 where 3: "setTarget (st_target E) J2 (GetString E (json_member obj (cstr ''target''))) = Some (ok3, J3)"
    using setTarget_total [of "st_target E"] assms unfolding env_ok_def by blast
  show ?thesis
    unfolding JObject parseJob_def read_job_def using 1 2 3
    by (simp add: Job_setId_def Let_def)
qed (simp_all add: parseJob_def read_job_def)

lemma frame_parseJob: "env_ok E \<Longrightarrow> \<exists>ok C'. parseJob E params C = Some (ok, C') \<and> frame C C'"
  by (auto simp: parseJob_eq intro: framing split: option.split)

lemma frame_parseLogin:
  assumes "env_ok E"
  shows "\<exists>ok C'. parseLogin E res C = Some (ok, C') \<and> frame C C'"
proof -
  obtain ok d where d: "setId (GetString E (json_member res (cstr ''id''))) 0 = Some (ok, d)" "length d = 64"
    using setId_total by blast
  let ?C1 = "C\<lparr>c_rpcId := d\<rparr>\<lparr>c_nicehash := u_nicehash (c_url C)\<rparr>"
  let ?C2 = "if HasMember res (cstr ''extensions'')
    then parseExtensions (json_member res (cstr ''extensions'')) ?C1 else ?C1"
  have f1: "frame C ?C1" by (rule frame_trans [OF frame_fields(7) [OF d(2)] frame_fields(2)])
  have "frame ?C1 ?C2" by (auto intro: framing)
  hence f2: "frame C ?C2" by (rule frame_trans [OF f1])
  obtain ok' C' where p: "parseJob E (json_member res (cstr ''job'')) ?C2 = Some (ok', C')" "frame ?C2 C'"
    using frame_parseJob [OF assms] by blast
  show ?thesis
  proof (cases ok)
    case True
    then have "parseLogin E res C = Some (ok', C')" using d(1) p(1) by (simp add: parseLogin_def)
    then show ?thesis using frame_trans [OF f2 p(2)] by blast
  next
    case False
    then have "parseLogin E res C = Some (False, C\<lparr>c_rpcId := d\<rparr>)" using d(1) by (simp add: parseLogin_def)
    then show ?thesis using frame_fields(7) [OF d(2)] by blast
  qed
qed

lemma frame_parseResponse:
  assumes "env_ok E"
  shows "\<exists>C'. parseResponse E rid result error C = Some C' \<and> frame C C'"
proof -
  have l: "\<exists>C'. (case result of
      JObject res \<Rightarrow> if rid = 1 then do {
          (ok, C) \<leftarrow> parseLogin E res C;
          if \<not> ok then Some (Client_close C)
          else let C = C\<lparr>c_failures := 0\<rparr>; C = notify E NotifyLogin C in Some (notify E (NotifyJob (c_job C)) C)
        } else Some (report_result E rid None C)
    | _ \<Rightarrow> Some C) = Some C' \<and> frame C C'"
  proof (cases result)
    case (JObject res)
    obtain ok C' where p: "parseLogin E res C = Some (ok, C')" "frame C C'"
      using frame_parseLogin [OF assms] by blast
    have "frame C (notify E (NotifyJob j) (notify E NotifyLogin (C'\<lparr>c_failures := 0\<rparr>)))" for j
      by (rule frame_trans [OF p(2) frame_trans [OF frame_fields(3) frame_trans [OF frame_notify frame_notify]]])
    then show ?thesis
      using p(1) frame_trans [OF p(2) frame_close] by (auto simp: JObject Let_def intro: framing)
  qed simp_all
  have "frame C (Client_close (report_result E rid m C))" for m
    by (rule frame_trans [OF frame_report frame_close])
  then show ?thesis
    using l unfolding parseResponse_def by (cases error) (simp_all add: Let_def frame_report)
qed

lemma frame_parseNotification:
  assumes "env_ok E"
  shows "\<exists>C'. parseNotification E m params error C = Some C' \<and> frame C C'"
proof -
  obtain ok C' where p: "parseJob E params C = Some (ok, C')" "frame C C'"
    using frame_parseJob [OF assms] by blast
  have "\<exists>C'. (case m of None \<Rightarrow> Some C | Some m \<Rightarrow> if m = cstr ''job'' then do {
      (ok, C) \<leftarrow> parseJob E params C; Some (if ok then notify E (NotifyJob (c_job C)) C else C) } else Some C)
      = Some C' \<and> frame C C'"
    using p by (auto intro: framing frame_trans [OF p(2)] split: option.split)
  then show ?thesis unfolding parseNotification_def by (cases error) auto
qed

lemma frame_parse:
  assumes "env_ok E"
  shows "\<exists>C'. Client_parse E line C = Some C' \<and> frame C C'"
proof -
  define C1 where "C1 = startTimeout C"
  have r: "\<exists>C'. parseResponse E rid result error C1 = Some C' \<and> frame C C'" for rid result error
    using frame_parseResponse [OF assms] frame_trans [OF frame_startTimeout] unfolding C1_def by blast
  have n: "\<exists>C'. parseNotification E m params error C1 = Some C' \<and> frame C C'" for m params error
    using frame_parseNotification [OF assms] frame_trans [OF frame_startTimeout] unfolding C1_def by blast
  have d: "\<exists>C'. (case json_member doc (cstr ''id'') of
      JInt rid \<Rightarrow> if IsInt64 rid then parseResponse E rid result error C1 else parseNotification E m params error C1
    | _ \<Rightarrow> parseNotification E m params error C1) = Some C' \<and> frame C C'" for doc result error m params
    using r n by (cases "json_member doc (cstr ''id'')") auto
  have s: "\<exists>C'. Some C1 = Some C' \<and> frame C C'" by (simp add: C1_def frame_startTimeout)
  show ?thesis
  proof (cases "js_parse E (c_string (butlast line))")
    case None
    then show ?thesis using s by (simp add: Client_parse_def C1_def [symmetric])
  next
    case (Some v)
    show ?thesis
    proof (cases "\<exists>doc. v = JObject doc \<and> \<not> (length line < 32 \<or> line ! 0 \<noteq> 0x7B)")
      case True
      then obtain doc where doc: "v = JObject doc" "\<not> (length line < 32 \<or> line ! 0 \<noteq> 0x7B)" by blast
      show ?thesis
        unfolding Client_parse_def C1_def [symmetric] Let_def Some doc(1)
        by (simp only: doc(2) if_False option.case json.case) (rule d)
    next
      case False
      then show ?thesis using s Some by (cases v) (auto simp: Client_parse_def C1_def [symmetric])
    qed
  qed
qed

section \<open>Lines\<close>

text \<open>A message does not depend on what else the buffer holds.\<close>

definition at_buf :: "bytes \<Rightarrow> nat \<Rightarrow> client \<Rightarrow> client" where
  "at_buf b p C = C\<lparr>c_buf := b, c_recvBufPos := p\<rparr>"

lemma at_buf_sel [simp]:
  "c_buf (at_buf b p C) = b" "c_recvBufPos (at_buf b p C) = p" "c_state (at_buf b p C) = c_state C"
  "c_socket (at_buf b p C) = c_socket C" "c_closing (at_buf b p C) = c_closing C" "c_url (at_buf b p C) = c_url C"
  "c_results (at_buf b p C) = c_results C" "c_job (at_buf b p C) = c_job C" "c_id (at_buf b p C) = c_id C"
  "c_nicehash (at_buf b p C) = c_nicehash C" "c_calls (at_buf b p C) = c_calls C"
  "at_buf b p (at_buf b' p' C) = at_buf b p C" "at_buf (c_buf C) (c_recvBufPos C) C = C"
  by (simp_all add: at_buf_def)

lemma at_buf_fields [simp]:
  "(at_buf b p C)\<lparr>c_job := j\<rparr> = at_buf b p (C\<lparr>c_job := j\<rparr>)"
  "(at_buf b p C)\<lparr>c_nicehash := n\<rparr> = at_buf b p (C\<lparr>c_nicehash := n\<rparr>)"
  "(at_buf b p C)\<lparr>c_failures := f\<rparr> = at_buf b p (C\<lparr>c_failures := f\<rparr>)"
  "(at_buf b p C)\<lparr>c_results := r\<rparr> = at_buf b p (C\<lparr>c_results := r\<rparr>)"
  "(at_buf b p C)\<lparr>c_expire := t\<rparr> = at_buf b p (C\<lparr>c_expire := t\<rparr>)"
  "(at_buf b p C)\<lparr>c_rpcId := i\<rparr> = at_buf b p (C\<lparr>c_rpcId := i\<rparr>)"
  "(at_buf b p C)\<lparr>c_state := s\<rparr> = at_buf b p (C\<lparr>c_state := s\<rparr>)"
  "(at_buf b p C)\<lparr>c_closing := s'\<rparr> = at_buf b p (C\<lparr>c_closing := s'\<rparr>)"
  "(at_buf b p C)\<lparr>c_buf := b'\<rparr> = at_buf b' p C" "(at_buf b p C)\<lparr>c_recvBufPos := p'\<rparr> = at_buf b p' C"
  "emit e (at_buf b p C) = at_buf b p (emit e C)"
  by (cases C; simp add: at_buf_def emit_def)+

lemma at_buf_close [simp]: "Client_close (at_buf b p C) = at_buf b p (Client_close C)"
  by (simp add: Client_close_def Let_def)

lemma at_buf_disconnect [simp]: "Client_disconnect (at_buf b p C) = at_buf b p (Client_disconnect C)"
proof -
  have "Client_disconnect C = Client_close ((emit KeepAliveStop C)\<lparr>c_expire := 0\<rparr>\<lparr>c_failures := -1\<rparr>)" for C
    by (simp add: Client_disconnect_def)
  thus ?thesis by simp
qed

lemma at_buf_notify [simp]: "notify E e (at_buf b p C) = at_buf b p (notify E e C)"
  by (simp add: notify_def Let_def)

lemma at_buf_startTimeout [simp]: "startTimeout (at_buf b p C) = at_buf b p (startTimeout C)"
  by (simp add: startTimeout_def Let_def)

lemma at_buf_report [simp]: "report_result E rid error (at_buf b p C) = at_buf b p (report_result E rid error C)"
  by (simp add: report_result_def Let_def split: option.split)

lemma at_buf_extensions [simp]: "parseExtensions v (at_buf b p C) = at_buf b p (parseExtensions v C)"
proof -
  have "fold (\<lambda>ext C. case ext of
      JString s \<Rightarrow> if c_string s = cstr ''nicehash'' then C\<lparr>c_nicehash := True\<rparr> else C | _ \<Rightarrow> C) exts (at_buf b p C) =
    at_buf b p (fold (\<lambda>ext C. case ext of
      JString s \<Rightarrow> if c_string s = cstr ''nicehash'' then C\<lparr>c_nicehash := True\<rparr> else C | _ \<Rightarrow> C) exts C)" for exts
    by (induction exts arbitrary: C) (simp_all split: json.split)
  thus ?thesis unfolding parseExtensions_def by (cases v) auto
qed

lemma at_buf_parseJob:
  assumes "env_ok E"
  shows "parseJob E params (at_buf b p C) = map_option (\<lambda>(ok, C). (ok, at_buf b p C)) (parseJob E params C)"
  by (simp add: parseJob_eq [OF assms] split: option.split)

lemma at_buf_parseLogin:
  assumes "env_ok E"
  shows "parseLogin E res (at_buf b p C) = map_option (\<lambda>(ok, C). (ok, at_buf b p C)) (parseLogin E res C)"
  unfolding parseLogin_def
  by (cases "setId (GetString E (json_member res (cstr ''id''))) 0")
    (auto simp: at_buf_parseJob [OF assms] Let_def)

lemma at_buf_parseResponse:
  assumes "env_ok E"
  shows "parseResponse E rid result error (at_buf b p C) = map_option (at_buf b p) (parseResponse E rid result error C)"
proof -
  have "do { (ok, C) \<leftarrow> parseLogin E res (at_buf b p C);
      if \<not> ok then Some (Client_close C)
      else Some (notify E (NotifyJob (c_job (notify E NotifyLogin (C\<lparr>c_failures := 0\<rparr>))))
                   (notify E NotifyLogin (C\<lparr>c_failures := 0\<rparr>))) } =
    map_option (at_buf b p) (do { (ok, C) \<leftarrow> parseLogin E res C;
      if \<not> ok then Some (Client_close C)
      else Some (notify E (NotifyJob (c_job (notify E NotifyLogin (C\<lparr>c_failures := 0\<rparr>))))
                   (notify E NotifyLogin (C\<lparr>c_failures := 0\<rparr>))) })" for res
    by (cases "parseLogin E res C") (auto simp: at_buf_parseLogin [OF assms])
  then show ?thesis
    unfolding parseResponse_def Let_def by (cases error; cases result) simp_all
qed

lemma at_buf_parseNotification:
  assumes "env_ok E"
  shows "parseNotification E m params error (at_buf b p C) =
    map_option (at_buf b p) (parseNotification E m params error C)"
proof -
  have "do { (ok, C) \<leftarrow> parseJob E params (at_buf b p C);
      Some (if ok then notify E (NotifyJob (c_job C)) C else C) } =
    map_option (at_buf b p) (do { (ok, C) \<leftarrow> parseJob E params C;
      Some (if ok then notify E (NotifyJob (c_job C)) C else C) })"
    by (cases "parseJob E params C") (auto simp: at_buf_parseJob [OF assms])
  then show ?thesis
    unfolding parseNotification_def by (cases error; cases m) simp_all
qed

lemma at_buf_parse:
  assumes "env_ok E"
  shows "Client_parse E line (at_buf b p C) = map_option (at_buf b p) (Client_parse E line C)"
  by (simp add: Client_parse_def Let_def at_buf_parseResponse [OF assms] at_buf_parseNotification [OF assms]
      split: option.split json.split)

text \<open>The lines of a piece of the stream, each with its line feed, and what is left of the last one.\<close>

function lines_of :: "bytes \<Rightarrow> bytes list \<times> bytes" where
  "lines_of s =
    (case memchr s 0x0A of
       None \<Rightarrow> ([], s)
     | Some i \<Rightarrow> let (ls, r) = lines_of (drop (i + 1) s) in (take (i + 1) s # ls, r))"
  by pat_completeness auto
termination
  by (relation "measure length") (auto dest!: memchr_less)

declare lines_of.simps [simp del]

fun parse_lines :: "(nat \<Rightarrow> 'd uv) \<Rightarrow> nat \<Rightarrow> bytes list \<Rightarrow> client \<Rightarrow> client option" where
  "parse_lines E k [] C = Some C"
| "parse_lines E k (l # ls) C = do {
     C \<leftarrow> Client_parse (E k) l C;
     parse_lines E (k + 1) ls C
   }"

lemma at_buf_parse_lines:
  assumes "\<forall>k. env_ok (E k)"
  shows "parse_lines E k ls (at_buf b p C) = map_option (at_buf b p) (parse_lines E k ls C)"
proof (induction ls arbitrary: k C)
  case (Cons l ls)
  then show ?case using assms by (cases "Client_parse (E k) l C") (simp_all add: at_buf_parse)
qed simp

lemma frame_parse_lines:
  assumes "\<forall>k. env_ok (E k)"
  shows "\<exists>C'. parse_lines E k ls C = Some C' \<and> frame C C'"
proof (induction ls arbitrary: k C)
  case (Cons l ls)
  obtain C1 where C1: "Client_parse (E k) l C = Some C1" "frame C C1" using frame_parse assms by blast
  obtain C' where "parse_lines E (k + 1) ls C1 = Some C'" "frame C1 C'" using Cons.IH by blast
  then show ?case using C1 frame_trans by fastforce
qed simp

lemma memchr_eq: "memchr s c = (if c \<in> set s then Some (length (takeWhile (\<lambda>x. x \<noteq> c) s)) else None)"
proof -
  have "length (takeWhile (\<lambda>x. x \<noteq> c) s) < length s \<longleftrightarrow> c \<in> set s"
    by (induction s) auto
  thus ?thesis by (simp add: memchr_def Let_def)
qed

lemma memchr_append: "memchr s c = Some i \<Longrightarrow> memchr (s @ t) c = Some i"
  by (auto simp: memchr_eq split: if_splits)

lemma lines_of_append:
  "lines_of s = (ls, r) \<Longrightarrow> lines_of (s @ t) = (ls @ fst (lines_of (r @ t)), snd (lines_of (r @ t)))"
proof (induction s arbitrary: ls rule: lines_of.induct)
  case (1 s)
  show ?case
  proof (cases "memchr s 0x0A")
    case None
    then have "ls = [] \<and> r = s" using 1(2) by (simp add: lines_of.simps [of s])
    then show ?thesis by simp
  next
    case (Some i)
    obtain ls' r' where d: "lines_of (drop (i + 1) s) = (ls', r')" by fastforce
    have ls: "ls = take (i + 1) s # ls'" "r' = r"
      using 1(2) Some d by (simp_all add: lines_of.simps [of s])
    have "i + 1 \<le> length s" using memchr_less [OF Some] by simp
    then show ?thesis
      using 1(1) [OF Some d [unfolded ls(2)]] memchr_append [OF Some, of t] ls
      by (simp add: lines_of.simps [of "s @ t"] split: prod.split)
  qed
qed

lemma lines_of_rest: "0x0A \<notin> set (snd (lines_of s))"
proof (induction s rule: lines_of.induct)
  case (1 s)
  then show ?case
    by (cases "memchr s 0x0A") (auto simp: lines_of.simps [of s] memchr_eq split: prod.split if_splits)
qed

lemma lines_of_concat: "concat (fst (lines_of s)) @ snd (lines_of s) = s"
proof (induction s rule: lines_of.induct)
  case (1 s)
  show ?case
  proof (cases "memchr s 0x0A")
    case None
    then show ?thesis by (simp add: lines_of.simps [of s])
  next
    case (Some i)
    obtain ls r where d: "lines_of (drop (i + 1) s) = (ls, r)" by fastforce
    then show ?thesis
      using 1 [OF Some] by (simp add: lines_of.simps [of s] Some d)
  qed
qed

text \<open>The loop reads the lines of the bytes from \<open>start\<close> on and stops at what is left.\<close>

lemma read_loop_lines:
  assumes E: "\<forall>k. env_ok (E k)"
  shows "start + remaining \<le> length (c_buf C) \<Longrightarrow>
    lines_of (take remaining (drop start (c_buf C))) = (ls, r) \<Longrightarrow>
    \<exists>C' b. parse_lines E k ls C = Some C' \<and>
      read_loop E k start remaining C = Some (start + remaining - length r, length r, at_buf b (c_recvBufPos C) C') \<and>
      length b = length (c_buf C) \<and> drop (start + remaining - length r) b = drop (start + remaining - length r) (c_buf C) \<and>
      length r \<le> remaining"
proof (induction "length ls" arbitrary: k start remaining C ls)
  case 0
  then have "memchr (take remaining (drop start (c_buf C))) 0x0A = None" "r = take remaining (drop start (c_buf C))"
    by (auto simp: lines_of.simps [of "take remaining (drop start (c_buf C))"] split: option.splits prod.splits)
  moreover have "ls = []" using 0(1) by simp
  ultimately show ?case
    using 0(2) by (intro exI [of _ C] exI [of _ "c_buf C"]) (simp add: read_loop.simps [of E k])
next
  case (Suc n)
  let ?s = "take remaining (drop start (c_buf C))"
  obtain i where i: "memchr ?s 0x0A = Some i"
    using Suc(2,4) by (cases "memchr ?s 0x0A") (auto simp: lines_of.simps [of ?s])
  obtain ls' where d: "lines_of (drop (i + 1) ?s) = (ls', r)" and ls: "ls = take (i + 1) ?s # ls'"
    using Suc(4) i by (auto simp: lines_of.simps [of ?s] split: prod.splits)
  have il: "i < length ?s" by (rule memchr_less [OF i])
  hence ir: "i + 1 \<le> remaining" "start + i < length (c_buf C)" by auto
  define b0 where "b0 = (c_buf C)[start + i := 0]"
  have line: "take (i + 1) (drop start (c_buf C)) = take (i + 1) ?s" using ir(1) by (simp add: min_def)
  obtain C1 where C1: "Client_parse (E k) (take (i + 1) ?s) C = Some C1" "frame C C1"
    using frame_parse E by blast
  have p: "Client_parse (E k) (take (i + 1) ?s) (C\<lparr>c_buf := b0\<rparr>) = Some (at_buf b0 (c_recvBufPos C) C1)"
  proof -
    have "C\<lparr>c_buf := b0\<rparr> = at_buf b0 (c_recvBufPos C) C" by (simp add: at_buf_def)
    thus ?thesis using C1(1) E by (simp add: at_buf_parse)
  qed
  have rest: "take (remaining - (i + 1)) (drop (start + (i + 1)) b0) = drop (i + 1) ?s"
    by (simp add: b0_def drop_take add.commute)
  let ?C = "at_buf b0 (c_recvBufPos C) C1"
  have "start + (i + 1) + (remaining - (i + 1)) \<le> length (c_buf ?C)"
    using Suc(3) ir(1) by (simp add: b0_def)
  moreover have "lines_of (take (remaining - (i + 1)) (drop (start + (i + 1)) (c_buf ?C))) = (ls', r)"
    using rest d by simp
  moreover have "n = length ls'" using Suc(2) ls by simp
  ultimately obtain C2 b where C2: "parse_lines E (k + 1) ls' ?C = Some C2"
    "read_loop E (k + 1) (start + (i + 1)) (remaining - (i + 1)) ?C =
      Some (start + remaining - length r, length r, at_buf b (c_recvBufPos C) C2)"
    "length b = length (c_buf C)" "drop (start + remaining - length r) b = drop (start + remaining - length r) b0"
    "length r \<le> remaining - (i + 1)"
    using Suc(1) [of ls' "start + (i + 1)" "remaining - (i + 1)" ?C "k + 1"] ir(1) by (auto simp: b0_def)
  obtain C' where C': "parse_lines E (k + 1) ls' C1 = Some C'" using frame_parse_lines [OF E] by blast
  hence "C2 = at_buf b0 (c_recvBufPos C) C'" using C2(1) by (simp add: at_buf_parse_lines [OF E])
  hence view: "at_buf b (c_recvBufPos C) C2 = at_buf b (c_recvBufPos C) C'" by simp
  have "read_loop E k start remaining C = read_loop E (k + 1) (start + (i + 1)) (remaining - (i + 1)) ?C"
    using i p [folded line] ir(2) by (subst read_loop.simps) (simp add: Let_def put_at_Some b0_def)
  moreover have "drop (start + remaining - length r) b0 = drop (start + remaining - length r) (c_buf C)"
    using C2(5) ir(1) by (simp add: b0_def)
  moreover have "parse_lines E k ls C = Some C'" using C1(1) C' by (simp add: ls)
  ultimately show ?case using C2(2-5) view by (intro exI [of _ C'] exI [of _ b]) simp
qed

section \<open>Reading a stream\<close>

definition pending :: "client \<Rightarrow> bytes" where
  "pending C = take (c_recvBufPos C) (c_buf C)"

definition buf_ok :: "client \<Rightarrow> bool" where
  "buf_ok C \<longleftrightarrow> length (c_buf C) = 2048 \<and> c_recvBufPos C \<le> 2040"

text \<open>
  What the C standard says of \<open>memcpy(b, b + i, n)\<close>, and what the code relies on, which is what it
  says of \<open>memmove\<close>.
\<close>

definition copies_apart :: "'d uv \<Rightarrow> bool" where
  "copies_apart E \<longleftrightarrow> (\<forall>b i n. n \<le> i \<longrightarrow> i + n \<le> length b \<longrightarrow> take n (mem_cpy E b i n) = take n (drop i b))"

definition moves :: "'d uv \<Rightarrow> bool" where
  "moves E \<longleftrightarrow> (\<forall>b i n. i + n \<le> length b \<longrightarrow> take n (mem_cpy E b i n) = take n (drop i b))"

lemma room_left:
  assumes "p \<le> 2040" "n \<le> 2048"
  shows "(of_nat n :: u64) > 2048 - 8 - of_nat p \<longleftrightarrow> p + n > 2040"
proof -
  have e: "2048 - 8 - of_nat p = (of_nat (2040 - p) :: u64)" using assms(1) by (simp add: of_nat_diff)
  have u: "unat (of_nat m :: u64) = m" if "m < 2 ^ 64" for m
    using that by (simp add: unsigned_of_nat take_bit_nat_eq_self_iff)
  have "unat (of_nat (2040 - p) :: u64) = 2040 - p" "unat (of_nat n :: u64) = n"
    by (rule u, use assms in simp)+
  thus ?thesis unfolding e word_less_nat_alt using assms by linarith
qed

lemma pending_split: "buf_ok C \<Longrightarrow> length (pending C) = c_recvBufPos C"
  by (simp add: pending_def buf_ok_def)

lemma onRead_room:
  assumes ok: "buf_ok C" and fit: "c_recvBufPos C + length d \<le> 2040"
    and E: "\<forall>k. env_ok (E k)" and l: "lines_of (pending C @ d) = (ls, r)" and p: "parse_lines E 0 ls C = Some C'"
  shows "\<exists>b. length b = 2048 \<and> take (length r) (drop (c_recvBufPos C + length d - length r) b) = r \<and>
    length r \<le> c_recvBufPos C + length d \<and>
    onRead E d C = Some (if r = [] then at_buf b 0 C'
      else if length r = c_recvBufPos C + length d then at_buf b (length r) C'
      else at_buf (mem_cpy (E 0) b (c_recvBufPos C + length d - length r) (length r)) (length r) C')"
proof -
  let ?pos = "c_recvBufPos C" and ?n = "c_recvBufPos C + length d"
  have lb: "length (c_buf C) = 2048" "?pos \<le> 2040" using ok by (simp_all add: buf_ok_def)
  define b0 where "b0 = take ?pos (c_buf C) @ d @ drop ?n (c_buf C)"
  have b0: "length b0 = 2048" using lb fit by (simp add: b0_def)
  have st: "store (c_buf C) ?pos d = Some b0" using lb fit by (simp add: store_Some b0_def add.commute)
  have "take ?n b0 = pending C @ d" using lb by (simp add: b0_def pending_def)
  hence "lines_of (take ?n (drop 0 (c_buf (at_buf b0 ?n C)))) = (ls, r)" using l by simp
  moreover have "0 + ?n \<le> length (c_buf (at_buf b0 ?n C))" using b0 fit by simp
  ultimately obtain C1 b where C1: "parse_lines E 0 ls (at_buf b0 ?n C) = Some C1"
    "read_loop E 0 0 ?n (at_buf b0 ?n C) = Some (?n - length r, length r, at_buf b ?n C1)"
    "length b = 2048" "drop (?n - length r) b = drop (?n - length r) b0" "length r \<le> ?n"
    using read_loop_lines [OF E, of 0 ?n "at_buf b0 ?n C" ls r 0] b0 by auto
  have "C1 = at_buf b0 ?n C'" using C1(1) p by (simp add: at_buf_parse_lines [OF E])
  hence loop: "read_loop E 0 0 ?n (at_buf b0 ?n C) = Some (?n - length r, length r, at_buf b ?n C')"
    using C1(2) by simp
  have "take (length r) (drop (?n - length r) b0) = drop (?n - length r) (take ?n b0)"
    using C1(5) by (simp add: drop_take)
  also have "\<dots> = drop (?n - length r) (concat ls @ r)"
    using lines_of_concat [of "pending C @ d"] l \<open>take ?n b0 = pending C @ d\<close> by simp
  also have "\<dots> = r"
  proof -
    have "?n = length (concat ls) + length r"
      using arg_cong [OF lines_of_concat [of "pending C @ d"], of length] l pending_split [OF ok] by simp
    thus ?thesis by simp
  qed
  finally have tail: "take (length r) (drop (?n - length r) b) = r" using C1(4) by simp
  have upd: "C\<lparr>c_buf := b0\<rparr>\<lparr>c_recvBufPos := ?n\<rparr> = at_buf b0 ?n C" by (simp add: at_buf_def)
  have "onRead E d C = (if length r = 0 then Some (at_buf b 0 C')
      else if ?n - length r = 0 then Some (at_buf b ?n C')
      else Some (at_buf (mem_cpy (E 0) b (?n - length r) (length r)) (length r) C'))"
    using st loop room_left [of ?pos "length d"] lb fit
    by (simp add: onRead_def onAllocBuffer_def upd Let_def)
  then show ?thesis using C1(3,5) tail by (intro exI [of _ b]) auto
qed

lemma onRead_lines:
  assumes "buf_ok C" "c_recvBufPos C + length d \<le> 2040" "\<forall>k. env_ok (E k)" "moves (E 0)"
    "lines_of (pending C @ d) = (ls, r)" "parse_lines E 0 ls C = Some C'"
  shows "\<exists>b. onRead E d C = Some (at_buf b (length r) C') \<and> buf_ok (at_buf b (length r) C') \<and>
    pending (at_buf b (length r) C') = r"
proof -
  let ?n = "c_recvBufPos C + length d"
  obtain b where b: "length b = 2048" "take (length r) (drop (?n - length r) b) = r" "length r \<le> ?n"
    "onRead E d C = Some (if r = [] then at_buf b 0 C' else if length r = ?n then at_buf b (length r) C'
      else at_buf (mem_cpy (E 0) b (?n - length r) (length r)) (length r) C')"
    using onRead_room [OF assms(1-3,5,6)] by blast
  let ?b = "mem_cpy (E 0) b (?n - length r) (length r)"
  have lb: "length ?b = 2048" using assms(3) b(1) by (simp add: env_ok_def)
  have "?n - length r + length r \<le> length b" using b(1,3) assms(2) by simp
  hence "take (length r) ?b = take (length r) (drop (?n - length r) b)" using assms(4) unfolding moves_def by blast
  hence "take (length r) ?b = r" using b(2) by simp
  consider "r = []" | "r \<noteq> []" "length r = ?n" | "r \<noteq> []" "length r \<noteq> ?n" by blast
  then show ?thesis
  proof cases
    case 1
    then show ?thesis using b(1,4) by (intro exI [of _ b]) (simp add: buf_ok_def pending_def)
  next
    case 2
    then have "take (length r) b = r" using b(2) by simp
    then show ?thesis using 2 b(1,4) assms(2) by (intro exI [of _ b]) (simp add: buf_ok_def pending_def)
  next
    case 3
    have "length r \<le> 2040" using b(3) assms(2) by simp
    then show ?thesis
      using 3 b(4) lb \<open>take (length r) ?b = r\<close> by (intro exI [of _ ?b]) (simp add: buf_ok_def pending_def)
  qed
qed

lemma onRead_full:
  assumes "buf_ok C" "c_recvBufPos C + length d > 2040" "length d \<le> 2048 - c_recvBufPos C"
  shows "\<exists>b. length b = 2048 \<and> onRead E d C = Some (Client_close (C\<lparr>c_buf := b\<rparr>))"
proof -
  have l: "length (c_buf C) = 2048" "c_recvBufPos C \<le> 2040" "length d \<le> 2048" using assms by (auto simp: buf_ok_def)
  have "c_recvBufPos C + length d \<le> length (c_buf C)" using assms(3) l by simp
  from store_Some [OF this] obtain b where "store (c_buf C) (c_recvBufPos C) d = Some b" by blast
  moreover from store_length [OF this] have "length b = 2048" using l by simp
  ultimately show ?thesis
    using room_left [of "c_recvBufPos C" "length d"] l assms(2)
    by (auto simp: onRead_def onAllocBuffer_def)
qed

text \<open>Chunk after chunk of a stream, each finding room behind what is left of the ones before.\<close>

fun chunks_fit :: "bytes \<Rightarrow> bytes list \<Rightarrow> bool" where
  "chunks_fit r [] = True"
| "chunks_fit r (d # ds) \<longleftrightarrow> length r + length d \<le> 2040 \<and> chunks_fit (snd (lines_of (r @ d))) ds"

lemma parse_lines_shift: "parse_lines (\<lambda>k. E) k ls C = parse_lines (\<lambda>k. E) j ls C"
proof (induction ls arbitrary: k j C)
  case (Cons l ls)
  show ?case using Cons.IH [of "k + 1" _ "j + 1"] by (cases "Client_parse E l C") simp_all
qed simp

lemma parse_lines_append:
  "parse_lines (\<lambda>k. E) k (ls @ ls') C = Option.bind (parse_lines (\<lambda>k. E) k ls C) (parse_lines (\<lambda>k. E) k ls')"
proof (induction ls arbitrary: k C)
  case (Cons l ls)
  have "parse_lines (\<lambda>k. E) (k + 1) ls' = parse_lines (\<lambda>k. E) k ls'"
    by (rule ext) (rule parse_lines_shift)
  then show ?case using Cons.IH [of "k + 1"] by (cases "Client_parse E l C") simp_all
qed simp

lemma lines_of_none: "0x0A \<notin> set s \<Longrightarrow> lines_of s = ([], s)"
  by (simp add: lines_of.simps [of s] memchr_eq)

lemma read_chunks:
  assumes E: "env_ok E" "moves E"
  shows "buf_ok C \<Longrightarrow> 0x0A \<notin> set (pending C) \<Longrightarrow> chunks_fit (pending C) ds \<Longrightarrow>
    \<exists>C' b p. each (onRead (\<lambda>k. E)) ds C = Some (at_buf b p C') \<and>
      parse_lines (\<lambda>k. E) 0 (fst (lines_of (pending C @ concat ds))) C = Some C' \<and>
      buf_ok (at_buf b p C') \<and> pending (at_buf b p C') = snd (lines_of (pending C @ concat ds))"
proof (induction ds arbitrary: C)
  case Nil
  then show ?case
    by (intro exI [of _ C] exI [of _ "c_buf C"] exI [of _ "c_recvBufPos C"]) (simp add: lines_of_none)
next
  case (Cons d ds)
  obtain ls r where lr: "lines_of (pending C @ d) = (ls, r)" by fastforce
  obtain C1 where C1: "parse_lines (\<lambda>k. E) 0 ls C = Some C1"
    using frame_parse_lines [of "\<lambda>k. E"] E(1) by blast
  have "c_recvBufPos C + length d \<le> 2040" using Cons.prems pending_split by simp
  then obtain b1 where b1: "onRead (\<lambda>k. E) d C = Some (at_buf b1 (length r) C1)"
    "buf_ok (at_buf b1 (length r) C1)" "pending (at_buf b1 (length r) C1) = r"
    using onRead_lines [OF Cons.prems(1) _ _ _ lr C1] E by blast
  have "0x0A \<notin> set r" using lines_of_rest [of "pending C @ d"] lr by simp
  then obtain C2 b p where C2: "each (onRead (\<lambda>k. E)) ds (at_buf b1 (length r) C1) = Some (at_buf b p C2)"
    "parse_lines (\<lambda>k. E) 0 (fst (lines_of (r @ concat ds))) (at_buf b1 (length r) C1) = Some C2"
    "buf_ok (at_buf b p C2)" "pending (at_buf b p C2) = snd (lines_of (r @ concat ds))"
    using Cons.IH [OF b1(2)] Cons.prems(3) b1(3) lr by auto
  obtain C' where C': "parse_lines (\<lambda>k. E) 0 (fst (lines_of (r @ concat ds))) C1 = Some C'"
    using frame_parse_lines [of "\<lambda>k. E"] E(1) by blast
  hence v: "C2 = at_buf b1 (length r) C'" using C2(2) E(1) by (simp add: at_buf_parse_lines)
  have "lines_of (pending C @ concat (d # ds)) = (ls @ fst (lines_of (r @ concat ds)), snd (lines_of (r @ concat ds)))"
    using lines_of_append [OF lr, of "concat ds"] by simp
  then show ?case
    using b1(1) C1 C2(1,3,4) C' v
    by (intro exI [of _ C'] exI [of _ b] exI [of _ p]) (simp add: parse_lines_append)
qed

text \<open>A \<open>memcpy\<close> that goes wrong on overlapping ranges is allowed to.\<close>

lemma overlap_corrupts:
  assumes ok: "buf_ok C" "c_recvBufPos C = 0" and E: "env_ok E"
    and d: "0x0A \<notin> set l" "0x0A \<notin> set r" "length l + 1 < length r" "length l + 1 + length r \<le> 2040"
  shows "\<exists>m C'. copies_apart (E\<lparr>mem_cpy := m\<rparr>) \<and> env_ok (E\<lparr>mem_cpy := m\<rparr>) \<and>
    onRead (\<lambda>k. E\<lparr>mem_cpy := m\<rparr>) (l @ [0x0A] @ r) C = Some C' \<and> c_recvBufPos C' = length r \<and> pending C' \<noteq> r"
proof -
  let ?d = "l @ [0x0A] @ r"
  define m :: "bytes \<Rightarrow> nat \<Rightarrow> nat \<Rightarrow> bytes" where
    "m b i n = take (length b) ((if n \<le> i then take n (drop i b) else map (\<lambda>x. x + 1) (take n (drop i b))) @ drop n b @ b)" for b i n
  let ?E = "E\<lparr>mem_cpy := m\<rparr>"
  have len: "length (m b i n) = length b" for b i n
  proof -
    have "length (take (length b) (x @ b)) = length b" for x :: bytes by (simp del: take_append)
    thus ?thesis unfolding m_def append_assoc [symmetric] .
  qed
  have E': "env_ok ?E" using E by (simp add: env_ok_def len)
  have c: "copies_apart ?E" by (simp add: copies_apart_def m_def)
  have "takeWhile (\<lambda>x. x \<noteq> 0x0A) ?d = l" using d(1) by (subst takeWhile_append2) auto
  hence "memchr ?d 0x0A = Some (length l)" by (simp add: memchr_eq)
  hence lr: "lines_of (pending C @ ?d) = ([l @ [0x0A]], r)"
    using ok(2) lines_of_none [OF d(2)] by (simp add: lines_of.simps [of "l @ 0x0A # r"] pending_def)
  obtain C1 where C1: "parse_lines (\<lambda>k. ?E) 0 [l @ [0x0A]] C = Some C1"
    using frame_parse_lines [of "\<lambda>k. ?E"] E' by blast
  have fit: "c_recvBufPos C + length ?d \<le> 2040" using d(4) ok(2) by simp
  have start: "c_recvBufPos C + length ?d - length r = length l + 1" "r \<noteq> []" "length r \<noteq> c_recvBufPos C + length ?d"
    using ok(2) d(3) by auto
  obtain b where b: "length b = 2048" "take (length r) (drop (length l + 1) b) = r"
    "onRead (\<lambda>k. ?E) ?d C = Some (at_buf (m b (length l + 1) (length r)) (length r) C1)"
    using onRead_room [OF ok(1) fit _ lr C1] E' start by auto
  have "take (length r) (m b (length l + 1) (length r)) = map (\<lambda>x. x + 1) (take (length r) (drop (length l + 1) b))"
    using b(1) d(3,4) by (simp add: m_def)
  hence p: "pending (at_buf (m b (length l + 1) (length r)) (length r) C1) = map (\<lambda>x. x + 1) r"
    unfolding pending_def b(2) by simp
  moreover have "map (\<lambda>x. x + 1) r \<noteq> r" using start(2) by (cases r) auto
  ultimately show ?thesis using c E' b(3) by (intro exI [of _ m] exI) auto
qed

section \<open>The states of a connection\<close>

text \<open>
  What holds of the connection and of the buffers, whatever the strategies call. A connect may come in
  any state, and the callbacks of the connection before it still come after it.
\<close>

definition phase_ok :: "client \<Rightarrow> bool" where
  "phase_ok C \<longleftrightarrow>
    (c_socket C \<or> \<not> c_stream C \<and> \<not> c_connecting C \<and> \<not> c_closing C) \<and> (c_stream C \<longrightarrow> \<not> c_connecting C) \<and>
    (case c_state C of
       UnconnectedState \<Rightarrow> \<not> c_socket C \<and> \<not> c_resolving C
     | HostLookupState \<Rightarrow> c_expire C = 0
     | ConnectingState \<Rightarrow> True
     | ConnectedState \<Rightarrow> c_stream C \<and> \<not> c_closing C
     | ClosingState \<Rightarrow> c_closing C)"

definition client_inv :: "client \<Rightarrow> bool" where
  "client_inv C \<longleftrightarrow> buf_ok C \<and> length (c_sendBuf C) = 768 \<and> length (c_rpcId C) = 64 \<and> -1 \<le> c_failures C \<and> phase_ok C"

lemma inv_fields [simp]:
  "client_inv (C\<lparr>c_results := r\<rparr>) = client_inv C"
  "client_inv (C\<lparr>c_sequence := n\<rparr>) = client_inv C" "client_inv (C\<lparr>c_ip := i\<rparr>) = client_inv C"
  "client_inv (C\<lparr>c_ipv6 := v\<rparr>) = client_inv C" "client_inv (emit e C) = client_inv C"
  "length b = 768 \<Longrightarrow> client_inv C \<Longrightarrow> client_inv (C\<lparr>c_sendBuf := b\<rparr>)"
  "c_state C \<noteq> HostLookupState \<Longrightarrow> client_inv (C\<lparr>c_expire := t\<rparr>) = client_inv C"
  "client_inv C \<Longrightarrow> -1 \<le> f \<Longrightarrow> client_inv (C\<lparr>c_failures := f\<rparr>)"
  by (auto simp: client_inv_def buf_ok_def phase_ok_def emit_def split: socket_state.split)

lemma inv_frame:
  assumes "client_inv C" "frame C C'"
  shows "client_inv C'"
  using assms unfolding client_inv_def buf_ok_def frame_def closed_or_same_def phase_ok_def
  by (cases "c_state C"; cases "c_state C' = c_state C") auto

lemma inv_close: "client_inv C \<Longrightarrow> client_inv (Client_close C)"
  and inv_disconnect: "client_inv C \<Longrightarrow> client_inv (Client_disconnect C)"
  and inv_notify: "client_inv C \<Longrightarrow> client_inv (notify E e C)"
  by (rule inv_frame [OF _ frame_close] inv_frame [OF _ frame_disconnect] inv_frame [OF _ frame_notify]; assumption)+

text \<open>A call of the listener closes a client at most.\<close>

lemma notify_state: "c_state (notify E e C) = c_state C \<or> c_state (notify E e C) = ClosingState"
  using frame_notify [of C E e] by (auto simp: frame_def closed_or_same_def)

lemma inv_reconnect:
  assumes "client_inv (C\<lparr>c_state := ConnectingState\<rparr>)"
  shows "client_inv (Client_reconnect E C)"
proof -
  define C1 where "C1 = (if u_keepAlive (c_url C) then emit KeepAliveStop (C\<lparr>c_state := ConnectingState\<rparr>)
    else C\<lparr>c_state := ConnectingState\<rparr>)"
  have C1: "client_inv C1" "c_state C1 = ConnectingState" using assms by (simp_all add: C1_def)
  have "-1 \<le> c_failures C1 + 1" using C1(1) by (simp add: client_inv_def)
  hence n: "client_inv (notify E e (C1\<lparr>c_failures := c_failures C1 + 1\<rparr>))" for e
    by (rule inv_notify [OF inv_fields(8) [OF C1(1)]])
  have "c_state (notify E e (C1\<lparr>c_failures := f\<rparr>)) \<noteq> HostLookupState" for e f
    using notify_state [of E e "C1\<lparr>c_failures := f\<rparr>"] C1(2) by auto
  hence t: "client_inv (notify E e (C1\<lparr>c_failures := c_failures C1 + 1\<rparr>)\<lparr>c_expire := t\<rparr>)" for e t
    using n inv_fields(7) by blast
  have "Client_reconnect E C = (if c_failures C1 = -1 then notify E (NotifyClose (-1)) C1
      else (notify E (NotifyClose (to_int (c_failures C1 + 1))) (C1\<lparr>c_failures := c_failures C1 + 1\<rparr>))
        \<lparr>c_expire := uv_now E + of_int (c_retryPause (notify E (NotifyClose (to_int (c_failures C1 + 1)))
          (C1\<lparr>c_failures := c_failures C1 + 1\<rparr>)))\<rparr>)"
    by (simp add: Client_reconnect_def C1_def Let_def)
  then show ?thesis using t inv_notify [OF C1(1), where E = E] by simp
qed

section \<open>Every step keeps the invariant\<close>

text \<open>
  A connect reuses the request of a lookup that is in progress, and an address that is found replaces
  a handle that is still there.
\<close>

lemma connect_inv:
  assumes "client_inv C"
  shows "if c_resolving C then Client_connect E C = None else \<exists>C'. Client_connect E C = Some C' \<and> client_inv C'"
  using assms
  by (auto simp: Client_connect_def Client_resolve_def Let_def client_inv_def phase_ok_def buf_ok_def emit_def
      split: socket_state.splits)

definition tick_due :: "'d uv \<Rightarrow> client \<Rightarrow> bool" where
  "tick_due E C \<longleftrightarrow> c_expire C \<noteq> 0 \<and> c_expire C \<le> uv_now E"

lemma tick_eq:
  assumes "client_inv C"
  shows "Client_tick E C =
    (if \<not> tick_due E C then Some C
     else case c_state C of ConnectedState \<Rightarrow> Some (Client_close C) | ConnectingState \<Rightarrow> Client_connect E C | _ \<Rightarrow> Some C)"
proof -
  have "c_state (Client_close C) = ClosingState" if "c_state C = ConnectedState"
    using assms that by (auto simp: Client_close_def client_inv_def phase_ok_def Let_def)
  then show ?thesis by (cases "c_state C") (auto simp: Client_tick_def tick_due_def Let_def)
qed

lemma tick_inv:
  assumes "client_inv C"
  shows "if tick_due E C \<and> c_state C = ConnectingState \<and> c_resolving C then Client_tick E C = None
    else \<exists>C'. Client_tick E C = Some C' \<and> client_inv C'"
  using connect_inv [OF assms, of E] inv_close [OF assms] assms unfolding tick_eq [OF assms]
  by (cases "c_state C") (auto split: if_splits)

definition usable :: "address list option \<Rightarrow> bool" where
  "usable res \<longleftrightarrow> (case res of None \<Rightarrow> False | Some addrs \<Rightarrow> \<exists>a \<in> set addrs. fst a = Inet \<or> fst a = Inet6)"

lemma onResolved_eq:
  "\<exists>addr v6. onResolved E res C =
    (if \<not> usable res then Some (Client_reconnect E (C\<lparr>c_resolving := False\<rparr>))
     else connect_address E addr (C\<lparr>c_resolving := False\<rparr>\<lparr>c_ipv6 := v6\<rparr>\<lparr>c_ip := snd addr\<rparr>))"
proof (cases "usable res")
  case False
  then show ?thesis
    by (cases res) (auto simp: onResolved_def usable_def Let_def filter_empty_conv split: if_splits)
next
  case True
  then obtain addrs where res: "res = Some addrs" by (auto simp: usable_def split: option.splits)
  let ?v4 = "filter (\<lambda>a. fst a = Inet) addrs" and ?v6 = "filter (\<lambda>a. fst a = Inet6) addrs"
  let ?addrs = "if ?v4 = [] \<and> ?v6 \<noteq> [] then ?v6 else ?v4"
  have "\<not> (?v4 = [] \<and> ?v6 = [])" using True by (auto simp: res usable_def filter_empty_conv)
  hence ne: "?addrs \<noteq> []" and e: "onResolved E res C = connect_addresses E ?v4 ?v6 (C\<lparr>c_resolving := False\<rparr>)"
    by (auto simp: onResolved_def res Let_def)
  have "(if length ?addrs = 1 then 0 else uv_rand E mod length ?addrs) < length ?addrs" using ne by auto
  then obtain addr where a: "get_at ?addrs (if length ?addrs = 1 then 0 else uv_rand E mod length ?addrs) = Some addr"
    by (simp only: get_at_Some)
  have "onResolved E res C =
      connect_address E addr (C\<lparr>c_resolving := False\<rparr>\<lparr>c_ipv6 := (?v4 = [] \<and> ?v6 \<noteq> [])\<rparr>\<lparr>c_ip := snd addr\<rparr>)"
    using a unfolding e by (simp add: connect_addresses_def Let_def split del: if_split cong: if_cong)
  then show ?thesis using True by (intro exI [of _ addr] exI) simp
qed

lemma resolved_inv:
  assumes "client_inv C" "c_resolving C"
  shows "if c_socket C \<and> usable res then onResolved E res C = None
    else \<exists>C'. onResolved E res C = Some C' \<and> client_inv C'"
proof -
  obtain addr v6 where e: "onResolved E res C =
    (if \<not> usable res then Some (Client_reconnect E (C\<lparr>c_resolving := False\<rparr>))
     else connect_address E addr (C\<lparr>c_resolving := False\<rparr>\<lparr>c_ipv6 := v6\<rparr>\<lparr>c_ip := snd addr\<rparr>))"
    using onResolved_eq by blast
  have "client_inv (C\<lparr>c_resolving := False\<rparr>\<lparr>c_state := ConnectingState\<rparr>)"
    using assms by (auto simp: client_inv_def buf_ok_def phase_ok_def split: socket_state.splits)
  then show ?thesis
    using assms inv_reconnect [of "C\<lparr>c_resolving := False\<rparr>" E] unfolding e
    by (auto simp: connect_address_def Let_def client_inv_def buf_ok_def phase_ok_def split: socket_state.splits)
qed

lemma send_inv:
  assumes "client_inv C" "n \<le> 768"
  shows "\<exists>C'. Client_send E n C = Some C' \<and> client_inv C'"
proof -
  have "length (c_sendBuf C) = 768" using assms(1) by (simp add: client_inv_def)
  hence l: "load (c_sendBuf C) 0 n = Some (take n (c_sendBuf C))" using assms(2) by (simp add: load_Some)
  have st: "c_state C = ConnectedState \<Longrightarrow> c_stream C" using assms(1) by (simp add: client_inv_def phase_ok_def)
  show ?thesis
  proof (cases "c_state C = ConnectedState \<and> uv_writable E")
    case True
    let ?C = "emit (UvWrite (take (nat (uv_try_write E (take n (c_sendBuf C)))) (take n (c_sendBuf C)))) C"
    have e: "c_state ?C = ConnectedState" using True by (simp add: emit_def)
    have "client_inv (?C\<lparr>c_expire := t\<rparr>\<lparr>c_sequence := k\<rparr>)" for t k
      using inv_fields(7) [of ?C t] e assms(1) by simp
    then show ?thesis
      using True st l inv_close [OF assms(1)] by (simp add: Client_send_def Let_def)
  next
    case False
    then show ?thesis using st assms(1) by (auto simp: Client_send_def)
  qed
qed

lemma print_inv: "client_inv C \<Longrightarrow> client_inv (print_send s C)"
  unfolding print_send_def Let_def by (rule inv_fields(6)) (auto simp: client_inv_def snprintf_string_def)

lemma texts_fit:
  assumes "n < 2 ^ 64" "length r = 64" "length j = 64" "length nonce \<le> 8" "length data \<le> 64"
  shows "length (submit_text n (JobId_data r) (JobId_data j) nonce data) \<le> 768"
    "length (ping_text n (JobId_data r)) \<le> 768"
proof -
  have d: "length (decimal n) \<le> 20" using length_decimal [of 20 n] assms(1) by simp
  have "length (JobId_data r) \<le> 64" "length (JobId_data j) \<le> 64"
    using assms(2,3) length_takeWhile_le unfolding JobId_data_def by metis+
  then show "length (submit_text n (JobId_data r) (JobId_data j) nonce data) \<le> 768"
    "length (ping_text n (JobId_data r)) \<le> 768"
    using d assms(4,5) by (simp_all add: submit_text_def ping_text_def)
qed

lemma closed_inv:
  assumes "client_inv C" "c_closing C" "\<not> c_connecting C"
  shows "client_inv (onClose E C)"
proof -
  let ?C = "C\<lparr>c_stream := False, c_socket := False, c_closing := False\<rparr>\<lparr>c_state := UnconnectedState\<rparr>"
  have "client_inv (?C\<lparr>c_state := ConnectingState\<rparr>)"
    using assms by (simp add: client_inv_def buf_ok_def phase_ok_def)
  from inv_reconnect [OF this, of E] show ?thesis by (simp add: onClose_def)
qed

text \<open>The message of a login does not fit \<open>m_sendBuf\<close>, though it passes the test.\<close>

definition login_overflow :: "'d uv \<Rightarrow> client \<Rightarrow> bool" where
  "login_overflow E C \<longleftrightarrow> 766 < length (js_write E (login_request C)) \<and> length (js_write E (login_request C)) \<le> 2046"

lemma login_inv:
  assumes "client_inv C"
  shows "if login_overflow E C then Client_login E C = None else \<exists>C'. Client_login E C = Some C' \<and> client_inv C'"
proof -
  let ?C = "C\<lparr>c_results := (\<lambda>i. None)\<rparr>"
  let ?t = "js_write E (login_request C)"
  have q: "js_write E (login_request ?C) = ?t" by (simp add: login_request_def)
  have l: "length (c_sendBuf C) = 768" using assms by (simp add: client_inv_def)
  consider "2046 < length ?t" | "length ?t \<le> 766" | "766 < length ?t" "length ?t \<le> 2046" by linarith
  then show ?thesis
  proof cases
    case 1
    then show ?thesis using assms q by (simp add: Client_login_def login_overflow_def Let_def)
  next
    case 2
    define b where "b = (?t @ drop (length ?t) (c_sendBuf C))[length ?t := 0x0A, length ?t + 1 := 0]"
    have b: "length b = 768" using 2 l by (simp add: b_def)
    have "client_inv (?C\<lparr>c_sendBuf := b\<rparr>)" by (rule inv_fields(6) [OF b]) (simp add: assms)
    from send_inv [OF this, of "length ?t + 1" E] 2
    obtain C' where "Client_send E (length ?t + 1) (?C\<lparr>c_sendBuf := b\<rparr>) = Some C'" "client_inv C'" by auto
    moreover have "memcpy (c_sendBuf C) 0 ?t 0 (length ?t) = Some (?t @ drop (length ?t) (c_sendBuf C))"
      using 2 l by (simp add: memcpy_Some)
    ultimately show ?thesis
      using 2 l q by (simp add: Client_login_def login_overflow_def Let_def put_at_Some b_def)
  next
    case 3
    have "memcpy (c_sendBuf C) 0 ?t 0 (length ?t) = None \<or>
      memcpy (c_sendBuf C) 0 ?t 0 (length ?t) = Some (?t @ drop (length ?t) (c_sendBuf C)) \<and> length ?t \<le> 768"
      using l by (cases "length ?t \<le> 768") (simp_all add: memcpy_Some memcpy_None_dst)
    moreover have "length ?t = 768 \<or> length ?t = 767" if "length ?t \<le> 768" using 3 that by linarith
    ultimately show ?thesis
      using 3 l q by (auto simp: Client_login_def login_overflow_def Let_def put_at_def)
  qed
qed

lemma connected_inv:
  assumes "client_inv C" "c_connecting C" "c_closing C \<longrightarrow> \<not> ok"
  shows "if ok \<and> login_overflow E C then onConnect E ok C = None else \<exists>C'. onConnect E ok C = Some C' \<and> client_inv C'"
proof (cases ok)
  case False
  have "client_inv (C\<lparr>c_connecting := False\<rparr>)"
    using assms(1) by (auto simp: client_inv_def buf_ok_def phase_ok_def split: socket_state.splits)
  then show ?thesis using False inv_close by (simp add: onConnect_def)
next
  case True
  let ?C = "emit UvReadStart (C\<lparr>c_connecting := False\<rparr>\<lparr>c_stream := True\<rparr>\<lparr>c_state := ConnectedState\<rparr>)"
  have "client_inv ?C" using assms True by (auto simp: client_inv_def buf_ok_def phase_ok_def)
  moreover have "login_overflow E ?C = login_overflow E C" by (simp add: login_overflow_def login_request_def emit_def)
  moreover have "onConnect E ok C = Client_login E ?C" using True by (simp add: onConnect_def Let_def)
  ultimately show ?thesis using True login_inv [of ?C E] by simp
qed

lemma terminated_length:
  fixes x :: bytes
  assumes "n < length x"
  shows "length (c_string (x[n := 0])) \<le> n"
proof (rule ccontr)
  assume "\<not> length (c_string (x[n := 0])) \<le> n"
  hence "n < length (takeWhile (\<lambda>c. c \<noteq> 0) (x[n := 0]))" by (simp add: c_string_def)
  moreover from takeWhile_nth [OF this] have "takeWhile (\<lambda>c. c \<noteq> 0) (x[n := 0]) ! n = 0" using assms by simp
  ultimately show False using nth_mem set_takeWhileD by fastforce
qed

lemma submit_inv:
  assumes "client_inv C" "length (jr_result result) = 32" "length (jr_jobId result) = 64" "c_sequence C < 2 ^ 64"
  shows "if actualDiff result = None then Client_submit E result C = None
    else \<exists>C'. Client_submit E result C = Some C' \<and> client_inv C'"
proof -
  define nonce where "nonce = (hex_of (le_bytes 4 (jr_nonce result)) @ [0 :: u8])[8 := 0]"
  define data where "data = (hex_of (jr_result result) @ [0 :: u8])[64 := 0]"
  have n: "toHex (le_bytes 4 (jr_nonce result)) 4 (replicate 9 0) = Some (hex_of (le_bytes 4 (jr_nonce result)) @ [0])"
    using toHex_eq [of 4 "le_bytes 4 (jr_nonce result)" "replicate 9 0"] by simp
  have d: "toHex (jr_result result) 32 (replicate 65 0) = Some (hex_of (jr_result result) @ [0])"
    using toHex_eq [of 32 "jr_result result" "replicate 65 0"] assms(2) by simp
  have l: "length (hex_of (le_bytes 4 (jr_nonce result)) @ [0 :: u8]) = 9"
    "length (hex_of (jr_result result) @ [0 :: u8]) = 65" using assms(2) by simp_all
  have c: "length (c_string nonce) \<le> 8" "length (c_string data) \<le> 64"
    using terminated_length [of 8 "hex_of (le_bytes 4 (jr_nonce result)) @ [0 :: u8]"]
      terminated_length [of 64 "hex_of (jr_result result) @ [0 :: u8]"] l by (simp_all add: nonce_def data_def)
  define msg where "msg = submit_text (c_sequence C) (JobId_data (c_rpcId C)) (JobId_data (jr_jobId result))
    (c_string nonce) (c_string data)"
  have "length (c_rpcId C) = 64" using assms(1) by (simp add: client_inv_def)
  hence t: "length msg \<le> 768" unfolding msg_def by (intro texts_fit(1) assms(3,4) c)
  define C1 where "C1 = print_send msg C"
  have sq: "c_sequence C1 = c_sequence C" by (simp add: C1_def print_send_def Let_def)
  have "client_inv (C1\<lparr>c_results := r\<rparr>)" for r using print_inv [OF assms(1)] by (simp add: C1_def)
  from send_inv [OF this t, where E = E]
  have "\<exists>C'. Client_send E (length msg) (C1\<lparr>c_results := r\<rparr>) = Some C' \<and> client_inv C'" for r by blast
  moreover have "Client_submit E result C = do {
      actual \<leftarrow> actualDiff result;
      Client_send E (length msg) (C1\<lparr>c_results := (c_results C1)(int (c_sequence C1) \<mapsto>
        SubmitResult_make (uv_hrtime E) (of_nat (c_sequence C1)) (jr_diff result) actual)\<rparr>) }"
    unfolding Client_submit_def n d Option.bind.bind_lunit
    using l by (simp add: put_at_Some nonce_def [symmetric] data_def [symmetric] msg_def [symmetric] C1_def [symmetric] Let_def)
  ultimately show ?thesis by (cases "actualDiff result") auto
qed

text \<open>What a read leaves: new buffer contents, after the lines are handled or the client is closed.\<close>

lemma read_shape:
  assumes "buf_ok C" "\<forall>k. env_ok (E k)" "length d \<le> 2048 - c_recvBufPos C" "onRead E d C = Some C'"
  shows "\<exists>b p D. C' = at_buf b p D \<and> frame C D \<and> ((\<exists>ls. parse_lines E 0 ls C = Some D) \<or> D = Client_close C)"
proof (cases "c_recvBufPos C + length d \<le> 2040")
  case True
  obtain ls r where lr: "lines_of (pending C @ d) = (ls, r)" by fastforce
  obtain D where D: "parse_lines E 0 ls C = Some D" "frame C D" using frame_parse_lines [OF assms(2)] by blast
  obtain b p where "C' = at_buf b p D"
    using onRead_room [OF assms(1) True assms(2) lr D(1)] assms(4) by (auto split: if_splits)
  then show ?thesis using D by blast
next
  case False
  obtain b where "onRead E d C = Some (Client_close (C\<lparr>c_buf := b\<rparr>))"
    using onRead_full [OF assms(1), of d] False assms(3) by auto
  moreover have "C\<lparr>c_buf := b\<rparr> = at_buf b (c_recvBufPos C) C" by (simp add: at_buf_def)
  ultimately have "C' = at_buf b (c_recvBufPos C) (Client_close C)" using assms(4) by simp
  then show ?thesis using frame_close by blast
qed

lemma read_inv:
  assumes "client_inv C" "c_stream C" "\<not> c_closing C" "length d \<le> 2048 - c_recvBufPos C" "\<forall>k. env_ok (E k)"
  shows "\<exists>C'. onRead E d C = Some C' \<and> client_inv C'"
proof -
  have ok: "buf_ok C" using assms(1) by (simp add: client_inv_def)
  have upd: "client_inv (at_buf b p C')" if "client_inv C'" "length b = 2048" "p \<le> 2040" for C' b p
    using that by (auto simp: client_inv_def buf_ok_def phase_ok_def at_buf_def split: socket_state.split)
  show ?thesis
  proof (cases "c_recvBufPos C + length d \<le> 2040")
    case True
    obtain ls r where lr: "lines_of (pending C @ d) = (ls, r)" by fastforce
    obtain C' where C': "parse_lines E 0 ls C = Some C'" "frame C C'" using frame_parse_lines [OF assms(5)] by blast
    have i: "client_inv C'" by (rule inv_frame [OF assms(1) C'(2)])
    obtain b where b: "length b = 2048" "length r \<le> c_recvBufPos C + length d"
      "onRead E d C = Some (if r = [] then at_buf b 0 C'
        else if length r = c_recvBufPos C + length d then at_buf b (length r) C'
        else at_buf (mem_cpy (E 0) b (c_recvBufPos C + length d - length r) (length r)) (length r) C')"
      using onRead_room [OF ok True assms(5) lr C'(1)] by blast
    have "length (mem_cpy (E 0) b i n) = 2048" for i n using assms(5) b(1) by (simp add: env_ok_def)
    moreover have "length r \<le> 2040" using b(2) True by simp
    ultimately show ?thesis using upd [OF i] b(1,3) by simp
  next
    case False
    obtain b where b: "length b = 2048" "onRead E d C = Some (Client_close (C\<lparr>c_buf := b\<rparr>))"
      using onRead_full [OF ok _ assms(4)] False by auto
    have "C\<lparr>c_buf := b\<rparr> = at_buf b (c_recvBufPos C) C" by (simp add: at_buf_def)
    moreover have "client_inv (at_buf b (c_recvBufPos C) C)" using upd [OF assms(1) b(1)] ok by (simp add: buf_ok_def)
    ultimately have "client_inv (Client_close (C\<lparr>c_buf := b\<rparr>))" by (simp only: inv_close)
    then show ?thesis using b(2) by blast
  qed
qed

text \<open>
  What can go wrong in a step: a connect during a lookup, by the strategy or by the tick; an address
  for a client that has a connection; a login that overflows its buffer; a share whose hash ends in a
  zero word.
\<close>

fun client_fault :: "'d uv \<Rightarrow> client_input \<Rightarrow> client \<Rightarrow> bool" where
  "client_fault E InConnect C \<longleftrightarrow> c_resolving C"
| "client_fault E InTick C \<longleftrightarrow> tick_due E C \<and> c_state C = ConnectingState \<and> c_resolving C"
| "client_fault E (InResolved res) C \<longleftrightarrow> c_socket C \<and> usable res"
| "client_fault E (InConnected ok) C \<longleftrightarrow> ok \<and> login_overflow E C"
| "client_fault E (InSubmit result) C \<longleftrightarrow> actualDiff result = None"
| "client_fault E _ C \<longleftrightarrow> False"

lemma client_step_inv:
  assumes "client_inv C" "client_input_ok C i" "\<forall>k. env_ok (E k)" "c_sequence C < 2 ^ 64"
  shows "if client_fault (E 0) i C then client_step E i C = None else \<exists>C'. client_step E i C = Some C' \<and> client_inv C'"
proof (cases i)
  case InConnect
  then show ?thesis using connect_inv [OF assms(1), of "E 0"] by simp
next
  case InTick
  then show ?thesis using tick_inv [OF assms(1), of "E 0"] by simp
next
  case (InSubmit result)
  then show ?thesis using submit_inv [OF assms(1) _ _ assms(4), where result = result and E = "E 0"] assms(2) by simp
next
  case InKeepAlive
  have "length (ping_text (c_sequence C) (JobId_data (c_rpcId C))) \<le> 768"
    using texts_fit(2) [of "c_sequence C" "c_rpcId C" "c_rpcId C" "[]" "[]"] assms(1,4) by (simp add: client_inv_def)
  from send_inv [OF print_inv [OF assms(1)] this] show ?thesis
    unfolding InKeepAlive by (simp add: Client_ping_def Let_def)
next
  case (InResolved res)
  then show ?thesis using resolved_inv [OF assms(1), where E = "E 0" and res = res] assms(2) by simp
next
  case (InConnected ok)
  then show ?thesis using connected_inv [OF assms(1), of ok "E 0"] assms(2)
    by (cases ok; cases "login_overflow (E 0) C") simp_all
next
  case (InRead d)
  then show ?thesis using read_inv [OF assms(1) _ _ _ assms(3), of d] assms(2) by (simp add: onAllocBuffer_def)
qed (use assms inv_close inv_disconnect closed_inv [where E = "E 0"] in simp_all)

lemma client_start_inv:
  assumes "length gbuf = 2048" "length gsend = 768"
  shows "client_inv (client_start gbuf gsend sequence cid agent url pause)"
  using assms by (simp add: client_start_def Client_make_def client_inv_def buf_ok_def phase_ok_def JobId_empty_def)

section \<open>What the client waits for\<close>

text \<open>
  A client that has not been told to connect yet, or has been told to disconnect, waits for its
  strategy; others for a callback, for the pool, or for the time of the next attempt.
\<close>

definition never_told :: "client \<Rightarrow> bool" where
  "never_told C \<longleftrightarrow> c_state C = UnconnectedState \<and> (\<forall>h. UvResolve h \<notin> set (c_calls C))"

definition alive :: "client \<Rightarrow> bool" where
  "alive C \<longleftrightarrow> never_told C \<or> c_failures C = -1 \<or> c_resolving C \<or> c_connecting C \<or> c_closing C \<or>
    c_stream C \<and> c_state C \<noteq> ClosingState \<or> c_state C = ConnectingState \<and> c_expire C \<noteq> 0"

text \<open>Every request is taken, and the time of the next attempt is not the zero that means none.\<close>

definition accepting :: "int \<Rightarrow> 'd uv \<Rightarrow> bool" where
  "accepting pause E \<longleftrightarrow> (\<forall>h. uv_getaddrinfo E h) \<and> (\<forall>a. uv_tcp_connect E a) \<and> uv_now E + of_int pause \<noteq> 0"

lemma alive_stream: "client_inv C \<Longrightarrow> c_stream C \<Longrightarrow> alive C"
  by (cases "c_state C") (auto simp: alive_def client_inv_def phase_ok_def)

lemma notify_cases:
  "notify E e C = Client_disconnect (emit e C) \<and> uv_reacts E e \<or> notify E e C = emit e C \<and> \<not> uv_reacts E e"
  by (simp add: notify_def Let_def)

lemma disconnect_failures [simp]: "c_failures (Client_disconnect C) = -1"
  by (simp add: Client_disconnect_def Client_close_def Let_def)

lemma alive_reconnect:
  assumes "accepting (c_retryPause C) E"
  shows "alive (Client_reconnect E C)"
proof -
  define C1 where "C1 = (if u_keepAlive (c_url C) then emit KeepAliveStop (C\<lparr>c_state := ConnectingState\<rparr>)
    else C\<lparr>c_state := ConnectingState\<rparr>)"
  have C1: "c_state C1 = ConnectingState" "c_retryPause C1 = c_retryPause C" by (simp_all add: C1_def)
  have p: "c_retryPause (notify E e D) = c_retryPause D" for e D using frame_notify [of D E e] by (simp add: frame_def)
  have e: "Client_reconnect E C = (if c_failures C1 = -1 then notify E (NotifyClose (-1)) C1
      else (notify E (NotifyClose (to_int (c_failures C1 + 1))) (C1\<lparr>c_failures := c_failures C1 + 1\<rparr>))
        \<lparr>c_expire := uv_now E + of_int (c_retryPause C)\<rparr>)"
    by (simp add: Client_reconnect_def C1_def Let_def p)
  show ?thesis
  proof (cases "c_failures C1 = -1")
    case True
    then show ?thesis using notify_cases [of E "NotifyClose (-1)" C1] by (auto simp: e alive_def)
  next
    case False
    then show ?thesis
      using notify_cases [of E "NotifyClose (to_int (c_failures C1 + 1))" "C1\<lparr>c_failures := c_failures C1 + 1\<rparr>"] C1 assms
      by (auto simp: e alive_def accepting_def)
  qed
qed

text \<open>A close is asked for at once, or has been before.\<close>

lemma close_closing:
  assumes "client_inv C" "c_socket C"
  shows "c_closing (Client_close C)"
  using assms by (auto simp: Client_close_def Let_def client_inv_def phase_ok_def split: socket_state.splits)

lemma send_stream: "Client_send E n C = Some C' \<Longrightarrow> c_stream C' = c_stream C"
  by (auto simp: Client_send_def Client_close_def Let_def split: if_splits Option.bind_splits)

lemma send_idle: "Client_send E n C = Some C' \<Longrightarrow> c_state C \<noteq> ConnectedState \<Longrightarrow> C' = C"
  by (simp add: Client_send_def)

lemma login_stream: "Client_login E C = Some C' \<Longrightarrow> c_stream C' = c_stream C"
  by (auto simp: Client_login_def Let_def dest: send_stream split: if_splits Option.bind_splits)

lemma resolve_waits:
  assumes "Client_connect E C = Some C'" "\<forall>h. uv_getaddrinfo E h"
  shows "c_resolving C' \<and> c_state C' = HostLookupState \<and> c_failures C' = (if c_failures C = -1 then 0 else c_failures C) \<and>
    c_calls C' = c_calls C @ [UvResolve (u_host (c_url C))]"
  using assms by (auto simp: Client_connect_def Client_resolve_def Let_def split: if_splits)

lemma alive_print [simp]: "alive (print_send s C) = alive C" "alive (C\<lparr>c_results := r\<rparr>) = alive C"
  "alive (C\<lparr>c_sequence := k\<rparr>) = alive C"
  by (simp_all add: alive_def never_told_def print_send_def Let_def)

lemma send_alive:
  assumes "Client_send E n C = Some C'" "alive C" "c_state C = ConnectedState \<Longrightarrow> c_stream C" "client_inv C'"
  shows "alive C'"
  using assms send_idle [OF assms(1)] send_stream [OF assms(1)] alive_stream [OF assms(4)]
  by (cases "c_state C = ConnectedState") auto

lemma client_step_alive:
  assumes "client_inv C" "alive C" "client_input_ok C i" "\<forall>k. env_ok (E k)" "accepting (c_retryPause C) (E 0)"
    "c_sequence C < 2 ^ 64" "client_step E i C = Some C'"
  shows "alive C'"
proof -
  have inv: "client_inv C'" using client_step_inv [OF assms(1,3,4,6)] assms(7) by (auto split: if_splits)
  have acc: "\<forall>h. uv_getaddrinfo (E 0) h" using assms(5) by (simp add: accepting_def)
  have st: "c_state C = ConnectedState \<Longrightarrow> c_stream C" using assms(1) by (simp add: client_inv_def phase_ok_def)
  show ?thesis
  proof (cases i)
    case InConnect
    then show ?thesis using assms(7) resolve_waits [OF _ acc, of C C'] by (simp add: alive_def)
  next
    case InDisconnect
    then show ?thesis using assms(7) by (auto simp: alive_def)
  next
    case (InSubmit result)
    then obtain s r where s: "Client_send (E 0) (length s) (print_send s C\<lparr>c_results := r\<rparr>) = Some C'"
      using assms(7) by (auto simp: Client_submit_def Let_def split: Option.bind_splits)
    show ?thesis by (rule send_alive [OF s _ _ inv]) (use assms(2) st in \<open>simp_all add: print_send_def Let_def alive_def never_told_def\<close>)
  next
    case InKeepAlive
    then obtain s where s: "Client_send (E 0) (length s) (print_send s C) = Some C'"
      using assms(7) by (auto simp: Client_ping_def Let_def)
    show ?thesis by (rule send_alive [OF s _ _ inv]) (use assms(2) st in \<open>simp_all add: print_send_def Let_def alive_def never_told_def\<close>)
  next
    case InTick
    then show ?thesis
      using assms(2,7) resolve_waits [OF _ acc, of C C'] alive_stream [OF inv] frame_close [of C] st
      unfolding InTick client_step.simps tick_eq [OF assms(1)]
      by (cases "c_state C") (auto simp: frame_def alive_def split: if_splits)
  next
    case (InResolved res)
    obtain addr v6 where e: "onResolved (E 0) res C =
      (if \<not> usable res then Some (Client_reconnect (E 0) (C\<lparr>c_resolving := False\<rparr>))
       else connect_address (E 0) addr (C\<lparr>c_resolving := False\<rparr>\<lparr>c_ipv6 := v6\<rparr>\<lparr>c_ip := snd addr\<rparr>))"
      using onResolved_eq by blast
    have "alive (Client_reconnect (E 0) (C\<lparr>c_resolving := False\<rparr>))" using assms(5) by (intro alive_reconnect) simp
    moreover have "uv_tcp_connect (E 0) addr" using assms(5) unfolding accepting_def by blast
    hence "alive C'" if "connect_address (E 0) addr (C\<lparr>c_resolving := False\<rparr>\<lparr>c_ipv6 := v6\<rparr>\<lparr>c_ip := snd addr\<rparr>) = Some C'"
      using that by (auto simp: connect_address_def Let_def alive_def split: if_splits)
    ultimately show ?thesis using InResolved assms(7) e by (simp split: if_splits)
  next
    case (InConnected ok)
    have sk: "c_socket C" using assms(1,3) InConnected by (auto simp: client_inv_def phase_ok_def)
    show ?thesis
    proof (cases ok)
      case True
      then have "c_stream C'" using InConnected assms(7) by (auto simp: onConnect_def Let_def dest!: login_stream)
      then show ?thesis by (rule alive_stream [OF inv])
    next
      case False
      have "client_inv (C\<lparr>c_connecting := False\<rparr>)"
        using assms(1) by (auto simp: client_inv_def buf_ok_def phase_ok_def split: socket_state.splits)
      from close_closing [OF this] show ?thesis using False InConnected assms(7) sk by (auto simp: onConnect_def alive_def)
    qed
  next
    case (InRead d)
    have "c_stream C'"
      using read_shape [of C E d C'] assms(1,3,4,7) InRead
      by (auto simp: client_inv_def onAllocBuffer_def frame_def at_buf_def)
    then show ?thesis by (rule alive_stream [OF inv])
  next
    case InReadError
    then show ?thesis using alive_stream [OF inv] assms(3,7) frame_close [of C] by (auto simp: frame_def)
  next
    case InClosed
    have "alive (onClose (E 0) C)" unfolding onClose_def Let_def using assms(5) by (intro alive_reconnect) simp
    then show ?thesis using InClosed assms(7) by auto
  next
    case (InOthers n)
    then show ?thesis using assms(2,7) by auto
  qed
qed

section \<open>Reachable states\<close>

lemma kept [simp]:
  "c_retryPause (Client_close C) = c_retryPause C" "c_retryPause (Client_disconnect C) = c_retryPause C"
  "c_retryPause (notify E e C) = c_retryPause C" "c_sequence (Client_close C) = c_sequence C"
  "c_sequence (Client_disconnect C) = c_sequence C" "c_sequence (notify E e C) = c_sequence C"
  using frame_close [of C] frame_disconnect [of C] frame_notify [of C E e] by (simp_all add: frame_def)

lemma reconnect_kept [simp]:
  "c_retryPause (Client_reconnect E C) = c_retryPause C" "c_sequence (Client_reconnect E C) = c_sequence C"
  by (simp_all add: Client_reconnect_def Let_def)

lemma failures_kept [simp]:
  "c_failures (Client_close C) = c_failures C" "c_failures (startTimeout C) = c_failures C"
  "c_failures (at_buf b p C) = c_failures C" "c_failures (print_send s C) = c_failures C"
  by (simp_all add: Client_close_def startTimeout_def at_buf_def print_send_def Let_def)

text \<open>What sending leaves: the time by which the answer is due, if something was sent.\<close>

definition sends :: "'d uv \<Rightarrow> client \<Rightarrow> client \<Rightarrow> bool" where
  "sends E C C' \<longleftrightarrow> c_retryPause C' = c_retryPause C \<and> c_failures C' = c_failures C \<and>
    (c_sequence C' = c_sequence C \<or> c_state C' = ConnectedState \<and> c_expire C' = uv_now E + kResponseTimeout)"

lemma send_sends: "Client_send E n C = Some C' \<Longrightarrow> sends E C C'"
  by (auto simp: Client_send_def sends_def Let_def split: if_splits Option.bind_splits)

lemma print_sends: "sends E (print_send s C) C' \<longleftrightarrow> sends E C C'" "sends E (C\<lparr>c_results := r\<rparr>) C' \<longleftrightarrow> sends E C C'"
  "sends E (C\<lparr>c_sendBuf := b\<rparr>) C' \<longleftrightarrow> sends E C C'"
  by (simp_all add: sends_def print_send_def Let_def)

lemma login_sends: "Client_login E C = Some C' \<Longrightarrow> sends E C C'"
  by (auto simp: Client_login_def Let_def sends_def dest!: send_sends split: if_splits Option.bind_splits)

text \<open>A listener that does not react: a message does not make the client look disconnected.\<close>

lemma parse_failures:
  assumes "env_ok E" "\<forall>e. \<not> uv_reacts E e" "Client_parse E line C = Some C'"
  shows "c_failures C' = c_failures C \<or> c_failures C' = 0"
proof -
  have n: "notify E e D = emit e D" for e D using assms(2) by (simp add: notify_def Let_def)
  have r: "c_failures (report_result E rid error D) = c_failures D" for rid error D
    by (simp add: report_result_def n Let_def split: option.split)
  have j: "c_failures D' = c_failures D" if "parseJob E params D = Some (ok, D')" for params D ok D'
    using that by (auto simp: parseJob_eq [OF assms(1)] split: option.splits if_splits)
  have l: "c_failures D' = c_failures D" if p: "parseLogin E res D = Some (ok, D')" for res D ok D'
  proof -
    have x: "c_failures (parseExtensions v D) = c_failures D" for v D
    proof (cases v)
      case (JArray exts)
      have "c_failures (fold (\<lambda>ext C. case ext of
          JString s \<Rightarrow> if c_string s = cstr ''nicehash'' then C\<lparr>c_nicehash := True\<rparr> else C | _ \<Rightarrow> C) exts D) = c_failures D"
        by (induction exts arbitrary: D) (auto split: json.split)
      then show ?thesis by (simp add: JArray parseExtensions_def)
    qed (simp_all add: parseExtensions_def)
    show ?thesis using p by (auto simp: parseLogin_def Let_def x dest!: j split: if_splits Option.bind_splits)
  qed
  have nt: "c_failures D' = c_failures D" if "parseNotification E m params error D = Some D'" for m params error D D'
    using that by (auto simp: parseNotification_def n dest!: j split: json.splits option.splits if_splits Option.bind_splits)
  have rs: "c_failures D' = c_failures D \<or> c_failures D' = 0" if p: "parseResponse E rid result error D = Some D'"
    for rid result error D D'
  proof (cases "\<exists>err. error = JObject err")
    case True
    then show ?thesis using p by (auto simp: parseResponse_def r Let_def)
  next
    case False
    then have "parseResponse E rid result error D = (case result of
        JObject res \<Rightarrow> if rid = 1 then do {
            (ok, C) \<leftarrow> parseLogin E res D;
            if \<not> ok then Some (Client_close C)
            else let C = C\<lparr>c_failures := 0\<rparr>; C = notify E NotifyLogin C in Some (notify E (NotifyJob (c_job C)) C)
          } else Some (report_result E rid None D)
      | _ \<Rightarrow> Some D)"
      by (cases error) (auto simp: parseResponse_def)
    then show ?thesis
      using p by (cases result) (auto simp: r n Let_def dest!: l split: if_splits Option.bind_splits)
  qed
  define C1 where "C1 = startTimeout C"
  have "c_failures C1 = c_failures C" by (simp add: C1_def)
  then show ?thesis
    using assms(3) nt [of _ _ _ C1 C'] rs [of _ _ _ C1 C'] unfolding Client_parse_def C1_def [symmetric] Let_def
    by (auto split: if_splits option.splits json.splits)
qed

lemma parse_lines_failures:
  assumes "\<forall>k. env_ok (E k)" "\<forall>k e. \<not> uv_reacts (E k) e"
  shows "parse_lines E k ls C = Some C' \<Longrightarrow> c_failures C' = c_failures C \<or> c_failures C' = 0"
proof (induction ls arbitrary: k C)
  case (Cons l ls)
  then obtain C1 where "Client_parse (E k) l C = Some C1" "parse_lines E (k + 1) ls C1 = Some C'"
    by (auto split: Option.bind_splits)
  then show ?case using parse_failures [of "E k" l C C1] assms Cons.IH [of "k + 1" C1] by auto
qed simp

lemma reconnect_failures:
  assumes "\<forall>e. \<not> uv_reacts E e" "-1 \<le> c_failures C" "c_failures (Client_reconnect E C) = -1"
  shows "c_failures C = -1"
proof -
  have n: "notify E e D = emit e D" for e D using assms(1) by (simp add: notify_def Let_def)
  show ?thesis using assms(2,3) by (auto simp: Client_reconnect_def n Let_def split: if_splits)
qed

text \<open>
  In every step the pause is kept, a message that is sent sets the time its answer is due, and a
  client looks disconnected only after a disconnect.
\<close>

definition step_ok :: "(nat \<Rightarrow> 'd uv) \<Rightarrow> client_input \<Rightarrow> client \<Rightarrow> client \<Rightarrow> bool" where
  "step_ok E i C C' \<longleftrightarrow> c_retryPause C' = c_retryPause C \<and>
    (c_sequence C' = c_sequence C \<or> (\<exists>n. i = InOthers n) \<or>
      c_state C' = ConnectedState \<and> c_expire C' = uv_now (E 0) + kResponseTimeout) \<and>
    (c_failures C' = -1 \<longrightarrow> c_failures C = -1 \<or> i = InDisconnect \<or> (\<exists>k e. uv_reacts (E k) e))"

lemma sends_ok: "sends (E 0) C C' \<Longrightarrow> step_ok E i C C'"
  by (auto simp: sends_def step_ok_def)

lemma client_step_ok:
  assumes "client_inv C" "client_input_ok C i" "\<forall>k. env_ok (E k)" "client_step E i C = Some C'"
  shows "step_ok E i C C'"
proof -
  have f: "-1 \<le> c_failures C" using assms(1) by (simp add: client_inv_def)
  have rec: "step_ok E i C (Client_reconnect (E 0) D)"
    if "c_failures D = c_failures C" "c_retryPause D = c_retryPause C" "c_sequence D = c_sequence C" for D
    using reconnect_failures [of "E 0" D] f that by (auto simp: step_ok_def)
  have con: "step_ok E i C D" if "Client_connect (E 0) C = Some D" for D
    using that by (auto simp: step_ok_def Client_connect_def Client_resolve_def Let_def split: if_splits)
  show ?thesis
  proof (cases i)
    case (InSubmit result)
    then show ?thesis
      using assms(4) by (auto simp: Client_submit_def Let_def print_sends dest!: send_sends intro: sends_ok split: Option.bind_splits)
  next
    case InKeepAlive
    then show ?thesis using assms(4) by (auto simp: Client_ping_def Let_def print_sends dest!: send_sends intro: sends_ok)
  next
    case InTick
    then show ?thesis using assms(4) con unfolding InTick client_step.simps tick_eq [OF assms(1)]
      by (cases "c_state C") (auto simp: step_ok_def split: if_splits)
  next
    case (InResolved res)
    obtain addr v6 where e: "onResolved (E 0) res C =
      (if \<not> usable res then Some (Client_reconnect (E 0) (C\<lparr>c_resolving := False\<rparr>))
       else connect_address (E 0) addr (C\<lparr>c_resolving := False\<rparr>\<lparr>c_ipv6 := v6\<rparr>\<lparr>c_ip := snd addr\<rparr>))"
      using onResolved_eq by blast
    have "step_ok E i C D" if "connect_address (E 0) addr (C\<lparr>c_resolving := False\<rparr>\<lparr>c_ipv6 := v6\<rparr>\<lparr>c_ip := snd addr\<rparr>) = Some D" for D
      using that by (auto simp: connect_address_def step_ok_def Let_def split: if_splits)
    then show ?thesis using InResolved assms(4) e rec [of "C\<lparr>c_resolving := False\<rparr>"] by (auto split: if_splits)
  next
    case (InConnected ok)
    have "sends (E 0) C D" if "Client_login (E 0) (emit UvReadStart (C\<lparr>c_connecting := False\<rparr>\<lparr>c_stream := True\<rparr>\<lparr>c_state := ConnectedState\<rparr>)) = Some D" for D
      using login_sends [OF that] by (simp add: sends_def)
    then have "ok \<Longrightarrow> sends (E 0) C C'" using InConnected assms(4) by (simp add: onConnect_def Let_def)
    then show ?thesis
      using InConnected assms(4) sends_ok [of E C C' i] by (cases ok) (auto simp: onConnect_def step_ok_def)
  next
    case (InRead d)
    obtain b p D where D: "C' = at_buf b p D" "frame C D" "(\<exists>ls. parse_lines E 0 ls C = Some D) \<or> D = Client_close C"
      using read_shape [of C E d C'] assms InRead by (auto simp: client_inv_def onAllocBuffer_def)
    have "c_failures D = c_failures C \<or> c_failures D = 0" if "\<forall>k e. \<not> uv_reacts (E k) e"
      using D(3) parse_lines_failures [OF assms(3) that] by auto
    then show ?thesis using D(1,2) by (auto simp: step_ok_def frame_def at_buf_def)
  next
    case InClosed
    then show ?thesis using assms(4) rec [of "C\<lparr>c_stream := False, c_socket := False, c_closing := False\<rparr>\<lparr>c_state := UnconnectedState\<rparr>"]
      by (auto simp: onClose_def Let_def)
  qed (use assms(4) con in \<open>auto simp: step_ok_def\<close>)
qed

text \<open>Environments that behave as documented, and those that take every request besides.\<close>

definition sound :: "(nat \<Rightarrow> 'd uv) \<Rightarrow> bool" where
  "sound E \<longleftrightarrow> (\<forall>k. env_ok (E k))"

definition willing :: "int \<Rightarrow> (nat \<Rightarrow> 'd uv) \<Rightarrow> bool" where
  "willing pause E \<longleftrightarrow> sound E \<and> accepting pause (E 0)"

lemma reachable_inv:
  assumes "client_reachable envs (client_start gbuf gsend sequence cid agent url pause) C"
    "length gbuf = 2048" "length gsend = 768" "\<And>E. envs E \<Longrightarrow> sound E"
  shows "client_inv C \<and> c_retryPause C = pause"
  using assms(1)
proof (induction rule: client_reachable.induct)
  case initial
  then show ?case using client_start_inv [OF assms(2,3)] by (simp add: client_start_def)
next
  case (step C i E C')
  have E: "\<forall>k. env_ok (E k)" using assms(4) step.hyps(3) by (simp add: sound_def)
  have "c_sequence C < 2 ^ 64" using step.hyps(4) by simp
  then show ?case
    using client_step_inv [OF _ step.hyps(2) E] client_step_ok [OF _ step.hyps(2) E step.hyps(5)] step.IH step.hyps(5)
    by (auto simp: step_ok_def split: if_splits)
qed

lemma reachable_alive:
  assumes "client_reachable (willing pause) (client_start gbuf gsend sequence cid agent url pause) C"
    "length gbuf = 2048" "length gsend = 768"
  shows "alive C"
  using assms(1)
proof (induction rule: client_reachable.induct)
  case initial
  then show ?case by (simp add: alive_def never_told_def client_start_def Client_make_def)
next
  case (step C i E C')
  have "client_inv C \<and> c_retryPause C = pause"
    by (rule reachable_inv [OF step.hyps(1) assms(2,3)]) (simp add: willing_def)
  then show ?case
    using client_step_alive [OF _ step.IH step.hyps(2) _ _ _ step.hyps(5)] step.hyps(3,4)
    by (simp add: willing_def sound_def)
qed

section \<open>What the client reports\<close>

text \<open>The calls of the listener among the calls.\<close>

fun is_notice :: "call \<Rightarrow> bool" where
  "is_notice (NotifyClose _) = True"
| "is_notice (NotifyJob _) = True"
| "is_notice NotifyLogin = True"
| "is_notice (NotifyResult _ _) = True"
| "is_notice _ = False"

definition notices :: "client \<Rightarrow> call list" where
  "notices C = filter is_notice (c_calls C)"

lemma notices_fields [simp]:
  "notices (C\<lparr>c_job := j\<rparr>) = notices C" "notices (C\<lparr>c_nicehash := n\<rparr>) = notices C"
  "notices (C\<lparr>c_failures := f\<rparr>) = notices C" "notices (C\<lparr>c_results := r\<rparr>) = notices C"
  "notices (C\<lparr>c_expire := t\<rparr>) = notices C" "notices (C\<lparr>c_rpcId := i\<rparr>) = notices C"
  "notices (emit e C) = (if is_notice e then notices C @ [e] else notices C)"
  by (simp_all add: notices_def)

lemma quiet [simp]:
  "notices (Client_close C) = notices C" "c_job (Client_close C) = c_job C"
  "notices (Client_disconnect C) = notices C" "c_job (Client_disconnect C) = c_job C"
  "notices (startTimeout C) = notices C" "c_job (startTimeout C) = c_job C"
  "c_results (Client_close C) = c_results C" "c_results (Client_disconnect C) = c_results C"
  "c_results (startTimeout C) = c_results C"
  by (simp_all add: Client_disconnect_def Client_close_def startTimeout_def notices_def Let_def)

lemma noticed [simp]:
  "is_notice e \<Longrightarrow> notices (notify E e C) = notices C @ [e]" "c_job (notify E e C) = c_job C"
  "c_results (notify E e C) = c_results C"
  by (simp_all add: notify_def Let_def)

lemma report_notices:
  "notices (report_result E rid error C) = notices C @ (case c_results C rid of
      Some r \<Rightarrow> [NotifyResult (SubmitResult_done (uv_hrtime E) r) error] | None \<Rightarrow> [])"
  "c_job (report_result E rid error C) = c_job C"
  "c_results (report_result E rid error C) = (c_results C)(rid := None)"
  by (simp_all add: report_result_def Let_def fun_upd_idem split: option.split)

text \<open>The extensions decide whether it is a nicehash pool, and nothing else.\<close>

definition nicehash_in :: "'d json list \<Rightarrow> bool" where
  "nicehash_in exts \<longleftrightarrow> (\<exists>s. JString s \<in> set exts \<and> c_string s = cstr ''nicehash'')"

lemma parseExtensions_eq:
  "parseExtensions v C = (case v of JArray exts \<Rightarrow> C\<lparr>c_nicehash := (c_nicehash C \<or> nicehash_in exts)\<rparr> | _ \<Rightarrow> C)"
proof -
  have "fold (\<lambda>ext C. case ext of
      JString s \<Rightarrow> if c_string s = cstr ''nicehash'' then C\<lparr>c_nicehash := True\<rparr> else C | _ \<Rightarrow> C) exts C =
    C\<lparr>c_nicehash := (c_nicehash C \<or> nicehash_in exts)\<rparr>" for exts
  proof (induction exts arbitrary: C)
    case (Cons e exts)
    show ?case
    proof (cases "\<exists>s. e = JString s \<and> c_string s = cstr ''nicehash''")
      case True
      then have "nicehash_in (e # exts)" by (auto simp: nicehash_in_def)
      then show ?thesis using True Cons.IH [of "C\<lparr>c_nicehash := True\<rparr>"] by auto
    next
      case False
      then have "nicehash_in (e # exts) = nicehash_in exts" by (auto simp: nicehash_in_def)
      then show ?thesis using False Cons.IH [of C] by (cases e) auto
    qed
  qed (simp add: nicehash_in_def)
  thus ?thesis unfolding parseExtensions_def by (cases v) auto
qed

definition login_nicehash :: "(bytes \<times> 'd json) list \<Rightarrow> url \<Rightarrow> bool" where
  "login_nicehash res url \<longleftrightarrow> u_nicehash url \<or>
    (\<exists>exts. HasMember res (cstr ''extensions'') \<and> json_member res (cstr ''extensions'') = JArray exts \<and> nicehash_in exts)"

lemma parseLogin_eq:
  assumes "env_ok E"
  shows "\<exists>ok d. setId (GetString E (json_member res (cstr ''id''))) 0 = Some (ok, d) \<and>
    parseLogin E res C = (if \<not> ok then Some (False, C\<lparr>c_rpcId := d\<rparr>)
      else parseJob E (json_member res (cstr ''job'')) (C\<lparr>c_rpcId := d, c_nicehash := login_nicehash res (c_url C)\<rparr>))"
proof -
  obtain ok d where d: "setId (GetString E (json_member res (cstr ''id''))) 0 = Some (ok, d)"
    using setId_total by blast
  let ?C = "C\<lparr>c_rpcId := d\<rparr>\<lparr>c_nicehash := u_nicehash (c_url C)\<rparr>"
  have "(if HasMember res (cstr ''extensions'') then parseExtensions (json_member res (cstr ''extensions'')) ?C else ?C)
    = C\<lparr>c_rpcId := d, c_nicehash := login_nicehash res (c_url C)\<rparr>"
    by (cases "json_member res (cstr ''extensions'')") (auto simp: parseExtensions_eq login_nicehash_def)
  then show ?thesis using d by (auto simp: parseLogin_def)
qed

text \<open>A job the client accepts has a blob of a valid size and a difficulty.\<close>

lemma setBlob_valid:
  assumes "setBlob J s = Some (True, J')" "length (j_blob J) = 96"
  shows "0 < j_size J' \<and> length (j_blob J') = 96 \<and> j_poolId J' = j_poolId J"
proof -
  obtain t where t: "s = Some t" using assms(1) by (cases s) (auto simp: setBlob_def)
  obtain bs where bs: "blob_string t bs"
    using assms t setBlob_rejects [OF assms(2), of t] by (cases "\<exists>bs. blob_string t bs") auto
  show ?thesis
    using setBlob_accepts [OF assms(2) bs] assms t bs by (auto simp: blob_string_def)
qed

lemma setTarget_keeps:
  assumes "setTarget g J s = Some (ok, J')"
  shows "j_id J' = j_id J \<and> j_blob J' = j_blob J \<and> j_size J' = j_size J \<and> j_poolId J' = j_poolId J"
  using assms by (auto simp: setTarget_def Let_def split: option.splits if_splits Option.bind_splits prod.splits)

lemma coin_variant_keep [simp]:
  "j_id (setCoin J c) = j_id J" "j_blob (setCoin J c) = j_blob J" "j_size (setCoin J c) = j_size J"
  "j_poolId (setCoin J c) = j_poolId J" "j_diff (setCoin J c) = j_diff J"
  "j_id (setVariant J v) = j_id J" "j_blob (setVariant J v) = j_blob J" "j_size (setVariant J v) = j_size J"
  "j_poolId (setVariant J v) = j_poolId J" "j_diff (setVariant J v) = j_diff J"
  by (simp_all add: setCoin_def setVariant_def Let_def split: option.split)

lemma read_job_parts:
  assumes "read_job E params cid nh url = Some J"
  shows "\<exists>obj d J1 J2. params = JObject obj \<and>
    setId (GetString E (json_member obj (cstr ''job_id''))) 0 = Some (True, d) \<and>
    setBlob ((Job_for cid nh (url_algo url) (u_variant url))\<lparr>j_id := d\<rparr>) (GetString E (json_member obj (cstr ''blob''))) =
      Some (True, J1) \<and>
    setTarget (st_target E) J1 (GetString E (json_member obj (cstr ''target''))) = Some (True, J2) \<and>
    j_id J = j_id J2 \<and> j_blob J = j_blob J2 \<and> j_size J = j_size J2 \<and> j_poolId J = j_poolId J2 \<and> j_diff J = j_diff J2"
  using assms
  by (auto simp: read_job_def Job_setId_def Let_def split: json.splits Option.bind_splits prod.splits if_splits)

lemma read_job_valid:
  assumes "env_ok E" "read_job E params cid nh url = Some J"
  shows "Job_isValid J \<and> j_poolId J = cid"
proof -
  obtain obj d J1 J2 where p: "setBlob ((Job_for cid nh (url_algo url) (u_variant url))\<lparr>j_id := d\<rparr>)
      (GetString E (json_member obj (cstr ''blob''))) = Some (True, J1)"
    "setTarget (st_target E) J1 (GetString E (json_member obj (cstr ''target''))) = Some (True, J2)"
    "j_size J = j_size J2" "j_poolId J = j_poolId J2" "j_diff J = j_diff J2"
    using read_job_parts [OF assms(2)] by blast
  have "0 < j_diff J2"
    using setTarget_total [of "st_target E" J1 "GetString E (json_member obj (cstr ''target''))"] assms(1) p(2)
    by (auto simp: env_ok_def)
  then show ?thesis
    using setBlob_valid [OF p(1)] setTarget_keeps [OF p(2)] p(3-5) by (simp add: Job_isValid_def Job_for_def)
qed

lemma read_job_same:
  assumes "read_job E params cid nh url = Some J" "read_job E' params cid nh url = Some J'" "js_string E' = js_string E"
  shows "Job_eq J J'"
proof -
  have g: "GetString E' v = GetString E v" for v using assms(3) by (cases v) (simp_all add: GetString_def)
  obtain obj d J1 J2 where p: "params = JObject obj" "setId (GetString E (json_member obj (cstr ''job_id''))) 0 = Some (True, d)"
    "setBlob ((Job_for cid nh (url_algo url) (u_variant url))\<lparr>j_id := d\<rparr>) (GetString E (json_member obj (cstr ''blob''))) =
      Some (True, J1)"
    "setTarget (st_target E) J1 (GetString E (json_member obj (cstr ''target''))) = Some (True, J2)"
    "j_id J = j_id J2" "j_blob J = j_blob J2"
    using read_job_parts [OF assms(1)] by blast
  obtain obj' d' J1' J2' where p': "params = JObject obj'" "setId (GetString E (json_member obj' (cstr ''job_id''))) 0 = Some (True, d')"
    "setBlob ((Job_for cid nh (url_algo url) (u_variant url))\<lparr>j_id := d'\<rparr>) (GetString E (json_member obj' (cstr ''blob''))) =
      Some (True, J1')"
    "setTarget (st_target E') J1' (GetString E (json_member obj' (cstr ''target''))) = Some (True, J2')"
    "j_id J' = j_id J2'" "j_blob J' = j_blob J2'"
    using read_job_parts [OF assms(2)] unfolding g by blast
  have "J1' = J1" using p p' by auto
  then show ?thesis
    using setTarget_keeps [OF p(4)] setTarget_keeps [OF p'(4)] p(5,6) p'(5,6) by (simp add: Job_eq_def JobId_eq_def)
qed

text \<open>What a message can report.\<close>

definition reports_nothing :: "client \<Rightarrow> client \<Rightarrow> bool" where
  "reports_nothing C C' \<longleftrightarrow> notices C' = notices C \<and> c_job C' = c_job C"

definition reports_job :: "call list \<Rightarrow> client \<Rightarrow> client \<Rightarrow> bool" where
  "reports_job before C C' \<longleftrightarrow> notices C' = notices C @ before @ [NotifyJob (c_job C')] \<and>
    \<not> Job_eq (c_job C) (c_job C') \<and> Job_isValid (c_job C') \<and> j_poolId (c_job C') = c_id C"

definition reports_result :: "client \<Rightarrow> client \<Rightarrow> bool" where
  "reports_result C C' \<longleftrightarrow> (\<exists>rid r t e. c_results C rid = Some r \<and>
    notices C' = notices C @ [NotifyResult (SubmitResult_done t r) e] \<and> c_job C' = c_job C \<and>
    c_results C' = (c_results C)(rid := None))"

lemma parseJob_reports:
  assumes "env_ok E"
  shows "\<exists>ok C'. parseJob E params C = Some (ok, C') \<and> notices C' = notices C \<and>
    (if ok then \<not> Job_eq (c_job C) (c_job C') \<and> Job_isValid (c_job C') \<and> j_poolId (c_job C') = c_id C
     else c_job C' = c_job C)"
  using read_job_valid [OF assms, of params "c_id C" "c_nicehash C" "c_url C"]
  by (auto simp: parseJob_eq [OF assms] split: option.split)

lemma response_reports:
  assumes "env_ok E" "parseResponse E rid result error C = Some C'"
  shows "reports_nothing C C' \<or> reports_job [NotifyLogin] C C' \<or> reports_result C C'"
proof -
  have rep: "reports_nothing C C1 \<or> reports_result C C1"
    if "notices C1 = notices (report_result E rid e C)" "c_job C1 = c_job C"
      "c_results C1 = c_results (report_result E rid e C)" for e C1
    using that unfolding reports_nothing_def reports_result_def report_notices by (cases "c_results C rid") auto
  show ?thesis
  proof (cases "\<exists>err. error = JObject err")
    case True
    then obtain err where err: "error = JObject err" by blast
    show ?thesis
      using assms(2) rep [of C' "GetString E (json_member err (cstr ''message''))"]
      by (auto simp: err parseResponse_def Let_def report_notices(2) split: if_splits)
  next
    case False
    then have e: "parseResponse E rid result error C = (case result of
        JObject res \<Rightarrow> if rid = 1 then do {
            (ok, C) \<leftarrow> parseLogin E res C;
            if \<not> ok then Some (Client_close C)
            else let C = C\<lparr>c_failures := 0\<rparr>; C = notify E NotifyLogin C in Some (notify E (NotifyJob (c_job C)) C)
          } else Some (report_result E rid None C)
      | _ \<Rightarrow> Some C)"
      by (cases error) (auto simp: parseResponse_def)
    show ?thesis
    proof (cases "\<exists>res. result = JObject res \<and> rid = 1")
      case True
      then obtain res where res: "result = JObject res" "rid = 1" by blast
      obtain ok d where l: "parseLogin E res C = (if \<not> ok then Some (False, C\<lparr>c_rpcId := d\<rparr>)
          else parseJob E (json_member res (cstr ''job'')) (C\<lparr>c_rpcId := d, c_nicehash := login_nicehash res (c_url C)\<rparr>))"
        using parseLogin_eq [OF assms(1)] by blast
      let ?C = "C\<lparr>c_rpcId := d, c_nicehash := login_nicehash res (c_url C)\<rparr>"
      have same: "notices ?C = notices C" "c_job ?C = c_job C" "c_id ?C = c_id C" by (simp_all add: notices_def)
      obtain ok' C1 where j: "parseJob E (json_member res (cstr ''job'')) ?C = Some (ok', C1)" "notices C1 = notices C"
        "if ok' then \<not> Job_eq (c_job C) (c_job C1) \<and> Job_isValid (c_job C1) \<and> j_poolId (c_job C1) = c_id C
          else c_job C1 = c_job C"
        using parseJob_reports [OF assms(1), of "json_member res (cstr ''job'')" ?C] unfolding same by blast
      show ?thesis
        using assms(2) [unfolded e] j(2,3)
        by (cases ok; cases ok') (simp_all add: res l j(1) Let_def reports_nothing_def reports_job_def, auto)
    next
      case False
      then show ?thesis
        using assms(2) [unfolded e] rep [of "report_result E rid None C" None]
        by (cases result) (auto simp: reports_nothing_def report_notices(2) split: if_splits)
    qed
  qed
qed

lemma notification_reports:
  assumes "env_ok E" "parseNotification E m params error C = Some C'"
  shows "reports_nothing C C' \<or> reports_job [] C C'"
proof -
  obtain ok C1 where j: "parseJob E params C = Some (ok, C1)" "notices C1 = notices C"
    "if ok then \<not> Job_eq (c_job C) (c_job C1) \<and> Job_isValid (c_job C1) \<and> j_poolId (c_job C1) = c_id C
      else c_job C1 = c_job C"
    using parseJob_reports [OF assms(1)] by blast
  show ?thesis
    using assms(2) j(2,3)
    by (cases ok) (auto simp: parseNotification_def j(1) reports_nothing_def reports_job_def
        split: json.splits option.splits if_splits)
qed

lemma parse_reports:
  assumes "env_ok E" "Client_parse E line C = Some C'"
  shows "reports_nothing C C' \<or> reports_job [NotifyLogin] C C' \<or> reports_job [] C C' \<or> reports_result C C'"
proof -
  define C1 where "C1 = startTimeout C"
  have same: "reports_nothing C C' = reports_nothing C1 C'" "reports_job b C C' = reports_job b C1 C'"
    "reports_result C C' = reports_result C1 C'" for b
    by (simp_all add: C1_def reports_nothing_def reports_job_def reports_result_def)
      (simp_all add: startTimeout_def Let_def)
  have n: "reports_nothing C1 C1" by (simp add: reports_nothing_def)
  show ?thesis
    using assms(2) response_reports [OF assms(1)] notification_reports [OF assms(1)] n
    unfolding Client_parse_def C1_def [symmetric] Let_def same
    by (auto split: if_splits option.splits json.splits) blast+
qed

section \<open>Repeated jobs, refused connections, lost results\<close>

lemma repeated_login:
  assumes E: "env_ok E" "env_ok E'" "js_string E' = js_string E"
    and first: "parseResponse E 1 (JObject res) error C = Some C1" "reports_job [NotifyLogin] C C1"
    and again: "c_job D = c_job C1" "c_id D = c_id C" "c_url D = c_url C"
    and err: "\<nexists>err. error = JObject err"
  shows "\<exists>D1. parseResponse E' 1 (JObject res) error D = Some D1 \<and> reports_nothing D D1 \<and>
    (c_state D = ConnectedState \<and> c_socket D \<longrightarrow> c_state D1 = ClosingState)"
proof -
  let ?p = "json_member res (cstr ''job'')" and ?n = "login_nicehash res (c_url C)"
  have e: "parseResponse E 1 (JObject res) error C = do {
      (ok, C) \<leftarrow> parseLogin E res C;
      if \<not> ok then Some (Client_close C)
      else let C = C\<lparr>c_failures := 0\<rparr>; C = notify E NotifyLogin C in Some (notify E (NotifyJob (c_job C)) C)
    }" for E C
    using err by (cases error) (auto simp: parseResponse_def)
  obtain ok d where l: "parseLogin E res C = (if \<not> ok then Some (False, C\<lparr>c_rpcId := d\<rparr>)
      else parseJob E ?p (C\<lparr>c_rpcId := d, c_nicehash := ?n\<rparr>))"
    using parseLogin_eq [OF E(1)] by blast
  let ?C = "C\<lparr>c_rpcId := d, c_nicehash := ?n\<rparr>"
  have changed: "notices C1 \<noteq> notices C" using first(2) by (simp add: reports_job_def)
  have same: "notices ?C = notices C" "notices (C\<lparr>c_rpcId := d\<rparr>) = notices C" by (simp_all add: notices_def)
  have ok using first(1) changed same(2) unfolding e l by (cases ok) auto
  hence r: "do {
      (ok, C) \<leftarrow> parseJob E ?p ?C;
      if \<not> ok then Some (Client_close C)
      else let C = C\<lparr>c_failures := 0\<rparr>; C = notify E NotifyLogin C in Some (notify E (NotifyJob (c_job C)) C)
    } = Some C1"
    using first(1) unfolding e l by simp
  obtain J where J: "read_job E ?p (c_id C) ?n (c_url C) = Some J" "c_job C1 = J"
  proof (cases "read_job E ?p (c_id C) ?n (c_url C)")
    case None
    then show ?thesis using r changed same(1) by (simp add: parseJob_eq [OF E(1)]) (metis quiet(1) same(1))
  next
    case (Some J)
    have "\<not> Job_eq (c_job ?C) J"
    proof
      assume "Job_eq (c_job ?C) J"
      hence "C1 = Client_close (Client_close ?C)" using r Some by (simp add: parseJob_eq [OF E(1)])
      thus False using changed same(1) by simp
    qed
    hence "c_job C1 = J" using r Some by (auto simp: parseJob_eq [OF E(1)] Let_def)
    then show ?thesis using that Some by blast
  qed
  obtain ok' d' where l': "parseLogin E' res D = (if \<not> ok' then Some (False, D\<lparr>c_rpcId := d'\<rparr>)
      else parseJob E' ?p (D\<lparr>c_rpcId := d', c_nicehash := ?n\<rparr>))"
    using parseLogin_eq [OF E(2), of res D] unfolding again(3) by blast
  obtain D2 where D2: "parseLogin E' res D = Some (False, D2)" "reports_nothing D D2" "c_socket D2 = c_socket D"
    "c_state D2 = c_state D \<or> c_state D2 = ClosingState"
  proof (cases ok')
    case False
    then show ?thesis using l' that [of "D\<lparr>c_rpcId := d'\<rparr>"] by (simp add: reports_nothing_def notices_def)
  next
    case True
    let ?D = "D\<lparr>c_rpcId := d', c_nicehash := ?n\<rparr>"
    have "parseJob E' ?p ?D = Some (False, ?D) \<or> parseJob E' ?p ?D = Some (False, Client_close ?D)"
    proof (cases "read_job E' ?p (c_id C) ?n (c_url C)")
      case (Some J')
      then have "Job_eq (c_job D) J'" using read_job_same [OF J(1) Some E(3)] J(2) again(1) by simp
      then show ?thesis using Some again(2,3) by (simp add: parseJob_eq [OF E(2)])
    qed (simp add: parseJob_eq [OF E(2)] again(2,3))
    hence p: "parseLogin E' res D = Some (False, ?D) \<or> parseLogin E' res D = Some (False, Client_close ?D)"
      using l' True by simp
    have n: "reports_nothing D ?D" "reports_nothing D (Client_close ?D)"
      unfolding reports_nothing_def quiet by (simp_all add: notices_def)
    have "c_socket (Client_close ?D) = c_socket D" "c_state (Client_close ?D) = c_state D \<or> c_state (Client_close ?D) = ClosingState"
      using frame_close [of ?D] by (auto simp: frame_def closed_or_same_def)
    then show ?thesis using p n that [of ?D] that [of "Client_close ?D"] by auto
  qed
  have "parseResponse E' 1 (JObject res) error D = Some (Client_close D2)" unfolding e D2(1) by simp
  moreover have "c_state (Client_close D2) = ClosingState" if "c_state D = ConnectedState" "c_socket D"
    using D2(3,4) that by (auto simp: Client_close_def Let_def)
  ultimately show ?thesis using D2(2) by (auto simp: reports_nothing_def)
qed

text \<open>
  A connection the operating system refuses at once: the result of \<open>uv_tcp_connect\<close> is not looked at.
\<close>

lemma refused_connection:
  assumes "client_inv C" "c_state C = HostLookupState" "\<not> c_socket C" "\<forall>a. \<not> uv_tcp_connect E a"
    "\<exists>a \<in> set addrs. fst a \<in> {Inet, Inet6}"
  shows "\<exists>C'. onResolved E (Some addrs) C = Some C' \<and> c_state C' = ConnectingState \<and> c_socket C' \<and>
    c_failures C' = c_failures C \<and> notices C' = notices C \<and>
    \<not> c_resolving C' \<and> \<not> c_connecting C' \<and> \<not> c_closing C' \<and> \<not> c_stream C' \<and> c_expire C' = 0"
proof -
  have s: "\<not> c_connecting C" "\<not> c_stream C" "c_expire C = 0"
    using assms(1-3) by (auto simp: client_inv_def phase_ok_def)
  obtain addr v6 where "onResolved E (Some addrs) C =
    (if \<not> usable (Some addrs) then Some (Client_reconnect E (C\<lparr>c_resolving := False\<rparr>))
     else connect_address E addr (C\<lparr>c_resolving := False\<rparr>\<lparr>c_ipv6 := v6\<rparr>\<lparr>c_ip := snd addr\<rparr>))"
    using onResolved_eq by blast
  moreover have "usable (Some addrs)" using assms(5) by (auto simp: usable_def)
  moreover have "\<not> uv_tcp_connect E addr" using assms(4) by blast
  ultimately show ?thesis using s assms(3) by (simp add: connect_address_def Let_def notices_def)
qed

section \<open>Properties\<close>

text \<open>
  An event loop that takes every request, a copy that moves, and a JSON writer for texts without
  special characters, to run the client on.
\<close>

fun json_text :: "'d json \<Rightarrow> bytes" where
  "json_text (JString s) = [0x22] @ s @ [0x22]"
| "json_text (JInt n) = decimal (nat n)"
| "json_text (JObject ms) = [0x7B] @ concat (map (\<lambda>(k, v). [0x22] @ k @ [0x22, 0x3A] @ json_text v @ [0x2C]) ms) @ [0x7D]"
| "json_text v = []"

definition sample_uv :: "unit json option \<Rightarrow> unit uv" where
  "sample_uv doc =
    \<lparr>uv_now = 0, uv_hrtime = 0, uv_rand = 0, uv_getaddrinfo = (\<lambda>h. True), uv_tcp_connect = (\<lambda>a. True),
     uv_writable = True, uv_try_write = (\<lambda>b. int (length b)), uv_reacts = (\<lambda>e. False),
     js_parse = (\<lambda>s. doc), js_write = json_text, js_int = (\<lambda>v. 0), js_string = (\<lambda>v. None),
     st_target = replicate 16 0,
     mem_cpy = (\<lambda>b i n. take (length b) (take n (drop i b) @ drop n b @ b))\<rparr>"

lemma take_extended: "length (take (length b) (x @ y @ b)) = length b"
  by (simp only: length_take length_append)

lemma sample_ok: "env_ok (sample_uv doc)" "moves (sample_uv doc)" "sound (\<lambda>k. sample_uv doc)"
proof -
  show "env_ok (sample_uv doc)" unfolding env_ok_def sample_uv_def by (simp add: take_extended del: take_append length_take)
  thus "sound (\<lambda>k. sample_uv doc)" by (simp add: sound_def)
  have "take n (take m (x @ y)) = x" if "length x = n" "n \<le> m" for n m and x y :: bytes
    using that by (simp add: min_absorb1)
  thus "moves (sample_uv doc)" unfolding moves_def by (simp add: sample_uv_def del: take_append take_take)
qed

definition sample_client :: "bytes \<Rightarrow> client" where
  "sample_client user =
    client_start (replicate 2048 0) (replicate 768 0) 1 0 [] (default_pool\<lparr>u_user := Some user\<rparr>) 5000"

lemma sample_client_sel:
  "c_state (sample_client user) = UnconnectedState" "c_socket (sample_client user) = False"
  "c_resolving (sample_client user) = False" "c_sequence (sample_client user) = 1"
  "c_buf (sample_client user) = replicate 2048 0" "c_recvBufPos (sample_client user) = 0"
  "c_failures (sample_client user) = 0" "c_calls (sample_client user) = []"
  "c_closing (sample_client user) = False" "c_stream (sample_client user) = False"
  by (simp_all add: sample_client_def client_start_def Client_make_def)

text \<open>The sample client looks up its pool, and connects.\<close>

definition sample_resolving :: "bytes \<Rightarrow> client" where
  "sample_resolving user = (sample_client user)
    \<lparr>c_state := HostLookupState, c_resolving := True, c_calls := [UvResolve (u_host (c_url (sample_client user)))]\<rparr>"

definition sample_connecting :: "bytes \<Rightarrow> client" where
  "sample_connecting user = (sample_resolving user)
    \<lparr>c_resolving := False, c_state := ConnectingState, c_socket := True, c_connecting := True,
     c_calls := c_calls (sample_resolving user) @
       [UvConnect (Inet, []) (u_port (c_url (sample_client user)))]\<rparr>"

lemma start_resolve:
  "Client_connect (sample_uv doc) (client_start b g n i a u p) =
    Some ((client_start b g n i a u p)\<lparr>c_state := HostLookupState, c_resolving := True,
      c_calls := [UvResolve (u_host (c_url (client_start b g n i a u p)))]\<rparr>)"
  by (simp add: client_start_def Client_make_def Client_connect_def Client_resolve_def Let_def emit_def sample_uv_def)

lemma start_connect:
  "onResolved (sample_uv doc) (Some [(Inet, [])])
      ((client_start b g n i a u p)\<lparr>c_state := HostLookupState, c_resolving := True, c_calls := cs\<rparr>) =
    Some ((client_start b g n i a u p)\<lparr>c_resolving := False, c_state := ConnectingState, c_socket := True,
      c_connecting := True, c_calls := cs @ [UvConnect (Inet, []) (u_port (c_url (client_start b g n i a u p)))]\<rparr>)"
  by (simp add: client_start_def Client_make_def Let_def emit_def sample_uv_def onResolved_def connect_addresses_def
      connect_address_def get_at_def)

lemma sample_steps:
  "client_step (\<lambda>k. sample_uv doc) InConnect (sample_client user) = Some (sample_resolving user)"
  "client_step (\<lambda>k. sample_uv doc) (InResolved (Some [(Inet, [])])) (sample_resolving user) = Some (sample_connecting user)"
  unfolding client_step.simps sample_connecting_def sample_resolving_def sample_client_def
  by (simp_all add: start_resolve start_connect)

lemma sample_url:
  "Url_user (c_url (sample_connecting user)) = user" "Url_password (c_url (sample_connecting user)) = kDefaultPassword"
  "c_agent (sample_connecting user) = []"
  by (simp_all add: sample_connecting_def sample_resolving_def sample_client_def client_start_def Client_make_def
      Client_setUrl_def Url_assign_def Url_isValid_def default_pool_def Url_make_def Let_def Url_setUser_def
      Url_setPassword_def Url_user_def Url_password_def Url_default_def)

lemma sample_login: "length (js_write (sample_uv doc) (login_request (sample_connecting user))) = 87 + length user"
  by (simp add: sample_uv_def login_request_def sample_url kDefaultPassword_def decimal.simps [of "Suc 0"])

lemma sample_looking:
  assumes "envs (\<lambda>k. sample_uv None)"
  shows "client_reachable envs (sample_client user) (sample_resolving user)"
  by (rule client_reachable.step [where E = "\<lambda>k. sample_uv None" and i = InConnect, OF client_reachable.initial])
    (simp_all only: assms sample_steps client_input_ok.simps sample_client_sel simp_thms, simp)


text \<open>
  What a strategy does to a client: with two pools, the failover connects the second one when the first
  has failed five times, disconnects it when the first logs in after all, and connects it again when
  the first has failed five times more, without asking what became of the lookup in between.
\<close>

lemma failover_connects_again:
  "\<exists>F evs. fo.run [(Connect, jobs), (OnClose 0 5, jobs), (OnLoginSuccess 0, jobs), (OnClose 0 5, jobs)]
      (FailoverStrategy_make [u, v]) = Some (F, evs) \<and>
    filter (\<lambda>e. e = ClientConnect 1 \<or> e = ClientDisconnect 1) evs = [ClientConnect 1, ClientDisconnect 1, ClientConnect 1]"
  by (simp add: failover_step_def failover_connect_def failover_onClose_def failover_onLoginSuccess_def
      FailoverStrategy_make_def pool_at_def failover_isActive_def retries_def Let_def)



text \<open>
  C14. Provided the event loop takes the requests it is given, a client never stops trying. At any time
  it has never been told to connect, has been told to disconnect, waits for a callback of the event
  loop, reads from its pool, or has set the time of its next attempt. The first tick after that time
  looks the pool up again, and the first tick after the time an answer is due closes the connection, as
  does any connection that is reported to have failed. A message that is sent sets the time its answer
  is due. A connect begins a lookup and takes back a disconnect, and a client looks disconnected
  only after one, its own or that of a listener.
\<close>
theorem client_never_stuck:
  assumes "client_reachable (willing pause) (client_start gbuf gsend sequence cid agent url pause) C"
    "length gbuf = 2048" "length gsend = 768"
  shows "(c_state C = UnconnectedState \<and> (\<forall>h. UvResolve h \<notin> set (c_calls C)) \<or>
      c_failures C = -1 \<or> c_resolving C \<or> c_connecting C \<or> c_closing C \<or>
      c_stream C \<and> c_state C \<noteq> ClosingState \<or> c_state C = ConnectingState \<and> c_expire C \<noteq> 0) \<and>
    (\<forall>E. willing pause E \<longrightarrow> c_expire C \<noteq> 0 \<longrightarrow> c_expire C \<le> uv_now (E 0) \<longrightarrow>
      (c_state C = ConnectingState \<longrightarrow> \<not> c_resolving C \<longrightarrow>
        (\<exists>C'. client_step E InTick C = Some C' \<and> c_resolving C' \<and> c_state C' = HostLookupState \<and>
          c_calls C' = c_calls C @ [UvResolve (u_host (c_url C))])) \<and>
      (c_state C = ConnectedState \<longrightarrow> (\<exists>C'. client_step E InTick C = Some C' \<and> c_closing C'))) \<and>
    (\<forall>E i C'. willing pause E \<longrightarrow> client_input_ok C i \<longrightarrow> client_step E i C = Some C' \<longrightarrow>
      (i = InReadError \<or> i = InConnected False \<longrightarrow> c_closing C') \<and>
      (c_sequence C' \<noteq> c_sequence C \<longrightarrow> (\<exists>n. i = InOthers n) \<or>
        c_state C' = ConnectedState \<and> c_expire C' = uv_now (E 0) + kResponseTimeout) \<and>
      (i = InConnect \<longrightarrow> c_resolving C' \<and> c_failures C' \<noteq> -1) \<and>
      (c_failures C' = -1 \<longrightarrow> c_failures C = -1 \<or> i = InDisconnect \<or> (\<exists>k e. uv_reacts (E k) e)))"
proof -
  have inv: "client_inv C" using reachable_inv [OF assms] by (simp add: willing_def)
  have waits: "alive C" by (rule reachable_alive [OF assms])
  have tick: "\<exists>C'. client_step E InTick C = Some C' \<and> c_resolving C' \<and> c_state C' = HostLookupState \<and>
      c_calls C' = c_calls C @ [UvResolve (u_host (c_url C))]"
    if t: "willing pause E" "c_expire C \<noteq> 0" "c_expire C \<le> uv_now (E 0)" "c_state C = ConnectingState" "\<not> c_resolving C" for E
  proof -
    have acc: "\<forall>h. uv_getaddrinfo (E 0) h" using t(1) by (simp add: willing_def accepting_def)
    have "tick_due (E 0) C" using t(2,3) by (simp add: tick_due_def)
    moreover obtain C' where "Client_connect (E 0) C = Some C'" using connect_inv [OF inv, of "E 0"] t(5) by auto
    ultimately show ?thesis using resolve_waits [OF _ acc] t(4) by (auto simp: tick_eq [OF inv])
  qed
  have due: "\<exists>C'. client_step E InTick C = Some C' \<and> c_closing C'"
    if "c_expire C \<noteq> 0" "c_expire C \<le> uv_now (E 0)" "c_state C = ConnectedState" for E
  proof -
    have "c_socket C" using inv that(3) by (auto simp: client_inv_def phase_ok_def)
    then show ?thesis using that close_closing [OF inv] by (simp add: tick_eq [OF inv] tick_due_def)
  qed
  have fail: "c_closing C'" if "client_input_ok C i" "client_step E i C = Some C'" "i = InReadError \<or> i = InConnected False" for E i C'
  proof -
    have "c_socket C" using inv that(1,3) by (auto simp: client_inv_def phase_ok_def)
    moreover have "client_inv (C\<lparr>c_connecting := False\<rparr>)"
      using inv by (auto simp: client_inv_def buf_ok_def phase_ok_def split: socket_state.splits)
    ultimately show ?thesis
      using that(2,3) close_closing [OF inv] close_closing [of "C\<lparr>c_connecting := False\<rparr>"] by (auto simp: onConnect_def)
  qed
  have con: "c_resolving C' \<and> c_failures C' \<noteq> -1" if "willing pause E" "client_step E InConnect C = Some C'" for E C'
    using that resolve_waits [of "E 0" C C'] by (auto simp: willing_def accepting_def)
  have ok: "step_ok E i C C'" if "willing pause E" "client_input_ok C i" "client_step E i C = Some C'" for E i C'
    using client_step_ok [OF inv that(2) _ that(3)] that(1) by (simp add: willing_def sound_def)
  have w: "c_state C = UnconnectedState \<and> (\<forall>h. UvResolve h \<notin> set (c_calls C)) \<or>
      c_failures C = -1 \<or> c_resolving C \<or> c_connecting C \<or> c_closing C \<or>
      c_stream C \<and> c_state C \<noteq> ClosingState \<or> c_state C = ConnectingState \<and> c_expire C \<noteq> 0"
    using waits by (simp add: alive_def never_told_def)
  have t: "(c_state C = ConnectingState \<longrightarrow> \<not> c_resolving C \<longrightarrow>
        (\<exists>C'. client_step E InTick C = Some C' \<and> c_resolving C' \<and> c_state C' = HostLookupState \<and>
          c_calls C' = c_calls C @ [UvResolve (u_host (c_url C))])) \<and>
      (c_state C = ConnectedState \<longrightarrow> (\<exists>C'. client_step E InTick C = Some C' \<and> c_closing C'))"
    if "willing pause E" "c_expire C \<noteq> 0" "c_expire C \<le> uv_now (E 0)" for E
    using tick [OF that] due [of E, OF that(2,3)] by blast
  have o: "(i = InReadError \<or> i = InConnected False \<longrightarrow> c_closing C') \<and>
      (c_sequence C' \<noteq> c_sequence C \<longrightarrow> (\<exists>n. i = InOthers n) \<or>
        c_state C' = ConnectedState \<and> c_expire C' = uv_now (E 0) + kResponseTimeout) \<and>
      (i = InConnect \<longrightarrow> c_resolving C' \<and> c_failures C' \<noteq> -1) \<and>
      (c_failures C' = -1 \<longrightarrow> c_failures C = -1 \<or> i = InDisconnect \<or> (\<exists>k e. uv_reacts (E k) e))"
    if s: "willing pause E" "client_input_ok C i" "client_step E i C = Some C'" for E i C'
    using fail [OF s(2,3)] con [OF s(1)] s(3) ok [OF s] unfolding step_ok_def by blast
  show ?thesis
    by (rule conjI [OF w conjI]; intro allI impI) (erule (2) t, erule (2) o)
qed

theorem client_never_stuck_witness:
  "\<exists>C C'. client_reachable (willing 5000 :: (nat \<Rightarrow> unit uv) \<Rightarrow> bool) (sample_client []) C \<and> c_failures C = 1 \<and> c_expire C = 5000 \<and>
    client_step (\<lambda>k. sample_uv None\<lparr>uv_now := 5000\<rparr>) InTick C = Some C' \<and> c_resolving C'"
proof -
  let ?E = "\<lambda>k. sample_uv None" and ?F = "\<lambda>k. sample_uv None\<lparr>uv_now := 5000\<rparr>"
  have E: "willing 5000 ?E" by (simp add: willing_def sample_ok) (simp add: accepting_def sample_uv_def)
  have F: "willing 5000 ?F"
    using sample_ok(1) [of None] by (simp add: willing_def sound_def env_ok_def) (simp add: accepting_def sample_uv_def)
  obtain C where C: "onResolved (sample_uv None) None (sample_resolving []) = Some C" "c_failures C = 1" "c_expire C = 5000"
    "c_state C = ConnectingState" "\<not> c_resolving C"
    by (simp add: onResolved_def Client_reconnect_def notify_def emit_def Let_def sample_uv_def sample_resolving_def
        sample_client_def client_start_def Client_make_def)
  have "client_reachable (willing 5000 :: (nat \<Rightarrow> unit uv) \<Rightarrow> bool) (sample_client []) (sample_resolving [])"
    by (rule sample_looking) (rule E)
  hence r: "client_reachable (willing 5000 :: (nat \<Rightarrow> unit uv) \<Rightarrow> bool) (sample_client []) C"
    by (rule client_reachable.step [where E = ?E and i = "InResolved None"])
      (simp_all add: E C(1), simp_all add: sample_resolving_def sample_client_sel)
  have "c_expire C \<noteq> 0" "c_expire C \<le> uv_now (?F 0)" using C(3) by simp_all
  then have "\<exists>C'. client_step ?F InTick C = Some C' \<and> c_resolving C'"
    using client_never_stuck [OF r [unfolded sample_client_def]] F C(4,5) by (fastforce simp del: client_step.simps)
  then show ?thesis using r C(2,3) by blast
qed

text \<open>
  C13. However the network cuts the stream of a pool into pieces, the client handles its lines one by
  one, each once and in order, and keeps the rest of the last one in its buffer: if every piece finds
  room behind the unfinished line before it, reading the pieces is the same as parsing the lines
  of the whole stream. It takes a copy inside the receive buffer that works as \<open>memmove\<close> does.
\<close>
theorem stream_is_read_in_lines:
  assumes "length (c_buf C) = 2048" "c_recvBufPos C = 0" "chunks_fit [] ds" "env_ok E" "moves E"
  shows "\<exists>C' b. each (onRead (\<lambda>k. E)) ds C =
      Some (C'\<lparr>c_buf := b, c_recvBufPos := length (snd (lines_of (concat ds)))\<rparr>) \<and>
    take (length (snd (lines_of (concat ds)))) b = snd (lines_of (concat ds)) \<and>
    parse_lines (\<lambda>k. E) 0 (fst (lines_of (concat ds))) C = Some C'"
proof -
  have "buf_ok C" "pending C = []" using assms(1,2) by (simp_all add: buf_ok_def pending_def)
  with read_chunks [OF assms(4,5), of C ds] assms(3)
  obtain C' b p where C': "each (onRead (\<lambda>k. E)) ds C = Some (at_buf b p C')"
    "parse_lines (\<lambda>k. E) 0 (fst (lines_of (concat ds))) C = Some C'"
    "buf_ok (at_buf b p C')" "pending (at_buf b p C') = snd (lines_of (concat ds))" by auto
  have "p = length (snd (lines_of (concat ds)))" using C'(3,4) pending_split by fastforce
  then show ?thesis using C' by (intro exI [of _ C'] exI [of _ b]) (simp add: at_buf_def pending_def)
qed

theorem stream_is_read_in_lines_witness:
  "\<exists>C' b. each (onRead (\<lambda>k. sample_uv None)) [[0x7B], [0x7D, 0x0A, 0x7B], [0x0A, 0x41]] (sample_client []) =
      Some (C'\<lparr>c_buf := b, c_recvBufPos := 1\<rparr>) \<and> take 1 b = [0x41] \<and>
    parse_lines (\<lambda>k. sample_uv None) 0 [[0x7B, 0x7D, 0x0A], [0x7B, 0x0A]] (sample_client []) = Some C'"
proof -
  let ?ds = "[[0x7B], [0x7D, 0x0A, 0x7B], [0x0A, 0x41]] :: bytes list"
  have l: "lines_of (concat ?ds) = ([[0x7B, 0x7D, 0x0A], [0x7B, 0x0A]], [0x41])"
    by (simp add: lines_of.simps memchr_def)
  have "chunks_fit [] ?ds" by (simp add: lines_of.simps memchr_def)
  from stream_is_read_in_lines [OF _ _ this sample_ok(1,2), of "sample_client []" None] show ?thesis
    unfolding l by (simp add: sample_client_sel)
qed

text \<open>
  C36. The copy is a \<open>memcpy\<close>, whose source and destination overlap when an unfinished line is longer
  than all the lines before it in the buffer. What the standard says of \<open>memcpy\<close> does then not determine
  what the client goes on with: there is an implementation after which it is not the unfinished line.
\<close>
theorem overlapping_copy_loses_line:
  assumes "length (c_buf C) = 2048" "c_recvBufPos C = 0" "env_ok E"
    and "0x0A \<notin> set l" "0x0A \<notin> set r" "length l + 1 < length r" "length l + 1 + length r \<le> 2040"
  shows "\<exists>m C'. copies_apart (E\<lparr>mem_cpy := m\<rparr>) \<and> env_ok (E\<lparr>mem_cpy := m\<rparr>) \<and>
    onRead (\<lambda>k. E\<lparr>mem_cpy := m\<rparr>) (l @ [0x0A] @ r) C = Some C' \<and>
    c_recvBufPos C' = length r \<and> take (c_recvBufPos C') (c_buf C') \<noteq> r"
proof -
  have "buf_ok C" using assms(1,2) by (simp add: buf_ok_def)
  from overlap_corrupts [OF this assms(2-7)] show ?thesis by (simp add: pending_def)
qed

theorem overlapping_copy_loses_line_witness:
  "\<exists>m C'. copies_apart (sample_uv None\<lparr>mem_cpy := m\<rparr>) \<and>
    onRead (\<lambda>k. sample_uv None\<lparr>mem_cpy := m\<rparr>) [0x41, 0x0A, 0x42, 0x43, 0x44] (sample_client []) = Some C' \<and>
    c_recvBufPos C' = 3 \<and> take 3 (c_buf C') \<noteq> [0x42, 0x43, 0x44]"
proof -
  have "length [0x41 :: u8] + 1 < length [0x42 :: u8, 0x43, 0x44]"
    "length [0x41 :: u8] + 1 + length [0x42 :: u8, 0x43, 0x44] \<le> 2040" by simp_all
  from overlapping_copy_loses_line [OF _ _ sample_ok(1) _ _ this, of "sample_client []" None] obtain m C' where
    "copies_apart (sample_uv None\<lparr>mem_cpy := m\<rparr>)"
    "onRead (\<lambda>k. sample_uv None\<lparr>mem_cpy := m\<rparr>) ([0x41] @ [0x0A] @ [0x42, 0x43, 0x44]) (sample_client []) = Some C'"
    "c_recvBufPos C' = length [0x42 :: u8, 0x43, 0x44]" "take (c_recvBufPos C') (c_buf C') \<noteq> [0x42, 0x43, 0x44]"
    by (auto simp: sample_client_sel)
  then show ?thesis by (intro exI [of _ m] exI [of _ C']) (simp add: eval_nat_numeral)
qed

text \<open>
  C24. What a message of the pool makes the client tell its listener: nothing; or a job, which is valid,
  has the client's number and differs from the one before, after the login or alone; or the result of a
  share that is waited for, which is then forgotten, so that no share is counted twice. The client's
  job changes with a reported job only.
\<close>
theorem client_reports:
  assumes "env_ok E" "Client_parse E line C = Some C'"
  shows "notices C' = notices C \<and> c_job C' = c_job C \<or>
    (\<exists>login \<in> {[], [NotifyLogin]}. notices C' = notices C @ login @ [NotifyJob (c_job C')] \<and>
      \<not> Job_eq (c_job C) (c_job C') \<and> Job_isValid (c_job C') \<and> j_poolId (c_job C') = c_id C) \<or>
    (\<exists>rid r t e. c_results C rid = Some r \<and> notices C' = notices C @ [NotifyResult (SubmitResult_done t r) e] \<and>
      c_job C' = c_job C \<and> c_results C' = (c_results C)(rid := None))"
  using parse_reports [OF assms] unfolding reports_nothing_def reports_job_def reports_result_def by blast

definition sample_answer :: "(bytes \<times> unit json) list" where
  "sample_answer = [(cstr ''id'', JInt 2), (cstr ''result'', JObject []), (cstr ''error'', JNull)]"

theorem client_reports_witness:
  "\<exists>C'. Client_parse (sample_uv (Some (JObject sample_answer))) (0x7B # replicate 40 0x20)
      (sample_client []\<lparr>c_results := (\<lambda>i. None)(2 := Some (SubmitResult_make 0 2 1000 2000))\<rparr>) = Some C' \<and>
    (\<exists>t e. notices C' = [NotifyResult (SubmitResult_done t (SubmitResult_make 0 2 1000 2000)) e]) \<and>
    c_results C' = (\<lambda>i. None)"
proof -
  let ?E = "sample_uv (Some (JObject sample_answer))"
  let ?C = "sample_client []\<lparr>c_results := (\<lambda>i. None)(2 := Some (SubmitResult_make 0 2 1000 2000))\<rparr>"
  let ?D = "report_result ?E 2 None (startTimeout ?C)"
  have p: "js_parse ?E s = Some (JObject sample_answer)" for s by (simp add: sample_uv_def)
  have m: "json_member sample_answer (cstr ''id'') = JInt 2" "json_member sample_answer (cstr ''result'') = JObject []"
    "json_member sample_answer (cstr ''error'') = JNull"
    by (simp_all add: sample_answer_def json_member_def cstr_def)
  have D: "Client_parse ?E (0x7B # replicate 40 0x20) ?C = Some ?D"
    by (simp add: Client_parse_def p m Let_def IsInt64_def parseResponse_def)
  have n: "notices ?D = [NotifyResult (SubmitResult_done 0 (SubmitResult_make 0 2 1000 2000)) None]" "notices ?C = []"
    by (simp add: report_notices) (simp_all add: notices_def sample_client_sel startTimeout_def sample_uv_def)
  have "c_results ?D = (\<lambda>i. None)"
    using client_reports [OF sample_ok(1) D] unfolding n by (auto simp: fun_eq_iff split: if_splits)
  then show ?thesis using D n(1) by blast
qed

text \<open>
  C37. A pool that answers a second login with the job it has given before loses the client: a login
  whose job the client has taken, answered again in the same way while the client still has that job,
  is reported to nobody, and the client closes the connection.
\<close>
theorem repeated_login_closes:
  assumes "env_ok E" "env_ok E'" "js_string E' = js_string E" "\<nexists>err. error = JObject err"
    and "parseResponse E 1 (JObject res) error C = Some C1" "c_job C1 \<noteq> c_job C"
    and "c_job D = c_job C1" "c_id D = c_id C" "c_url D = c_url C" "c_state D = ConnectedState" "c_socket D"
  shows "\<exists>D1. parseResponse E' 1 (JObject res) error D = Some D1 \<and> notices D1 = notices D \<and>
    c_state D1 = ClosingState"
proof -
  have "reports_job [NotifyLogin] C C1"
    using response_reports [OF assms(1,5)] assms(6) by (auto simp: reports_nothing_def reports_result_def)
  from repeated_login [OF assms(1-3,5) this assms(7-9,4)] assms(10,11) show ?thesis
    by (auto simp: reports_nothing_def)
qed

definition sample_login :: "(bytes \<times> unit json) list" where
  "sample_login = [(cstr ''id'', JString [0x31]), (cstr ''job'', JObject
    [(cstr ''job_id'', JString [0x31]), (cstr ''blob'', JString (replicate 152 0x30)),
     (cstr ''target'', JString [0x31, 0x31, 0x31, 0x31, 0x31, 0x31, 0x31, 0x31])])]"

lemma unhex_zeros: "unhex (replicate (2 * n) 0x30) = Some (replicate n 0)"
  by (induction n) (simp_all add: hex_value_def)

lemma sample_job:
  "\<exists>J. read_job (sample_uv doc) (json_member sample_login (cstr ''job'')) cid nh url = Some J \<and> j_id J = 0x31 # replicate 63 0"
proof -
  define obj :: "(bytes \<times> unit json) list" where "obj = [(cstr ''job_id'', JString [0x31]),
    (cstr ''blob'', JString (replicate 152 0x30)), (cstr ''target'', JString [0x31, 0x31, 0x31, 0x31, 0x31, 0x31, 0x31, 0x31])]"
  have o: "json_member sample_login (cstr ''job'') = JObject obj"
    by (simp add: sample_login_def json_member_def cstr_def obj_def)
  have m: "json_member obj (cstr ''job_id'') = JString [0x31]" "json_member obj (cstr ''blob'') = JString (replicate 152 0x30)"
    "json_member obj (cstr ''target'') = JString [0x31, 0x31, 0x31, 0x31, 0x31, 0x31, 0x31, 0x31]" "\<not> HasMember obj (cstr ''coin'')"
    "\<not> HasMember obj (cstr ''variant'')"
    by (simp_all add: obj_def json_member_def cstr_def HasMember_def)
  have c: "c_string (replicate n (0x31 :: u8)) = replicate n 0x31" "c_string (replicate n (0x30 :: u8)) = replicate n 0x30" for n
    by (simp_all add: c_string_def)
  have i: "setId (Some [0x31]) 0 = Some (True, 0x31 # replicate 63 0)" using setId_eq [of "[0x31]"] by simp
  let ?J = "(Job_for cid nh (url_algo url) (u_variant url))\<lparr>j_id := 0x31 # replicate 63 0\<rparr>"
  have "blob_string (replicate 152 0x30) (replicate 76 0)" using unhex_zeros [of 76] by (simp add: blob_string_def)
  from setBlob_accepts [OF _ this, of ?J] obtain J2 where J2: "setBlob ?J (Some (replicate 152 0x30)) = Some (True, J2)"
    "j_id J2 = 0x31 # replicate 63 0"
    by (auto simp: Job_for_def)
  have u: "unhex [0x31, 0x31, 0x31, 0x31, 0x31, 0x31, 0x31, 0x31] = Some [0x11, 0x11, 0x11, 0x11]" by (simp add: hex_value_def)
  have "le_word [0x11, 0x11, 0x11, 0x11] \<noteq> (0 :: u32)" by simp
  then obtain J3 where J3: "setTarget (replicate 16 0) J2 (Some [0x31, 0x31, 0x31, 0x31, 0x31, 0x31, 0x31, 0x31]) = Some (True, J3)" "j_id J3 = j_id J2"
    using setTarget_short [of "[0x31, 0x31, 0x31, 0x31, 0x31, 0x31, 0x31, 0x31]" "replicate 16 0" J2] u by (auto simp: Let_def)
  have "st_target (sample_uv doc) = replicate 16 0" by (simp add: sample_uv_def)
  then show ?thesis
    using c [of 1] by (simp add: o read_job_def m GetString_def c i Job_setId_def J2 J3)
qed

lemma sample_logs_in:
  assumes "c_job C = Job_default"
  shows "\<exists>C1. parseResponse (sample_uv doc) 1 (JObject sample_login) JNull C = Some C1 \<and> \<not> Job_eq (c_job C) (c_job C1) \<and>
    c_id C1 = c_id C \<and> c_url C1 = c_url C \<and> c_state C1 = c_state C \<and> c_socket C1 = c_socket C \<and>
    notices C1 = notices C @ [NotifyLogin, NotifyJob (c_job C1)]"
proof -
  let ?E = "sample_uv doc"
  have i: "setId (GetString ?E (json_member sample_login (cstr ''id''))) 0 = Some (True, 0x31 # replicate 63 0)"
    using setId_eq [of "[0x31]"] by (simp add: sample_login_def json_member_def GetString_def c_string_def)
  define C2 where "C2 = C\<lparr>c_rpcId := 0x31 # replicate 63 0, c_nicehash := login_nicehash sample_login (c_url C)\<rparr>"
  obtain J where J: "read_job ?E (json_member sample_login (cstr ''job'')) (c_id C2) (c_nicehash C2) (c_url C2) = Some J"
    "j_id J = 0x31 # replicate 63 0" using sample_job by blast
  have "hd (j_id Job_default) \<noteq> hd (j_id J)" by (simp add: J(2) Job_default_def JobId_empty_def)
  hence n: "\<not> Job_eq (c_job C) J" using assms by (auto simp: Job_eq_def JobId_eq_def)
  have "parseLogin ?E sample_login C = Some (True, C2\<lparr>c_job := J\<rparr>)"
    using parseLogin_eq [OF sample_ok(1), of doc sample_login C] i J(1) n
    by (simp add: C2_def parseJob_eq [OF sample_ok(1)] ex_bool_eq)
  then show ?thesis
    using n by (simp add: parseResponse_def notify_def Let_def) (simp add: C2_def sample_uv_def notices_def)
qed

theorem repeated_login_closes_witness:
  "\<exists>C1 D1. parseResponse (sample_uv None) 1 (JObject sample_login) JNull
        (sample_client []\<lparr>c_state := ConnectedState, c_socket := True\<rparr>) = Some C1 \<and>
    notices C1 = [NotifyLogin, NotifyJob (c_job C1)] \<and>
    parseResponse (sample_uv None) 1 (JObject sample_login) JNull C1 = Some D1 \<and>
    notices D1 = notices C1 \<and> c_state D1 = ClosingState"
proof -
  let ?C = "sample_client []\<lparr>c_state := ConnectedState, c_socket := True\<rparr>"
  have "c_job ?C = Job_default" "notices ?C = []"
    by (simp_all add: sample_client_def client_start_def Client_make_def notices_def)
  from sample_logs_in [OF this(1), of None] this(2)
  obtain C1 where C1: "parseResponse (sample_uv None) 1 (JObject sample_login) JNull ?C = Some C1" "c_id C1 = c_id ?C"
    "c_url C1 = c_url ?C" "c_state C1 = ConnectedState" "c_socket C1" "notices C1 = [NotifyLogin, NotifyJob (c_job C1)]"
    "\<not> Job_eq (c_job ?C) (c_job C1)" by auto
  have "c_job C1 \<noteq> c_job ?C" using C1(7) by (auto simp: Job_eq_def JobId_eq_def)
  from repeated_login_closes [OF sample_ok(1) sample_ok(1) refl _ C1(1) this refl C1(2-5)] show ?thesis
    using C1(1,6) by auto
qed

text \<open>What is left of a connection the operating system has refused at once.\<close>

definition abandoned :: "client \<Rightarrow> bool" where
  "abandoned C \<longleftrightarrow> c_state C = ConnectingState \<and> c_socket C \<and> c_expire C = 0 \<and> \<not> c_stream C \<and>
    \<not> c_resolving C \<and> \<not> c_connecting C \<and> \<not> c_closing C"

lemma abandoned_stays:
  assumes "abandoned D" "client_input_ok D i" "i \<noteq> InDisconnect" "i \<noteq> InConnect" "client_step F i D = Some D'"
  shows "abandoned D' \<and> notices D' = notices D"
proof (cases i)
  case (InSubmit result)
  have "abandoned (print_send s D\<lparr>c_results := r\<rparr>) \<and> notices (print_send s D\<lparr>c_results := r\<rparr>) = notices D" for s r
    using assms(1) by (simp add: abandoned_def print_send_def notices_def Let_def)
  then show ?thesis
    using InSubmit assms(5) by (auto simp: Client_submit_def Client_send_def abandoned_def Let_def split: Option.bind_splits if_splits)
next
  case InKeepAlive
  then show ?thesis
    using assms(1,5) by (auto simp: Client_ping_def Client_send_def abandoned_def print_send_def notices_def Let_def)
next
  case (InOthers n)
  then show ?thesis using assms(1,5) by (auto simp: abandoned_def notices_def)
qed (use assms in \<open>auto simp: abandoned_def Client_tick_def\<close>)

text \<open>
  C38. A connection that the operating system refuses at once is never reported and never retried: the
  client does not look at the result of \<open>uv_tcp_connect\<close>, keeps the state of a connection that is
  being made with no time limit, and leaves it by no step but a disconnect or a
  connect of its strategy, which is told of nothing.
\<close>
theorem refused_connection_is_final:
  assumes "client_reachable sound (client_start gbuf gsend sequence cid agent url pause) C"
    "length gbuf = 2048" "length gsend = 768" "c_resolving C" "c_state C = HostLookupState" "\<not> c_socket C"
    and "\<forall>a. \<not> uv_tcp_connect E a" "\<exists>a \<in> set addrs. fst a \<in> {Inet, Inet6}"
  shows "\<exists>C'. onResolved E (Some addrs) C = Some C' \<and> abandoned C' \<and> notices C' = notices C \<and>
    (\<forall>D F i D'. abandoned D \<longrightarrow> client_input_ok D i \<longrightarrow> i \<noteq> InDisconnect \<longrightarrow> i \<noteq> InConnect \<longrightarrow>
      client_step F i D = Some D' \<longrightarrow>
      abandoned D' \<and> notices D' = notices D)"
proof -
  have inv: "client_inv C" using reachable_inv [OF assms(1-3)] by simp
  from refused_connection [OF inv assms(5-8)] obtain C' where C': "onResolved E (Some addrs) C = Some C'"
    "abandoned C'" "notices C' = notices C" by (auto simp: abandoned_def)
  then show ?thesis using C' abandoned_stays by blast
qed

theorem refused_connection_is_final_witness:
  "\<exists>C'. onResolved (sample_uv None\<lparr>uv_tcp_connect := (\<lambda>a. False)\<rparr>) (Some [(Inet6, [])]) (sample_resolving []) = Some C' \<and>
    abandoned C' \<and> client_step (\<lambda>k. sample_uv None) InTick C' = Some C'"
proof -
  let ?E = "sample_uv None\<lparr>uv_tcp_connect := (\<lambda>a. False)\<rparr>"
  have r: "client_reachable (sound :: (nat \<Rightarrow> unit uv) \<Rightarrow> bool) (sample_client []) (sample_resolving [])"
    by (rule sample_looking) (rule sample_ok)
  have "\<exists>C'. onResolved ?E (Some [(Inet6, [])]) (sample_resolving []) = Some C' \<and> abandoned C'"
    using refused_connection_is_final [OF r [unfolded sample_client_def], of ?E "[(Inet6, [])]"]
    by (auto simp: sample_resolving_def sample_client_sel)
  then show ?thesis by (auto simp: abandoned_def Client_tick_def)
qed

end
