(* ===== verification/Shares.thy ===== *)
theory Shares
  imports Client Proof_Of_Work Hashrate
begin

text \<open>
  From a job of the pool to a share: the check of what the devices have found in
  \<open>Workers::onResult\<close> of \<open>src/src/workers/Workers.cpp\<close>, which hashes each of the queued jobs again on
  the processor, and the timer that collects the hash counts. The first is three callbacks: one in
  the thread of the event loop empties the queue, one in a thread of the pool hashes, and one in the
  thread of the event loop again reports the results.
\<close>

section \<open>Checking found shares\<close>

record job_baton =
  jb_jobs :: "job list"
  jb_results :: "job_result list"
  jb_errors :: int

definition JobBaton_make :: job_baton where
  "JobBaton_make = \<lparr>jb_jobs = [], jb_results = [], jb_errors = 0\<rparr>"

fun take_queue :: "job list \<Rightarrow> job_baton \<Rightarrow> job_baton" where
  "take_queue [] B = B"
| "take_queue (job # queue) B = take_queue queue (B\<lparr>jb_jobs := jb_jobs B @ [job]\<rparr>)"

definition onResult :: "shared \<Rightarrow> job_baton \<times> shared" where
  "onResult w = (take_queue (ws_queue w) JobBaton_make, w\<lparr>ws_queue := []\<rparr>)"

text \<open>\<open>g k\<close> is what the stack holds where the digest of job \<open>k\<close> comes.\<close>

fun hash_jobs :: "cn_function option \<Rightarrow> (nat \<Rightarrow> bytes) \<Rightarrow> nat \<Rightarrow> job list \<Rightarrow> cryptonight_ctx \<Rightarrow> job_baton \<Rightarrow>
    job_baton option" where
  "hash_jobs cryptonight_hash_ctx g k [] ctx B = Some B"
| "hash_jobs cryptonight_hash_ctx g k (job # jobs) ctx B = do {
     let result = JobResult_of (g k) job;
     (ok, result, ctx) \<leftarrow> CryptoNight_hash_job cryptonight_hash_ctx job result ctx;
     let B = (if ok then B\<lparr>jb_results := jb_results B @ [result]\<rparr> else B\<lparr>jb_errors := jb_errors B + 1\<rparr>);
     hash_jobs cryptonight_hash_ctx g (k + 1) jobs ctx B
   }"

definition baton_work ::
  "cn_function option \<Rightarrow> (nat \<Rightarrow> bytes) \<Rightarrow> cryptonight_ctx \<Rightarrow> job_baton \<Rightarrow> job_baton option" where
  "baton_work cryptonight_hash_ctx g ctx B = hash_jobs cryptonight_hash_ctx g 0 (jb_jobs B) ctx B"

text \<open>\<open>m_listener\<close> is the network.\<close>

fun report_results :: "job_result list \<Rightarrow> network \<Rightarrow> network option" where
  "report_results [] N = Some N"
| "report_results (result # results) N = do {
     N \<leftarrow> Network_onJobResult result N;
     report_results results N
   }"

section \<open>Collecting hash counts\<close>

text \<open>
  A handle is its thread number and, if the worker exists, its hash count and timestamp. The result
  is the meter, \<open>m_ticks\<close>, and whether the whole of the callback was carried out.
\<close>

type_synonym counter = "nat \<times> (u64 \<times> u64) option"

fun collect :: "counter list \<Rightarrow> 'f hashrate \<Rightarrow> (bool \<times> 'f hashrate) option" where
  "collect [] H = Some (True, H)"
| "collect ((threadId, worker) # handles) H =
    (case worker of
       None \<Rightarrow> Some (False, H)
     | Some (hashCount, timestamp) \<Rightarrow> do {
         H \<leftarrow> Hashrate_add threadId hashCount timestamp H;
         collect handles H
       })"

definition onTick ::
  "'f float_ops \<Rightarrow> (nat \<Rightarrow> u64) \<Rightarrow> counter list \<Rightarrow> u64 \<Rightarrow> 'f hashrate \<Rightarrow> (u64 \<times> 'f hashrate) option" where
  "onTick fl now handles ticks H = do {
     (all, H) \<leftarrow> collect handles H;
     if \<not> all then Some (ticks, H)
     else if ticks AND 0xF = 0 then do {
       H \<leftarrow> updateHighest fl now H;
       Some (ticks + 1, H)
     }
     else Some (ticks + 1, H)
   }"

section \<open>What the check lets through\<close>

text \<open>A job that CryptoNight can hash, its digest, its share, and whether the share is good.\<close>

definition hashable :: "job \<Rightarrow> bool" where
  "hashable J \<longleftrightarrow> 43 \<le> j_size J \<and> j_size J \<le> length (j_blob J) \<and> j_size J < 2 ^ 31 \<and>
    (Job_variant J = 0 \<or> Job_variant J = 1)"

definition job_digest :: "bool \<Rightarrow> job \<Rightarrow> bytes" where
  "job_digest lite J = cn_digest lite (Job_variant J) (take (j_size J) (j_blob J))"

definition good_share :: "bool \<Rightarrow> job \<Rightarrow> bool" where
  "good_share lite J \<longleftrightarrow> le_word (drop 24 (job_digest lite J)) < j_target J"

definition share_of :: "bool \<Rightarrow> job \<Rightarrow> job_result" where
  "share_of lite J = JobResult_of (job_digest lite J) J"

lemma take_queue_jobs: "take_queue q B = B\<lparr>jb_jobs := jb_jobs B @ q\<rparr>"
  by (induction q arbitrary: B) simp_all

lemma hash_jobs_eq:
  assumes "cn_instance f lite" "\<And>k. length (g k) = 32"
  shows "cn_ctx_ready ctx \<Longrightarrow> \<forall>J \<in> set js. hashable J \<Longrightarrow>
    hash_jobs (Some f) g k js ctx B =
      Some (B\<lparr>jb_results := jb_results B @ map (share_of lite) (filter (good_share lite) js),
              jb_errors := jb_errors B + int (length (filter (\<lambda>J. \<not> good_share lite J) js))\<rparr>)"
proof (induction js arbitrary: k ctx B)
  case (Cons J js)
  have J: "43 \<le> j_size J" "j_size J \<le> length (j_blob J)" "j_size J < 2 ^ 31" "Job_variant J = 0 \<or> Job_variant J = 1"
    using Cons.prems(2) by (simp_all add: hashable_def)
  have r: "length (jr_result (JobResult_of (g k) J)) = 32" by (simp add: JobResult_of_def assms(2))
  obtain ctx' where h: "CryptoNight_hash_job (Some f) J (JobResult_of (g k) J) ctx =
      Some (good_share lite J, share_of lite J, ctx')" "cn_ctx_ready ctx'"
    using cn_instance.hash_job [OF assms(1) Cons.prems(1) J(1-3) r J(4)]
    by (auto simp: good_share_def share_of_def job_digest_def JobResult_of_def)
  then show ?case using Cons.IH [OF h(2)] Cons.prems(2) by simp
qed simp

text \<open>The jobs that a client takes from its pool can be hashed, with any nonce.\<close>

lemma setBlob_sizes:
  assumes "setBlob J s = Some (True, J')" "length (j_blob J) = 96"
  shows "76 \<le> j_size J' \<and> j_size J' < 96 \<and> length (j_blob J') = 96 \<and> j_variant J' = j_variant J"
proof -
  obtain t where t: "s = Some t" using assms(1) by (cases s) (auto simp: setBlob_def)
  obtain bs where bs: "blob_string t bs"
    using assms t setBlob_rejects [OF assms(2), of t] by (cases "\<exists>bs. blob_string t bs") auto
  show ?thesis
    using setBlob_accepts [OF assms(2) bs] assms t bs by (auto simp: blob_string_def)
qed

definition known_variant :: "int \<Rightarrow> bool" where
  "known_variant v \<longleftrightarrow> v = VARIANT_AUTO \<or> v = VARIANT_NONE \<or> v = VARIANT_V1"

lemma variant_kept:
  "setTarget g J s = Some (ok, J') \<Longrightarrow> j_variant J' = j_variant J"
  "j_variant (setCoin J c) = j_variant J" "known_variant (j_variant J) \<Longrightarrow> known_variant (j_variant (setVariant J v))"
  by (auto simp: setTarget_def setCoin_def setVariant_def known_variant_def Let_def
      split: option.splits if_splits Option.bind_splits prod.splits)

lemma read_job_sizes:
  assumes "read_job E params cid nh url = Some J" "known_variant (u_variant url)"
  shows "76 \<le> j_size J \<and> j_size J < 96 \<and> length (j_blob J) = 96 \<and> known_variant (j_variant J) \<and> j_poolId J = cid"
proof -
  obtain obj d J1 J2 where p: "setBlob ((Job_for cid nh (url_algo url) (u_variant url))\<lparr>j_id := d\<rparr>)
      (GetString E (json_member obj (cstr ''blob''))) = Some (True, J1)"
    "setTarget (st_target E) J1 (GetString E (json_member obj (cstr ''target''))) = Some (True, J2)"
    "j_size J = j_size J2" "j_poolId J = j_poolId J2" "j_blob J = j_blob J2"
    "known_variant (j_variant J2) \<Longrightarrow> known_variant (j_variant J)"
    using assms(1)
    by (auto simp: read_job_def Job_setId_def Let_def variant_kept split: json.splits Option.bind_splits prod.splits if_splits)
  show ?thesis
    using setBlob_sizes [OF p(1)] setBlob_valid [OF p(1)] setTarget_keeps [OF p(2)] variant_kept(1) [OF p(2)] p(3-6) assms(2)
    by (simp add: Job_for_def)
qed

lemma setNonce_hashable:
  assumes "76 \<le> j_size J" "j_size J < 96" "length (j_blob J) = 96" "known_variant (j_variant J)"
  shows "hashable (Job_setNonce J n)"
  using assms
  by (auto simp: hashable_def Job_setNonce_def Job_variant_def known_variant_def VARIANT_AUTO_def VARIANT_NONE_def VARIANT_V1_def)

lemma job_origin:
  assumes "env_ok E" "Client_parse E line C = Some C'" "c_job C' \<noteq> c_job C"
  shows "\<exists>params nh. read_job E params (c_id C) nh (c_url C) = Some (c_job C')"
proof -
  have u: "c_id (startTimeout C) = c_id C" "c_url (startTimeout C) = c_url C" "c_job (startTimeout C) = c_job C"
    by (simp_all add: startTimeout_def Let_def)
  have j: "c_job C2 \<noteq> c_job C1 \<Longrightarrow> read_job E params (c_id C1) (c_nicehash C1) (c_url C1) = Some (c_job C2)"
    if "parseJob E params C1 = Some (ok, C2)" for params C1 C2 ok
    using that by (auto simp: parseJob_eq [OF assms(1)] split: option.splits if_splits)
  have l: "\<exists>params nh. read_job E params (c_id C1) nh (c_url C1) = Some (c_job C2)"
    if "parseLogin E res C1 = Some (ok, C2)" "c_job C2 \<noteq> c_job C1" for res C1 C2 ok
  proof -
    obtain ok' d where e: "parseLogin E res C1 = (if \<not> ok' then Some (False, C1\<lparr>c_rpcId := d\<rparr>)
        else parseJob E (json_member res (cstr ''job'')) (C1\<lparr>c_rpcId := d, c_nicehash := login_nicehash res (c_url C1)\<rparr>))"
      using parseLogin_eq [OF assms(1)] by blast
    show ?thesis using that j unfolding e by (cases ok') fastforce+
  qed
  have n: "\<exists>params nh. read_job E params (c_id C1) nh (c_url C1) = Some (c_job C2)"
    if "parseNotification E m params error C1 = Some C2" "c_job C2 \<noteq> c_job C1" for m params error C1 C2
    using that j by (fastforce simp: parseNotification_def split: json.splits option.splits if_splits Option.bind_splits prod.splits)
  have r: "\<exists>params nh. read_job E params (c_id C1) nh (c_url C1) = Some (c_job C2)"
    if "parseResponse E rid result error C1 = Some C2" "c_job C2 \<noteq> c_job C1" for rid result error C1 C2
  proof -
    have "\<exists>res ok C3. parseLogin E res C1 = Some (ok, C3) \<and> c_job C3 = c_job C2"
      using that
      by (auto simp: parseResponse_def Let_def report_notices(2) split: json.splits if_splits Option.bind_splits prod.splits)
        blast+
    then show ?thesis using l that(2) by metis
  qed
  show ?thesis
    using assms(2,3) n [of _ _ _ "startTimeout C" C'] r [of _ _ _ "startTimeout C" C']
    unfolding Client_parse_def Let_def u by (auto split: if_splits option.splits json.splits simp: u)
qed

section \<open>The way of a share\<close>

lemma setNonce_again:
  "43 \<le> length (j_blob J) \<Longrightarrow> Job_setNonce (Job_setNonce J m) n = Job_setNonce J n"
  by (simp add: Job_setNonce_def)

lemma setNonce_sel [simp]:
  "j_id (Job_setNonce J n) = j_id J" "j_poolId (Job_setNonce J n) = j_poolId J" "j_target (Job_setNonce J n) = j_target J"
  "43 \<le> length (j_blob J) \<Longrightarrow> length (j_blob (Job_setNonce J n)) = length (j_blob J)"
  "43 \<le> length (j_blob J) \<Longrightarrow> Job_nonce (Job_setNonce J n) = n"
  by (simp_all add: Job_setNonce_def Job_nonce_def le_word_le_bytes)

text \<open>The nonces a device has found, from its result buffer.\<close>

definition found_nonces :: "u32 list \<Rightarrow> u32 list" where
  "found_nonces results = take (unat (results ! 0xFF)) results"

lemma submit_results_queue:
  assumes "43 \<le> length (j_blob J)" "submit_results results [k..<k + n] W w = Some (W', w')"
    "wk_job W = J \<or> (\<exists>m. wk_job W = Job_setNonce J m)"
  shows "k + n \<le> length results \<or> n = 0" "ws_queue w' = ws_queue w @ map (Job_setNonce J) (take n (drop k results))"
proof -
  have "(k + n \<le> length results \<or> n = 0) \<and> ws_queue w' = ws_queue w @ map (Job_setNonce J) (take n (drop k results))"
    using assms(2,3)
  proof (induction n arbitrary: k W w)
    case (Suc n)
    have u: "[k..<k + Suc n] = k # [Suc k..<Suc k + n]" by (simp add: upt_rec)
    have k: "k < length results" using Suc.prems(1) unfolding u by (auto simp: get_at_def split: if_splits)
    have j: "Job_setNonce (wk_job W) (results ! k) = Job_setNonce J (results ! k)"
      using Suc.prems(2) setNonce_again [OF assms(1)] by auto
    let ?W = "W\<lparr>wk_job := Job_setNonce J (results ! k)\<rparr>"
    have "submit_results results [Suc k..<Suc k + n] ?W (Workers_submit (Job_setNonce J (results ! k)) w) = Some (W', w')"
      using Suc.prems(1) k unfolding u by (simp add: get_at_def j Let_def)
    from Suc.IH [OF this] have "Suc k + n \<le> length results \<or> n = 0"
      "ws_queue w' = ws_queue w @ [Job_setNonce J (results ! k)] @ map (Job_setNonce J) (take n (drop (Suc k) results))"
      by (auto simp: Workers_submit_def)
    then show ?case using k by (auto simp: Cons_nth_drop_Suc [symmetric])
  qed simp
  then show "k + n \<le> length results \<or> n = 0"
    "ws_queue w' = ws_queue w @ map (Job_setNonce J) (take n (drop k results))" by blast+
qed

lemma mine_queue:
  assumes "mine cl timestamp W w = Some (W', w')" "43 \<le> length (j_blob (wk_job W))"
  shows "ws_queue w' = ws_queue w @ map (Job_setNonce (wk_job W)) (found_nonces (fst (XMRRunJob cl (wk_ctx W))))"
proof -
  obtain results ctx where x: "XMRRunJob cl (wk_ctx W) = (results, ctx)" by fastforce
  obtain W1 where s: "submit_results results [0..<0 + unat (results ! 0xFF)] (W\<lparr>wk_ctx := ctx\<rparr>) w = Some (W1, w')"
    using assms(1) by (auto simp: mine_def x Let_def get_at_def split: Option.bind_splits if_splits prod.splits)
  show ?thesis
    using submit_results_queue(2) [OF assms(2) s] by (simp add: x found_nonces_def)
qed

section \<open>Missing workers\<close>

text \<open>
  While the worker of a handle does not exist yet, the counts of the handles before it are taken, those
  after it are not, and \<open>m_ticks\<close> stands still.
\<close>

lemma collect_missing:
  "\<forall>(t, w) \<in> set hs. w \<noteq> None \<Longrightarrow>
    collect (hs @ (t, None) # hs') H = map_option (\<lambda>(all, H). (False, H)) (collect hs H)"
proof (induction hs arbitrary: H)
  case (Cons h hs)
  obtain i c s where h: "h = (i, Some (c, s))" using Cons.prems by (cases h) auto
  show ?case using Cons by (cases "Hashrate_add i c s H") (simp_all add: h)
qed simp

lemma onTick_missing:
  assumes "\<forall>(t, w) \<in> set hs. w \<noteq> None"
  shows "onTick fl now (hs @ (t, None) # hs') ticks H = map_option (\<lambda>(all, H). (ticks, H)) (collect hs H)"
  using collect_missing [OF assms, of t hs' H] by (cases "collect hs H") (simp_all add: onTick_def split: prod.split)

section \<open>Properties\<close>

text \<open>
  C5. The way of a share. Let a client take a job from its pool, a worker have that job, and a device find
  nonces for it. Then each of them is hashed again without a fault, and those results are reported, in
  the order found, whose hash of the blob with the nonce in it is below the target of the job; each
  carries the number of the client, the identifier of the job, one of the nonces and that hash. The
  others are counted as errors, and the queue is empty afterwards.
\<close>
theorem found_nonces_become_shares:
  assumes "env_ok E" "Client_parse E line C = Some C'" "c_job C' \<noteq> c_job C" "known_variant (u_variant (c_url C))"
    and "wk_job W = (c_job C')\<lparr>j_threadId := t\<rparr>" "mine cl timestamp W w = Some (W', w')" "ws_queue w = []"
    and "cn_instance f lite" "cn_ctx_ready ctx" "\<And>k. length (g k) = 32"
  defines "js \<equiv> map (Job_setNonce (wk_job W)) (found_nonces (fst (XMRRunJob cl (wk_ctx W))))"
  shows "\<exists>B. baton_work (Some f) g ctx (fst (onResult w')) = Some B \<and> ws_queue (snd (onResult w')) = [] \<and>
    jb_results B = map (share_of lite) (filter (good_share lite) js) \<and>
    jb_errors B = int (length js) - int (length (jb_results B)) \<and>
    (\<forall>R \<in> set (jb_results B). jr_poolId R = c_id C \<and> jr_jobId R = j_id (c_job C') \<and>
      jr_nonce R \<in> set (found_nonces (fst (XMRRunJob cl (wk_ctx W)))) \<and>
      le_word (drop 24 (jr_result R)) < j_target (c_job C'))"
proof -
  obtain params nh where r: "read_job E params (c_id C) nh (c_url C) = Some (c_job C')"
    using job_origin [OF assms(1-3)] by blast
  have s: "76 \<le> j_size (wk_job W)" "j_size (wk_job W) < 96" "length (j_blob (wk_job W)) = 96"
    "known_variant (j_variant (wk_job W))" "j_poolId (wk_job W) = c_id C" "j_id (wk_job W) = j_id (c_job C')"
    "j_target (wk_job W) = j_target (c_job C')"
    using read_job_sizes [OF r assms(4)] assms(5) by simp_all
  have q: "ws_queue w' = js" using mine_queue [OF assms(6)] s(3) assms(7) by (simp add: js_def)
  have h: "\<forall>J \<in> set js. hashable J" using setNonce_hashable [OF s(1-4)] by (auto simp: js_def)
  let ?B0 = "JobBaton_make\<lparr>jb_jobs := js\<rparr>"
  define B where "B = ?B0\<lparr>jb_results := map (share_of lite) (filter (good_share lite) js),
    jb_errors := int (length (filter (\<lambda>J. \<not> good_share lite J) js))\<rparr>"
  have b: "jb_results B = map (share_of lite) (filter (good_share lite) js)"
    "jb_errors B = int (length js) - int (length (jb_results B))"
    using sum_length_filter_compl [of "good_share lite" js] by (simp_all add: B_def)
  have "baton_work (Some f) g ctx (fst (onResult w')) = Some B"
    using hash_jobs_eq [OF assms(8,10,9) h, where k = 0 and B = ?B0]
    by (simp add: baton_work_def onResult_def q take_queue_jobs JobBaton_make_def B_def)
  moreover have "ws_queue (snd (onResult w')) = []" by (simp add: onResult_def)
  moreover have "jr_poolId R = c_id C \<and> jr_jobId R = j_id (c_job C') \<and>
      jr_nonce R \<in> set (found_nonces (fst (XMRRunJob cl (wk_ctx W)))) \<and> le_word (drop 24 (jr_result R)) < j_target (c_job C')"
    if R: "R \<in> set (jb_results B)" for R
  proof -
    obtain n where n: "n \<in> set (found_nonces (fst (XMRRunJob cl (wk_ctx W))))" "R = share_of lite (Job_setNonce (wk_job W) n)"
      "good_share lite (Job_setNonce (wk_job W) n)"
      using R unfolding b(1) js_def by auto
    then show ?thesis using s(3,5-7) by (simp add: share_of_def JobResult_of_def good_share_def)
  qed
  ultimately show ?thesis using b by blast
qed

text \<open>A login whose job is mined with a device that finds the nonce seven.\<close>

definition sample_message :: "(bytes \<times> unit json) list" where
  "sample_message = [(cstr ''id'', JInt 1), (cstr ''result'', JObject sample_login)]"

definition lucky_device :: "unit opencl" where
  "lucky_device = \<lparr>XMRSetJob = \<lambda>ctx blob len target variant. ctx,
     XMRRunJob = \<lambda>ctx. ([7] @ replicate 254 0 @ [1], ctx)\<rparr>"

lemma blank_hash:
  "cn_instance (cryptonight_av3_softaes soft_unit blank_stack) False" "cn_ctx_ready blank_ctx"
  using monero_soft.cn_instance_axioms blank_ready(2) by (simp_all add: cn_ctx_ready_def blank_ctx_def)

theorem found_nonces_become_shares_witness:
  "\<exists>C' W' w' B. Client_parse (sample_uv (Some (JObject sample_message))) (0x7B # replicate 40 0x20)
      (sample_client []\<lparr>c_state := ConnectedState, c_socket := True\<rparr>) = Some C' \<and>
    mine lucky_device 0 (first_worker\<lparr>wk_job := c_job C'\<lparr>j_threadId := 0\<rparr>\<rparr>) Workers_start = Some (W', w') \<and>
    baton_work (Some (cryptonight_av3_softaes soft_unit blank_stack)) (\<lambda>k. replicate 32 0) blank_ctx (fst (onResult w')) = Some B \<and>
    length (jb_results B) + nat (jb_errors B) = 1 \<and> (\<forall>R \<in> set (jb_results B). jr_nonce R = 7)"
proof -
  let ?E = "sample_uv (Some (JObject sample_message))"
  let ?C = "sample_client []\<lparr>c_state := ConnectedState, c_socket := True\<rparr>"
  have p: "js_parse ?E s = Some (JObject sample_message)" for s by (simp add: sample_uv_def)
  have m: "json_member sample_message (cstr ''id'') = JInt 1" "json_member sample_message (cstr ''result'') = JObject sample_login"
    "json_member sample_message (cstr ''error'') = JNull"
    by (simp_all add: sample_message_def json_member_def cstr_def)
  have C: "c_job ?C = Job_default" "c_job (startTimeout ?C) = Job_default" "known_variant (u_variant (c_url ?C))"
    by (simp_all add: sample_client_def client_start_def Client_make_def Client_setUrl_def Url_assign_def
        Url_isValid_def default_pool_def Url_make_def Let_def Url_setUser_def Url_setPassword_def Url_default_def known_variant_def)
  obtain C' where C': "Client_parse ?E (0x7B # replicate 40 0x20) ?C = Some C'" "\<not> Job_eq (c_job ?C) (c_job C')"
    using sample_logs_in [OF C(2), of "Some (JObject sample_message)"] C(1,2)
    by (auto simp: Client_parse_def p m Let_def IsInt64_def)
  hence d: "c_job C' \<noteq> c_job ?C" by (auto simp: Job_eq_def JobId_eq_def)
  let ?W = "first_worker\<lparr>wk_job := c_job C'\<lparr>j_threadId := 0\<rparr>\<rparr>"
  define results where "results = [7 :: u32] @ replicate 254 0 @ [1]"
  have r: "results ! 0xFF = 1" "length results = 256" "results ! 0 = 7" "found_nonces results = [7]"
    by (simp_all add: results_def nth_append found_nonces_def)
  have x: "XMRRunJob lucky_device ctx = (results, ctx)" for ctx by (simp add: lucky_device_def results_def)
  obtain W' w' where M: "mine lucky_device 0 ?W Workers_start = Some (W', w')"
    by (simp add: mine_def x Let_def get_at_def r)
  have q: "ws_queue Workers_start = []" by (simp add: Workers_start_def)
  have g: "length (replicate 32 (0 :: u8)) = 32" for k :: nat by simp
  have j: "wk_job ?W = c_job C'\<lparr>j_threadId := 0\<rparr>" by simp
  from found_nonces_become_shares [OF sample_ok(1) C'(1) d C(3) j M q blank_hash g]
  show ?thesis using C'(1) M by (auto simp: x r)
qed

end
