(* ===== verification/Spec2Isabelle.thy ===== *)
theory Spec2Isabelle
  imports Prelude Hash_Interface Keccak Blake256 Hmac_Blake Soft_Aes Groestl Jh Skein Cryptonight_Aes Cryptonight
    Job Proof_Of_Work
    C_Strings Url Options Network_State Strategies Workers Network Hashrate Client Shares
begin

text \<open>
  A verification library for the CryptoNight miner whose sources are under \<open>src/src\<close>.

  The program. It reads its options (\<open>Options.cpp\<close>), makes one client per pool (\<open>net/Client.cpp\<close>) and
  a strategy that chooses between them (\<open>net/strategies\<close>). A client connects to its pool, logs in, and
  turns the lines it receives into jobs (\<open>net/Job.cpp\<close>) and answers to shares. The strategy passes the
  jobs of the active pool to the network (\<open>net/Network.cpp\<close>), which gives them to the workers
  (\<open>workers\<close>), pauses these when no pool is left, counts what the pools answer
  (\<open>api/NetworkState.cpp\<close>), and for two minutes in a while mines for the developer instead. The workers
  run in threads of their own: they let an OpenCL device try nonces, and what it finds is hashed again on
  the processor with CryptoNight (\<open>crypto/CryptoNight.cpp\<close>, \<open>crypto/CryptoNight_x86.h\<close>) and compared
  with the target of the job. CryptoNight is made of Keccak, AES and one of four last hashes
  (\<open>crypto/c_*.c\<close>, \<open>crypto/soft_aes.c\<close>).

  How code is modelled. A C or C++ integer is a word of its width, and unsigned arithmetic wraps
  around; indices and lengths that the code keeps far below their bounds are natural numbers. A buffer
  is a list of bytes, and every access to it goes through the checked operations of \<open>Prelude\<close>:
  an access outside the buffer is \<open>None\<close>, as are a division by zero, a call through a null pointer, an
  exception that nothing catches, and a handle that is released while it is in use. So a theorem that
  a function gives \<open>Some\<close> says that it has none of these faults. A C string is the list of its
  characters, a pointer that may be null an \<open>option\<close>, a class or structure a \<open>record\<close>, an
  enumeration a \<open>datatype\<close>. Memory that the code does not initialise is an argument. Code that is not
  in the sources, such as the AES instructions, the JSON library, \<open>getopt_long\<close>, the event loop,
  floating point arithmetic and the OpenCL device, is an argument too, and what is assumed of it is
  a named hypothesis.
\<close>

section \<open>The theories\<close>

text \<open>
  Shared:
  \<^item> \<open>Prelude\<close>: words, checked memory, little-endian views, rotations, messages as blocks, loops over
    array indices. \<open>C_Strings\<close>: the functions of the C library on strings, with their reference
    properties.
  \<^item> \<open>Hash_Interface\<close>: the locale \<open>stream_hash\<close>, which is the contract of an incremental hash
    (initialise, take in data, finish) over byte messages; its lemmas say that a message may be
    taken in in pieces. \<open>Blake256\<close> (twice), \<open>Groestl\<close>, \<open>Jh\<close> and \<open>Skein\<close> interpret it.

  The hash functions of \<open>crypto\<close>; each theory has the code, a reference written from the
  specification of the function, and the proof that the code computes the reference for all
  inputs its buffers allow:
  \<^item> \<open>Keccak\<close> (\<open>c_keccak.c\<close>): the in-place permutation is Keccak-f, \<open>keccak\<close> is the sponge, and for
    which lengths it returns at all.
  \<^item> \<open>Blake256\<close>, \<open>Hmac_Blake\<close> (\<open>c_blake256.c\<close>): compression, padding with the counter of message
    bits, one-shot hashes, and HMAC.
  \<^item> \<open>Soft_Aes\<close> (\<open>soft_aes.c\<close>, \<open>soft_aes.h\<close>): the S-box against the field inverse, the tables,
    the round, the key assist. \<open>Cryptonight_Aes\<close> (\<open>CryptoNight_x86.h\<close>): products, key schedule and
    rounds, for the instructions and for the tables, through the locale \<open>aes_unit\<close>.
  \<^item> \<open>Groestl\<close> (\<open>c_groestl.c\<close>), \<open>Jh\<close> (\<open>c_jh.c\<close>), \<open>Skein\<close> (\<open>c_skein.c\<close>): permutations,
    buffering, padding and digests.
  \<^item> \<open>Cryptonight\<close> (\<open>CryptoNight_x86.h\<close>, \<open>CryptoNight_monero.h\<close>, \<open>CryptoNight.h\<close>): the hash. The
    scratchpad is a byte buffer in the code and a list of cells in the reference; the theory
    shows that every iteration keeps the correspondence, that all accesses stay inside, and that the
    builds with and without AES instructions agree. The locale \<open>final_hash\<close> is the contract of the
    table of last hashes, interpreted on its four entries.
  \<^item> \<open>Proof_Of_Work\<close> (\<open>CryptoNight.cpp\<close>): the instances of the template (locale \<open>cn_instance\<close>), the
    choice and self test at the start, and the check of a nonce against the target.

  The miner:
  \<^item> \<open>Job\<close> (\<open>net/Job.cpp\<close>, \<open>net/Job.h\<close>, \<open>net/JobId.h\<close>, \<open>net/JobResult.h\<close>): what a pool's strings
    are accepted as, hexadecimal round trips, targets and difficulties.
  \<^item> \<open>Url\<close> (\<open>net/Url.cpp\<close>): parsing and printing of pool addresses, and their round trip.
  \<^item> \<open>Options\<close> (\<open>Options.cpp\<close>, \<open>workers/OclThread.cpp\<close>): command line and configuration file, the
    invariant of the options, pools in the order given, options without effect. \<open>file_fits\<close> says which
    files can be read: those without a clock or voltage in a profile that overflows an \<open>int\<close>.
  \<^item> \<open>Network_State\<close> (\<open>api/NetworkState.cpp\<close>, \<open>net/SubmitResult.cpp\<close>): the statistics against
    the list of outcomes they stand for.
  \<^item> \<open>Client\<close> (\<open>net/Client.cpp\<close>): a client as a state machine. \<open>client_step\<close> is a callback or an
    operation, \<open>client_input_ok\<close> what the event loop promises about callbacks; a strategy may call
    in any state. \<open>client_reachable\<close> are the states a client can get into. \<open>client_inv\<close> ties the
    state of the connection to the handles and requests the event loop has. Every step keeps it
    unless it faults, and \<open>client_fault\<close> says when: a connect or the tick during a lookup, an
    address for a client that has a connection, a login that overflows its buffer, a share whose hash
    ends in a zero word. \<open>alive\<close> says what the client waits for; \<open>frame\<close> what a message
    leaves alone; \<open>lines_of\<close> and
    \<open>parse_lines\<close> are the abstract view of the receive buffer that \<open>onRead\<close> refines; the theorem
    on reports is what the inputs of \<open>Network\<close> rest on.
  \<^item> \<open>Strategies\<close> (\<open>net/strategies\<close>): the three strategies give their new state and the calls they
    make. The locale \<open>strategy\<close> is the contract of \<open>IStrategy\<close> that the network relies on,
    \<open>guarded_strategy\<close> extends it for those that pass on jobs only while active; they are interpreted
    on the single pool, on the failover, on the donation and on the sum of them the network has.
  \<^item> \<open>Workers\<close> (\<open>workers/Workers.cpp\<close>, \<open>workers/OclWorker.cpp\<close>, \<open>workers/Handle.cpp\<close>): the shared
    variables, the operations of the event loop's thread as sequences of single writes, and a worker
    as a machine with one access to shared memory per step, interleaved in any order.
  \<^item> \<open>Network\<close> (\<open>net/Network.cpp\<close>): the composition. An input (a report of a client, a share, a
    timer, the user's switch) runs the strategy, and its calls run the statistics and the workers.
    The invariant says that the workers have the newest job of the active pool.
  \<^item> \<open>Hashrate\<close> (\<open>workers/Hashrate.cpp\<close>): the rings of samples as lists, and the rate of a window.
  \<^item> \<open>Shares\<close> (\<open>Workers::onResult\<close> and \<open>Workers::onTick\<close> of \<open>workers/Workers.cpp\<close>): the check of what a
    device has found, and the way of a share from the job a client reads to the result the network
    gets, through \<open>Client\<close>, \<open>Workers\<close> and \<open>Proof_Of_Work\<close>.
\<close>

section \<open>Bounds, loops and fuel\<close>

text \<open>
  No definition has fuel. Loops over a counter are folds or structural recursion; the loops over a
  message, a stream or a string are functions whose termination is proved with a measure: the bytes
  that remain (\<open>read_loop\<close>, the updates of the hashes), or the characters that remain. The one hash loop that need not end, that of \<open>keccak\<close> for a rate of zero, is
  \<open>None\<close> there, and the theorem on \<open>keccak\<close> says exactly when. The loops of the workers' threads do not
  end by themselves and are steps of a machine; that a worker ends is a theorem about sequences of
  its steps. The number of iterations and the size of the scratchpad of CryptoNight are arguments of
  the template as in the code, and the theorems hold for all of them.

  Hypotheses on lengths are those of the code's types: messages below \<open>2 ^ 31\<close> bytes for
  Groestl, whose length is an \<open>int\<close>, bit counts below the width of the counters, sequence numbers
  of a client below \<open>2 ^ 63\<close>, at which \<open>m_sequence\<close> overflows.
\<close>

section \<open>Not modelled\<close>

text \<open>
  \<^item> \<open>amd/OclGPU.cpp\<close> and the kernels under \<open>amd/opencl\<close>: the first sets up devices and enqueues
    kernels through the OpenCL API, the others are text to the program that the driver compiles. A
    device is a parameter of the workers; \<open>oclInit\<close> of the options is left out for the same reason.
    \<open>amd/Adl.cpp\<close> reads sensors through the library of the vendor.
  \<^item> \<open>api/Api.cpp\<close>, \<open>api/ApiState.cpp\<close>, \<open>api/Httpd.cpp\<close>: they format the statistics as JSON with a vendored
    library and serve them with libmicrohttpd.
  \<^item> \<open>App.cpp\<close>, \<open>Console.cpp\<close>, \<open>Summary.cpp\<close>, \<open>log\<close>, \<open>Platform*.cpp\<close>, \<open>Cpu*.cpp\<close>: start-up, input and
    output, system calls; log messages are left out everywhere.
  \<^item> Of the workers: creating and joining the threads, and the printed report of the hash rates.
  \<^item> \<open>crypto/CryptoNight_p.h\<close>, which no file includes, and everything under \<open>3rdparty\<close>.
  \<^item> Releasing memory: strings are values, and a destructor is modelled only where an object the event
    loop still uses could be released.
\<close>

end
